(* ===== verification/Nexus_Prelude.thy ===== *)
theory Nexus_Prelude
  imports Main "HOL-Library.AList" "HOL-Library.Word" "HOL-Library.Char_ord"
    "HOL-Library.List_Lexorder" "HOL-Library.Product_Lexorder" "HOL-Library.Log_Nat" "HOL-Library.Multiset"
begin

text \<open>
  Shared vocabulary of the development: the names of the machine integer types of the Rust
  sources, conversions with their wrap-around and rounding written out, results as sums,
  association lists that stand for Rust's \<open>HashMap\<close> and for Redis sorted sets, and the
  generic facts on sorted lists and prefixes that several components use.
\<close>

named_theorems watcher_simps \<open>unfoldings of small definitions that component proofs share\<close>

section \<open>Machine integers\<close>

type_synonym u64 = "64 word"
type_synonym ('e, 'a) result = "'e + 'a"

text \<open>
  An \<open>i64\<close> is an \<open>int\<close> with its range made explicit. \<open>wrap_i64\<close> is the two's complement
  wrap of a release build's arithmetic and of an \<open>as i64\<close> cast.
\<close>

definition wrap_i64 :: "int \<Rightarrow> int" where
  "wrap_i64 x = (x + 2 ^ 63) mod 2 ^ 64 - 2 ^ 63"

definition i64_ok :: "int \<Rightarrow> bool" where
  "i64_ok x \<longleftrightarrow> - (2 ^ 63) \<le> x \<and> x < 2 ^ 63"

lemma wrap_i64_id [simp]: "i64_ok x \<Longrightarrow> wrap_i64 x = x"
  by (simp add: wrap_i64_def i64_ok_def)

lemma i64_ok_wrap [simp]: "i64_ok (wrap_i64 x)"
proof -
  have "0 \<le> (x + 2 ^ 63) mod 2 ^ 64" "(x + 2 ^ 63) mod 2 ^ 64 < (2::int) ^ 64"
    by simp_all
  then show ?thesis unfolding wrap_i64_def i64_ok_def by simp
qed

text \<open>
  Redis keeps the score of a sorted-set member as an IEEE double. \<open>f64_of_int\<close> is the
  conversion of an integer to a double (round to nearest, ties to even), read back as the
  integer the double denotes: exact up to \<open>2 ^ 53\<close>, a multiple of a power of two above.
\<close>

definition f64_of_int :: "int \<Rightarrow> int" where
  "f64_of_int x =
     (let a = \<bar>x\<bar>; e = floorlog 2 (nat a) - 53 in
      if e = 0 then x
      else let q = a div 2 ^ e; r = a mod 2 ^ e; h = 2 ^ (e - 1);
               q' = (if h < r \<or> (h = r \<and> odd q) then q + 1 else q)
           in sgn x * (q' * 2 ^ e))"

lemma floorlog_le_53: "n < 2 ^ 53 \<Longrightarrow> floorlog 2 n \<le> 53"
  by (simp add: floorlog_le_iff)

lemma f64_of_int_exact: "\<bar>x\<bar> < 2 ^ 53 \<Longrightarrow> f64_of_int x = x"
proof -
  assume "\<bar>x\<bar> < 2 ^ 53"
  then have "nat \<bar>x\<bar> < 2 ^ 53" by simp
  then have "floorlog 2 (nat \<bar>x\<bar>) \<le> 53" by (rule floorlog_le_53)
  then show ?thesis by (simp add: f64_of_int_def Let_def)
qed

section \<open>Sorted association lists\<close>

abbreviation dkeys :: "('k \<times> 'v) list \<Rightarrow> bool" where
  "dkeys xs \<equiv> distinct (map fst xs)"

lemma dkeys_update [simp]: "dkeys xs \<Longrightarrow> dkeys (AList.update k v xs)"
  by (rule distinct_update)

lemma dkeys_delete [simp]: "dkeys xs \<Longrightarrow> dkeys (AList.delete k xs)"
  by (simp add: distinct_delete)

lemma map_of_update [simp]: "map_of (AList.update k v xs) = (map_of xs)(k \<mapsto> v)"
  by (rule update_conv')

lemma map_of_delete [simp]: "map_of (AList.delete k xs) = (map_of xs)(k := None)"
  by (rule delete_conv')

lemma in_set_delete [simp]: "(k, v) \<in> set (AList.delete k' xs) \<longleftrightarrow> k \<noteq> k' \<and> (k, v) \<in> set xs"
  by (auto simp: AList.delete_eq)

lemma map_of_iff_set: "dkeys xs \<Longrightarrow> map_of xs k = Some v \<longleftrightarrow> (k, v) \<in> set xs"
  by (simp add: map_of_eq_Some_iff)

lemma dkeys_filter: "dkeys xs \<Longrightarrow> dkeys (filter P xs)"
  by (induction xs) auto

lemma dkeys_sort_key [simp]: "dkeys (sort_key f xs) = dkeys xs"
proof -
  have "mset (map fst (sort_key f xs)) = mset (map fst xs)"
    by simp
  then show ?thesis using mset_eq_imp_distinct_iff by blast
qed

lemma dkeys_take: "dkeys xs \<Longrightarrow> dkeys (take n xs)"
  by (metis distinct_take take_map)

lemma filter_sort_key: "filter P (sort_key f xs) = sort_key f (filter P xs)"
  by (rule filter_sort)

section \<open>Optional limits\<close>

text \<open>\<open>Vec::truncate\<close> applied when a limit is given.\<close>

definition take_opt :: "nat option \<Rightarrow> 'a list \<Rightarrow> 'a list" where
  "take_opt l xs = (case l of None \<Rightarrow> xs | Some n \<Rightarrow> take n xs)"

lemma take_opt_simps [simp]: "take_opt None xs = xs" "take_opt (Some n) xs = take n xs"
  by (simp_all add: take_opt_def)

lemma set_take_opt: "set (take_opt l xs) \<subseteq> set xs"
  by (cases l) (auto dest: in_set_takeD)

lemma dkeys_take_opt: "dkeys xs \<Longrightarrow> dkeys (take_opt l xs)"
  by (cases l) (simp_all add: dkeys_take)

end
