(* ===== verification/Watcher_Errors.thy ===== *)
theory Watcher_Errors
  imports Nexus_Prelude
begin

text \<open>
  The error types of the watcher and how they are classified: \<open>RedisError\<close>, \<open>GraphError\<close>,
  \<open>ModelError\<close>, \<open>PubkyClientError\<close>, \<open>HsError\<close> and \<open>EventProcessorError\<close>, the \<open>From\<close>
  conversions between them, and the two predicates that decide what happens to an event that
  failed: \<open>should_not_retry_now\<close> (stop the batch) and \<open>should_enqueue_related_event\<close> (put it
  on the retry queue). Payloads of foreign error types are their printed message.
\<close>

section \<open>Storage errors (nexus-common)\<close>

datatype redis_error =
    RConnectionNotInitialized | ConnectionPoolError string | IoError string
  | CommandFailed string | RSerializationFailed string | RDeserializationFailed string
  | InvalidInput string

fun redis_should_not_retry_now :: "redis_error \<Rightarrow> bool" where
  "redis_should_not_retry_now RConnectionNotInitialized = True"
| "redis_should_not_retry_now (ConnectionPoolError _) = True"
| "redis_should_not_retry_now (IoError _) = True"
| "redis_should_not_retry_now _ = False"

definition ensure_cursor_not_backwards :: "nat \<Rightarrow> nat \<Rightarrow> (redis_error, unit) result" where
  "ensure_cursor_not_backwards new_cursor stored_cursor =
     (if new_cursor < stored_cursor then Inl (InvalidInput ''Cursor cannot move backwards'')
      else Inr ())"

datatype graph_error =
    GConnectionNotInitialized | QueryFailed string | QueryTimeout | QueryBuildError string
  | GSerializationFailed string | GDeserializationFailed string | UriParseError string
  | InvalidResourceType string | KeysetScanStalled string string | GGeneric string

fun graph_should_not_retry_now :: "graph_error \<Rightarrow> bool" where
  "graph_should_not_retry_now GConnectionNotInitialized = True"
| "graph_should_not_retry_now (QueryFailed _) = True"
| "graph_should_not_retry_now _ = False"

datatype model_error =
    GraphOperationFailed graph_error | KvOperationFailed redis_error
  | MHsBlacklisted string | MGeneric string

section \<open>Client errors\<close>

datatype pubky_client_error =
    NotInitialized | NotFound404 string | TooManyRequests429 string | ServerError5xx string
  | RequestFailed string | PkarrFailed string | AuthenticationFailed string
  | BuildFailed string | ParseFailed string

text \<open>
  The errors of the pubky SDK, with the constructors the sources match on. A status is its
  HTTP code; a transport error carries whether \<open>reqwest::Error::is_timeout\<close> holds for it.
\<close>

datatype pubky_sdk_error =
    SdkServer nat string | SdkTransport bool string | SdkValidation string
  | SdkDecodeJson string | SdkPkarr string | SdkAuthentication string
  | SdkBuild string | SdkParse string

definition is_server_error :: "nat \<Rightarrow> bool" where
  "is_server_error status \<longleftrightarrow> 500 \<le> status \<and> status < 600"

fun pubky_client_error_from :: "pubky_sdk_error \<Rightarrow> pubky_client_error" where
  "pubky_client_error_from (SdkServer status message) =
     (if status = 404 then NotFound404 message
      else if status = 429 then TooManyRequests429 message
      else if is_server_error status then ServerError5xx message
      else RequestFailed message)"
| "pubky_client_error_from (SdkTransport _ message) = RequestFailed message"
| "pubky_client_error_from (SdkValidation message) = RequestFailed message"
| "pubky_client_error_from (SdkDecodeJson message) = RequestFailed message"
| "pubky_client_error_from (SdkPkarr e) = PkarrFailed e"
| "pubky_client_error_from (SdkAuthentication e) = AuthenticationFailed e"
| "pubky_client_error_from (SdkBuild e) = BuildFailed e"
| "pubky_client_error_from (SdkParse e) = ParseFailed e"

datatype hs_op = PollEvents | UserEvents | GetResource | GetBlob

datatype hs_error_kind =
    HsNotFound string | RateLimited string | ServerError nat string | Rejected nat string
  | Timeout | Transport string | TooLarge nat nat | Sdk string | Malformed string

record hs_error =
  he_hs :: string
  he_op :: hs_op
  he_kind :: hs_error_kind

text \<open>
  \<open>format_error_body\<close> keeps at most \<open>max\<close> bytes; the lossy UTF-8 decoding of the sources is
  the identity on the ASCII strings of this model. The ellipsis is its three UTF-8 bytes.
\<close>

definition MAX_ERROR_BODY :: nat where
  "MAX_ERROR_BODY = 4 * 1024"

definition ellipsis_utf8 :: string where
  "ellipsis_utf8 = [CHR 0xE2, CHR 0x80, CHR 0xA6]"

definition format_error_body :: "string \<Rightarrow> nat \<Rightarrow> string" where
  "format_error_body bytes mx =
     (if length bytes > mx then take mx bytes @ ellipsis_utf8 @ '' (truncated)'' else bytes)"

definition capped :: "string \<Rightarrow> string" where
  "capped e = format_error_body e MAX_ERROR_BODY"

definition from_status :: "nat \<Rightarrow> string \<Rightarrow> hs_error_kind" where
  "from_status status body0 =
     (let body = format_error_body body0 MAX_ERROR_BODY in
      if status = 404 then HsNotFound body
      else if status = 429 then RateLimited body
      else if is_server_error status then ServerError status body
      else Rejected status body)"

definition hs_transport :: "string \<Rightarrow> hs_error_kind" where
  "hs_transport e = Transport (capped e)"

definition hs_malformed :: "string \<Rightarrow> hs_error_kind" where
  "hs_malformed e = Malformed (capped e)"

definition from_reqwest :: "bool \<Rightarrow> string \<Rightarrow> hs_error_kind" where
  "from_reqwest is_timeout e = (if is_timeout then Timeout else hs_transport e)"

fun from_sdk :: "pubky_sdk_error \<Rightarrow> hs_error_kind" where
  "from_sdk (SdkServer status message) = from_status status message"
| "from_sdk (SdkTransport is_timeout e) = from_reqwest is_timeout e"
| "from_sdk (SdkValidation e) = Sdk (capped e)"
| "from_sdk (SdkDecodeJson e) = Sdk (capped e)"
| "from_sdk (SdkPkarr e) = Sdk (capped e)"
| "from_sdk (SdkParse e) = hs_malformed e"
| "from_sdk (SdkAuthentication e) = hs_malformed e"
| "from_sdk (SdkBuild e) = hs_malformed e"

section \<open>EventProcessorError (nexus-watcher)\<close>

datatype ep_error =
    GraphQueryFailed bool string
  | MissingDependency "string list"
  | IndexOperationFailed bool string
  | SkipIndexing
  | InvalidEventLine string
  | UserIdMismatch string string string
  | EventCursorOutOfOrder string string nat nat
  | SpecValidation string
  | DataAnomaly string
  | UnsupportedTarget string
  | FetchSizeExceeded nat nat
  | PubkyClientError pubky_client_error
  | HsEventsStreamRateLimitExhausted
  | HsEventsStreamTransportFailed string
  | HsEventsStreamServerError string
  | HsBlacklisted string
  | HomeserverErr hs_error
  | InternalError string
  | StaticSaveFailed string
  | Generic string

text \<open>The printed form of the foreign errors is a parameter \<open>show_\<close> of the conversions.\<close>

definition ep_from_redis :: "(redis_error \<Rightarrow> string) \<Rightarrow> redis_error \<Rightarrow> ep_error" where
  "ep_from_redis show_e e = IndexOperationFailed (redis_should_not_retry_now e) (show_e e)"

definition ep_from_graph :: "(graph_error \<Rightarrow> string) \<Rightarrow> graph_error \<Rightarrow> ep_error" where
  "ep_from_graph show_e e =
     (case e of KeysetScanStalled _ _ \<Rightarrow> DataAnomaly (show_e e)
      | _ \<Rightarrow> GraphQueryFailed (graph_should_not_retry_now e) (show_e e))"

fun ep_from_model ::
  "(graph_error \<Rightarrow> string) \<Rightarrow> (redis_error \<Rightarrow> string) \<Rightarrow> model_error \<Rightarrow> ep_error" where
  "ep_from_model show_g show_r (GraphOperationFailed e) = ep_from_graph show_g e"
| "ep_from_model show_g show_r (KvOperationFailed e) =
     IndexOperationFailed (redis_should_not_retry_now e) (show_r e)"
| "ep_from_model show_g show_r (MHsBlacklisted hs_id) = HsBlacklisted hs_id"
| "ep_from_model show_g show_r (MGeneric message) = Generic message"

text \<open>The guards \<open>if on_stream\<close> of the match are tested in the order of the source.\<close>

definition ep_from_hs :: "(hs_error \<Rightarrow> string) \<Rightarrow> hs_error \<Rightarrow> ep_error" where
  "ep_from_hs show_e e =
     (let on_stream = (he_op e = UserEvents); message = show_e e in
      case he_kind e of
        TooLarge got mx \<Rightarrow> FetchSizeExceeded got mx
      | RateLimited _ \<Rightarrow>
          if on_stream then HsEventsStreamRateLimitExhausted
          else PubkyClientError (TooManyRequests429 message)
      | ServerError _ _ \<Rightarrow>
          if on_stream then HsEventsStreamServerError message
          else PubkyClientError (ServerError5xx message)
      | Transport _ \<Rightarrow>
          if on_stream then HsEventsStreamTransportFailed message
          else PubkyClientError (RequestFailed message)
      | Timeout \<Rightarrow>
          if on_stream then HsEventsStreamTransportFailed message
          else PubkyClientError (RequestFailed message)
      | HsNotFound _ \<Rightarrow> PubkyClientError (NotFound404 message)
      | Rejected _ _ \<Rightarrow> PubkyClientError (RequestFailed message)
      | Sdk _ \<Rightarrow> PubkyClientError (RequestFailed message)
      | Malformed _ \<Rightarrow> HomeserverErr e)"

fun should_not_retry_now :: "ep_error \<Rightarrow> bool" where
  "should_not_retry_now (GraphQueryFailed b _) = b"
| "should_not_retry_now (IndexOperationFailed b _) = b"
| "should_not_retry_now HsEventsStreamRateLimitExhausted = True"
| "should_not_retry_now (HsEventsStreamTransportFailed _) = True"
| "should_not_retry_now (HsEventsStreamServerError _) = True"
| "should_not_retry_now (EventCursorOutOfOrder _ _ _ _) = True"
| "should_not_retry_now _ = False"

fun is_not_found :: "ep_error \<Rightarrow> bool" where
  "is_not_found (PubkyClientError (NotFound404 _)) = True"
| "is_not_found _ = False"

fun is_missing_dependency :: "ep_error \<Rightarrow> bool" where
  "is_missing_dependency (MissingDependency _) = True"
| "is_missing_dependency _ = False"

text \<open>\<open>RetryScheduler::should_enqueue_related_event\<close> (events/retry/scheduler.rs).\<close>

fun client_error_worth_retrying :: "pubky_client_error \<Rightarrow> bool" where
  "client_error_worth_retrying NotInitialized = True"
| "client_error_worth_retrying (TooManyRequests429 _) = True"
| "client_error_worth_retrying (ServerError5xx _) = True"
| "client_error_worth_retrying (RequestFailed _) = True"
| "client_error_worth_retrying (PkarrFailed _) = True"
| "client_error_worth_retrying (NotFound404 _) = False"
| "client_error_worth_retrying (AuthenticationFailed _) = False"
| "client_error_worth_retrying (BuildFailed _) = False"
| "client_error_worth_retrying (ParseFailed _) = False"

fun should_enqueue_related_event :: "ep_error \<Rightarrow> bool" where
  "should_enqueue_related_event (PubkyClientError err) = client_error_worth_retrying err"
| "should_enqueue_related_event (InvalidEventLine _) = False"
| "should_enqueue_related_event SkipIndexing = False"
| "should_enqueue_related_event (SpecValidation _) = False"
| "should_enqueue_related_event (UnsupportedTarget _) = False"
| "should_enqueue_related_event (HsBlacklisted _) = False"
| "should_enqueue_related_event (HomeserverErr _) = False"
| "should_enqueue_related_event HsEventsStreamRateLimitExhausted = False"
| "should_enqueue_related_event (FetchSizeExceeded _ _) = False"
| "should_enqueue_related_event (DataAnomaly _) = False"
| "should_enqueue_related_event (UserIdMismatch _ _ _) = False"
| "should_enqueue_related_event (EventCursorOutOfOrder _ _ _ _) = False"
| "should_enqueue_related_event _ = True"

section \<open>Lemmas\<close>

lemma ensure_cursor_not_backwards_Inr [simp]:
  "ensure_cursor_not_backwards n s = Inr () \<longleftrightarrow> s \<le> n"
  by (auto simp: ensure_cursor_not_backwards_def)

lemma missing_dependency_enqueued:
  "is_missing_dependency e \<Longrightarrow> should_enqueue_related_event e \<and> \<not> should_not_retry_now e"
  by (cases e) auto

lemma not_found_per_event:
  "is_not_found e \<Longrightarrow> \<not> should_not_retry_now e \<and> \<not> should_enqueue_related_event e"
  by (cases e rule: is_not_found.cases) auto

lemma length_format_error_body:
  "length (format_error_body b mx) \<le> mx + 15"
  by (auto simp: format_error_body_def ellipsis_utf8_def)

lemmas hs_kind_defs = from_status_def from_reqwest_def hs_transport_def hs_malformed_def

section \<open>Properties\<close>

text \<open>An SDK error reaches the same decision on both routes: off the event stream, the error a
  \<open>HomeserverClient\<close> call reports is worth retrying exactly when the direct conversion of the SDK
  error is, and never stops the batch. On the event stream it stops the run exactly for a 429,
  a 5xx and a transport failure.\<close>

theorem sdk_error_routes_agree:
  "(o' \<noteq> UserEvents \<longrightarrow>
      should_enqueue_related_event (ep_from_hs sh \<lparr>he_hs = h, he_op = o', he_kind = from_sdk e\<rparr>) =
        should_enqueue_related_event (PubkyClientError (pubky_client_error_from e)) \<and>
      \<not> should_not_retry_now (ep_from_hs sh \<lparr>he_hs = h, he_op = o', he_kind = from_sdk e\<rparr>)) \<and>
   (should_not_retry_now (ep_from_hs sh \<lparr>he_hs = h, he_op = UserEvents, he_kind = from_sdk e\<rparr>) \<longleftrightarrow>
      (\<exists>t m. e = SdkTransport t m) \<or>
      (\<exists>st m. e = SdkServer st m \<and> (st = 429 \<or> 500 \<le> st \<and> st < 600)))"
  by (cases e; simp add: ep_from_hs_def hs_kind_defs is_server_error_def Let_def; fastforce)

theorem sdk_error_routes_agree_witness:
  "should_enqueue_related_event
     (ep_from_hs (\<lambda>_. []) \<lparr>he_hs = ''h'', he_op = GetBlob, he_kind = from_sdk (SdkPkarr ''x'')\<rparr>)"
  using sdk_error_routes_agree [of GetBlob "\<lambda>_. []" "''h''" "SdkPkarr ''x''"] by simp

end
