(* ===== verification/Event_Parsing.thy ===== *)
theory Event_Parsing
  imports Watcher_Errors
begin

text \<open>
  Events as the watcher receives them (events/event.rs): the two event types and how they
  print, the parse of an event line of a homeserver's \<open>/events\<close> endpoint, and the event built
  from an entry of the per-user event stream. The URI grammar belongs to the package
  \<open>pubky-app-specs\<close>: its parser and its printer are the two fields of \<open>uri_specs\<close>, an argument
  of every definition that uses them.
\<close>

datatype event_type = Put | Del

definition show_event_type :: "event_type \<Rightarrow> string" where
  "show_event_type t = (case t of Put \<Rightarrow> ''PUT'' | Del \<Rightarrow> ''DEL'')"

text \<open>
  The resources the sources match on, each with its identifier, and the parsed form of a URI:
  an address of the pubky.app name space or a tag of another application.
\<close>

datatype uri_resource =
    UserR | PostR string | FollowR string | MuteR string | BookmarkR string | TagR string
  | FileR string | BlobR string | FeedR string | LastReadR | UnknownR

datatype parsed_uri =
    PubkyApp (pu_user_id: string) (pu_resource: uri_resource)
  | UniversalTag (pu_user_id: string) (pu_app: string) (pu_resource: uri_resource)

record uri_specs =
  try_from_uri :: "string \<Rightarrow> (string, parsed_uri) result"
  try_to_uri_str :: "parsed_uri \<Rightarrow> (string, string) result"

record event =
  ev_uri :: string
  ev_type :: event_type
  ev_parsed_uri :: parsed_uri
  ev_line :: string

datatype parse_result =
    Parsed event
  | Skipped
  | UnrecognizedUri event_type string string

text \<open>\<open>str::split_once(' ')\<close>: the text before and after the first space.\<close>

fun split_once_space :: "string \<Rightarrow> (string \<times> string) option" where
  "split_once_space [] = None"
| "split_once_space (c # cs) =
     (if c = CHR '' '' then Some ([], cs)
      else map_option (\<lambda>(a, b). (c # a, b)) (split_once_space cs))"

definition parse_event_parts ::
  "uri_specs \<Rightarrow> event_type \<Rightarrow> string \<Rightarrow> string \<Rightarrow> (ep_error, parse_result) result" where
  "parse_event_parts sp event_type uri event_line =
     (case try_from_uri sp uri of
        Inl e \<Rightarrow> Inr (UnrecognizedUri event_type uri e)
      | Inr parsed \<Rightarrow>
          let canonical_check =
            (if try_to_uri_str sp parsed = Inr uri
             then Inr (Parsed \<lparr>ev_uri = uri, ev_type = event_type,
                               ev_parsed_uri = parsed, ev_line = event_line\<rparr>)
             else Inr (UnrecognizedUri event_type uri ''non-canonical path'')) in
          (case parsed of
             PubkyApp _ res \<Rightarrow>
               (case res of
                  UnknownR \<Rightarrow> Inl (InvalidEventLine (''Unknown resource in URI: '' @ uri))
                | LastReadR \<Rightarrow> Inr Skipped
                | FeedR _ \<Rightarrow> Inr Skipped
                | BlobR _ \<Rightarrow> Inr Skipped
                | _ \<Rightarrow> canonical_check)
           | UniversalTag _ _ _ \<Rightarrow> canonical_check))"

definition parse_event :: "uri_specs \<Rightarrow> string \<Rightarrow> (ep_error, parse_result) result" where
  "parse_event sp line =
     (case split_once_space line of
        None \<Rightarrow> Inl (InvalidEventLine (''Malformed event line, '' @ line))
      | Some (kind, uri) \<Rightarrow>
          if kind = ''PUT'' then parse_event_parts sp Put uri line
          else if kind = ''DEL'' then parse_event_parts sp Del uri line
          else Inl (InvalidEventLine (''Unknown event type: '' @ kind)))"

text \<open>An entry of the per-user event stream (homeserver/client.rs, \<open>HsStreamEvent\<close>).\<close>

record hs_stream_event =
  se_type :: event_type
  se_owner :: string
  se_uri :: string
  se_cursor :: nat

definition event_line_of :: "event_type \<Rightarrow> string \<Rightarrow> string" where
  "event_line_of t uri = show_event_type t @ '' '' @ uri"

definition from_stream_event ::
  "uri_specs \<Rightarrow> hs_stream_event \<Rightarrow> (ep_error, event option) result" where
  "from_stream_event sp se =
     (case parse_event_parts sp (se_type se) (se_uri se)
             (event_line_of (se_type se) (se_uri se)) of
        Inl e \<Rightarrow> Inl e
      | Inr (Parsed ev) \<Rightarrow> Inr (Some ev)
      | Inr Skipped \<Rightarrow> Inr None
      | Inr (UnrecognizedUri _ _ _) \<Rightarrow> Inr None)"

section \<open>Lemmas\<close>

lemma split_once_space_append:
  "CHR '' '' \<notin> set a \<Longrightarrow> split_once_space (a @ '' '' @ b) = Some (a, b)"
  by (induction a) auto

lemma split_once_space_Some:
  "split_once_space l = Some (a, b) \<Longrightarrow> l = a @ '' '' @ b \<and> CHR '' '' \<notin> set a"
  by (induction l arbitrary: a) (auto split: if_splits)

lemma split_once_space_None:
  "split_once_space l = None \<longleftrightarrow> CHR '' '' \<notin> set l"
  by (induction l) auto

lemma show_event_type_no_space: "CHR '' '' \<notin> set (show_event_type t)"
  by (cases t) (auto simp: show_event_type_def)

text \<open>The line printed for an event is read back as that event: printing is undone.\<close>

lemma parse_event_line_of:
  "parse_event sp (event_line_of t uri) = parse_event_parts sp t uri (event_line_of t uri)"
proof -
  have "split_once_space (event_line_of t uri) = Some (show_event_type t, uri)"
    unfolding event_line_of_def by (rule split_once_space_append) (rule show_event_type_no_space)
  then show ?thesis
    by (cases t) (simp_all add: parse_event_def show_event_type_def)
qed

text \<open>What a successful parse guarantees of the event.\<close>

lemma parse_event_parts_Parsed:
  assumes "parse_event_parts sp t uri line = Inr (Parsed ev)"
  shows "ev_uri ev = uri" "ev_type ev = t" "ev_line ev = line"
    "try_from_uri sp uri = Inr (ev_parsed_uri ev)" "try_to_uri_str sp (ev_parsed_uri ev) = Inr uri"
  using assms
  by (auto simp: parse_event_parts_def Let_def
      split: sum.splits parsed_uri.splits uri_resource.splits if_splits)

lemma parse_event_parts_unhandled:
  assumes "parse_event_parts sp t uri line = Inr (Parsed ev)"
    and "ev_parsed_uri ev = PubkyApp u res"
  shows "res \<notin> {UnknownR, LastReadR} \<union> range FeedR \<union> range BlobR"
  using assms
  by (auto simp: parse_event_parts_def Let_def
      split: sum.splits parsed_uri.splits uri_resource.splits if_splits)

lemma parse_event_Inr:
  assumes "parse_event sp line = Inr r"
  obtains t uri where "line = event_line_of t uri" "parse_event_parts sp t uri line = Inr r"
proof -
  from assms obtain kd uri where l: "split_once_space line = Some (kd, uri)"
    by (auto simp: parse_event_def split: option.splits)
  then have "line = kd @ '' '' @ uri" by (auto dest: split_once_space_Some)
  with l assms that [of Put uri] that [of Del uri] show thesis
    by (auto simp: parse_event_def event_line_of_def show_event_type_def split: if_splits)
qed

lemma parse_event_Parsed:
  assumes "parse_event sp line = Inr (Parsed ev)"
  shows "line = event_line_of (ev_type ev) (ev_uri ev)" "ev_line ev = line"
    "try_from_uri sp (ev_uri ev) = Inr (ev_parsed_uri ev)"
    "try_to_uri_str sp (ev_parsed_uri ev) = Inr (ev_uri ev)"
proof -
  from assms obtain t uri where "line = event_line_of t uri"
    "parse_event_parts sp t uri line = Inr (Parsed ev)"
    by (rule parse_event_Inr)
  then show "line = event_line_of (ev_type ev) (ev_uri ev)" "ev_line ev = line"
    "try_from_uri sp (ev_uri ev) = Inr (ev_parsed_uri ev)"
    "try_to_uri_str sp (ev_parsed_uri ev) = Inr (ev_uri ev)"
    using parse_event_parts_Parsed [of sp t uri line ev] by simp_all
qed

section \<open>Properties\<close>

text \<open>C36. A line is accepted only as the printed form of its event, at the canonical address of its
  resource: the type and URI of the event print back to the line, the URI is the one the specs
  render for the parsed resource, and unknown and last-read resources are never accepted.
  So two accepted lines of one type with the same parsed resource are the same line, and no alias
  path can overwrite or delete the resource it parses to.\<close>

theorem accepted_lines_are_canonical:
  assumes "parse_event sp line = Inr (Parsed ev)"
  shows "line = event_line_of (ev_type ev) (ev_uri ev) \<and> ev_line ev = line \<and>
    try_to_uri_str sp (ev_parsed_uri ev) = Inr (ev_uri ev) \<and>
    (\<forall>u. ev_parsed_uri ev \<noteq> PubkyApp u UnknownR \<and> ev_parsed_uri ev \<noteq> PubkyApp u LastReadR) \<and>
    (\<forall>line' ev'. parse_event sp line' = Inr (Parsed ev') \<longrightarrow> ev_type ev' = ev_type ev \<longrightarrow>
      ev_parsed_uri ev' = ev_parsed_uri ev \<longrightarrow> line' = line)"
proof -
  note p = parse_event_Parsed [OF assms]
  obtain t uri where "parse_event_parts sp t uri line = Inr (Parsed ev)"
    using parse_event_Inr [OF assms] by blast
  note u = parse_event_parts_unhandled [OF this]
  have "line' = line" if "parse_event sp line' = Inr (Parsed ev')" "ev_type ev' = ev_type ev"
    "ev_parsed_uri ev' = ev_parsed_uri ev" for line' ev'
    using p parse_event_Parsed [OF that(1)] that(2,3) by simp
  with p u show ?thesis by blast
qed

theorem accepted_lines_are_canonical_witness:
  "event_line_of Del ''pubky://u/p q'' = ''DEL pubky://u/p q''"
proof -
  have p: "parse_event \<lparr>try_from_uri = (\<lambda>u. Inr (PubkyApp ''u'' (PostR ''p''))),
      try_to_uri_str = (\<lambda>_. Inr ''pubky://u/p q'')\<rparr> ''DEL pubky://u/p q'' =
     Inr (Parsed \<lparr>ev_uri = ''pubky://u/p q'', ev_type = Del,
       ev_parsed_uri = PubkyApp ''u'' (PostR ''p''), ev_line = ''DEL pubky://u/p q''\<rparr>)"
    by (simp add: parse_event_def parse_event_parts_def)
  from accepted_lines_are_canonical [OF p] show ?thesis by simp
qed

end
