(* ===== verification/Redis_World.thy ===== *)
theory Redis_World
  imports Watcher_Errors
begin

text \<open>
  The shared store as one task sees it. Every command or script runs atomically in Redis, but
  other tasks run between two calls of this one, and a call may fail before the server ran it
  or after (a lost reply). A \<open>world\<close> holds the store together with an arbitrary schedule of
  what happens around the calls: \<open>env w n\<close> is what the other tasks do to the store before
  call number \<open>n\<close>, \<open>fault w n\<close> is its failure (\<open>graph_fault w n\<close> for a graph query), \<open>clock w n\<close> the time read at that point and
  \<open>shutdown w n\<close> the value of the shutdown channel. Theorems quantify over the schedule.
\<close>

datatype 'e call_fault = LostRequest 'e | LostReply 'e

record 's world =
  kv :: 's
  tick :: nat
  env :: "nat \<Rightarrow> 's \<Rightarrow> 's"
  fault :: "nat \<Rightarrow> redis_error call_fault option"
  graph_fault :: "nat \<Rightarrow> graph_error call_fault option"
  clock :: "nat \<Rightarrow> int"
  shutdown :: "nat \<Rightarrow> bool"

text \<open>The other tasks' step before the next call.\<close>

definition env_step :: "'s world \<Rightarrow> 's world" where
  "env_step w = w\<lparr>kv := env w (tick w) (kv w), tick := Suc (tick w)\<rparr>"

text \<open>A call of this task: one atomic command on the store as it then is.\<close>

definition redis_call :: "('s \<Rightarrow> 'a \<times> 's) \<Rightarrow> 's world \<Rightarrow> (redis_error, 'a) result \<times> 's world" where
  "redis_call f w =
     (let w1 = env_step w in
      case fault w (tick w) of
        Some (LostRequest e) \<Rightarrow> (Inl e, w1)
      | Some (LostReply e) \<Rightarrow> (Inl e, w1\<lparr>kv := snd (f (kv w1))\<rparr>)
      | None \<Rightarrow> (Inr (fst (f (kv w1))), w1\<lparr>kv := snd (f (kv w1))\<rparr>))"

text \<open>A query of the graph database: one transaction, with the faults of that connection.\<close>

definition graph_call :: "('s \<Rightarrow> 'a \<times> 's) \<Rightarrow> 's world \<Rightarrow> (graph_error, 'a) result \<times> 's world" where
  "graph_call f w =
     (let w1 = env_step w in
      case graph_fault w (tick w) of
        Some (LostRequest e) \<Rightarrow> (Inl e, w1)
      | Some (LostReply e) \<Rightarrow> (Inl e, w1\<lparr>kv := snd (f (kv w1))\<rparr>)
      | None \<Rightarrow> (Inr (fst (f (kv w1))), w1\<lparr>kv := snd (f (kv w1))\<rparr>))"

text \<open>A critical section of an in-process mutex: atomic, and it cannot fail.\<close>

definition lock_call :: "('s \<Rightarrow> 'a \<times> 's) \<Rightarrow> 's world \<Rightarrow> 'a \<times> 's world" where
  "lock_call f w = (let w1 = env_step w in (fst (f (kv w1)), w1\<lparr>kv := snd (f (kv w1))\<rparr>))"

definition utc_now :: "'s world \<Rightarrow> int \<times> 's world" where
  "utc_now w = (clock w (tick w), env_step w)"

definition shutdown_rx :: "'s world \<Rightarrow> bool \<times> 's world" where
  "shutdown_rx w = (shutdown w (tick w), env_step w)"

text \<open>
  \<open>same_schedule\<close>: the environment is fixed. \<open>env_keeps I w\<close>: the other tasks keep \<open>I\<close>.
\<close>

definition same_schedule :: "'s world \<Rightarrow> 's world \<Rightarrow> bool" where
  "same_schedule w w' \<longleftrightarrow>
     env w' = env w \<and> fault w' = fault w \<and> graph_fault w' = graph_fault w \<and> clock w' = clock w \<and> shutdown w' = shutdown w"

definition env_keeps :: "('s \<Rightarrow> bool) \<Rightarrow> 's world \<Rightarrow> bool" where
  "env_keeps I w \<longleftrightarrow> (\<forall>n s. I s \<longrightarrow> I (env w n s))"

lemma same_schedule_refl [simp]: "same_schedule w w"
  by (simp add: same_schedule_def)

lemma same_schedule_trans:
  "same_schedule w w' \<Longrightarrow> same_schedule w' w'' \<Longrightarrow> same_schedule w w''"
  by (simp add: same_schedule_def)

lemma env_keeps_same: "same_schedule w w' \<Longrightarrow> env_keeps I w' = env_keeps I w"
  by (simp add: same_schedule_def env_keeps_def)

lemma env_step_schedule [simp]: "same_schedule w (env_step w)"
  by (simp add: env_step_def same_schedule_def)

lemma env_step_keeps: "env_keeps I w \<Longrightarrow> I (kv w) \<Longrightarrow> I (kv (env_step w))"
  by (simp add: env_step_def env_keeps_def)

lemma redis_call_schedule: "redis_call f w = (r, w') \<Longrightarrow> same_schedule w w'"
  by (auto simp: redis_call_def Let_def env_step_def same_schedule_def
      split: option.splits call_fault.splits)

lemma graph_call_schedule: "graph_call f w = (r, w') \<Longrightarrow> same_schedule w w'"
  by (auto simp: graph_call_def Let_def env_step_def same_schedule_def
      split: option.splits call_fault.splits)

lemma lock_call_schedule: "lock_call f w = (r, w') \<Longrightarrow> same_schedule w w'"
  by (auto simp: lock_call_def Let_def env_step_def same_schedule_def)

text \<open>
  The rule every store operation uses: the call acts on some store \<open>s\<close> that satisfies whatever
  the environment keeps, and ends in \<open>s\<close> or in the command's result on \<open>s\<close>.
\<close>

lemma redis_callE:
  assumes "redis_call f w = (r, w')" and "env_keeps I w" and "I (kv w)"
  obtains s where "I s" "same_schedule w w'"
    "(\<exists>e. r = Inl e \<and> kv w' \<in> {s, snd (f s)}) \<or> (r = Inr (fst (f s)) \<and> kv w' = snd (f s))"
proof -
  have "I (kv (env_step w))" using assms(2,3) by (rule env_step_keeps)
  moreover have "same_schedule w w'" using assms(1) by (rule redis_call_schedule)
  moreover have "(\<exists>e. r = Inl e \<and> kv w' \<in> {kv (env_step w), snd (f (kv (env_step w)))}) \<or>
      (r = Inr (fst (f (kv (env_step w)))) \<and> kv w' = snd (f (kv (env_step w))))"
    using assms(1) by (auto simp: redis_call_def Let_def split: option.splits call_fault.splits)
  ultimately show thesis by (rule that)
qed

lemma graph_callE:
  assumes "graph_call f w = (r, w')" and "env_keeps I w" and "I (kv w)"
  obtains s where "I s" "same_schedule w w'"
    "(\<exists>e. r = Inl e \<and> kv w' \<in> {s, snd (f s)}) \<or> (r = Inr (fst (f s)) \<and> kv w' = snd (f s))"
proof -
  have "I (kv (env_step w))" using assms(2,3) by (rule env_step_keeps)
  moreover have "same_schedule w w'" using assms(1) by (rule graph_call_schedule)
  moreover have "(\<exists>e. r = Inl e \<and> kv w' \<in> {kv (env_step w), snd (f (kv (env_step w)))}) \<or>
      (r = Inr (fst (f (kv (env_step w)))) \<and> kv w' = snd (f (kv (env_step w))))"
    using assms(1) by (auto simp: graph_call_def Let_def split: option.splits call_fault.splits)
  ultimately show thesis by (rule that)
qed

lemma lock_callE:
  assumes "lock_call f w = (r, w')" and "env_keeps I w" and "I (kv w)"
  obtains s where "I s" "same_schedule w w'" "r = fst (f s)" "kv w' = snd (f s)"
  using assms env_step_keeps [OF assms(2,3)] lock_call_schedule [OF assms(1)]
  by (auto simp: lock_call_def Let_def)

section \<open>Views\<close>

text \<open>
  \<open>steady view w\<close>: the other tasks leave a view of the store alone. A call then changes it by its own
  effect or, if it failed, perhaps not at all.
\<close>

definition steady :: "('s \<Rightarrow> 'v) \<Rightarrow> 's world \<Rightarrow> bool" where
  "steady view w \<longleftrightarrow> (\<forall>n g. view (env w n g) = view g)"

lemma steady_same: "same_schedule w w' \<Longrightarrow> steady view w' = steady view w"
  by (simp add: same_schedule_def steady_def)

lemma redis_view:
  assumes "redis_call f w = (r, w')" "steady view w" "\<And>g. view (snd (f g)) = \<phi> (view g)"
  shows "steady view w' \<and> (view (kv w') = \<phi> (view (kv w)) \<or> (\<exists>e. r = Inl e) \<and> view (kv w') = view (kv w))"
proof -
  have "view (kv (env_step w)) = view (kv w)" using assms(2) by (simp add: env_step_def steady_def)
  then show ?thesis
    using assms(1,3) steady_same [OF redis_call_schedule [OF assms(1)], of view] assms(2)
    by (auto simp: redis_call_def Let_def split: option.splits call_fault.splits)
qed

lemma graph_view:
  assumes "graph_call f w = (r, w')" "steady view w" "\<And>g. Q (fst (f g)) (view g) (view (snd (f g)))"
  shows "steady view w' \<and> ((\<exists>x. r = Inr x \<and> Q x (view (kv w)) (view (kv w'))) \<or>
    (\<exists>e. r = Inl e \<and> (view (kv w') = view (kv w) \<or> (\<exists>x. Q x (view (kv w)) (view (kv w'))))))"
proof -
  have f: "view (kv (env_step w)) = view (kv w)" using assms(2) by (simp add: env_step_def steady_def)
  show ?thesis
    using assms(1) assms(3) [of "kv (env_step w)"] f steady_same [OF graph_call_schedule [OF assms(1)], of view] assms(2)
    by (auto simp: graph_call_def Let_def split: option.splits call_fault.splits)
qed

text \<open>A store used by one task only, with calls that do not fail.\<close>

definition calm_world :: "'s \<Rightarrow> 's world" where
  "calm_world s = \<lparr>kv = s, tick = 0, env = (\<lambda>_ x. x), fault = (\<lambda>_. None), graph_fault = (\<lambda>_. None),
                   clock = (\<lambda>n. 1000 + int n), shutdown = (\<lambda>_. False)\<rparr>"

lemma calm_steady [simp]: "steady view (calm_world s)"
  by (simp add: steady_def calm_world_def)

lemma calm_keeps [simp]: "env_keeps I (calm_world s)" "kv (calm_world s) = s"
  by (simp_all add: env_keeps_def calm_world_def)

end
