(* ===== verification/Retry_Store.thy ===== *)
theory Retry_Store
  imports Event_Parsing Redis_World
begin

text \<open>
  The retry queue's storage (events/retry/event.rs and store.rs): retry entries, their JSON
  form, the Redis layout (a JSON document per entry and one sorted set that orders the entries
  by their due time), the compare-and-act scripts, and the two implementations of the trait
  \<open>RetryStore\<close>: \<open>RedisRetryStore\<close> and \<open>InMemoryRetryStore\<close>. The trait is the record
  \<open>retry_store\<close> of its operations; its contract is the locale \<open>retry_store_contract\<close>.
\<close>

section \<open>Entries and keys\<close>

type_synonym index_key = string

record retry_event =
  retry_count :: nat
  event_type :: event_type
  event_uri :: string
  next_retry_at :: int
  origin_homeserver_id :: string
  nonce :: int

text \<open>\<open>hash_str_hex\<close>: the first 16 bytes of the BLAKE3 digest (a parameter) in hexadecimal.\<close>

definition hex_digit :: "nat \<Rightarrow> char" where
  "hex_digit n = ''0123456789abcdef'' ! (n mod 16)"

definition hex_byte :: "8 word \<Rightarrow> string" where
  "hex_byte b = [hex_digit (unat b div 16), hex_digit (unat b mod 16)]"

definition hash_str_hex :: "(string \<Rightarrow> 8 word list) \<Rightarrow> string \<Rightarrow> string" where
  "hash_str_hex blake3 input = concat (map hex_byte (take 16 (blake3 input)))"

definition for_uri :: "(string \<Rightarrow> 8 word list) \<Rightarrow> string \<Rightarrow> index_key" where
  "for_uri blake3 uri = hash_str_hex blake3 uri"

text \<open>\<open>RetryEvent::new\<close>; the nonce is the wall clock in nanoseconds, read by the caller.\<close>

definition retry_event_new :: "event \<Rightarrow> int \<Rightarrow> string \<Rightarrow> int \<Rightarrow> retry_event" where
  "retry_event_new ev next_at origin fresh_nonce =
     \<lparr>retry_count = 0, event_type = ev_type ev, event_uri = ev_uri ev,
      next_retry_at = next_at, origin_homeserver_id = origin, nonce = fresh_nonce\<rparr>"

text \<open>\<open>fresh_nonce\<close>: nanoseconds when they fit an \<open>i64\<close>, else milliseconds.\<close>

definition fresh_nonce :: "int \<Rightarrow> int" where
  "fresh_nonce nanos = (if i64_ok nanos then nanos else nanos div 1000000)"

section \<open>The JSON form\<close>

text \<open>An entry stored before the field existed has no nonce; \<open>serde(default)\<close> reads it as 0.\<close>

record retry_json =
  js_retry_count :: nat
  js_event_type :: event_type
  js_event_uri :: string
  js_next_retry_at :: int
  js_origin_homeserver_id :: string
  js_nonce :: "int option"

definition to_json :: "retry_event \<Rightarrow> retry_json" where
  "to_json e = \<lparr>js_retry_count = retry_count e, js_event_type = event_type e,
     js_event_uri = event_uri e, js_next_retry_at = next_retry_at e,
     js_origin_homeserver_id = origin_homeserver_id e, js_nonce = Some (nonce e)\<rparr>"

definition of_json :: "retry_json \<Rightarrow> retry_event" where
  "of_json j = \<lparr>retry_count = js_retry_count j, event_type = js_event_type j,
     event_uri = js_event_uri j, next_retry_at = js_next_retry_at j,
     origin_homeserver_id = js_origin_homeserver_id j,
     nonce = (case js_nonce j of None \<Rightarrow> 0 | Some n \<Rightarrow> n)\<rparr>"

section \<open>The Redis layout and its atomic commands\<close>

record retry_kv =
  json_state :: "index_key \<rightharpoonup> retry_json"
  events_zset :: "(index_key \<times> int) list"

text \<open>\<open>put_to_index\<close>: JSON.SET and ZADD in one MULTI/EXEC.\<close>

definition put_to_index :: "retry_event \<Rightarrow> index_key \<Rightarrow> retry_kv \<Rightarrow> unit \<times> retry_kv" where
  "put_to_index e k s =
     ((), s\<lparr>json_state := (json_state s)(k \<mapsto> to_json e),
            events_zset := AList.update k (f64_of_int (next_retry_at e)) (events_zset s)\<rparr>)"

text \<open>\<open>NONCE_GUARD_LUA\<close>: the entry exists and its nonce (0 when missing) is the expected one.\<close>

definition nonce_guard :: "index_key \<Rightarrow> int \<Rightarrow> retry_kv \<Rightarrow> bool" where
  "nonce_guard k expected s =
     (case json_state s k of
        None \<Rightarrow> False
      | Some j \<Rightarrow> (case js_nonce j of None \<Rightarrow> 0 | Some n \<Rightarrow> n) = expected)"

definition remove_if_nonce_script :: "index_key \<Rightarrow> int \<Rightarrow> retry_kv \<Rightarrow> bool \<times> retry_kv" where
  "remove_if_nonce_script k expected s =
     (if nonce_guard k expected s
      then (True, s\<lparr>json_state := (json_state s)(k := None),
                    events_zset := AList.delete k (events_zset s)\<rparr>)
      else (False, s))"

definition put_if_nonce_script ::
  "retry_event \<Rightarrow> index_key \<Rightarrow> int \<Rightarrow> retry_kv \<Rightarrow> bool \<times> retry_kv" where
  "put_if_nonce_script e k expected s =
     (if nonce_guard k expected s then (True, snd (put_to_index e k s)) else (False, s))"

text \<open>\<open>REMOVE_STALE_SCRIPT\<close>: drop a member only while its JSON state is still absent.\<close>

fun remove_stale_script :: "index_key list \<Rightarrow> retry_kv \<Rightarrow> unit \<times> retry_kv" where
  "remove_stale_script [] s = ((), s)"
| "remove_stale_script (k # ks) s =
     remove_stale_script ks
       (if json_state s k = None then s\<lparr>events_zset := AList.delete k (events_zset s)\<rparr> else s)"

definition zset_exists :: "retry_kv \<Rightarrow> bool \<times> retry_kv" where
  "zset_exists s = (events_zset s \<noteq> [], s)"

text \<open>
  ZRANGEBYSCORE with LIMIT 0 n: members up to the score, by score and then member. The lower
  bound is \<open>f64::MIN\<close>, below every score. A missing limit is 1000 (sorted_sets.rs).
\<close>

definition score_key :: "index_key \<times> int \<Rightarrow> int \<times> index_key" where
  "score_key p = (snd p, fst p)"

definition zrange_up_to :: "int \<Rightarrow> nat option \<Rightarrow> (index_key \<times> int) list \<Rightarrow> (index_key \<times> int) list" where
  "zrange_up_to mx limit z =
     take (case limit of None \<Rightarrow> 1000 | Some n \<Rightarrow> n)
       (filter (\<lambda>(k, sc). sc \<le> mx) (sort_key score_key z))"

definition zset_range :: "int \<Rightarrow> nat option \<Rightarrow> retry_kv \<Rightarrow> (index_key \<times> int) list \<times> retry_kv" where
  "zset_range mx limit s = (zrange_up_to mx limit (events_zset s), s)"

definition json_mget :: "index_key list \<Rightarrow> retry_kv \<Rightarrow> retry_event option list \<times> retry_kv" where
  "json_mget ks s = (map (\<lambda>k. map_option of_json (json_state s k)) ks, s)"

definition json_get :: "index_key \<Rightarrow> retry_kv \<Rightarrow> retry_event option \<times> retry_kv" where
  "json_get k s = (map_option of_json (json_state s k), s)"

definition zset_rem :: "index_key \<Rightarrow> retry_kv \<Rightarrow> unit \<times> retry_kv" where
  "zset_rem k s = ((), s\<lparr>events_zset := AList.delete k (events_zset s)\<rparr>)"

definition json_del :: "index_key \<Rightarrow> retry_kv \<Rightarrow> unit \<times> retry_kv" where
  "json_del k s = ((), s\<lparr>json_state := (json_state s)(k := None)\<rparr>)"

section \<open>The trait and its two implementations\<close>

record 's retry_store =
  rs_put :: "retry_event \<Rightarrow> 's \<Rightarrow> (ep_error, unit) result \<times> 's"
  rs_get :: "index_key \<Rightarrow> 's \<Rightarrow> (ep_error, retry_event option) result \<times> 's"
  rs_remove :: "index_key \<Rightarrow> 's \<Rightarrow> (ep_error, unit) result \<times> 's"
  rs_remove_if :: "index_key \<Rightarrow> int \<Rightarrow> 's \<Rightarrow> (ep_error, bool) result \<times> 's"
  rs_put_if :: "retry_event \<Rightarrow> int \<Rightarrow> 's \<Rightarrow> (ep_error, bool) result \<times> 's"
  rs_fetch_ready ::
    "int \<Rightarrow> nat option \<Rightarrow> 's \<Rightarrow> (ep_error, (index_key \<times> retry_event) list) result \<times> 's"

text \<open>A call whose \<open>RedisError\<close> is converted by \<open>?\<close> into an \<open>EventProcessorError\<close>.\<close>

definition ep_call ::
  "(redis_error \<Rightarrow> string) \<Rightarrow> ('s \<Rightarrow> 'a \<times> 's) \<Rightarrow> 's world \<Rightarrow> (ep_error, 'a) result \<times> 's world" where
  "ep_call show_e f w = (case redis_call f w of (r, w') \<Rightarrow> (map_sum (ep_from_redis show_e) id r, w'))"

text \<open>\<open>RetryEvent::fetch_ready\<close>: EXISTS, then ZRANGEBYSCORE up to \<open>now as f64\<close>.\<close>

definition fetch_ready_keys ::
  "(redis_error \<Rightarrow> string) \<Rightarrow> int \<Rightarrow> nat option \<Rightarrow> retry_kv world
     \<Rightarrow> (ep_error, (index_key \<times> int) list) result \<times> retry_kv world" where
  "fetch_ready_keys show_e now limit w =
     (let err = (\<lambda>e. Inl (Generic (''Failed to fetch retry events: '' @ show_e e))) in
      case redis_call zset_exists w of
        (Inl e, w1) \<Rightarrow> (err e, w1)
      | (Inr False, w1) \<Rightarrow> (Inr [], w1)
      | (Inr True, w1) \<Rightarrow>
          (case redis_call (zset_range (f64_of_int now) limit) w1 of
             (Inl e, w2) \<Rightarrow> (err e, w2)
           | (Inr ps, w2) \<Rightarrow> (Inr ps, w2)))"

text \<open>The loop that separates the resolved entries from the tombstones.\<close>

fun split_stale ::
  "(index_key \<times> int) list \<Rightarrow> retry_event option list
     \<Rightarrow> (index_key \<times> retry_event) list \<times> index_key list" where
  "split_stale ((k, sc) # ps) (Some e # es) = (let (evs, st) = split_stale ps es in ((k, e) # evs, st))"
| "split_stale ((k, sc) # ps) (None # es) = (let (evs, st) = split_stale ps es in (evs, k # st))"
| "split_stale _ _ = ([], [])"

definition redis_fetch_ready ::
  "(redis_error \<Rightarrow> string) \<Rightarrow> int \<Rightarrow> nat option \<Rightarrow> retry_kv world
     \<Rightarrow> (ep_error, (index_key \<times> retry_event) list) result \<times> retry_kv world" where
  "redis_fetch_ready show_e now limit w =
     (case fetch_ready_keys show_e now limit w of
        (Inl e, w1) \<Rightarrow> (Inl e, w1)
      | (Inr ps, w1) \<Rightarrow>
          (case (if ps = [] then (Inr [], w1) else ep_call show_e (json_mget (map fst ps)) w1) of
             (Inl e, w2) \<Rightarrow> (Inl e, w2)
           | (Inr es, w2) \<Rightarrow>
               (case split_stale ps es of (evs, stale) \<Rightarrow>
                  if stale = [] then (Inr evs, w2)
                  else (case ep_call show_e (remove_stale_script stale) w2 of
                          (Inl e, w3) \<Rightarrow> (Inl e, w3)
                        | (Inr _, w3) \<Rightarrow> (Inr evs, w3)))))"

text \<open>\<open>RetryEvent::remove_from_index\<close>: two commands, not atomic.\<close>

definition redis_remove ::
  "(redis_error \<Rightarrow> string) \<Rightarrow> index_key \<Rightarrow> retry_kv world
     \<Rightarrow> (ep_error, unit) result \<times> retry_kv world" where
  "redis_remove show_e k w =
     (case ep_call show_e (zset_rem k) w of
        (Inl e, w1) \<Rightarrow> (Inl e, w1)
      | (Inr _, w1) \<Rightarrow> ep_call show_e (json_del k) w1)"

definition redis_retry_store ::
  "(redis_error \<Rightarrow> string) \<Rightarrow> (string \<Rightarrow> 8 word list) \<Rightarrow> retry_kv world retry_store" where
  "redis_retry_store show_e blake3 =
     \<lparr>rs_put = (\<lambda>e. ep_call show_e (put_to_index e (for_uri blake3 (event_uri e)))),
      rs_get = (\<lambda>k. ep_call show_e (json_get k)),
      rs_remove = redis_remove show_e,
      rs_remove_if = (\<lambda>k n. ep_call show_e (remove_if_nonce_script k n)),
      rs_put_if = (\<lambda>e n. ep_call show_e (put_if_nonce_script e (for_uri blake3 (event_uri e)) n)),
      rs_fetch_ready = redis_fetch_ready show_e\<rparr>"

text \<open>The in-memory store: a \<open>HashMap\<close> behind a mutex.\<close>

type_synonym mem_map = "(index_key \<times> retry_event) list"

definition mem_remove_if :: "index_key \<Rightarrow> int \<Rightarrow> mem_map \<Rightarrow> bool \<times> mem_map" where
  "mem_remove_if k expected m =
     (case map_of m k of
        Some stored \<Rightarrow> if nonce stored = expected then (True, AList.delete k m) else (False, m)
      | None \<Rightarrow> (False, m))"

definition mem_put_if :: "retry_event \<Rightarrow> index_key \<Rightarrow> int \<Rightarrow> mem_map \<Rightarrow> bool \<times> mem_map" where
  "mem_put_if e k expected m =
     (case map_of m k of
        Some stored \<Rightarrow> if nonce stored = expected then (True, AList.update k e m) else (False, m)
      | None \<Rightarrow> (False, m))"

definition due_key :: "index_key \<times> retry_event \<Rightarrow> int \<times> index_key" where
  "due_key p = (next_retry_at (snd p), fst p)"

definition mem_fetch_ready :: "int \<Rightarrow> nat option \<Rightarrow> mem_map \<Rightarrow> mem_map \<times> mem_map" where
  "mem_fetch_ready now limit m =
     (take_opt limit (sort_key due_key (filter (\<lambda>(k, e). next_retry_at e \<le> now) m)), m)"

definition mem_call :: "('s \<Rightarrow> 'a \<times> 's) \<Rightarrow> 's world \<Rightarrow> (ep_error, 'a) result \<times> 's world" where
  "mem_call f w = (case lock_call f w of (r, w') \<Rightarrow> (Inr r, w'))"

definition in_memory_retry_store ::
  "(string \<Rightarrow> 8 word list) \<Rightarrow> mem_map world retry_store" where
  "in_memory_retry_store blake3 =
     \<lparr>rs_put = (\<lambda>e. mem_call (\<lambda>m. ((), AList.update (for_uri blake3 (event_uri e)) e m))),
      rs_get = (\<lambda>k. mem_call (\<lambda>m. (map_of m k, m))),
      rs_remove = (\<lambda>k. mem_call (\<lambda>m. ((), AList.delete k m))),
      rs_remove_if = (\<lambda>k n. mem_call (mem_remove_if k n)),
      rs_put_if = (\<lambda>e n. mem_call (mem_put_if e (for_uri blake3 (event_uri e)) n)),
      rs_fetch_ready = (\<lambda>now limit. mem_call (mem_fetch_ready now limit))\<rparr>"

section \<open>The contract of a retry store\<close>

text \<open>
  What a client may rely on, with other tasks running between its calls. The queue is a map
  from keys to entries; every operation acts at once on some queue \<open>m\<close> that satisfies whatever
  the other tasks keep (\<open>P\<close>), and a failed call either did nothing or did all of it.
\<close>

type_synonym queue = "index_key \<rightharpoonup> retry_event"

definition holds_nonce :: "index_key \<Rightarrow> int \<Rightarrow> queue \<Rightarrow> bool" where
  "holds_nonce k n m \<longleftrightarrow> (\<exists>e. m k = Some e \<and> nonce e = n)"

definition put_post ::
  "index_key \<Rightarrow> retry_event \<Rightarrow> queue \<Rightarrow> ('x, unit) result \<Rightarrow> queue \<Rightarrow> bool" where
  "put_post k e m r m' \<longleftrightarrow> m' = m(k \<mapsto> e) \<or> (\<exists>x. r = Inl x) \<and> m' = m"

definition cas_post ::
  "index_key \<Rightarrow> retry_event option \<Rightarrow> int \<Rightarrow> queue \<Rightarrow> ('x, bool) result \<Rightarrow> queue \<Rightarrow> bool" where
  "cas_post k v n m r m' \<longleftrightarrow>
     r = Inr True \<and> holds_nonce k n m \<and> m' = m(k := v) \<or>
     r = Inr False \<and> \<not> holds_nonce k n m \<and> m' = m \<or>
     (\<exists>x. r = Inl x) \<and> (m' = m \<or> holds_nonce k n m \<and> m' = m(k := v))"

definition fetch_post ::
  "queue \<Rightarrow> ('x, (index_key \<times> retry_event) list) result \<Rightarrow> bool" where
  "fetch_post m r \<longleftrightarrow>
     (\<forall>evs. r = Inr evs \<longrightarrow> (\<forall>k e. (k, e) \<in> set evs \<longrightarrow> m k = Some e) \<and> dkeys evs)"

locale retry_store_contract =
  fixes st :: "'s retry_store"
    and key_of :: "string \<Rightarrow> index_key"
    and entries :: "'s \<Rightarrow> queue"
    and ok :: "(queue \<Rightarrow> bool) \<Rightarrow> 's \<Rightarrow> bool"
  assumes ok_entries: "ok P s \<Longrightarrow> P (entries s)"
    and put_law: "ok P s \<Longrightarrow> rs_put st e s = (ru, s') \<Longrightarrow>
      \<exists>m. P m \<and> put_post (key_of (event_uri e)) e m ru (entries s') \<and> (P (entries s') \<longrightarrow> ok P s')"
    and remove_if_law: "ok P s \<Longrightarrow> rs_remove_if st k n s = (r, s') \<Longrightarrow>
      \<exists>m. P m \<and> cas_post k None n m r (entries s') \<and> (P (entries s') \<longrightarrow> ok P s')"
    and put_if_law: "ok P s \<Longrightarrow> rs_put_if st e n s = (r, s') \<Longrightarrow>
      \<exists>m. P m \<and> cas_post (key_of (event_uri e)) (Some e) n m r (entries s')
        \<and> (P (entries s') \<longrightarrow> ok P s')"
    and fetch_law: "ok P s \<Longrightarrow> rs_fetch_ready st now limit s = (rl, s') \<Longrightarrow>
      ok P s' \<and> (\<exists>m. P m \<and> fetch_post m rl)"
begin

text \<open>A predicate that conditional writes of nonce \<open>n\<close> at \<open>k\<close> cannot break survives them.\<close>

lemma remove_if_keeps:
  assumes "ok P s" "rs_remove_if st k n s = (r, s')"
    and "\<And>m. P m \<Longrightarrow> holds_nonce k n m \<Longrightarrow> P (m(k := None))"
  shows "ok P s'"
  using remove_if_law [OF assms(1,2)] assms(3) by (auto simp: cas_post_def)

lemma put_if_keeps:
  assumes "ok P s" "rs_put_if st e n s = (r, s')"
    and "\<And>m. P m \<Longrightarrow> holds_nonce (key_of (event_uri e)) n m \<Longrightarrow> P (m(key_of (event_uri e) \<mapsto> e))"
  shows "ok P s'"
  using put_if_law [OF assms(1,2)] assms(3) by (auto simp: cas_post_def)

end

text \<open>
  A store that no other task uses while the client runs: every predicate that holds of it is
  kept, so each operation acts on the queue the client last saw.
\<close>

locale retry_store_quiet = retry_store_contract st key_of entries ok
  for st :: "'s retry_store" and key_of entries ok +
  fixes quiet :: "'s \<Rightarrow> bool"
  assumes quiet_ok: "quiet s \<Longrightarrow> P (entries s) \<Longrightarrow> ok P s"
    and quiet_finite: "quiet s \<Longrightarrow> finite (dom (entries s))"
    and quiet_remove_if: "quiet s \<Longrightarrow> rs_remove_if st k n s = (r, s') \<Longrightarrow> quiet s'"
    and quiet_put_if: "quiet s \<Longrightarrow> rs_put_if st e n s = (r, s') \<Longrightarrow> quiet s'"
    and quiet_fetch: "quiet s \<Longrightarrow> rs_fetch_ready st now limit s = (rl, s') \<Longrightarrow> quiet s'"
begin

lemma remove_if_quiet:
  "quiet s \<Longrightarrow> rs_remove_if st k n s = (r, s') \<Longrightarrow>
     quiet s' \<and> cas_post k None n (entries s) r (entries s')"
  using remove_if_law [of "(=) (entries s)"] quiet_ok [of s "(=) (entries s)"] quiet_remove_if
  by blast

lemma put_if_quiet:
  "quiet s \<Longrightarrow> rs_put_if st e n s = (r, s') \<Longrightarrow>
     quiet s' \<and> cas_post (key_of (event_uri e)) (Some e) n (entries s) r (entries s')"
  using put_if_law [of "(=) (entries s)"] quiet_ok [of s "(=) (entries s)"] quiet_put_if
  by blast

lemma fetch_quiet:
  assumes "quiet s" "rs_fetch_ready st now limit s = (r, s')"
  shows "quiet s' \<and> entries s' = entries s \<and> fetch_post (entries s) r"
proof -
  have "ok ((=) (entries s)) s" by (rule quiet_ok) (simp_all add: assms)
  from fetch_law [OF this assms(2)] show ?thesis
    using quiet_fetch [OF assms] ok_entries by fastforce
qed

end

section \<open>Both stores meet the contract\<close>

definition store_ok :: "('s \<Rightarrow> queue) \<Rightarrow> ('s \<Rightarrow> bool) \<Rightarrow> (queue \<Rightarrow> bool) \<Rightarrow> 's world \<Rightarrow> bool" where
  "store_ok ab iv P w \<longleftrightarrow>
     (iv (kv w) \<and> P (ab (kv w))) \<and> env_keeps (\<lambda>s. iv s \<and> P (ab s)) w"

text \<open>The queue a Redis state denotes, and the invariant that keeps every entry fetchable.\<close>

definition redis_entries :: "retry_kv \<Rightarrow> queue" where
  "redis_entries s k = map_option of_json (json_state s k)"

definition no_orphan :: "retry_kv \<Rightarrow> bool" where
  "no_orphan s \<longleftrightarrow> dkeys (events_zset s) \<and>
     (\<forall>k j. json_state s k = Some j \<longrightarrow>
        map_of (events_zset s) k = Some (f64_of_int (js_next_retry_at j)))"

definition redis_ok :: "(queue \<Rightarrow> bool) \<Rightarrow> retry_kv world \<Rightarrow> bool" where
  "redis_ok = store_ok redis_entries no_orphan"

definition mem_ok :: "(queue \<Rightarrow> bool) \<Rightarrow> mem_map world \<Rightarrow> bool" where
  "mem_ok = store_ok map_of dkeys"

lemma of_json_to_json [simp]: "of_json (to_json e) = e"
  by (simp add: of_json_def to_json_def)

lemma next_retry_at_of_json [simp]: "next_retry_at (of_json j) = js_next_retry_at j"
  by (simp add: of_json_def)

lemma nonce_guard_holds: "nonce_guard k n s \<longleftrightarrow> holds_nonce k n (redis_entries s)"
  by (auto simp: nonce_guard_def holds_nonce_def redis_entries_def of_json_def
      split: option.splits)

lemma no_orphan_put: "no_orphan s \<Longrightarrow> no_orphan (snd (put_to_index e k s))"
  by (auto simp: no_orphan_def put_to_index_def to_json_def)

lemma no_orphan_remove_if: "no_orphan s \<Longrightarrow> no_orphan (snd (remove_if_nonce_script k n s))"
  by (auto simp: no_orphan_def remove_if_nonce_script_def)

lemma no_orphan_put_if: "no_orphan s \<Longrightarrow> no_orphan (snd (put_if_nonce_script e k n s))"
  by (simp add: put_if_nonce_script_def no_orphan_put)

lemma no_orphan_remove_stale: "no_orphan s \<Longrightarrow> no_orphan (snd (remove_stale_script ks s))"
proof (induction ks arbitrary: s)
  case (Cons k ks)
  have "no_orphan (if json_state s k = None
      then s\<lparr>events_zset := AList.delete k (events_zset s)\<rparr> else s)"
    using Cons.prems by (auto simp: no_orphan_def)
  then show ?case using Cons.IH by simp
qed simp

lemma redis_entries_put [simp]:
  "redis_entries (snd (put_to_index e k s)) = (redis_entries s)(k \<mapsto> e)"
  by (rule ext) (simp add: redis_entries_def put_to_index_def)

lemma redis_entries_remove_if:
  "redis_entries (snd (remove_if_nonce_script k n s)) =
     (if holds_nonce k n (redis_entries s) then (redis_entries s)(k := None) else redis_entries s)"
  by (rule ext) (simp add: remove_if_nonce_script_def nonce_guard_holds redis_entries_def)

lemma redis_entries_put_if:
  "redis_entries (snd (put_if_nonce_script e k n s)) =
     (if holds_nonce k n (redis_entries s) then (redis_entries s)(k \<mapsto> e) else redis_entries s)"
  by (simp add: put_if_nonce_script_def nonce_guard_holds)

lemma fst_cas_scripts [simp]:
  "fst (remove_if_nonce_script k n s) = holds_nonce k n (redis_entries s)"
  "fst (put_if_nonce_script e k n s) = holds_nonce k n (redis_entries s)"
  by (simp_all add: remove_if_nonce_script_def put_if_nonce_script_def nonce_guard_holds)

lemma mem_cas_eq:
  "mem_remove_if k n m = (if holds_nonce k n (map_of m) then (True, AList.delete k m) else (False, m))"
  "mem_put_if e k n m = (if holds_nonce k n (map_of m) then (True, AList.update k e m) else (False, m))"
  by (simp_all add: mem_remove_if_def mem_put_if_def holds_nonce_def del: map_of_eq_Some_iff
      split: option.splits)

lemma json_state_remove_stale [simp]: "json_state (snd (remove_stale_script ks s)) = json_state s"
  by (induction ks arbitrary: s) auto

lemma redis_entries_remove_stale [simp]:
  "redis_entries (snd (remove_stale_script ks s)) = redis_entries s"
  by (rule ext) (simp add: redis_entries_def)

lemma store_ok_step:
  assumes "store_ok ab iv P w" "same_schedule w w'" "iv (kv w')" "P (ab (kv w'))"
  shows "store_ok ab iv P w'"
  using assms by (simp add: store_ok_def env_keeps_same)

text \<open>One fallible atomic command: the shape of every Redis operation but the fetch.\<close>

lemma ep_call_law:
  assumes w: "store_ok ab iv P w" and c: "ep_call sh f w = (r, w')"
    and iv: "\<And>s. iv s \<Longrightarrow> iv (snd (f s))"
    and post: "\<And>s. iv s \<Longrightarrow> post (ab s) (Inr (fst (f s))) (ab (snd (f s)))"
      "\<And>s e. iv s \<Longrightarrow> post (ab s) (Inl e) (ab s)"
      "\<And>s e. iv s \<Longrightarrow> post (ab s) (Inl e) (ab (snd (f s)))"
  shows "\<exists>m. P m \<and> post m r (ab (kv w')) \<and> (P (ab (kv w')) \<longrightarrow> store_ok ab iv P w')"
proof -
  let ?I = "\<lambda>s. iv s \<and> P (ab s)"
  from c obtain r0 where c0: "redis_call f w = (r0, w')" and r: "r = map_sum (ep_from_redis sh) id r0"
    by (auto simp: ep_call_def split: prod.splits)
  from w have "env_keeps ?I w" "?I (kv w)" by (simp_all add: store_ok_def)
  from redis_callE [OF c0 this] obtain s where s: "iv s" "P (ab s)"
    and sch: "same_schedule w w'"
    and out: "(\<exists>e. r0 = Inl e \<and> kv w' \<in> {s, snd (f s)}) \<or> (r0 = Inr (fst (f s)) \<and> kv w' = snd (f s))"
    by blast
  have "iv (kv w')" using out s(1) iv by auto
  moreover have "post (ab s) r (ab (kv w'))" using out r s(1) post by auto
  ultimately show ?thesis using s(2) store_ok_step [OF w sch] by blast
qed

lemma mem_call_law:
  assumes w: "store_ok ab iv P w" and c: "mem_call f w = (r, w')"
    and iv: "\<And>s. iv s \<Longrightarrow> iv (snd (f s))"
    and post: "\<And>s. iv s \<Longrightarrow> post (ab s) (Inr (fst (f s))) (ab (snd (f s)))"
  shows "\<exists>m. P m \<and> post m r (ab (kv w')) \<and> (P (ab (kv w')) \<longrightarrow> store_ok ab iv P w')"
proof -
  let ?I = "\<lambda>s. iv s \<and> P (ab s)"
  from c obtain r0 where c0: "lock_call f w = (r0, w')" and r: "r = Inr r0"
    by (auto simp: mem_call_def split: prod.splits)
  from w have "env_keeps ?I w" "?I (kv w)" by (simp_all add: store_ok_def)
  from lock_callE [OF c0 this] obtain s where s: "iv s" "P (ab s)"
    and sch: "same_schedule w w'" and out: "r0 = fst (f s)" "kv w' = snd (f s)"
    by blast
  then show ?thesis using s r iv post store_ok_step [OF w sch] by auto
qed

text \<open>The fetch of the Redis store: three or four commands, none of which changes an entry.\<close>

lemma ep_call_entries:
  assumes "redis_ok P w" "ep_call sh f w = (r, w')"
    and "\<And>s. no_orphan s \<Longrightarrow> no_orphan (snd (f s))"
    and "\<And>s. redis_entries (snd (f s)) = redis_entries s"
    and "\<And>s. no_orphan s \<Longrightarrow> Q (redis_entries s) (Inr (fst (f s)))" "\<And>m e. Q m (Inl e)"
  shows "redis_ok P w' \<and> (\<exists>m. P m \<and> Q m r)"
proof -
  let ?post = "\<lambda>m r m'. m' = m \<and> Q m r"
  have "\<exists>m. P m \<and> ?post m r (redis_entries (kv w')) \<and>
      (P (redis_entries (kv w')) \<longrightarrow> store_ok redis_entries no_orphan P w')"
    by (rule ep_call_law [OF assms(1) [unfolded redis_ok_def] assms(2)]) (simp_all add: assms(3-6))
  then show ?thesis by (auto simp: redis_ok_def)
qed

lemma redis_call_entries:
  assumes "redis_ok P w" "redis_call f w = (r, w')" "\<And>s. snd (f s) = s"
    and "\<And>s. no_orphan s \<Longrightarrow> Q (fst (f s))"
  shows "redis_ok P w' \<and> (\<forall>x. r = Inr x \<longrightarrow> Q x)"
proof -
  have "ep_call (\<lambda>_. []) f w = (map_sum (ep_from_redis (\<lambda>_. [])) id r, w')"
    using assms(2) by (simp add: ep_call_def)
  from ep_call_entries [OF assms(1) this, where Q = "\<lambda>_ r. \<forall>x. r = Inr x \<longrightarrow> Q x"]
  show ?thesis using assms(3,4) by (cases r) auto
qed

lemma fetch_ready_keys_ok:
  assumes "redis_ok P w" "fetch_ready_keys sh now limit w = (r, w')"
  shows "redis_ok P w' \<and> (\<forall>ps. r = Inr ps \<longrightarrow> dkeys ps)"
proof -
  obtain r1 w1 where c1: "redis_call zset_exists w = (r1, w1)" by force
  then have ok1: "redis_ok P w1"
    using redis_call_entries [OF assms(1) c1, where Q = "\<lambda>_. True"] by (simp add: zset_exists_def)
  obtain r2 w2 where c2: "redis_call (zset_range (f64_of_int now) limit) w1 = (r2, w2)" by force
  have "dkeys (zrange_up_to mx limit (events_zset s))" if "no_orphan s" for mx s
    using that by (simp add: zrange_up_to_def no_orphan_def dkeys_take dkeys_filter)
  then have "redis_ok P w2 \<and> (\<forall>x. r2 = Inr x \<longrightarrow> dkeys x)"
    by (intro redis_call_entries [OF ok1 c2]) (simp_all add: zset_range_def)
  with assms(2) c1 c2 ok1 show ?thesis
    by (auto simp: fetch_ready_keys_def Let_def split: sum.splits bool.splits)
qed

lemma split_stale_events:
  "split_stale ps es = (evs, stale) \<Longrightarrow> es = map f (map fst ps) \<Longrightarrow>
     (\<forall>k e. (k, e) \<in> set evs \<longrightarrow> k \<in> fst ` set ps \<and> f k = Some e) \<and>
     (dkeys ps \<longrightarrow> dkeys evs)"
proof (induction ps es arbitrary: evs stale rule: split_stale.induct)
  case (1 k sc ps e es)
  obtain evs' stale' where r: "split_stale ps es = (evs', stale')" by force
  with "1.prems"(1) have "evs = (k, e) # evs'" by simp
  with 1 r show ?case by (fastforce simp: image_iff)
next
  case (2 k sc ps es)
  obtain evs' stale' where r: "split_stale ps es = (evs', stale')" by force
  with "2.prems"(1) have "evs = evs'" by simp
  with 2 r show ?case by fastforce
qed auto

lemma redis_fetch_ready_ok:
  assumes "redis_ok P w" "redis_fetch_ready sh now limit w = (r, w')"
  shows "redis_ok P w' \<and> (\<exists>m. P m \<and> fetch_post m r)"
proof -
  have P: "P (redis_entries (kv x))" if "redis_ok P x" for x
    using that by (simp add: redis_ok_def store_ok_def)
  obtain r1 w1 where k: "fetch_ready_keys sh now limit w = (r1, w1)" by force
  note k1 = fetch_ready_keys_ok [OF assms(1) k]
  have Pw: "P (redis_entries (kv w))" by (rule P) (rule assms(1))
  show ?thesis
  proof (cases r1)
    case (Inl e)
    with assms(2) k k1 Pw show ?thesis by (auto simp: redis_fetch_ready_def fetch_post_def)
  next
    case (Inr ps)
    show ?thesis
    proof (cases "ps = []")
      case True
      with assms(2) k k1 Pw Inr show ?thesis by (auto simp: redis_fetch_ready_def fetch_post_def)
    next
      case False
      obtain r2 w2 where c2: "ep_call sh (json_mget (map fst ps)) w1 = (r2, w2)" by force
      have "redis_ok P w2 \<and> (\<exists>m. P m \<and> (\<forall>es. r2 = Inr es \<longrightarrow> es = map m (map fst ps)))"
        by (rule ep_call_entries [OF conjunct1 [OF k1] c2])
          (auto simp: json_mget_def redis_entries_def)
      then obtain m where ok2: "redis_ok P w2" and m: "P m" "\<And>es. r2 = Inr es \<Longrightarrow> es = map m (map fst ps)"
        by blast
      show ?thesis
      proof (cases r2)
        case (Inl e)
        with assms(2) k Inr False c2 ok2 m(1) show ?thesis
          by (auto simp: redis_fetch_ready_def fetch_post_def)
      next
        case (Inr es)
        obtain evs stale where sp: "split_stale ps es = (evs, stale)" by force
        have post: "fetch_post m (Inr evs)" "fetch_post m (Inl e)" for e :: ep_error
          using split_stale_events [OF sp m(2) [OF Inr]] k1 \<open>r1 = Inr ps\<close>
          by (simp_all add: fetch_post_def)
        obtain r3 w3 where c3: "ep_call sh (remove_stale_script stale) w2 = (r3, w3)" by force
        have "redis_ok P w3"
          using ep_call_entries [OF ok2 c3, where Q = "\<lambda>_ _. True"]
          by (simp add: no_orphan_remove_stale)
        then show ?thesis
          using assms(2) k \<open>r1 = Inr ps\<close> False c2 Inr sp c3 ok2 m(1) post
          by (auto simp: redis_fetch_ready_def split: if_splits sum.splits intro: exI [of _ m])
      qed
    qed
  qed
qed

interpretation redis_store: retry_store_contract
  "redis_retry_store sh blake3" "for_uri blake3" "\<lambda>w. redis_entries (kv w)" redis_ok
proof (unfold_locales, goal_cases)
  case (1 P s)
  then show ?case by (simp add: redis_ok_def store_ok_def)
next
  case (2 P s e r s')
  let ?k = "for_uri blake3 (event_uri e)"
  have c: "ep_call sh (put_to_index e ?k) s = (r, s')"
    using 2(2) by (simp add: redis_retry_store_def)
  show ?case unfolding redis_ok_def
    by (rule ep_call_law [OF 2(1) [unfolded redis_ok_def] c])
      (simp_all add: no_orphan_put put_post_def fun_eq_iff)
next
  case (3 P s k n r s')
  have c: "ep_call sh (remove_if_nonce_script k n) s = (r, s')"
    using 3(2) by (simp add: redis_retry_store_def)
  show ?case unfolding redis_ok_def
    by (rule ep_call_law [OF 3(1) [unfolded redis_ok_def] c])
      (simp_all add: no_orphan_remove_if cas_post_def redis_entries_remove_if)
next
  case (4 P s e n r s')
  let ?k = "for_uri blake3 (event_uri e)"
  have c: "ep_call sh (put_if_nonce_script e ?k n) s = (r, s')"
    using 4(2) by (simp add: redis_retry_store_def)
  show ?case unfolding redis_ok_def
    by (rule ep_call_law [OF 4(1) [unfolded redis_ok_def] c])
      (simp_all add: no_orphan_put_if cas_post_def redis_entries_put_if)
next
  case (5 P s now limit r s')
  then show ?case using redis_fetch_ready_ok by (simp add: redis_retry_store_def)
qed

interpretation mem_store: retry_store_contract
  "in_memory_retry_store blake3" "for_uri blake3" "\<lambda>w. map_of (kv w)" mem_ok
proof (unfold_locales, goal_cases)
  case (1 P s)
  then show ?case by (simp add: mem_ok_def store_ok_def)
next
  case (2 P s e r s')
  have c: "mem_call (\<lambda>m. ((), AList.update (for_uri blake3 (event_uri e)) e m)) s = (r, s')"
    using 2(2) by (simp add: in_memory_retry_store_def)
  show ?case unfolding mem_ok_def
    by (rule mem_call_law [OF 2(1) [unfolded mem_ok_def] c]) (simp_all add: put_post_def fun_eq_iff)
next
  case (3 P s k n r s')
  have c: "mem_call (mem_remove_if k n) s = (r, s')"
    using 3(2) by (simp add: in_memory_retry_store_def)
  show ?case unfolding mem_ok_def
    by (rule mem_call_law [OF 3(1) [unfolded mem_ok_def] c])
      (simp_all add: cas_post_def mem_cas_eq)
next
  case (4 P s e n r s')
  have c: "mem_call (mem_put_if e (for_uri blake3 (event_uri e)) n) s = (r, s')"
    using 4(2) by (simp add: in_memory_retry_store_def)
  show ?case unfolding mem_ok_def
    by (rule mem_call_law [OF 4(1) [unfolded mem_ok_def] c])
      (simp_all add: cas_post_def mem_cas_eq)
next
  case (5 P s now limit r s')
  have c: "mem_call (mem_fetch_ready now limit) s = (r, s')"
    using 5(2) by (simp add: in_memory_retry_store_def)
  have "\<exists>m. P m \<and> (map_of (kv s') = m \<and> fetch_post m r) \<and>
      (P (map_of (kv s')) \<longrightarrow> store_ok map_of dkeys P s')"
    by (rule mem_call_law [OF 5(1) [unfolded mem_ok_def] c])
      (auto simp: mem_fetch_ready_def fetch_post_def dkeys_take_opt dkeys_filter
        dest: subsetD [OF set_take_opt])
  then show ?case by (auto simp: mem_ok_def)
qed

section \<open>The quiet case\<close>

definition env_quiet :: "'s world \<Rightarrow> bool" where
  "env_quiet w \<longleftrightarrow> env w = (\<lambda>_ s. s)"

definition redis_quiet :: "retry_kv world \<Rightarrow> bool" where
  "redis_quiet w \<longleftrightarrow> no_orphan (kv w) \<and> env_quiet w"

definition mem_quiet :: "mem_map world \<Rightarrow> bool" where
  "mem_quiet w \<longleftrightarrow> dkeys (kv w) \<and> env_quiet w"

lemma env_quiet_keeps: "env_quiet w \<Longrightarrow> env_keeps I w"
  by (simp add: env_quiet_def env_keeps_def)

lemma env_quiet_same: "same_schedule w w' \<Longrightarrow> env_quiet w' = env_quiet w"
  by (simp add: same_schedule_def env_quiet_def)

lemma redis_quiet_ok: "redis_quiet w \<longleftrightarrow> env_quiet w \<and> redis_ok (\<lambda>_. True) w"
  by (auto simp: redis_quiet_def redis_ok_def store_ok_def env_quiet_keeps)

lemma mem_quiet_ok: "mem_quiet w \<longleftrightarrow> env_quiet w \<and> mem_ok (\<lambda>_. True) w"
  by (auto simp: mem_quiet_def mem_ok_def store_ok_def env_quiet_keeps)

lemma ep_call_schedule: "ep_call sh f w = (r, w') \<Longrightarrow> same_schedule w w'"
  by (auto simp: ep_call_def split: prod.splits dest: redis_call_schedule)

lemma mem_call_schedule: "mem_call f w = (r, w') \<Longrightarrow> same_schedule w w'"
  by (auto simp: mem_call_def split: prod.splits dest: lock_call_schedule)

lemma fetch_ready_keys_schedule:
  "fetch_ready_keys sh now limit w = (r, w') \<Longrightarrow> same_schedule w w'"
  by (auto simp: fetch_ready_keys_def Let_def split: prod.splits sum.splits bool.splits
      dest!: redis_call_schedule intro: same_schedule_trans)

lemma redis_fetch_ready_schedule:
  "redis_fetch_ready sh now limit w = (r, w') \<Longrightarrow> same_schedule w w'"
  by (auto simp: redis_fetch_ready_def split: prod.splits sum.splits if_splits
      dest!: ep_call_schedule fetch_ready_keys_schedule intro: same_schedule_trans)

lemma finite_dom_redis_entries:
  assumes "no_orphan s"
  shows "finite (dom (redis_entries s))"
proof (rule finite_subset)
  show "dom (redis_entries s) \<subseteq> fst ` set (events_zset s)"
    using assms by (force simp: no_orphan_def redis_entries_def dom_def)
qed simp

interpretation redis_store: retry_store_quiet
  "redis_retry_store sh blake3" "for_uri blake3" "\<lambda>w. redis_entries (kv w)" redis_ok redis_quiet
proof (unfold_locales, goal_cases)
  case (1 s P)
  then show ?case by (simp add: redis_quiet_def redis_ok_def store_ok_def env_quiet_keeps)
next
  case (2 s)
  then show ?case by (simp add: redis_quiet_def finite_dom_redis_entries)
next
  case (3 s k n r s')
  then have "same_schedule s s'" by (auto simp: redis_retry_store_def dest: ep_call_schedule)
  with 3 redis_store.remove_if_keeps [of "\<lambda>_. True" s sh blake3 k n r s'] show ?case
    by (simp add: redis_quiet_ok env_quiet_same)
next
  case (4 s e n r s')
  then have "same_schedule s s'" by (auto simp: redis_retry_store_def dest: ep_call_schedule)
  with 4 redis_store.put_if_keeps [of "\<lambda>_. True" s sh blake3 e n r s'] show ?case
    by (simp add: redis_quiet_ok env_quiet_same)
next
  case (5 s now limit rl s')
  then have "same_schedule s s'"
    by (auto simp: redis_retry_store_def dest: redis_fetch_ready_schedule)
  with 5 redis_store.fetch_law [of "\<lambda>_. True" s sh blake3 now limit rl s'] show ?case
    by (simp add: redis_quiet_ok env_quiet_same)
qed

interpretation mem_store: retry_store_quiet
  "in_memory_retry_store blake3" "for_uri blake3" "\<lambda>w. map_of (kv w)" mem_ok mem_quiet
proof (unfold_locales, goal_cases)
  case (1 s P)
  then show ?case by (simp add: mem_quiet_def mem_ok_def store_ok_def env_quiet_keeps)
next
  case (2 s)
  then show ?case by (simp add: finite_dom_map_of)
next
  case (3 s k n r s')
  then have "same_schedule s s'" by (auto simp: in_memory_retry_store_def dest: mem_call_schedule)
  with 3 mem_store.remove_if_keeps [of "\<lambda>_. True" s blake3 k n r s'] show ?case
    by (simp add: mem_quiet_ok env_quiet_same)
next
  case (4 s e n r s')
  then have "same_schedule s s'" by (auto simp: in_memory_retry_store_def dest: mem_call_schedule)
  with 4 mem_store.put_if_keeps [of "\<lambda>_. True" s blake3 e n r s'] show ?case
    by (simp add: mem_quiet_ok env_quiet_same)
next
  case (5 s now limit rl s')
  then have "same_schedule s s'" by (auto simp: in_memory_retry_store_def dest: mem_call_schedule)
  with 5 mem_store.fetch_law [of "\<lambda>_. True" s blake3 now limit rl s'] show ?case
    by (simp add: mem_quiet_ok env_quiet_same)
qed

section \<open>The two stores fetch the same entries\<close>

text \<open>
  \<open>aligned s\<close>: no tombstones either. \<open>exact_times\<close>: the due times and the current time are
  integers a double represents exactly (milliseconds until far beyond the year 200000).
\<close>

definition aligned :: "retry_kv \<Rightarrow> bool" where
  "aligned s \<longleftrightarrow> no_orphan s \<and> fst ` set (events_zset s) \<subseteq> dom (json_state s)"

definition exact_times :: "int \<Rightarrow> queue \<Rightarrow> bool" where
  "exact_times now m \<longleftrightarrow>
     \<bar>now\<bar> < 2 ^ 53 \<and> (\<forall>k e. m k = Some e \<longrightarrow> \<bar>next_retry_at e\<bar> < 2 ^ 53)"

lemma sorted_key_unique:
  assumes "set xs = set ys" "dkeys xs" "dkeys ys"
    and "sorted (map due_key xs)" "sorted (map due_key ys)"
  shows "xs = ys"
proof -
  have inj: "inj_on due_key (set xs)" if "dkeys xs" for xs :: mem_map
    using that by (auto simp: inj_on_def due_key_def dest: eq_key_imp_eq_value)
  have d: "distinct (map due_key xs)" if "dkeys xs" for xs :: mem_map
    using that inj [OF that] by (simp add: distinct_map)
  have "map due_key xs = map due_key ys"
    using assms d by (intro sorted_distinct_set_unique) simp_all
  then show ?thesis
    using inj [OF assms(2)] assms(1) by (simp add: inj_on_map_eq_map)
qed

lemma split_stale_resolved:
  "\<forall>p \<in> set ps. m (fst p) \<noteq> None \<Longrightarrow>
     split_stale ps (map m (map fst ps)) = (map (\<lambda>p. (fst p, the (m (fst p)))) ps, [])"
  by (induction ps) (auto split: option.splits)

text \<open>With no interference and no failures, the Redis fetch resolves the range it read.\<close>

lemma redis_fetch_ready_quiet:
  assumes "env_quiet w" "fault w = (\<lambda>_. None)" "aligned (kv w)"
  shows "fst (redis_fetch_ready sh now limit w) =
    Inr (map (\<lambda>p. (fst p, the (redis_entries (kv w) (fst p))))
           (zrange_up_to (f64_of_int now) limit (events_zset (kv w))))"
proof -
  let ?ps = "zrange_up_to (f64_of_int now) limit (events_zset (kv w))"
  have sub: "set ?ps \<subseteq> set (events_zset (kv w))"
    by (auto simp: zrange_up_to_def dest!: in_set_takeD)
  have call: "redis_call f w1 = (Inr (fst (f (kv w1))), w1\<lparr>kv := snd (f (kv w1)), tick := Suc (tick w1)\<rparr>)"
    if "env_quiet w1" "fault w1 = (\<lambda>_. None)" for f :: "retry_kv \<Rightarrow> 'x \<times> retry_kv" and w1
    using that by (simp add: redis_call_def env_step_def env_quiet_def)
  have "\<forall>p\<in>set ?ps. redis_entries (kv w) (fst p) \<noteq> None"
    using assms(3) sub by (force simp: aligned_def redis_entries_def)
  note res = split_stale_resolved [OF this]
  show ?thesis
  proof (cases "events_zset (kv w) = []")
    case True
    then show ?thesis using assms
      by (simp add: redis_fetch_ready_def fetch_ready_keys_def redis_call_def env_step_def
          env_quiet_def zset_exists_def zrange_up_to_def)
  next
    case False
    then show ?thesis using assms res
      by (simp add: redis_fetch_ready_def fetch_ready_keys_def redis_call_def env_step_def
          env_quiet_def zset_exists_def zset_range_def ep_call_def json_mget_def
          redis_entries_def [abs_def] Let_def comp_def split: prod.splits)
  qed
qed

lemma aligned_scores:
  assumes "aligned s" "exact_times now (redis_entries s)"
  shows "(k, sc) \<in> set (events_zset s) \<longleftrightarrow>
    (\<exists>e. redis_entries s k = Some e \<and> sc = next_retry_at e)"
proof
  assume k: "(k, sc) \<in> set (events_zset s)"
  then obtain j where j: "json_state s k = Some j" using assms(1) by (force simp: aligned_def)
  have "map_of (events_zset s) k = Some (f64_of_int (js_next_retry_at j))"
    using assms(1) j by (simp add: aligned_def no_orphan_def del: map_of_eq_Some_iff)
  moreover have "map_of (events_zset s) k = Some sc"
    using assms(1) k by (simp add: aligned_def no_orphan_def)
  ultimately have "sc = f64_of_int (js_next_retry_at j)" by simp
  moreover have "\<bar>js_next_retry_at j\<bar> < 2 ^ 53"
    using assms(2) j by (fastforce simp: exact_times_def redis_entries_def)
  ultimately show "\<exists>e. redis_entries s k = Some e \<and> sc = next_retry_at e"
    using j by (simp add: redis_entries_def f64_of_int_exact)
next
  assume "\<exists>e. redis_entries s k = Some e \<and> sc = next_retry_at e"
  then obtain j where j: "json_state s k = Some j" "sc = js_next_retry_at j"
    by (auto simp: redis_entries_def)
  moreover have "\<bar>js_next_retry_at j\<bar> < 2 ^ 53"
    using assms(2) j by (fastforce simp: exact_times_def redis_entries_def)
  then have "f64_of_int (js_next_retry_at j) = js_next_retry_at j" by (rule f64_of_int_exact)
  ultimately show "(k, sc) \<in> set (events_zset s)"
    using assms(1) by (metis aligned_def no_orphan_def map_of_SomeD)
qed

lemma range_is_ready_list:
  assumes al: "aligned s" and ex: "exact_times now (redis_entries s)"
    and m: "dkeys m" "map_of m = redis_entries s"
  shows "map (\<lambda>p. (fst p, the (redis_entries s (fst p))))
      (filter (\<lambda>(k, sc). sc \<le> f64_of_int now) (sort_key score_key (events_zset s))) =
    sort_key due_key (filter (\<lambda>(k, e). next_retry_at e \<le> now) m)"
    (is "map ?g ?z = sort_key due_key ?m")
proof (rule sorted_key_unique)
  have now: "f64_of_int now = now" using ex by (simp add: exact_times_def f64_of_int_exact)
  have z: "(k, sc) \<in> set ?z \<longleftrightarrow> (\<exists>e. redis_entries s k = Some e \<and> sc = next_retry_at e) \<and> sc \<le> now" for k sc
    using aligned_scores [OF al ex, of k sc] now by (simp add: conj_commute)
  have me: "(k, e) \<in> set m \<longleftrightarrow> redis_entries s k = Some e" for k e
    using m by (simp flip: map_of_iff_set)
  have "(k, e) \<in> set (map ?g ?z) \<longleftrightarrow> (k, e) \<in> set ?m" for k e
  proof
    assume "(k, e) \<in> set (map ?g ?z)"
    then obtain sc where "(k, sc) \<in> set ?z" "e = the (redis_entries s k)" by auto
    then show "(k, e) \<in> set ?m" using z [of k sc] me by auto
  next
    assume "(k, e) \<in> set ?m"
    then have "redis_entries s k = Some e" "(k, next_retry_at e) \<in> set ?z"
      using me z [of k "next_retry_at e"] by simp_all
    then show "(k, e) \<in> set (map ?g ?z)"
      unfolding list.set_map by (intro image_eqI [where x = "(k, next_retry_at e)"]) simp_all
  qed
  then have "set (map ?g ?z) = set ?m" by (intro set_eqI) (simp only: split_paired_all)
  then show "set (map ?g ?z) = set (sort_key due_key ?m)" by (simp only: set_sort)
  have "dkeys ?z" using al by (simp add: aligned_def no_orphan_def dkeys_filter)
  then show "dkeys (map ?g ?z)" by (simp add: comp_def)
  show "dkeys (sort_key due_key ?m)" using m(1) by (simp add: dkeys_filter)
  have kk: "due_key (?g p) = score_key p" if "p \<in> set ?z" for p
    using that z [of "fst p" "snd p"] by (auto simp: due_key_def score_key_def)
  have "map due_key (map ?g ?z) = map score_key ?z"
    unfolding map_map comp_def by (rule map_cong [OF refl kk])
  then show "sorted (map due_key (map ?g ?z))"
    by (simp only: sorted_filter sorted_sort_key)
  show "sorted (map due_key (sort_key due_key ?m))" by simp
qed

end
