(* ===== verification/Event_Processor.thy ===== *)
theory Event_Processor
  imports Retry_Store
begin

text \<open>
  What all event processors share: the retry scheduler (events/retry/scheduler.rs), which puts
  a failed event on the retry queue, and the provided methods of the trait \<open>TEventProcessor\<close>
  (service/indexer/mod.rs), which decide for every event line whether it is handled, dropped,
  queued for retry or stops the batch. A processor is the record of what its implementation
  supplies; the state \<open>'s\<close> is everything its calls can touch.
\<close>

section \<open>Configuration (nexus-common/src/config/watcher.rs)\<close>

record event_retry_config =
  max_retries :: nat
  max_dependency_retries :: nat
  initial_backoff_secs :: nat
  max_backoff_secs :: nat
  initial_missing_dep_backoff_secs :: nat
  max_missing_dep_backoff_secs :: nat

definition default_retry_config :: event_retry_config where
  "default_retry_config =
     \<lparr>max_retries = 10, max_dependency_retries = 50,
      initial_backoff_secs = 10, max_backoff_secs = 3600,
      initial_missing_dep_backoff_secs = 60, max_missing_dep_backoff_secs = 3600\<rparr>"

section \<open>The retry scheduler\<close>

record initial_backoff =
  missing_dep_ms :: int
  transient_ms :: int

definition initial_backoff_from_config :: "event_retry_config \<Rightarrow> initial_backoff" where
  "initial_backoff_from_config c =
     \<lparr>missing_dep_ms = wrap_i64 (wrap_i64 (int (initial_missing_dep_backoff_secs c)) * 1000),
      transient_ms = wrap_i64 (wrap_i64 (int (initial_backoff_secs c)) * 1000)\<rparr>"

record 's retry_scheduler =
  sched_store :: "'s retry_store"
  sched_initial :: initial_backoff
  sched_now_ms :: "'s \<Rightarrow> int \<times> 's"
  sched_now_ns :: "'s \<Rightarrow> int \<times> 's"

definition enqueue ::
  "'s retry_scheduler \<Rightarrow> event \<Rightarrow> int \<Rightarrow> string \<Rightarrow> 's \<Rightarrow> (ep_error, unit) result \<times> 's" where
  "enqueue sc ev initial_backoff_ms origin s =
     (case sched_now_ms sc s of (now, s1) \<Rightarrow>
      case sched_now_ns sc s1 of (nanos, s2) \<Rightarrow>
        rs_put (sched_store sc)
          (retry_event_new ev (wrap_i64 (now + initial_backoff_ms)) origin (fresh_nonce nanos)) s2)"

definition queue_missing_dep ::
  "'s retry_scheduler \<Rightarrow> event \<Rightarrow> string \<Rightarrow> 's \<Rightarrow> (ep_error, unit) result \<times> 's" where
  "queue_missing_dep sc ev origin = enqueue sc ev (missing_dep_ms (sched_initial sc)) origin"

definition queue_transient ::
  "'s retry_scheduler \<Rightarrow> event \<Rightarrow> string \<Rightarrow> 's \<Rightarrow> (ep_error, unit) result \<times> 's" where
  "queue_transient sc ev origin = enqueue sc ev (transient_ms (sched_initial sc)) origin"

section \<open>Runs and their outcomes\<close>

datatype run_outcome = Completed | BudgetSpent

datatype run_error = Internal ep_error | Panicked | RunBudgetSpent

text \<open>
  \<open>TEventProcessor::run\<close> runs \<open>run_internal\<close> on its own task; \<open>None\<close> is a join error (the task
  panicked). Slow runs are only logged, so the wait has no effect on the result.
\<close>

definition run_result ::
  "(ep_error, run_outcome) result option \<Rightarrow> (run_error, unit) result" where
  "run_result join =
     (case join of
        None \<Rightarrow> Inl Panicked
      | Some (Inr Completed) \<Rightarrow> Inr ()
      | Some (Inr BudgetSpent) \<Rightarrow> Inl RunBudgetSpent
      | Some (Inl e) \<Rightarrow> Inl (Internal e))"

section \<open>Provided methods of the processor trait\<close>

record 's processor =
  p_handle :: "event \<Rightarrow> 's \<Rightarrow> (ep_error, unit) result \<times> 's"
  p_should_process :: "event \<Rightarrow> 's \<Rightarrow> (ep_error, bool) result \<times> 's"
  p_scheduler :: "'s retry_scheduler option"
  p_homeserver_id :: "string option"
  p_specs :: uri_specs

definition handle_error ::
  "'s processor \<Rightarrow> event \<Rightarrow> ep_error \<Rightarrow> 's \<Rightarrow> (ep_error, unit) result \<times> 's" where
  "handle_error p ev err s =
     (if should_not_retry_now err then (Inl err, s)
      else if \<not> should_enqueue_related_event err then (Inr (), s)
      else case p_scheduler p of
             None \<Rightarrow> (Inr (), s)
           | Some sc \<Rightarrow>
               (case p_homeserver_id p of
                  None \<Rightarrow> (Inr (), s)
                | Some hs_id \<Rightarrow>
                    if is_missing_dependency err then queue_missing_dep sc ev hs_id s
                    else queue_transient sc ev hs_id s))"

definition handle_event :: "'s processor \<Rightarrow> event \<Rightarrow> 's \<Rightarrow> (ep_error, unit) result \<times> 's" where
  "handle_event p ev s =
     (case p_should_process p ev s of
        (Inl e, s1) \<Rightarrow> handle_error p ev e s1
      | (Inr False, s1) \<Rightarrow> (Inr (), s1)
      | (Inr True, s1) \<Rightarrow>
          (case p_handle p ev s1 of
             (Inl e, s2) \<Rightarrow> handle_error p ev e s2
           | (Inr _, s2) \<Rightarrow> (Inr (), s2)))"

definition process_event_line :: "'s processor \<Rightarrow> string \<Rightarrow> 's \<Rightarrow> (ep_error, unit) result \<times> 's" where
  "process_event_line p line s =
     (case parse_event (p_specs p) line of
        Inl _ \<Rightarrow> (Inr (), s)
      | Inr Skipped \<Rightarrow> (Inr (), s)
      | Inr (UnrecognizedUri _ _ _) \<Rightarrow> (Inr (), s)
      | Inr (Parsed ev) \<Rightarrow> handle_event p ev s)"

section \<open>Lemmas\<close>

lemma default_initial_backoff:
  "initial_backoff_from_config default_retry_config = \<lparr>missing_dep_ms = 60000, transient_ms = 10000\<rparr>"
  by (simp add: initial_backoff_from_config_def default_retry_config_def wrap_i64_def)

lemma initial_backoff_exact:
  assumes "int (initial_backoff_secs c) * 1000 < 2 ^ 63"
  shows "transient_ms (initial_backoff_from_config c) = int (initial_backoff_secs c) * 1000"
proof -
  have "i64_ok (int (initial_backoff_secs c))" "i64_ok (int (initial_backoff_secs c) * 1000)"
    using assms by (simp_all add: i64_ok_def)
  then show ?thesis by (simp add: initial_backoff_from_config_def)
qed

text \<open>
  \<open>handle_error\<close> in one table: an error stops the batch, is dropped without touching the state,
  or is queued with the backoff of its class.
\<close>

lemma handle_error_cases:
  assumes "p_scheduler p = Some sc" "p_homeserver_id p = Some hs_id"
  shows "handle_error p ev err s =
    (if should_not_retry_now err then (Inl err, s)
     else if \<not> should_enqueue_related_event err then (Inr (), s)
     else enqueue sc ev (if is_missing_dependency err then missing_dep_ms (sched_initial sc)
                         else transient_ms (sched_initial sc)) hs_id s)"
  using assms by (simp add: handle_error_def queue_missing_dep_def queue_transient_def)

lemma handle_event_handled:
  "p_should_process p ev s = (Inr True, s1) \<Longrightarrow> p_handle p ev s1 = (r, s2) \<Longrightarrow>
   handle_event p ev s = (case r of Inr _ \<Rightarrow> (Inr (), s2) | Inl e \<Rightarrow> handle_error p ev e s2)"
  by (simp add: handle_event_def split: sum.splits)

text \<open>An event is queued under the key of its URI with a zero count and a fresh nonce.\<close>

context retry_store_contract
begin

lemma enqueue_entry:
  assumes "ok P s2" and "sched_store sc = st"
    and "sched_now_ms sc s = (now, s1)" and "sched_now_ns sc s1 = (nanos, s2)"
    and "enqueue sc ev ms origin s = (Inr (), s')"
  shows "entries s' (key_of (ev_uri ev)) =
    Some (retry_event_new ev (wrap_i64 (now + ms)) origin (fresh_nonce nanos))"
proof -
  let ?e = "retry_event_new ev (wrap_i64 (now + ms)) origin (fresh_nonce nanos)"
  have "rs_put st ?e s2 = (Inr (), s')"
    using assms(2-5) by (simp add: enqueue_def)
  from put_law [OF assms(1) this] show ?thesis
    by (auto simp: put_post_def retry_event_new_def)
qed

end

end
