(* ===== verification/Retry_Processor.thy ===== *)
theory Retry_Processor
  imports Event_Processor
begin

text \<open>
  The retry processor (events/retry/processor.rs): exponential backoff, what happens to a
  fetched entry after its event is handled again, and the loop that drains the entries that are
  due. The abstract specification of one attempt is \<open>next_entry\<close>; the lemmas of the locale show
  that the processor implements it on any store that meets the contract, that it never touches
  an entry enqueued meanwhile, and that the loop ends.
\<close>

section \<open>Model\<close>

definition checked_pow2_u64 :: "nat \<Rightarrow> nat option" where
  "checked_pow2_u64 n = (if n < 64 then Some (2 ^ n) else None)"

definition checked_mul_u64 :: "nat \<Rightarrow> nat \<Rightarrow> nat option" where
  "checked_mul_u64 a b = (if a * b < 2 ^ 64 then Some (a * b) else None)"

definition calculate_backoff :: "nat \<Rightarrow> nat \<Rightarrow> nat \<Rightarrow> nat" where
  "calculate_backoff rc initial mx =
     min (case Option.bind (checked_pow2_u64 rc) (checked_mul_u64 initial) of
            Some x \<Rightarrow> x | None \<Rightarrow> mx) mx"

definition max_retries_for :: "event_retry_config \<Rightarrow> ep_error \<Rightarrow> nat" where
  "max_retries_for c err =
     (if is_missing_dependency err then max_dependency_retries c else max_retries c)"

definition backoff_params_for :: "event_retry_config \<Rightarrow> ep_error \<Rightarrow> nat \<times> nat" where
  "backoff_params_for c err =
     (if is_missing_dependency err
      then (initial_missing_dep_backoff_secs c, max_missing_dep_backoff_secs c)
      else (initial_backoff_secs c, max_backoff_secs c))"

record 's retry_processor =
  rp_handle :: "event \<Rightarrow> 's \<Rightarrow> (ep_error, unit) result \<times> 's"
  rp_shutdown :: "'s \<Rightarrow> bool \<times> 's"
  rp_now :: "'s \<Rightarrow> int \<times> 's"
  rp_config :: event_retry_config
  rp_store :: "'s retry_store"
  rp_specs :: uri_specs

definition RETRY_BATCH_SIZE :: nat where
  "RETRY_BATCH_SIZE = 100"

definition remove_if_current ::
  "'s retry_processor \<Rightarrow> index_key \<Rightarrow> int \<Rightarrow> 's \<Rightarrow> (ep_error, unit) result \<times> 's" where
  "remove_if_current p k n s =
     (case rs_remove_if (rp_store p) k n s of
        (Inl e, s1) \<Rightarrow> (Inl e, s1)
      | (Inr _, s1) \<Rightarrow> (Inr (), s1))"

text \<open>The entry a reschedule writes: same nonce, new due time, the count consumed or not.\<close>

definition rescheduled ::
  "event_retry_config \<Rightarrow> retry_event \<Rightarrow> ep_error \<Rightarrow> bool \<Rightarrow> int \<Rightarrow> retry_event" where
  "rescheduled c re err increment_count now =
     (let (initial, mx) = backoff_params_for c err;
          backoff_secs = calculate_backoff (retry_count re) initial mx
      in re\<lparr>retry_count := (if increment_count then retry_count re + 1 else retry_count re),
            next_retry_at := wrap_i64 (now + wrap_i64 (wrap_i64 (int backoff_secs) * 1000))\<rparr>)"

definition reschedule ::
  "'s retry_processor \<Rightarrow> retry_event \<Rightarrow> ep_error \<Rightarrow> bool \<Rightarrow> 's \<Rightarrow> (ep_error, unit) result \<times> 's" where
  "reschedule p re err increment_count s =
     (case rp_now p s of (now, s1) \<Rightarrow>
        (case rs_put_if (rp_store p) (rescheduled (rp_config p) re err increment_count now)
                (nonce re) s1 of
           (Inl e, s2) \<Rightarrow> (Inl e, s2)
         | (Inr _, s2) \<Rightarrow> (Inr (), s2)))"

definition process_retry_event ::
  "'s retry_processor \<Rightarrow> index_key \<Rightarrow> retry_event \<Rightarrow> 's \<Rightarrow> (ep_error, unit) result \<times> 's" where
  "process_retry_event p k re s =
     (case parse_event (rp_specs p) (event_line_of (event_type re) (event_uri re)) of
        Inr (Parsed ev) \<Rightarrow>
          (case rp_handle p ev s of
             (Inr _, s1) \<Rightarrow> remove_if_current p k (nonce re) s1
           | (Inl err, s1) \<Rightarrow>
               if \<not> should_enqueue_related_event err then remove_if_current p k (nonce re) s1
               else if should_not_retry_now err then
                 (case reschedule p re err False s1 of
                    (Inl e, s2) \<Rightarrow> (Inl e, s2)
                  | (Inr _, s2) \<Rightarrow> (Inl err, s2))
               else if retry_count re \<ge> max_retries_for (rp_config p) err then
                 remove_if_current p k (nonce re) s1
               else reschedule p re err True s1)
      | _ \<Rightarrow> remove_if_current p k (nonce re) s)"

text \<open>The \<open>for\<close> loop over a batch; \<open>True\<close> means that it stopped for shutdown.\<close>

fun process_batch ::
  "'s retry_processor \<Rightarrow> (index_key \<times> retry_event) list \<Rightarrow> 's \<Rightarrow> (ep_error, bool) result \<times> 's" where
  "process_batch p [] s = (Inr False, s)"
| "process_batch p ((k, re) # evs) s =
     (case rp_shutdown p s of
        (True, s1) \<Rightarrow> (Inr True, s1)
      | (False, s1) \<Rightarrow>
          (case process_retry_event p k re s1 of
             (Inl e, s2) \<Rightarrow> (Inl e, s2)
           | (Inr _, s2) \<Rightarrow> process_batch p evs s2))"

text \<open>The outer loop; \<open>None\<close> is a run that never returns.\<close>

partial_function (option) retry_loop ::
  "'s retry_processor \<Rightarrow> int \<Rightarrow> 's \<Rightarrow> ((ep_error, run_outcome) result \<times> 's) option" where
  "retry_loop p now s =
     (case rs_fetch_ready (rp_store p) now (Some RETRY_BATCH_SIZE) s of
        (Inl e, s1) \<Rightarrow> Some (Inl e, s1)
      | (Inr evs, s1) \<Rightarrow>
          if evs = [] then Some (Inr Completed, s1)
          else (case process_batch p evs s1 of
                  (Inl e, s2) \<Rightarrow> Some (Inl e, s2)
                | (Inr stopped, s2) \<Rightarrow>
                    if stopped then Some (Inr Completed, s2) else retry_loop p now s2))"

definition retry_run_internal ::
  "'s retry_processor \<Rightarrow> 's \<Rightarrow> ((ep_error, run_outcome) result \<times> 's) option" where
  "retry_run_internal p s = (case rp_now p s of (now, s1) \<Rightarrow> retry_loop p now s1)"

section \<open>Specification of one attempt\<close>

text \<open>What one attempt leaves at the entry's key, by the result of its handler.\<close>

definition next_entry ::
  "event_retry_config \<Rightarrow> retry_event \<Rightarrow> (ep_error, unit) result \<Rightarrow> int \<Rightarrow> retry_event option" where
  "next_entry c re r now =
     (case r of
        Inr _ \<Rightarrow> None
      | Inl err \<Rightarrow>
          if \<not> should_enqueue_related_event err then None
          else if should_not_retry_now err then Some (rescheduled c re err False now)
          else if max_retries_for c err \<le> retry_count re then None
          else Some (rescheduled c re err True now))"

section \<open>Backoff\<close>

lemma checked_backoff_None:
  assumes "Option.bind (checked_pow2_u64 rc) (checked_mul_u64 initial) = None"
    and "0 < initial \<or> rc < 64"
  shows "2 ^ 64 \<le> initial * 2 ^ rc"
proof (cases "rc < 64")
  case True
  with assms(1) show ?thesis
    by (auto simp: checked_pow2_u64_def checked_mul_u64_def split: if_splits)
next
  case False
  then have "(2::nat) ^ 64 \<le> 2 ^ rc" by (intro power_increasing) simp_all
  moreover have "0 < initial" using assms(2) False by simp
  ultimately show ?thesis by (metis One_nat_def Suc_leI le_trans mult_le_mono1 nat_mult_1)
qed

lemma calculate_backoff_eq:
  assumes "0 < initial \<or> rc < 64" and "mx < 2 ^ 64"
  shows "calculate_backoff rc initial mx = min (initial * 2 ^ rc) mx"
proof (cases "Option.bind (checked_pow2_u64 rc) (checked_mul_u64 initial)")
  case None
  with checked_backoff_None [OF None assms(1)] assms(2) show ?thesis
    by (simp add: calculate_backoff_def min_def)
next
  case (Some x)
  then have "x = initial * 2 ^ rc"
    by (auto simp: checked_pow2_u64_def checked_mul_u64_def Option.bind_eq_Some_conv split: if_splits)
  with Some show ?thesis by (simp add: calculate_backoff_def)
qed

lemma calculate_backoff_le: "calculate_backoff rc initial mx \<le> mx"
  by (simp add: calculate_backoff_def)

lemma rescheduled_simps [simp]:
  "nonce (rescheduled c re err b now) = nonce re"
  "event_uri (rescheduled c re err b now) = event_uri re"
  "event_type (rescheduled c re err b now) = event_type re"
  "origin_homeserver_id (rescheduled c re err b now) = origin_homeserver_id re"
  "retry_count (rescheduled c re err b now) = (if b then Suc (retry_count re) else retry_count re)"
  by (simp_all add: rescheduled_def Let_def split: prod.splits)

lemma next_entry_Some:
  assumes "next_entry c re r now = Some re'"
  shows "nonce re' = nonce re" "event_uri re' = event_uri re" "retry_count re \<le> retry_count re'"
    "retry_count re' \<le> max (retry_count re) (max (max_retries c) (max_dependency_retries c))"
  using assms
  by (auto simp: next_entry_def max_retries_for_def split: sum.splits if_splits)

section \<open>An attempt never touches a newer entry\<close>

text \<open>
  \<open>own_writes k n P\<close>: removing or replacing the entry of nonce \<open>n\<close> at \<open>k\<close>, the only writes an
  attempt at that entry makes, keeps \<open>P\<close>.
\<close>

definition own_writes :: "index_key \<Rightarrow> int \<Rightarrow> (queue \<Rightarrow> bool) \<Rightarrow> bool" where
  "own_writes k n P \<longleftrightarrow>
     (\<forall>m. P m \<longrightarrow> holds_nonce k n m \<longrightarrow>
        P (m(k := None)) \<and> (\<forall>e. nonce e = n \<longrightarrow> P (m(k \<mapsto> e))))"

lemma own_writes_other:
  assumes "nonce e \<noteq> n" shows "own_writes k n (\<lambda>m. m k = Some e)"
  using assms by (auto simp: own_writes_def holds_nonce_def)

lemma own_writes_absent: "own_writes k n (\<lambda>m. m k = None)"
  by (simp add: own_writes_def holds_nonce_def)

definition keeps :: "('s \<Rightarrow> bool) \<Rightarrow> ('s \<Rightarrow> 'a \<times> 's) \<Rightarrow> bool" where
  "keeps Q f \<longleftrightarrow> (\<forall>s r s'. Q s \<longrightarrow> f s = (r, s') \<longrightarrow> Q s')"

lemma keepsD: "keeps Q f \<Longrightarrow> Q s \<Longrightarrow> f s = (r, s') \<Longrightarrow> Q s'"
  by (auto simp: keeps_def)

context retry_store_contract
begin

lemma remove_if_current_keeps:
  assumes "rp_store p = st" "ok P s" "own_writes k n P" "remove_if_current p k n s = (r, s')"
  shows "ok P s'"
proof -
  obtain rb s1 where c: "rs_remove_if st k n s = (rb, s1)" by force
  then have "ok P s1"
    using assms(2,3) by (auto intro: remove_if_keeps simp: own_writes_def)
  moreover have "s' = s1" using assms(1,4) c by (auto simp: remove_if_current_def split: sum.splits)
  ultimately show ?thesis by simp
qed

lemma reschedule_keeps:
  assumes "rp_store p = st" "ok P s" "own_writes (key_of (event_uri re)) (nonce re) P"
    and "keeps (ok P) (rp_now p)" "reschedule p re err b s = (r, s')"
  shows "ok P s'"
proof -
  obtain now s1 where n: "rp_now p s = (now, s1)" by force
  with assms(2,4) have ok1: "ok P s1" by (auto dest: keepsD)
  let ?e = "rescheduled (rp_config p) re err b now"
  obtain rb s2 where c: "rs_put_if st ?e (nonce re) s1 = (rb, s2)" by force
  have "ok P s2"
    using ok1 assms(3) by (auto intro: put_if_keeps [OF _ c] simp: own_writes_def)
  moreover have "s' = s2" using assms(1,5) n c by (auto simp: reschedule_def split: sum.splits)
  ultimately show ?thesis by simp
qed

text \<open>What happens after the handler returned, whatever the handler did.\<close>

lemma after_handler_keeps:
  assumes st: "rp_store p = st" and own: "own_writes (key_of (event_uri re)) (nonce re) P"
    and now: "keeps (ok P) (rp_now p)"
    and pe: "parse_event (rp_specs p) (event_line_of (event_type re) (event_uri re)) = Inr (Parsed ev)"
    and hd: "rp_handle p ev s = (rh, s1)" and ok1: "ok P s1"
    and run: "process_retry_event p (key_of (event_uri re)) re s = (r, s')"
  shows "ok P s'"
  using run pe hd
  by (auto simp: process_retry_event_def split: sum.splits if_splits prod.splits
      intro: remove_if_current_keeps [OF st ok1 own] reschedule_keeps [OF st ok1 own now])

end

section \<open>An attempt on a quiet store implements its specification\<close>

definition weight :: "nat \<Rightarrow> queue \<Rightarrow> nat" where
  "weight M m = (\<Sum>k\<in>dom m. Suc (M - retry_count (the (m k))))"

definition keyed :: "(string \<Rightarrow> index_key) \<Rightarrow> queue \<Rightarrow> bool" where
  "keyed key_of m \<longleftrightarrow> (\<forall>k e. m k = Some e \<longrightarrow> key_of (event_uri e) = k)"

lemma weight_upd:
  assumes "finite (dom m)" "m k = Some e"
    and "\<And>e'. v = Some e' \<Longrightarrow> M - retry_count e' < M - retry_count e"
  shows "weight M (m(k := v)) < weight M m"
proof -
  let ?w = "\<lambda>m k. Suc (M - retry_count (the (m k)))"
  let ?D = "dom m - {k}"
  have k: "k \<in> dom m" using assms(2) by auto
  have rest: "(\<Sum>j\<in>?D. ?w (m(k := v)) j) = (\<Sum>j\<in>?D. ?w m j)"
    by (rule sum.cong) auto
  have old: "weight M m = ?w m k + (\<Sum>j\<in>?D. ?w m j)"
    unfolding weight_def using assms(1) k by (rule sum.remove)
  show ?thesis
  proof (cases v)
    case None
    then have "weight M (m(k := v)) = (\<Sum>j\<in>?D. ?w (m(k := v)) j)" by (simp add: weight_def)
    then show ?thesis using old rest by simp
  next
    case (Some e')
    have "weight M (m(k := v)) = ?w (m(k := v)) k + (\<Sum>j\<in>?D. ?w (m(k := v)) j)"
      unfolding weight_def using assms(1) Some k
      by (subst sum.remove [of _ k]) (simp_all add: insert_absorb)
    then show ?thesis using old rest assms(2,3) Some by simp
  qed
qed

definition silent :: "('s \<Rightarrow> bool) \<Rightarrow> ('s \<Rightarrow> queue) \<Rightarrow> ('s \<Rightarrow> 'a \<times> 's) \<Rightarrow> bool" where
  "silent quiet entries f \<longleftrightarrow>
     (\<forall>s r s'. quiet s \<longrightarrow> f s = (r, s') \<longrightarrow> quiet s' \<and> entries s' = entries s)"

lemma silentD:
  "silent quiet entries f \<Longrightarrow> quiet s \<Longrightarrow> f s = (r, s') \<Longrightarrow> quiet s' \<and> entries s' = entries s"
  by (auto simp: silent_def)

context retry_store_quiet
begin

lemma remove_if_current_quiet:
  assumes "rp_store p = st" "quiet s" "entries s k = Some re" "nonce re = n"
    and "remove_if_current p k n s = (r, s')"
  shows "quiet s' \<and> entries s' \<in> {entries s, (entries s)(k := None)} \<and>
    (r = Inr () \<longrightarrow> entries s' = (entries s)(k := None))"
proof -
  obtain rb s1 where c: "rs_remove_if st k n s = (rb, s1)" by force
  have "quiet s1 \<and> cas_post k None n (entries s) rb (entries s1)"
    by (rule remove_if_quiet [OF assms(2) c])
  moreover have "holds_nonce k n (entries s)" using assms(3,4) by (simp add: holds_nonce_def)
  ultimately show ?thesis using assms(1,5) c
    by (auto simp: remove_if_current_def cas_post_def split: sum.splits)
qed

lemma reschedule_quiet:
  assumes "rp_store p = st" "quiet s" "entries s k = Some re" "key_of (event_uri re) = k"
    and "silent quiet entries (rp_now p)" "reschedule p re err b s = (r, s')"
    and "v = Some (rescheduled (rp_config p) re err b (fst (rp_now p s)))"
  shows "quiet s' \<and> entries s' \<in> {entries s, (entries s)(k := v)} \<and>
    (r = Inr () \<longrightarrow> entries s' = (entries s)(k := v))"
proof -
  obtain now s1 where n: "rp_now p s = (now, s1)" by force
  then have s1: "quiet s1" "entries s1 = entries s" using silentD [OF assms(5,2)] by simp_all
  let ?e = "rescheduled (rp_config p) re err b now"
  obtain rb s2 where c: "rs_put_if st ?e (nonce re) s1 = (rb, s2)" by force
  have "quiet s2 \<and> cas_post k (Some ?e) (nonce re) (entries s) rb (entries s2)"
    using put_if_quiet [OF s1(1) c] s1(2) assms(4) by simp
  moreover have "holds_nonce k (nonce re) (entries s)" using assms(3) by (simp add: holds_nonce_def)
  moreover have "v = Some ?e" using assms(7) n by simp
  ultimately show ?thesis using assms(1,6) n c
    by (auto simp: reschedule_def cas_post_def split: sum.splits)
qed

lemma process_retry_event_quiet:
  assumes st: "rp_store p = st" and q: "quiet s" and e: "entries s k = Some re"
    and k: "key_of (event_uri re) = k"
    and pe: "parse_event (rp_specs p) (event_line_of (event_type re) (event_uri re)) = Inr (Parsed ev)"
    and h: "silent quiet entries (rp_handle p ev)" and now: "silent quiet entries (rp_now p)"
    and hd: "rp_handle p ev s = (rh, s1)"
    and run: "process_retry_event p k re s = (r, s')"
    and v: "v = next_entry (rp_config p) re rh (fst (rp_now p s1))"
  shows "quiet s' \<and> entries s' \<in> {entries s, (entries s)(k := v)} \<and>
    (r = Inr () \<longrightarrow> entries s' = (entries s)(k := v))"
proof -
  have s1: "quiet s1" "entries s1 = entries s" using silentD [OF h q hd] by simp_all
  then have e1: "entries s1 k = Some re" using e by simp
  note rem = remove_if_current_quiet [OF st s1(1) e1 refl]
    and res = reschedule_quiet [OF st s1(1) e1 k now]
  show ?thesis
  proof (cases rh)
    case (Inr u)
    with run pe hd have "remove_if_current p k (nonce re) s1 = (r, s')"
      by (simp add: process_retry_event_def)
    from rem [OF this] show ?thesis using v Inr s1 by (simp add: next_entry_def)
  next
    case (Inl err)
    consider (drop) "\<not> should_enqueue_related_event err"
      | (stop) "should_enqueue_related_event err" "should_not_retry_now err"
      | (dead) "should_enqueue_related_event err" "\<not> should_not_retry_now err"
          "max_retries_for (rp_config p) err \<le> retry_count re"
      | (again) "should_enqueue_related_event err" "\<not> should_not_retry_now err"
          "\<not> max_retries_for (rp_config p) err \<le> retry_count re"
      by blast
    then show ?thesis
    proof cases
      case drop
      with run pe hd Inl have "remove_if_current p k (nonce re) s1 = (r, s')"
        by (simp add: process_retry_event_def)
      from rem [OF this] show ?thesis using v Inl drop s1 by (simp add: next_entry_def)
    next
      case stop
      obtain r2 s2 where c: "reschedule p re err False s1 = (r2, s2)" by force
      with run pe hd Inl stop have "s' = s2" "\<exists>x. r = Inl x"
        by (auto simp: process_retry_event_def split: sum.splits)
      with res [OF c refl] show ?thesis using v Inl stop s1 by (auto simp: next_entry_def)
    next
      case dead
      with run pe hd Inl have "remove_if_current p k (nonce re) s1 = (r, s')"
        by (simp add: process_retry_event_def)
      from rem [OF this] show ?thesis using v Inl dead s1 by (simp add: next_entry_def)
    next
      case again
      with run pe hd Inl have c: "reschedule p re err True s1 = (r, s')"
        by (simp add: process_retry_event_def)
      from res [OF c refl] show ?thesis using v Inl again s1 by (simp add: next_entry_def)
    qed
  qed
qed

lemma process_unparsable_quiet:
  assumes "rp_store p = st" "quiet s" "entries s k = Some re"
    and "\<forall>ev. parse_event (rp_specs p) (event_line_of (event_type re) (event_uri re)) \<noteq> Inr (Parsed ev)"
    and "process_retry_event p k re s = (r, s')"
  shows "quiet s' \<and> (r = Inr () \<longrightarrow> entries s' = (entries s)(k := None))"
proof -
  have "remove_if_current p k (nonce re) s = (r, s')"
    using assms(4,5) by (auto simp: process_retry_event_def split: sum.splits parse_result.splits)
  from remove_if_current_quiet [OF assms(1-3) refl this] show ?thesis by simp
qed

text \<open>A successful attempt at a fetched entry takes weight from the queue, at its own key only.\<close>

lemma process_retry_event_progress:
  assumes st: "rp_store p = st" and q: "quiet s" and e: "entries s k = Some re"
    and ky: "keyed key_of (entries s)"
    and h: "\<And>ev. silent quiet entries (rp_handle p ev)" and now: "silent quiet entries (rp_now p)"
    and run: "process_retry_event p k re s = (Inr (), s')"
    and M: "M = max (max_retries (rp_config p)) (max_dependency_retries (rp_config p))"
  obtains v where "quiet s'" "entries s' = (entries s)(k := v)"
    "keyed key_of (entries s')" "weight M (entries s') < weight M (entries s)"
proof -
  have k: "key_of (event_uri re) = k" using ky e by (simp add: keyed_def)
  have fin: "finite (dom (entries s))" using q by (rule quiet_finite)
  show thesis
  proof (cases "\<exists>ev. parse_event (rp_specs p) (event_line_of (event_type re) (event_uri re)) = Inr (Parsed ev)")
    case False
    with process_unparsable_quiet [OF st q e _ run]
    have "quiet s'" "entries s' = (entries s)(k := None)" by auto
    moreover have "weight M ((entries s)(k := None)) < weight M (entries s)"
      by (rule weight_upd [OF fin e]) simp
    ultimately show thesis using ky by (intro that [of None]) (auto simp: keyed_def)
  next
    case True
    then obtain ev where pe:
      "parse_event (rp_specs p) (event_line_of (event_type re) (event_uri re)) = Inr (Parsed ev)" ..
    obtain rh s1 where hd: "rp_handle p ev s = (rh, s1)" by force
    let ?v = "next_entry (rp_config p) re rh (fst (rp_now p s1))"
    note spec = process_retry_event_quiet [OF st q e k pe h now hd run refl]
    then have s': "quiet s'" "entries s' = (entries s)(k := ?v)" by simp_all
    have dec: "M - retry_count e' < M - retry_count re" if "?v = Some e'" for e'
    proof -
      have "\<not> (\<exists>err. rh = Inl err \<and> should_enqueue_related_event err \<and> should_not_retry_now err)"
        using run pe hd by (auto simp: process_retry_event_def split: sum.splits prod.splits)
      with that show ?thesis
        by (auto simp: next_entry_def max_retries_for_def M split: sum.splits if_splits)
    qed
    have "weight M ((entries s)(k := ?v)) < weight M (entries s)"
      by (rule weight_upd [OF fin e dec])
    moreover have "keyed key_of (entries s')"
      using ky s'(2) k by (auto simp: keyed_def dest: next_entry_Some)
    ultimately show thesis using s' by (intro that [of ?v]) simp_all
  qed
qed

text \<open>A batch that ran to its end took weight for every entry of it.\<close>

lemma process_batch_progress:
  assumes st: "rp_store p = st"
    and h: "\<And>ev. silent quiet entries (rp_handle p ev)" and now: "silent quiet entries (rp_now p)"
    and sd: "silent quiet entries (rp_shutdown p)"
    and M: "M = max (max_retries (rp_config p)) (max_dependency_retries (rp_config p))"
  shows "quiet s \<Longrightarrow> keyed key_of (entries s) \<Longrightarrow> dkeys evs \<Longrightarrow>
    \<forall>k e. (k, e) \<in> set evs \<longrightarrow> entries s k = Some e \<Longrightarrow> process_batch p evs s = (Inr False, s') \<Longrightarrow>
    quiet s' \<and> keyed key_of (entries s') \<and>
    weight M (entries s') + length evs \<le> weight M (entries s)"
proof (induction evs arbitrary: s)
  case Nil
  then show ?case by simp
next
  case (Cons ke evs)
  obtain k re where ke: "ke = (k, re)" by force
  obtain b s1 where sh: "rp_shutdown p s = (b, s1)" by force
  then have s1: "quiet s1" "entries s1 = entries s"
    using silentD [OF sd Cons.prems(1)] by simp_all
  have b: "b = False" using Cons.prems(5) ke sh by (cases b) simp_all
  obtain r s2 where pr: "process_retry_event p k re s1 = (r, s2)" by force
  have r: "r = Inr ()" and rest: "process_batch p evs s2 = (Inr False, s')"
    using Cons.prems(5) ke sh b pr by (auto split: sum.splits)
  have e1: "entries s1 k = Some re" using Cons.prems(4) ke s1(2) by simp
  have ky1: "keyed key_of (entries s1)" using Cons.prems(2) s1(2) by simp
  obtain v where v: "quiet s2" "entries s2 = (entries s1)(k := v)" "keyed key_of (entries s2)"
    and w: "weight M (entries s2) < weight M (entries s1)"
    using process_retry_event_progress [OF st s1(1) e1 ky1 h now pr [unfolded r] M] .
  have "\<forall>k' e'. (k', e') \<in> set evs \<longrightarrow> entries s2 k' = Some e'"
    using Cons.prems(3,4) ke v(2) s1(2) by (auto simp: image_iff)
  then have "quiet s' \<and> keyed key_of (entries s') \<and>
      weight M (entries s') + length evs \<le> weight M (entries s2)"
    using Cons.IH [OF v(1,3) _ _ rest] Cons.prems(3) by simp
  with w s1(2) show ?case by simp
qed

text \<open>The loop returns: each pass that does not end it takes weight from the queue.\<close>

lemma retry_loop_returns:
  assumes st: "rp_store p = st"
    and h: "\<And>ev. silent quiet entries (rp_handle p ev)" and now: "silent quiet entries (rp_now p)"
    and sd: "silent quiet entries (rp_shutdown p)"
  shows "quiet s \<Longrightarrow> keyed key_of (entries s) \<Longrightarrow> \<exists>y. retry_loop p t s = Some y"
proof (induction "weight (max (max_retries (rp_config p)) (max_dependency_retries (rp_config p))) (entries s)"
    arbitrary: s rule: less_induct)
  case less
  let ?M = "max (max_retries (rp_config p)) (max_dependency_retries (rp_config p))"
  obtain rl s1 where f: "rs_fetch_ready st t (Some RETRY_BATCH_SIZE) s = (rl, s1)" by force
  have s1: "quiet s1" "entries s1 = entries s" "fetch_post (entries s) rl"
    using fetch_quiet [OF less.prems(1) f] by simp_all
  show ?case
  proof (cases "\<exists>evs s2. rl = Inr evs \<and> evs \<noteq> [] \<and> process_batch p evs s1 = (Inr False, s2)")
    case True
    then obtain evs s2 where evs: "rl = Inr evs" "evs \<noteq> []" "process_batch p evs s1 = (Inr False, s2)"
      by blast
    have "quiet s2 \<and> keyed key_of (entries s2) \<and> weight ?M (entries s2) + length evs \<le> weight ?M (entries s1)"
      using process_batch_progress [OF st h now sd refl s1(1) _ _ _ evs(3)] s1 evs(1) less.prems(2)
      by (simp add: fetch_post_def)
    moreover have "0 < length evs" using evs(2) by simp
    ultimately have s2: "quiet s2" "keyed key_of (entries s2)"
      and dec: "weight ?M (entries s2) < weight ?M (entries s)"
      using s1(2) by (simp_all only: simp_thms, linarith)
    obtain y where "retry_loop p t s2 = Some y"
      using less.hyps [OF dec s2] by blast
    then show ?thesis using f st evs by (subst retry_loop.simps) simp
  next
    case False
    have "\<exists>y. (case (rl, s1) of (Inl e, s1) \<Rightarrow> Some (Inl e, s1)
      | (Inr evs, s1) \<Rightarrow> if evs = [] then Some (Inr Completed, s1)
          else (case process_batch p evs s1 of
                  (Inl e, s2) \<Rightarrow> Some (Inl e, s2)
                | (Inr stopped, s2) \<Rightarrow>
                    if stopped then Some (Inr Completed, s2) else retry_loop p t s2)) = Some y"
      using False by (cases rl) (auto split: sum.splits prod.splits)
    then show ?thesis using f st by (subst retry_loop.simps) simp
  qed
qed

end

section \<open>Facts on worlds\<close>

lemma store_ok_env_step: "store_ok ab iv P w \<Longrightarrow> store_ok ab iv P (env_step w)"
  using env_step_keeps [of "\<lambda>s. iv s \<and> P (ab s)" w]
  by (simp add: store_ok_def env_keeps_same [OF env_step_schedule])

lemma keeps_utc_now [simp]: "keeps (redis_ok P) utc_now"
  by (auto simp: keeps_def utc_now_def redis_ok_def store_ok_env_step)

lemma redis_quiet_env_step [simp]:
  "redis_quiet w \<Longrightarrow> redis_quiet (env_step w) \<and> kv (env_step w) = kv w"
  by (simp add: redis_quiet_def env_quiet_def env_step_def)

lemma silent_world [simp]:
  "silent redis_quiet (\<lambda>w. redis_entries (kv w)) utc_now"
  "silent redis_quiet (\<lambda>w. redis_entries (kv w)) shutdown_rx"
  by (auto simp: silent_def utc_now_def shutdown_rx_def)

section \<open>The commands of the production code as a step relation\<close>

text \<open>
  Every writer of the queue runs one of these commands: the scheduler's \<open>put\<close>, the processor's
  conditional removal and conditional put, and the clean-up of the fetch.
\<close>

inductive queue_step :: "retry_kv \<Rightarrow> retry_kv \<Rightarrow> bool" where
  put: "queue_step s (snd (put_to_index e k s))"
| remove_if: "queue_step s (snd (remove_if_nonce_script k n s))"
| put_if: "queue_step s (snd (put_if_nonce_script e k n s))"
| remove_stale: "queue_step s (snd (remove_stale_script ks s))"

inductive queue_reach :: "retry_kv \<Rightarrow> bool" where
  start: "queue_reach \<lparr>json_state = Map.empty, events_zset = []\<rparr>"
| step: "queue_reach s \<Longrightarrow> queue_step s s' \<Longrightarrow> queue_reach s'"

lemma aligned_put: "aligned s \<Longrightarrow> aligned (snd (put_to_index e k s))"
  using no_orphan_put [of s e k] by (auto simp: aligned_def put_to_index_def dom_update)

lemma aligned_remove_if: "aligned s \<Longrightarrow> aligned (snd (remove_if_nonce_script k n s))"
  using no_orphan_remove_if [of s k n]
  by (force simp: aligned_def remove_if_nonce_script_def AList.delete_eq)

lemma remove_stale_aligned:
  "aligned s \<Longrightarrow> remove_stale_script ks s = ((), s)"
proof (induction ks)
  case (Cons k ks)
  have "AList.delete k (events_zset s) = events_zset s" if "json_state s k = None"
    using Cons.prems that by (force simp: aligned_def AList.delete_eq intro: filter_True)
  then show ?case using Cons by simp
qed simp

lemma queue_step_aligned: "queue_step s s' \<Longrightarrow> aligned s \<Longrightarrow> aligned s'"
  by (induction rule: queue_step.induct)
    (simp_all add: aligned_put aligned_remove_if put_if_nonce_script_def remove_stale_aligned)

lemma queue_reach_aligned: "queue_reach s \<Longrightarrow> aligned s"
proof (induction rule: queue_reach.induct)
  case start
  show ?case by (simp add: aligned_def no_orphan_def)
next
  case (step s s')
  then show ?case by (blast intro: queue_step_aligned)
qed

end
