(* ===== verification/Retry_Properties.thy ===== *)
theory Retry_Properties
  imports Retry_Processor
begin

text \<open>
  The properties of the retry queue, each with a concrete instance: what an attempt at an entry
  may do to the queue, that a drain of the queue ends, how long an event can stay in it, that
  the Redis layout never loses an entry and agrees with the in-memory store, and how failed
  events get onto the queue.
\<close>

section \<open>A small concrete queue\<close>

definition demo_blake3 :: "string \<Rightarrow> 8 word list" where
  "demo_blake3 s = replicate 32 0"

definition demo_uri :: string where
  "demo_uri = ''pubky://u/pub/pubky.app/posts/p''"

definition demo_specs :: uri_specs where
  "demo_specs = \<lparr>try_from_uri = (\<lambda>u. Inr (PubkyApp ''u'' (PostR ''p''))),
                 try_to_uri_str = (\<lambda>_. Inr demo_uri)\<rparr>"

definition demo_event :: event where
  "demo_event = \<lparr>ev_uri = demo_uri, ev_type = Put, ev_parsed_uri = PubkyApp ''u'' (PostR ''p''),
                 ev_line = event_line_of Put demo_uri\<rparr>"

definition demo_entry :: "nat \<Rightarrow> int \<Rightarrow> int \<Rightarrow> retry_event" where
  "demo_entry cnt due n = \<lparr>retry_count = cnt, event_type = Put, event_uri = demo_uri,
     next_retry_at = due, origin_homeserver_id = ''hs'', nonce = n\<rparr>"

definition demo_key :: index_key where
  "demo_key = for_uri demo_blake3 demo_uri"

definition demo_kv :: "retry_event \<Rightarrow> retry_kv" where
  "demo_kv e = snd (put_to_index e demo_key \<lparr>json_state = Map.empty, events_zset = []\<rparr>)"

definition demo_world :: "retry_kv \<Rightarrow> retry_kv world" where
  "demo_world s = \<lparr>kv = s, tick = 0, env = (\<lambda>_ x. x), fault = (\<lambda>_. None), graph_fault = (\<lambda>_. None),
                   clock = (\<lambda>n. 1000 + int n), shutdown = (\<lambda>_. False)\<rparr>"

text \<open>A processor whose handler fails with \<open>r\<close>, and that overwrites the queue with \<open>s\<close> first.\<close>

definition demo_processor ::
  "(ep_error, unit) result \<Rightarrow> (retry_kv \<Rightarrow> retry_kv) \<Rightarrow> retry_kv world retry_processor" where
  "demo_processor r f =
     \<lparr>rp_handle = (\<lambda>ev w. (r, w\<lparr>kv := f (kv w)\<rparr>)), rp_shutdown = shutdown_rx, rp_now = utc_now,
      rp_config = default_retry_config, rp_store = redis_retry_store (\<lambda>_. ''io'') demo_blake3,
      rp_specs = demo_specs\<rparr>"

lemma demo_parse: "parse_event demo_specs (event_line_of Put demo_uri) = Inr (Parsed demo_event)"
  by (simp add: parse_event_line_of parse_event_parts_def demo_specs_def demo_event_def)

lemma demo_quiet: "no_orphan s \<Longrightarrow> redis_quiet (demo_world s)"
  by (simp add: redis_quiet_def env_quiet_def demo_world_def)

lemma demo_no_orphan: "no_orphan (demo_kv e)"
  unfolding demo_kv_def by (rule no_orphan_put) (simp add: no_orphan_def)

lemma demo_entries: "redis_entries (demo_kv e) = [demo_key \<mapsto> e]"
  by (simp add: demo_kv_def) (simp add: redis_entries_def fun_eq_iff)

lemma demo_reach: "queue_reach (demo_kv e)"
  unfolding demo_kv_def by (rule queue_reach.step [OF queue_reach.start queue_step.put])

lemmas demo_defs = demo_processor_def demo_entry_def demo_key_def

section \<open>Properties\<close>

text \<open>The store as the other tasks alone leave it before call number \<open>T\<close>, starting from world \<open>w\<close>.\<close>

definition others_alone :: "'s world \<Rightarrow> nat \<Rightarrow> 's" where
  "others_alone w T = fold (env w) [tick w..<T] (kv w)"

lemma others_alone_env_step:
  "tick (env_step w) = Suc (tick w)" "env (env_step w) = env w"
  "others_alone w (Suc (tick w)) = kv (env_step w)"
  "others_alone w (Suc (Suc (tick w))) = kv (env_step (env_step w))"
  by (simp_all add: others_alone_def env_step_def)

text \<open>A conditional command of one call after \<open>d\<close> other steps of this task.\<close>

lemma nonce_call_spares:
  assumes c: "ep_call sh f w = (r, w')"
    and f: "\<And>s. redis_entries (snd (f s)) = redis_entries s \<or>
      holds_nonce k n (redis_entries s) \<and> (\<exists>v. redis_entries (snd (f s)) = (redis_entries s)(k := v))"
  shows "redis_entries (kv w') = redis_entries (kv (env_step w)) \<or>
      holds_nonce k n (redis_entries (kv (env_step w))) \<and>
      (\<exists>v. redis_entries (kv w') = (redis_entries (kv (env_step w)))(k := v))"
    and "tick w' = Suc (tick w)"
  using c f [of "kv (env_step w)"]
  by (auto simp: ep_call_def redis_call_def Let_def env_step_def
      split: prod.splits option.splits call_fault.splits)

lemma remove_if_current_spares:
  assumes "rp_store p = redis_retry_store sh blake3" "remove_if_current p k n w = (r, w')"
  shows "redis_entries (kv w') = redis_entries (others_alone w (tick w')) \<or>
    holds_nonce k n (redis_entries (others_alone w (tick w'))) \<and>
    (\<exists>v. redis_entries (kv w') = (redis_entries (others_alone w (tick w')))(k := v))"
proof -
  obtain rb where c: "ep_call sh (remove_if_nonce_script k n) w = (rb, w')"
    using assms by (auto simp: remove_if_current_def redis_retry_store_def split: prod.splits sum.splits)
  have f: "redis_entries (snd (remove_if_nonce_script k n s)) = redis_entries s \<or>
      holds_nonce k n (redis_entries s) \<and>
      (\<exists>v. redis_entries (snd (remove_if_nonce_script k n s)) = (redis_entries s)(k := v))" for s
    by (auto simp: redis_entries_remove_if)
  show ?thesis
    using nonce_call_spares [OF c f] by (simp add: others_alone_env_step)
qed

lemma reschedule_spares:
  assumes "rp_store p = redis_retry_store sh blake3" "rp_now p = utc_now"
    and "reschedule p re err b w = (r, w')" and k: "k = for_uri blake3 (event_uri re)"
  shows "redis_entries (kv w') = redis_entries (others_alone w (tick w')) \<or>
    holds_nonce k (nonce re) (redis_entries (others_alone w (tick w'))) \<and>
    (\<exists>v. redis_entries (kv w') = (redis_entries (others_alone w (tick w')))(k := v))"
proof -
  let ?e = "rescheduled (rp_config p) re err b (clock w (tick w))"
  obtain rb where c: "ep_call sh (put_if_nonce_script ?e k (nonce re)) (env_step w) = (rb, w')"
    using assms
    by (auto simp: reschedule_def redis_retry_store_def utc_now_def split: prod.splits sum.splits)
  have f: "redis_entries (snd (put_if_nonce_script ?e k (nonce re) s)) = redis_entries s \<or>
      holds_nonce k (nonce re) (redis_entries s) \<and>
      (\<exists>v. redis_entries (snd (put_if_nonce_script ?e k (nonce re) s)) = (redis_entries s)(k := v))" for s
    by (auto simp: redis_entries_put_if)
  show ?thesis
    using nonce_call_spares [OF c f] by (simp add: others_alone_env_step)
qed

text \<open>C2. An attempt at a fetched entry never touches an entry that was enqueued for the same URI
  meanwhile, nor brings back one that was removed. The other tasks may do anything to the queue at
  any moment, between the handler's return and the last command of the attempt included: if what
  they alone would have left at the key by the end of the attempt is an entry with another nonce,
  or none, then that is what the attempt leaves there; and every other key holds what they left.
  This holds for every result of the handler and every failure of the Redis calls.\<close>

theorem retry_spares_newer_entry:
  assumes "rp_store p = redis_retry_store sh blake3" and "rp_now p = utc_now"
    and "parse_event (rp_specs p) (event_line_of (event_type re) (event_uri re)) = Inr (Parsed ev)"
    and "rp_handle p ev w = (rh, w1)"
    and "k = for_uri blake3 (event_uri re)"
    and "process_retry_event p k re w = (r, w')"
  shows "\<forall>k'. (k' = k \<longrightarrow> (\<forall>e. redis_entries (others_alone w1 (tick w')) k = Some e \<longrightarrow> nonce e \<noteq> nonce re)) \<longrightarrow>
    redis_entries (kv w') k' = redis_entries (others_alone w1 (tick w')) k'"
proof -
  let ?m = "redis_entries (others_alone w1 (tick w'))"
  consider "\<exists>r. remove_if_current p k (nonce re) w1 = (r, w')"
    | "\<exists>r err b. reschedule p re err b w1 = (r, w')"
    using assms(3,4,6) by (auto simp: process_retry_event_def split: sum.splits if_splits prod.splits)
  then have "redis_entries (kv w') = ?m \<or> holds_nonce k (nonce re) ?m \<and>
      (\<exists>v. redis_entries (kv w') = ?m(k := v))"
    using remove_if_current_spares [OF assms(1)] reschedule_spares [OF assms(1,2) _ assms(5)]
    by cases blast+
  then show ?thesis by (auto simp: holds_nonce_def)
qed

text \<open>The scheduler's put of a newer entry slips in right before the removal.\<close>

definition late_world :: "retry_kv world" where
  "late_world = (demo_world (demo_kv (demo_entry 0 0 100)))
     \<lparr>env := (\<lambda>n s. if n = 0 then snd (put_to_index (demo_entry 0 9000 200) demo_key s) else s)\<rparr>"

theorem retry_spares_newer_entry_witness:
  "redis_entries (kv (snd (process_retry_event (demo_processor (Inr ()) id) demo_key
     (demo_entry 0 0 100) late_world))) demo_key = Some (demo_entry 0 9000 200)"
proof -
  let ?p = "demo_processor (Inr ()) id" and ?re = "demo_entry 0 0 100"
  obtain r w' where run: "process_retry_event ?p demo_key ?re late_world = (r, w')" by force
  have k: "demo_key = for_uri demo_blake3 (event_uri ?re)" by (simp add: demo_key_def demo_entry_def)
  have h: "rp_handle ?p demo_event late_world = (Inr (), late_world)"
    by (simp add: demo_processor_def)
  have pe: "parse_event (rp_specs ?p) (event_line_of (event_type ?re) (event_uri ?re)) =
      Inr (Parsed demo_event)"
    using demo_parse by (simp add: demo_processor_def demo_entry_def)
  have "tick w' = 1"
    using run pe h
    by (auto simp: process_retry_event_def remove_if_current_def demo_processor_def ep_call_def
        redis_retry_store_def redis_call_def late_world_def demo_world_def env_step_def Let_def
        split: prod.splits sum.splits)
  then have "redis_entries (others_alone late_world (tick w')) demo_key = Some (demo_entry 0 9000 200)"
    by (simp add: others_alone_def late_world_def demo_world_def)
  then show ?thesis
    using retry_spares_newer_entry [of ?p "\<lambda>_. ''io''" demo_blake3 ?re demo_event late_world "Inr ()"
        late_world demo_key r w'] run pe h k
    by (simp add: demo_processor_def demo_entry_def)
qed

text \<open>C23. One attempt implements its specification: on a queue that no other task writes, when
  the attempt at the entry of a key succeeds, the queue is the old one with that key replaced by
  \<open>next_entry\<close>: removed when the event was handled, is not worth retrying or used up its retries,
  and otherwise rescheduled with the same nonce and the backoff of the error's class. A failing
  attempt either did that or nothing.\<close>

theorem retry_attempt_refines_next_entry:
  assumes "rp_store p = redis_retry_store sh blake3" and "rp_now p = utc_now"
    and "redis_quiet w" and "redis_entries (kv w) k = Some re" and "for_uri blake3 (event_uri re) = k"
    and "parse_event (rp_specs p) (event_line_of (event_type re) (event_uri re)) = Inr (Parsed ev)"
    and "silent redis_quiet (\<lambda>w. redis_entries (kv w)) (rp_handle p ev)"
    and "rp_handle p ev w = (rh, w1)" and "process_retry_event p k re w = (r, w')"
  defines "new \<equiv> (redis_entries (kv w))(k := next_entry (rp_config p) re rh (fst (utc_now w1)))"
  shows "redis_entries (kv w') \<in> {redis_entries (kv w), new} \<and>
    (r = Inr () \<longrightarrow> redis_entries (kv w') = new)"
  using redis_store.process_retry_event_quiet
    [OF assms(1,3-7) _ assms(8,9) refl] assms(2)
  unfolding new_def by simp

theorem retry_attempt_refines_next_entry_witness:
  "redis_entries (kv (snd (process_retry_event (demo_processor (Inl (MissingDependency [])) id)
      demo_key (demo_entry 3 0 7) (demo_world (demo_kv (demo_entry 3 0 7)))))) \<in>
   {[demo_key \<mapsto> demo_entry 3 0 7], [demo_key \<mapsto> demo_entry 4 481000 7]}"
proof -
  let ?p = "demo_processor (Inl (MissingDependency [])) id"
  let ?w = "demo_world (demo_kv (demo_entry 3 0 7))"
  obtain r w' where run: "process_retry_event ?p demo_key (demo_entry 3 0 7) ?w = (r, w')" by force
  have e: "redis_entries (kv ?w) = [demo_key \<mapsto> demo_entry 3 0 7]"
    by (simp add: demo_world_def demo_entries)
  have v: "next_entry default_retry_config (demo_entry 3 0 7) (Inl (MissingDependency [])) 1000 =
      Some (demo_entry 4 481000 7)"
    by (simp add: next_entry_def max_retries_for_def rescheduled_def backoff_params_for_def
        default_retry_config_def calculate_backoff_def checked_pow2_u64_def checked_mul_u64_def
        demo_entry_def wrap_i64_def)
  have sil: "silent redis_quiet (\<lambda>w. redis_entries (kv w)) (rp_handle ?p demo_event)"
    by (auto simp: silent_def demo_processor_def)
  have w1: "rp_handle ?p demo_event ?w = (Inl (MissingDependency []), ?w)"
    by (simp add: demo_processor_def demo_world_def)
  show ?thesis
    using retry_attempt_refines_next_entry [of ?p "\<lambda>_. ''io''" demo_blake3 ?w demo_key
        "demo_entry 3 0 7" demo_event "Inl (MissingDependency [])" ?w r w'] run sil w1 v e demo_parse
      demo_quiet [OF demo_no_orphan]
    by (simp add: demo_defs demo_world_def utc_now_def)
qed

text \<open>C24. A run of the retry processor on a queue that no other task writes always returns: the
  loop that fetches and processes batches of due entries cannot go on forever, for any handler
  that leaves the queue alone, any configuration (a zero backoff included), any clock and any
  failures of the Redis calls.\<close>

theorem retry_run_terminates:
  assumes "rp_store p = redis_retry_store sh blake3" and "rp_now p = utc_now"
    and "rp_shutdown p = shutdown_rx"
    and "\<And>ev. silent redis_quiet (\<lambda>w. redis_entries (kv w)) (rp_handle p ev)"
    and "redis_quiet w" and "keyed (for_uri blake3) (redis_entries (kv w))"
  shows "\<exists>r w'. retry_run_internal p w = Some (r, w')"
proof -
  let ?w1 = "snd (utc_now w)"
  have w1: "redis_quiet ?w1" "keyed (for_uri blake3) (redis_entries (kv ?w1))"
    using assms(5,6) by (simp_all add: utc_now_def)
  have "\<exists>y. retry_loop p (fst (utc_now w)) ?w1 = Some y"
    by (rule redis_store.retry_loop_returns [OF assms(1,4) _ _ w1]) (simp_all add: assms(2,3))
  then show ?thesis using assms(2)
    by (auto simp: retry_run_internal_def case_prod_beta)
qed

theorem retry_run_terminates_witness:
  "\<exists>r w'. retry_run_internal (demo_processor (Inl (Generic ''x'')) id)
     (demo_world (demo_kv (demo_entry 0 0 7))) = Some (r, w')"
proof (rule retry_run_terminates)
  show "keyed (for_uri demo_blake3)
      (redis_entries (kv (demo_world (demo_kv (demo_entry 0 0 7)))))"
    by (auto simp: keyed_def demo_world_def demo_entries demo_defs split: if_splits)
qed (auto simp: demo_processor_def silent_def demo_quiet [OF demo_no_orphan])

text \<open>Up to \<open>n\<close> attempts at whatever entry the key holds, and how many of them returned \<open>Ok\<close>.\<close>

fun attempt_run ::
  "retry_kv world retry_processor \<Rightarrow> index_key \<Rightarrow> nat \<Rightarrow> retry_kv world \<Rightarrow> nat \<times> retry_kv world" where
  "attempt_run p k 0 w = (0, w)"
| "attempt_run p k (Suc n) w =
     (case redis_entries (kv w) k of
        None \<Rightarrow> (0, w)
      | Some re \<Rightarrow>
          (case process_retry_event p k re w of
             (Inr _, w1) \<Rightarrow> (case attempt_run p k n w1 of (m, w2) \<Rightarrow> (Suc m, w2))
           | (Inl _, w1) \<Rightarrow> attempt_run p k n w1))"

definition retry_ceiling :: "event_retry_config \<Rightarrow> nat" where
  "retry_ceiling c = max (max_retries c) (max_dependency_retries c)"

lemma attempt_counts:
  assumes st: "rp_store p = redis_retry_store sh blake3" and now: "rp_now p = utc_now"
    and h: "\<And>ev. silent redis_quiet (\<lambda>w. redis_entries (kv w)) (rp_handle p ev)"
    and q: "redis_quiet w" and e: "redis_entries (kv w) k = Some re"
    and k: "for_uri blake3 (event_uri re) = k"
    and run: "process_retry_event p k re w = (r, w')"
  shows "redis_quiet w' \<and> (\<forall>re'. redis_entries (kv w') k = Some re' \<longrightarrow>
    for_uri blake3 (event_uri re') = k \<and>
    (if r = Inr () then Suc (retry_count re) else retry_count re) \<le> retry_count re' \<and>
    retry_count re' \<le> max (retry_count re) (retry_ceiling (rp_config p)))"
proof (cases "\<exists>ev. parse_event (rp_specs p) (event_line_of (event_type re) (event_uri re)) = Inr (Parsed ev)")
  case False
  then have "remove_if_current p k (nonce re) w = (r, w')"
    using run by (auto simp: process_retry_event_def split: sum.splits parse_result.splits)
  from redis_store.remove_if_current_quiet [OF st q e refl this] show ?thesis
    using e k by auto
next
  case True
  then obtain ev where pe:
    "parse_event (rp_specs p) (event_line_of (event_type re) (event_uri re)) = Inr (Parsed ev)" ..
  obtain rh w1 where hd: "rp_handle p ev w = (rh, w1)" by force
  let ?v = "next_entry (rp_config p) re rh (fst (rp_now p w1))"
  have spec: "redis_quiet w' \<and> redis_entries (kv w') \<in> {redis_entries (kv w), (redis_entries (kv w))(k := ?v)} \<and>
      (r = Inr () \<longrightarrow> redis_entries (kv w') = (redis_entries (kv w))(k := ?v))"
    by (rule redis_store.process_retry_event_quiet [OF st q e k pe h _ hd run refl]) (simp add: now)
  have bounds: "event_uri re' = event_uri re" "retry_count re \<le> retry_count re'"
      "retry_count re' \<le> max (retry_count re) (retry_ceiling (rp_config p))" if "?v = Some re'" for re'
    using next_entry_Some [OF that] by (simp_all add: retry_ceiling_def)
  have suc: "retry_count re' = Suc (retry_count re)" if "?v = Some re'" "r = Inr ()" for re'
  proof -
    have "\<not> (\<exists>err. rh = Inl err \<and> should_enqueue_related_event err \<and> should_not_retry_now err)"
      using run pe hd that(2) by (auto simp: process_retry_event_def split: sum.splits prod.splits)
    with that(1) show ?thesis by (auto simp: next_entry_def split: sum.splits if_splits)
  qed
  show ?thesis
    using spec e k bounds suc by (cases ?v) (auto simp del: max.bounded_iff)
qed

lemma attempt_run_counts:
  assumes st: "rp_store p = redis_retry_store sh blake3" and now: "rp_now p = utc_now"
    and h: "\<And>ev. silent redis_quiet (\<lambda>w. redis_entries (kv w)) (rp_handle p ev)"
    and q: "redis_quiet w" and e: "redis_entries (kv w) k = Some re"
    and k: "for_uri blake3 (event_uri re) = k" and run: "attempt_run p k n w = (m, w')"
  shows "m \<le> Suc (retry_ceiling (rp_config p) - retry_count re) \<and>
      (\<forall>re'. redis_entries (kv w') k = Some re' \<longrightarrow> retry_count re + m \<le> retry_count re' \<and>
         retry_count re' \<le> max (retry_count re) (retry_ceiling (rp_config p)))"
  using q e k run
proof (induction n arbitrary: w re m)
  case 0
  then show ?case by auto
next
  case (Suc n)
  obtain r w1 where run: "process_retry_event p k re w = (r, w1)" by force
  note one = attempt_counts [OF st now h Suc.prems(1-3) run]
  obtain m1 where rest: "attempt_run p k n w1 = (m1, w')"
    and m: "m = (if r = Inr () then Suc m1 else m1)"
    using Suc.prems(2,4) run by (cases r) (auto split: prod.splits)
  show ?case
  proof (cases "redis_entries (kv w1) k")
    case None
    then have "m1 = 0" "w' = w1" using rest by (cases n; simp)+
    with None m show ?thesis by simp
  next
    case (Some re1)
    with one have k1: "for_uri blake3 (event_uri re1) = k" and q1: "redis_quiet w1"
      and lo: "(if r = Inr () then Suc (retry_count re) else retry_count re) \<le> retry_count re1"
      and hi: "retry_count re1 \<le> max (retry_count re) (retry_ceiling (rp_config p))"
      by blast+
    note ih = Suc.IH [OF q1 Some k1 rest]
    have "m \<le> Suc (retry_ceiling (rp_config p) - retry_count re)"
      using conjunct1 [OF ih] m lo hi by (auto simp: max_def split: if_splits)
    moreover have "retry_count re + m \<le> retry_count re' \<and>
        retry_count re' \<le> max (retry_count re) (retry_ceiling (rp_config p))"
      if "redis_entries (kv w') k = Some re'" for re'
      using ih that m lo hi by (fastforce simp: max_def split: if_splits)
    ultimately show ?thesis by blast
  qed
qed

text \<open>C34. The retry budget of an entry is used up: of any number of attempts of the processor at the
  entry of a key, on a queue that no other task writes and with any handler that leaves the queue
  alone, at most one more than the retries it has left return \<open>Ok\<close>, whatever the mix of errors and
  of failing Redis calls; after that many the entry is gone. Each of them adds to the count of an
  entry that stays, and the count never passes the larger of the two limits, so that the increment
  of the \<open>u32\<close> cannot overflow.\<close>

theorem retry_budget_bounds_attempts:
  assumes "rp_store p = redis_retry_store sh blake3" and "rp_now p = utc_now"
    and "\<And>ev. silent redis_quiet (\<lambda>w. redis_entries (kv w)) (rp_handle p ev)"
    and "redis_quiet w" and "redis_entries (kv w) k = Some re" and "for_uri blake3 (event_uri re) = k"
    and "attempt_run p k n w = (m, w')"
  shows "m \<le> Suc (retry_ceiling (rp_config p) - retry_count re) \<and>
    (m = Suc (retry_ceiling (rp_config p) - retry_count re) \<longrightarrow> redis_entries (kv w') k = None) \<and>
    (\<forall>re'. redis_entries (kv w') k = Some re' \<longrightarrow>
       retry_count re + m \<le> retry_count re' \<and>
       retry_count re' \<le> max (retry_count re) (retry_ceiling (rp_config p)))"
  using attempt_run_counts [OF assms]
  by (cases "redis_entries (kv w') k") (auto simp: max_def split: if_splits)

theorem retry_budget_bounds_attempts_witness:
  "fst (attempt_run (demo_processor (Inl (MissingDependency [])) id) demo_key 9
     (demo_world (demo_kv (demo_entry 48 0 7)))) \<le> 3"
proof -
  let ?p = "demo_processor (Inl (MissingDependency [])) id"
  let ?w = "demo_world (demo_kv (demo_entry 48 0 7))"
  obtain m w' where run: "attempt_run ?p demo_key 9 ?w = (m, w')" by force
  have h: "silent redis_quiet (\<lambda>w. redis_entries (kv w)) (rp_handle ?p ev)" for ev
    by (auto simp: silent_def demo_processor_def)
  have e: "redis_entries (kv ?w) demo_key = Some (demo_entry 48 0 7)"
    by (simp add: demo_world_def demo_entries)
  have c: "retry_ceiling (rp_config ?p) - retry_count (demo_entry 48 0 7) = 2"
    by (simp add: demo_defs retry_ceiling_def default_retry_config_def)
  show ?thesis
    using retry_budget_bounds_attempts [OF _ _ h demo_quiet [OF demo_no_orphan] e _ run,
        of "\<lambda>_. ''io''" demo_blake3] run unfolding c
    by (simp add: demo_defs)
qed

text \<open>The backoff doubles with every retry and is cut at the maximum: the overflow checks of
  the code give exactly \<open>min (initial * 2 ^ retry_count) max\<close> on \<open>u64\<close> values, for every count
  when the initial backoff is not zero.\<close>

theorem backoff_is_capped_exponential:
  assumes "0 < initial" and "mx < 2 ^ 64"
  shows "calculate_backoff rc initial mx = min (initial * 2 ^ rc) mx"
  using assms by (intro calculate_backoff_eq) simp_all

theorem backoff_is_capped_exponential_witness:
  "calculate_backoff 5 60 3600 = 1920 \<and> calculate_backoff 200 60 3600 = min (60 * 2 ^ 200) 3600"
  using backoff_is_capped_exponential [of 60 3600 5] backoff_is_capped_exponential [of 60 3600 200]
  by simp

text \<open>C5. No entry is ever lost or left behind by the Redis layout: in every state the production
  commands can reach, in any order and from any number of tasks, the members of the sorted set up
  to a time are exactly the keys of the stored entries that are due by then.\<close>

theorem queue_entries_stay_fetchable:
  assumes "queue_reach s" and "exact_times now (redis_entries s)"
  shows "fst ` set (zrange_up_to (f64_of_int now) (Some (length (events_zset s))) (events_zset s)) =
    {k. \<exists>e. redis_entries s k = Some e \<and> next_retry_at e \<le> now}"
proof -
  have al: "aligned s" using assms(1) by (rule queue_reach_aligned)
  have now: "f64_of_int now = now" using assms(2) by (simp add: exact_times_def f64_of_int_exact)
  have "set (zrange_up_to (f64_of_int now) (Some (length (events_zset s))) (events_zset s)) =
      {p \<in> set (events_zset s). snd p \<le> now}"
    by (auto simp: zrange_up_to_def now take_all_iff le_trans [OF length_filter_le])
  then show ?thesis
    using aligned_scores [OF al assms(2)] by (force simp: image_iff)
qed

theorem queue_entries_stay_fetchable_witness:
  "demo_key \<in> fst ` set (zrange_up_to (f64_of_int 1000)
     (Some (length (events_zset (demo_kv (demo_entry 0 1000 7))))) (events_zset (demo_kv (demo_entry 0 1000 7))))"
proof -
  have "exact_times 1000 (redis_entries (demo_kv (demo_entry 0 1000 7)))"
    by (simp add: exact_times_def demo_entries demo_entry_def)
  then show ?thesis
    using queue_entries_stay_fetchable [of "demo_kv (demo_entry 0 1000 7)" 1000] demo_reach
    by (simp add: demo_entries demo_entry_def)
qed

text \<open>The number of entries a fetch from Redis is cut at: a missing limit is 1000.\<close>

definition effective_limit :: "nat option \<Rightarrow> nat" where
  "effective_limit limit = (case limit of None \<Rightarrow> 1000 | Some n \<Rightarrow> n)"

text \<open>C35. A fetch from the Redis store agrees with the in-memory store of the tests: on states that
  denote the same queue, the sorted set of the Redis one in line with its entries and the times
  exact as doubles, with no failing call and no other task, Redis returns for every limit the
  batch that the in-memory store returns for that limit, or for the limit 1000 when none is given:
  the first due entries by due time and then key.\<close>

theorem redis_fetch_matches_memory:
  assumes "env_quiet w" and "fault w = (\<lambda>_. None)" and "aligned (kv w)"
    and "exact_times now (redis_entries (kv w))"
    and "env_quiet wm" and "dkeys (kv wm)" and "map_of (kv wm) = redis_entries (kv w)"
  shows "fst (rs_fetch_ready (redis_retry_store sh blake3) now limit w) =
    fst (rs_fetch_ready (in_memory_retry_store blake3) now (Some (effective_limit limit)) wm)"
proof -
  have "env_step wm = wm\<lparr>tick := Suc (tick wm)\<rparr>"
    using assms(5) by (simp add: env_step_def env_quiet_def)
  then show ?thesis
    using redis_fetch_ready_quiet [OF assms(1-3), of sh now limit]
      range_is_ready_list [OF assms(3,4,6,7)]
    by (simp add: redis_retry_store_def in_memory_retry_store_def mem_call_def lock_call_def
        mem_fetch_ready_def zrange_up_to_def effective_limit_def flip: take_map)
qed

theorem redis_fetch_matches_memory_witness:
  "fst (rs_fetch_ready (redis_retry_store (\<lambda>_. []) demo_blake3) 1000 None
     (demo_world (demo_kv (demo_entry 0 1000 7)))) =
   fst (rs_fetch_ready (in_memory_retry_store demo_blake3) 1000 (Some (effective_limit None))
     \<lparr>kv = [(demo_key, demo_entry 0 1000 7)], tick = 0, env = (\<lambda>_ x. x), fault = (\<lambda>_. None), graph_fault = (\<lambda>_. None),
      clock = (\<lambda>_. 0), shutdown = (\<lambda>_. False)\<rparr>)"
proof (rule redis_fetch_matches_memory)
  show "aligned (kv (demo_world (demo_kv (demo_entry 0 1000 7))))"
    unfolding demo_world_def by (simp add: queue_reach_aligned demo_reach)
qed (simp_all add: env_quiet_def demo_world_def demo_entries exact_times_def demo_entry_def)

text \<open>A failed event is not lost: when a processor with a Redis-backed scheduler handles a line
  and the handler fails with an error that is worth retrying and does not stop the batch, and the
  call succeeds, the queue holds a fresh entry for exactly that event under the key of its URI:
  count zero, the backoff of the error's class, the processor's homeserver, and as nonce the clock.\<close>

theorem failed_event_is_queued:
  assumes "parse_event (p_specs p) line = Inr (Parsed ev)"
    and "p_should_process p ev w = (Inr True, w1)" and "p_handle p ev w1 = (Inl err, w2)"
    and "should_enqueue_related_event err" and "\<not> should_not_retry_now err"
    and "p_scheduler p = Some sc" and "p_homeserver_id p = Some hs_id"
    and "sched_store sc = redis_retry_store sh blake3"
    and "sched_now_ms sc = utc_now" and "sched_now_ns sc = utc_now"
    and "redis_ok P w2" and "process_event_line p line w = (Inr (), w')"
  shows "redis_entries (kv w') (for_uri blake3 (ev_uri ev)) =
    Some (retry_event_new ev
      (wrap_i64 (fst (utc_now w2) + (if is_missing_dependency err
         then missing_dep_ms (sched_initial sc) else transient_ms (sched_initial sc))))
      hs_id (fresh_nonce (fst (utc_now (snd (utc_now w2))))))"
proof -
  let ?w3 = "snd (utc_now w2)"
  have ok4: "redis_ok P (snd (utc_now ?w3))"
    using assms(11) keeps_utc_now by (metis keepsD surjective_pairing)
  have "enqueue sc ev (if is_missing_dependency err then missing_dep_ms (sched_initial sc)
      else transient_ms (sched_initial sc)) hs_id w2 = (Inr (), w')"
    using assms(1-7,12)
    by (simp add: process_event_line_def handle_event_handled handle_error_cases)
  with redis_store.enqueue_entry [OF ok4 assms(8), of w2] assms(9,10)
  show ?thesis by (metis surjective_pairing)
qed

definition demo_indexer :: "ep_error \<Rightarrow> retry_kv world processor" where
  "demo_indexer err =
     \<lparr>p_handle = (\<lambda>ev w. (Inl err, w)), p_should_process = (\<lambda>ev w. (Inr True, w)),
      p_scheduler = Some \<lparr>sched_store = redis_retry_store (\<lambda>_. []) demo_blake3,
        sched_initial = initial_backoff_from_config default_retry_config,
        sched_now_ms = utc_now, sched_now_ns = utc_now\<rparr>,
      p_homeserver_id = Some ''hs'', p_specs = demo_specs\<rparr>"

theorem failed_event_is_queued_witness:
  "redis_entries (kv (snd (process_event_line (demo_indexer (MissingDependency []))
     (event_line_of Put demo_uri) (demo_world \<lparr>json_state = Map.empty, events_zset = []\<rparr>)))) demo_key =
   Some (demo_entry 0 61000 1001)"
proof -
  let ?p = "demo_indexer (MissingDependency [])"
  let ?w = "demo_world \<lparr>json_state = Map.empty, events_zset = []\<rparr>"
  have run: "process_event_line ?p (event_line_of Put demo_uri) ?w =
      (Inr (), snd (process_event_line ?p (event_line_of Put demo_uri) ?w))"
    using demo_parse
    by (simp add: demo_indexer_def process_event_line_def handle_event_def handle_error_def
        queue_missing_dep_def enqueue_def utc_now_def redis_retry_store_def ep_call_def
        redis_call_def env_step_def demo_world_def put_to_index_def)
  have ok: "redis_ok (\<lambda>_. True) ?w"
    by (simp add: redis_ok_def store_ok_def env_keeps_def demo_world_def no_orphan_def)
  show ?thesis
    using failed_event_is_queued [of ?p _ demo_event ?w ?w "MissingDependency []" ?w _ "''hs''"
        "\<lambda>_. []" demo_blake3, OF _ _ _ _ _ _ _ _ _ _ ok run]
      demo_parse default_initial_backoff
    by (simp add: demo_indexer_def utc_now_def demo_world_def env_step_def demo_event_def
        demo_entry_def demo_key_def retry_event_new_def fresh_nonce_def i64_ok_def wrap_i64_def)
qed

end
