(* ===== verification/Cursor_Store.thy ===== *)
theory Cursor_Store
  imports Redis_World
begin

text \<open>
  The cursors of the event streams. The primary homeserver has one cursor, kept in the JSON
  record of \<open>Homeserver\<close> (nexus-common/src/models/homeserver.rs); an external homeserver has one
  per user, kept as the score of a sorted-set member (models/user/cursor.rs). Both are only
  written after a comparison with the stored value; the locale \<open>cursor_store\<close> states what the
  comparison relies on, and is interpreted for both.
\<close>

section \<open>Decimal numbers\<close>

text \<open>\<open>str::parse::<u64>\<close>: an optional plus sign, at least one digit, no overflow.\<close>

definition digit_value :: "char \<Rightarrow> nat" where
  "digit_value c = of_char c - 48"

definition is_digit :: "char \<Rightarrow> bool" where
  "is_digit c \<longleftrightarrow> 48 \<le> (of_char c :: nat) \<and> (of_char c :: nat) \<le> 57"

fun parse_digits :: "nat \<Rightarrow> string \<Rightarrow> nat option" where
  "parse_digits acc [] = Some acc"
| "parse_digits acc (c # cs) =
     (if is_digit c \<and> acc * 10 + digit_value c < 2 ^ 64
      then parse_digits (acc * 10 + digit_value c) cs else None)"

definition parse_u64 :: "string \<Rightarrow> nat option" where
  "parse_u64 s =
     (case s of
        [] \<Rightarrow> None
      | c # cs \<Rightarrow>
          if c = CHR ''+'' then (if cs = [] then None else parse_digits 0 cs)
          else parse_digits 0 s)"

text \<open>\<open>Display\<close> of an unsigned number.\<close>

fun show_nat :: "nat \<Rightarrow> string" where
  "show_nat n =
     (if n < 10 then [char_of (48 + n)] else show_nat (n div 10) @ [char_of (48 + n mod 10)])"

declare show_nat.simps [simp del]

section \<open>Homeserver records\<close>

record homeserver =
  hs_id :: string
  hs_cursor :: nat

text \<open>The cursor of a stored record is a JSON number, or a string in records written by old versions.\<close>

datatype cursor_json = CursorNumber nat | CursorString string

fun deserialize_cursor :: "cursor_json \<Rightarrow> nat option" where
  "deserialize_cursor (CursorNumber c) = Some c"
| "deserialize_cursor (CursorString t) = parse_u64 t"

record hs_kv =
  hs_index :: "string \<rightharpoonup> cursor_json"
  hs_graph :: "string set"

definition hs_json_get :: "string \<Rightarrow> hs_kv \<Rightarrow> cursor_json option \<times> hs_kv" where
  "hs_json_get hid s = (hs_index s hid, s)"

definition hs_json_set :: "homeserver \<Rightarrow> hs_kv \<Rightarrow> unit \<times> hs_kv" where
  "hs_json_set h s = ((), s\<lparr>hs_index := (hs_index s)(hs_id h \<mapsto> CursorNumber (hs_cursor h))\<rparr>)"

definition hs_get_from_index ::
  "string \<Rightarrow> hs_kv world \<Rightarrow> (redis_error, homeserver option) result \<times> hs_kv world" where
  "hs_get_from_index hid w =
     (case redis_call (hs_json_get hid) w of
        (Inl e, w1) \<Rightarrow> (Inl e, w1)
      | (Inr None, w1) \<Rightarrow> (Inr None, w1)
      | (Inr (Some j), w1) \<Rightarrow>
          (case deserialize_cursor j of
             None \<Rightarrow> (Inl (RDeserializationFailed ''cursor''), w1)
           | Some c \<Rightarrow> (Inr (Some \<lparr>hs_id = hid, hs_cursor = c\<rparr>), w1)))"

text \<open>\<open>validate_cursor_change\<close> and the operations that call it, over any index.\<close>

record 's homeserver_index =
  hi_get :: "string \<Rightarrow> 's \<Rightarrow> (redis_error, homeserver option) result \<times> 's"
  hi_set :: "homeserver \<Rightarrow> 's \<Rightarrow> (redis_error, unit) result \<times> 's"

definition redis_homeserver_index :: "hs_kv world homeserver_index" where
  "redis_homeserver_index = \<lparr>hi_get = hs_get_from_index, hi_set = (\<lambda>h. redis_call (hs_json_set h))\<rparr>"

definition validate_cursor_change ::
  "'s homeserver_index \<Rightarrow> string \<Rightarrow> nat \<Rightarrow> 's \<Rightarrow> (redis_error, unit) result \<times> 's" where
  "validate_cursor_change ix hid new_cursor s =
     (case hi_get ix hid s of
        (Inl e, s1) \<Rightarrow> (Inl e, s1)
      | (Inr None, s1) \<Rightarrow> (Inr (), s1)
      | (Inr (Some existing), s1) \<Rightarrow> (ensure_cursor_not_backwards new_cursor (hs_cursor existing), s1))"

definition hs_put_to_index ::
  "'s homeserver_index \<Rightarrow> homeserver \<Rightarrow> 's \<Rightarrow> (redis_error, unit) result \<times> 's" where
  "hs_put_to_index ix h s =
     (case validate_cursor_change ix (hs_id h) (hs_cursor h) s of
        (Inl e, s1) \<Rightarrow> (Inl e, s1)
      | (Inr _, s1) \<Rightarrow> hi_set ix h s1)"

definition try_from_cursor ::
  "'s homeserver_index \<Rightarrow> string \<Rightarrow> string \<Rightarrow> 's \<Rightarrow> (model_error, homeserver) result \<times> 's" where
  "try_from_cursor ix hid cursor s =
     (case parse_u64 cursor of
        None \<Rightarrow> (Inl (MGeneric (''Cannot create a homeserver from a non-numeric cursor: '' @ cursor)), s)
      | Some c \<Rightarrow>
          (case validate_cursor_change ix hid c s of
             (Inl e, s1) \<Rightarrow> (Inl (KvOperationFailed e), s1)
           | (Inr _, s1) \<Rightarrow> (Inr \<lparr>hs_id = hid, hs_cursor = c\<rparr>, s1)))"

text \<open>\<open>create_homeserver\<close> is a MERGE; \<open>get_homeserver_by_id\<close> a MATCH.\<close>

definition hs_merge_node :: "string \<Rightarrow> hs_kv \<Rightarrow> unit \<times> hs_kv" where
  "hs_merge_node hid s = ((), s\<lparr>hs_graph := insert hid (hs_graph s)\<rparr>)"

definition hs_match_node :: "string \<Rightarrow> hs_kv \<Rightarrow> bool \<times> hs_kv" where
  "hs_match_node hid s = (hid \<in> hs_graph s, s)"

definition persist_if_unknown :: "string \<Rightarrow> hs_kv world \<Rightarrow> (model_error, unit) result \<times> hs_kv world" where
  "persist_if_unknown hid w =
     (case graph_call (hs_match_node hid) w of
        (Inl e, w1) \<Rightarrow> (Inl (GraphOperationFailed e), w1)
      | (Inr in_graph, w1) \<Rightarrow>
     (case hs_get_from_index hid w1 of
        (Inl e, w2) \<Rightarrow> (Inl (KvOperationFailed e), w2)
      | (Inr stored, w2) \<Rightarrow>
          (let in_index = (stored \<noteq> None); h = \<lparr>hs_id = hid, hs_cursor = 0\<rparr> in
           if in_graph \<and> in_index then (Inr (), w2)
           else case (if in_graph then (Inr (), w2) else graph_call (hs_merge_node hid) w2) of
                  (Inl e, w3) \<Rightarrow> (Inl (GraphOperationFailed e), w3)
                | (Inr _, w3) \<Rightarrow>
                    if in_index then (Inr (), w3)
                    else case hs_put_to_index redis_homeserver_index h w3 of
                           (Inl e, w4) \<Rightarrow> (Inl (KvOperationFailed e), w4)
                         | (Inr _, w4) \<Rightarrow> (Inr (), w4))))"

section \<open>Cursors of users on external homeservers\<close>

text \<open>
  The score of member \<open>hs_id\<close> in the sorted set of \<open>user_id\<close>. The client reads a score as
  \<open>isize\<close>; how a double beyond the exact range is printed and parsed is the parameter
  \<open>score_isize\<close>.
\<close>

type_synonym cursor_kv = "string \<times> string \<Rightarrow> int option"

definition cursor_zscores :: "(string \<times> string) list \<Rightarrow> cursor_kv \<Rightarrow> int option list \<times> cursor_kv" where
  "cursor_zscores ks s = (map s ks, s)"

definition cursor_zadd :: "string \<Rightarrow> string \<Rightarrow> int \<Rightarrow> cursor_kv \<Rightarrow> unit \<times> cursor_kv" where
  "cursor_zadd user_id hs score s = ((), s((user_id, hs) \<mapsto> score))"

definition cursor_zadd_nx :: "string \<Rightarrow> string \<Rightarrow> int \<Rightarrow> cursor_kv \<Rightarrow> unit \<times> cursor_kv" where
  "cursor_zadd_nx user_id hs score s =
     ((), case s (user_id, hs) of None \<Rightarrow> s((user_id, hs) \<mapsto> score) | Some _ \<Rightarrow> s)"

text \<open>The reply: every score as \<open>isize\<close>, then the sign check, stopping at the first error.\<close>

fun read_scores ::
  "string \<Rightarrow> int option list \<Rightarrow> (redis_error, nat list) result" where
  "read_scores hs [] = Inr []"
| "read_scores hs (s # ss) =
     (let score = (case s of None \<Rightarrow> 0 | Some x \<Rightarrow> x) in
      if score < 0
      then Inl (InvalidInput (''negative cursor score -'' @ show_nat (nat (- score)) @ '' for HS '' @ hs))
      else (case read_scores hs ss of Inl e \<Rightarrow> Inl e | Inr cs \<Rightarrow> Inr (nat score # cs)))"

fun scores_as_isize :: "(int \<Rightarrow> int option) \<Rightarrow> int option list \<Rightarrow> int option list option" where
  "scores_as_isize score_isize [] = Some []"
| "scores_as_isize score_isize (None # ss) = map_option ((#) None) (scores_as_isize score_isize ss)"
| "scores_as_isize score_isize (Some x # ss) =
     (case score_isize x of
        None \<Rightarrow> None
      | Some i \<Rightarrow> map_option ((#) (Some i)) (scores_as_isize score_isize ss))"

definition cursor_read ::
  "(int \<Rightarrow> int option) \<Rightarrow> string list \<Rightarrow> string \<Rightarrow> cursor_kv world
     \<Rightarrow> (redis_error, nat list) result \<times> cursor_kv world" where
  "cursor_read score_isize user_ids hs w =
     (if user_ids = [] then (Inr [], w)
      else case redis_call (cursor_zscores (map (\<lambda>u. (u, hs)) user_ids)) w of
             (Inl e, w1) \<Rightarrow> (Inl e, w1)
           | (Inr scores, w1) \<Rightarrow>
               (case scores_as_isize score_isize scores of
                  None \<Rightarrow> (Inl (CommandFailed ''response was of incompatible type''), w1)
                | Some is \<Rightarrow> (read_scores hs is, w1)))"

definition cursor_write ::
  "(int \<Rightarrow> int option) \<Rightarrow> string \<Rightarrow> string \<Rightarrow> nat \<Rightarrow> cursor_kv world
     \<Rightarrow> (redis_error, unit) result \<times> cursor_kv world" where
  "cursor_write score_isize user_id hs cursor w =
     (case cursor_read score_isize [user_id] hs w of
        (Inl e, w1) \<Rightarrow> (Inl e, w1)
      | (Inr cs, w1) \<Rightarrow>
          (case ensure_cursor_not_backwards cursor (case cs of [] \<Rightarrow> 0 | c # _ \<Rightarrow> c) of
             Inl e \<Rightarrow> (Inl e, w1)
           | Inr _ \<Rightarrow> redis_call (cursor_zadd user_id hs (f64_of_int (int cursor))) w1))"

definition cursor_init ::
  "string \<Rightarrow> string \<Rightarrow> cursor_kv world \<Rightarrow> (redis_error, unit) result \<times> cursor_kv world" where
  "cursor_init user_id hs = redis_call (cursor_zadd_nx user_id hs 0)"

section \<open>Blacklisted homeservers\<close>

definition is_blacklisted :: "string list \<Rightarrow> string \<Rightarrow> bool" where
  "is_blacklisted pks hid = list_ex (\<lambda>pk. pk = hid) pks"

section \<open>The contract of a cursor store\<close>

text \<open>
  \<open>guarded_write\<close> is the shape both writers share: read, compare, write. A missing cursor
  reads as 0, so a first write always passes the comparison.
\<close>

definition guarded_write ::
  "('k \<Rightarrow> 's \<Rightarrow> (redis_error, nat) result \<times> 's) \<Rightarrow> ('k \<Rightarrow> nat \<Rightarrow> 's \<Rightarrow> (redis_error, unit) result \<times> 's)
     \<Rightarrow> 'k \<Rightarrow> nat \<Rightarrow> 's \<Rightarrow> (redis_error, unit) result \<times> 's" where
  "guarded_write rd wr k c s =
     (case rd k s of
        (Inl e, s1) \<Rightarrow> (Inl e, s1)
      | (Inr v, s1) \<Rightarrow>
          (case ensure_cursor_not_backwards c v of
             Inl e \<Rightarrow> (Inl e, s1)
           | Inr _ \<Rightarrow> wr k c s1))"

locale cursor_store =
  fixes rd :: "'k \<Rightarrow> 's \<Rightarrow> (redis_error, nat) result \<times> 's"
    and wr :: "'k \<Rightarrow> nat \<Rightarrow> 's \<Rightarrow> (redis_error, unit) result \<times> 's"
    and val :: "'s \<Rightarrow> 'k \<Rightarrow> nat"
    and inv :: "'s \<Rightarrow> bool"
    and storable :: "nat \<Rightarrow> bool"
  assumes get_law: "\<lbrakk>inv s; rd k s = (r, s')\<rbrakk> \<Longrightarrow>
      inv s' \<and> val s' = val s \<and> (\<forall>c. r = Inr c \<longrightarrow> c = val s k)"
    and set_law: "\<lbrakk>inv s; storable c; wr k c s = (ru, s')\<rbrakk> \<Longrightarrow>
      inv s' \<and> (val s' = (val s)(k := c) \<or> (\<exists>e. ru = Inl e) \<and> val s' = val s)"
begin

lemma guarded_write_law:
  assumes "inv s" "storable c" "guarded_write rd wr k c s = (ru, s')"
  shows "inv s'"
    and "val s' = val s \<or> val s k \<le> c \<and> val s' = (val s)(k := c)"
    and "ru = Inr () \<Longrightarrow> val s k \<le> c \<and> val s' = (val s)(k := c)"
proof -
  obtain r s1 where rd: "rd k s = (r, s1)" by force
  note g = get_law [OF assms(1) rd]
  have "inv s' \<and> (val s' = val s \<or> val s k \<le> c \<and> val s' = (val s)(k := c)) \<and>
      (ru = Inr () \<longrightarrow> val s k \<le> c \<and> val s' = (val s)(k := c))"
  proof (cases r)
    case (Inl e)
    then have "s' = s1" "ru = Inl e" using assms(3) rd by (simp_all add: guarded_write_def)
    then show ?thesis using g by simp
  next
    case (Inr v)
    then have v: "v = val s k" using g by simp
    show ?thesis
    proof (cases "c < v")
      case True
      then have "s' = s1 \<and> (\<exists>e. ru = Inl e)"
        using assms(3) rd Inr by (auto simp: guarded_write_def ensure_cursor_not_backwards_def)
      then show ?thesis using g by auto
    next
      case False
      then have "wr k c s1 = (ru, s')"
        using assms(3) rd Inr by (simp add: guarded_write_def ensure_cursor_not_backwards_def)
      from set_law [OF _ assms(2) this] g False v show ?thesis by auto
    qed
  qed
  then show "inv s'" "val s' = val s \<or> val s k \<le> c \<and> val s' = (val s)(k := c)"
    "ru = Inr () \<Longrightarrow> val s k \<le> c \<and> val s' = (val s)(k := c)"
    by blast+
qed

lemma guarded_write_mono:
  assumes "inv s" "storable c" "guarded_write rd wr k c s = (ru, s')"
  shows "val s k' \<le> val s' k'"
  using guarded_write_law(2) [OF assms] by auto

end

section \<open>Both stores keep the contract\<close>

text \<open>The homeserver record: \<open>hs_vals\<close> is the cursor each record denotes.\<close>

definition hs_vals :: "hs_kv \<Rightarrow> string \<Rightarrow> nat" where
  "hs_vals s hid =
     (case hs_index s hid of
        None \<Rightarrow> 0
      | Some j \<Rightarrow> (case deserialize_cursor j of None \<Rightarrow> 0 | Some c \<Rightarrow> c))"

definition index_cursor ::
  "'s homeserver_index \<Rightarrow> string \<Rightarrow> 's \<Rightarrow> (redis_error, nat) result \<times> 's" where
  "index_cursor ix hid s =
     (case hi_get ix hid s of
        (r, s1) \<Rightarrow> (map_sum id (\<lambda>h. case h of None \<Rightarrow> 0 | Some h \<Rightarrow> hs_cursor h) r, s1))"

definition hs_set_cursor ::
  "'s homeserver_index \<Rightarrow> string \<Rightarrow> nat \<Rightarrow> 's \<Rightarrow> (redis_error, unit) result \<times> 's" where
  "hs_set_cursor ix hid c = hi_set ix \<lparr>hs_id = hid, hs_cursor = c\<rparr>"

lemma hs_put_is_guarded:
  "hs_put_to_index ix h = guarded_write (index_cursor ix) (hs_set_cursor ix) (hs_id h) (hs_cursor h)"
proof
  fix s
  obtain r s1 where get: "hi_get ix (hs_id h) s = (r, s1)" by force
  have h: "\<lparr>hs_id = hs_id h, hs_cursor = hs_cursor h\<rparr> = h" by (cases h) simp
  consider e where "r = Inl e" | "r = Inr None" | g where "r = Inr (Some g)"
    by (metis option.exhaust sum.exhaust)
  then show "hs_put_to_index ix h s =
      guarded_write (index_cursor ix) (hs_set_cursor ix) (hs_id h) (hs_cursor h) s"
    by cases (simp_all add: hs_put_to_index_def validate_cursor_change_def guarded_write_def get h
      index_cursor_def hs_set_cursor_def ensure_cursor_not_backwards_def)
qed

definition hs_stable :: "hs_kv world \<Rightarrow> bool" where
  "hs_stable w \<longleftrightarrow> (\<forall>v. env_keeps (\<lambda>s. hs_vals s = v) w)"

lemma hs_stable_same: "same_schedule w w' \<Longrightarrow> hs_stable w' = hs_stable w"
  by (simp add: hs_stable_def env_keeps_same)

lemma hs_vals_set [simp]: "hs_vals (snd (hs_json_set h s)) = (hs_vals s)(hs_id h := hs_cursor h)"
  by (simp add: hs_vals_def hs_json_set_def fun_eq_iff)

lemma hs_stable_call:
  assumes "hs_stable w" "redis_call f w = (r, w')"
  obtains s where "hs_vals s = hs_vals (kv w)" "hs_stable w'"
    "(\<exists>e. r = Inl e \<and> kv w' \<in> {s, snd (f s)}) \<or> (r = Inr (fst (f s)) \<and> kv w' = snd (f s))"
proof -
  have "env_keeps (\<lambda>s. hs_vals s = hs_vals (kv w)) w" using assms(1) by (simp add: hs_stable_def)
  from redis_callE [OF assms(2) this] obtain s where "hs_vals s = hs_vals (kv w)" "same_schedule w w'"
    "(\<exists>e. r = Inl e \<and> kv w' \<in> {s, snd (f s)}) \<or> (r = Inr (fst (f s)) \<and> kv w' = snd (f s))" by auto
  with that show thesis using assms(1) hs_stable_same by metis
qed

lemma redis_index_cursorE:
  assumes "index_cursor redis_homeserver_index k s = (r, s')"
  obtains r0 where "redis_call (hs_json_get k) s = (r0, s')"
    and "\<And>c. r = Inr c \<Longrightarrow> r0 = Inr None \<and> c = 0 \<or>
      (\<exists>j. r0 = Inr (Some j) \<and> deserialize_cursor j = Some c)"
proof -
  obtain r0 s0 where call: "redis_call (hs_json_get k) s = (r0, s0)" by force
  consider e where "r0 = Inl e" | "r0 = Inr None" | j where "r0 = Inr (Some j)"
    by (metis option.exhaust sum.exhaust)
  then have "s0 = s' \<and> (\<forall>c. r = Inr c \<longrightarrow> r0 = Inr None \<and> c = 0 \<or>
      (\<exists>j. r0 = Inr (Some j) \<and> deserialize_cursor j = Some c))"
    using assms
    by cases (auto simp: index_cursor_def redis_homeserver_index_def hs_get_from_index_def call
        split: option.splits)
  then show thesis using that [of r0] call by simp
qed

interpretation primary: cursor_store
  "index_cursor redis_homeserver_index" "hs_set_cursor redis_homeserver_index"
  "\<lambda>w. hs_vals (kv w)" hs_stable "\<lambda>_. True"
proof
  fix s r s' and k :: string
  assume "hs_stable s" "index_cursor redis_homeserver_index k s = (r, s')"
  from redis_index_cursorE [OF this(2)] obtain r0 where c: "redis_call (hs_json_get k) s = (r0, s')"
    and r: "\<And>c. r = Inr c \<Longrightarrow> r0 = Inr None \<and> c = 0 \<or>
      (\<exists>j. r0 = Inr (Some j) \<and> deserialize_cursor j = Some c)"
    by metis
  show "hs_stable s' \<and> hs_vals (kv s') = hs_vals (kv s) \<and> (\<forall>c. r = Inr c \<longrightarrow> c = hs_vals (kv s) k)"
  proof (rule hs_stable_call [OF \<open>hs_stable s\<close> c])
    fix s0
    assume s0: "hs_vals s0 = hs_vals (kv s)" "hs_stable s'"
      "(\<exists>e. r0 = Inl e \<and> kv s' \<in> {s0, snd (hs_json_get k s0)}) \<or>
        r0 = Inr (fst (hs_json_get k s0)) \<and> kv s' = snd (hs_json_get k s0)"
    then have "kv s' = s0" by (auto simp: hs_json_get_def)
    moreover have "c = hs_vals s0 k" if "r = Inr c" for c
      using s0(3) r that by (auto simp: hs_json_get_def hs_vals_def split: option.splits)
    ultimately show ?thesis using s0(1,2) by simp
  qed
next
  fix s c ru s' and k :: string
  assume st: "hs_stable s" and wr: "hs_set_cursor redis_homeserver_index k c s = (ru, s')"
  have "redis_call (hs_json_set \<lparr>hs_id = k, hs_cursor = c\<rparr>) s = (ru, s')"
    using wr by (simp add: hs_set_cursor_def redis_homeserver_index_def)
  then show "hs_stable s' \<and> (hs_vals (kv s') = (hs_vals (kv s))(k := c) \<or>
      (\<exists>e. ru = Inl e) \<and> hs_vals (kv s') = hs_vals (kv s))"
    by (rule hs_stable_call [OF st]) auto
qed

text \<open>
  The cursor of a user: \<open>cursor_vals\<close> is the cursor each score denotes. The scores are exact
  integers, and the client reads those exactly.
\<close>

definition cursor_vals :: "cursor_kv \<Rightarrow> string \<times> string \<Rightarrow> nat" where
  "cursor_vals s k = (case s k of None \<Rightarrow> 0 | Some x \<Rightarrow> nat x)"

definition exact_scores :: "cursor_kv \<Rightarrow> bool" where
  "exact_scores s \<longleftrightarrow> (\<forall>k x. s k = Some x \<longrightarrow> 0 \<le> x \<and> x < 2 ^ 53)"

definition isize_exact :: "(int \<Rightarrow> int option) \<Rightarrow> bool" where
  "isize_exact score_isize \<longleftrightarrow> (\<forall>x. 0 \<le> x \<and> x < 2 ^ 53 \<longrightarrow> score_isize x = Some x)"

definition cursor_stable :: "(int \<Rightarrow> int option) \<Rightarrow> cursor_kv world \<Rightarrow> bool" where
  "cursor_stable score_isize w \<longleftrightarrow>
     isize_exact score_isize \<and> exact_scores (kv w) \<and>
     (\<forall>v. env_keeps (\<lambda>s. exact_scores s \<and> cursor_vals s = v) w)"

definition cursor_read_one ::
  "(int \<Rightarrow> int option) \<Rightarrow> string \<times> string \<Rightarrow> cursor_kv world \<Rightarrow> (redis_error, nat) result \<times> cursor_kv world" where
  "cursor_read_one score_isize k w =
     (case cursor_read score_isize [fst k] (snd k) w of
        (r, w1) \<Rightarrow> (map_sum id (\<lambda>cs. case cs of [] \<Rightarrow> 0 | c # _ \<Rightarrow> c) r, w1))"

definition cursor_put ::
  "string \<times> string \<Rightarrow> nat \<Rightarrow> cursor_kv world \<Rightarrow> (redis_error, unit) result \<times> cursor_kv world" where
  "cursor_put k c = redis_call (cursor_zadd (fst k) (snd k) (f64_of_int (int c)))"

lemma cursor_write_is_guarded:
  "cursor_write score_isize u hs c = guarded_write (cursor_read_one score_isize) cursor_put (u, hs) c"
proof
  fix w
  obtain r w1 where rd: "cursor_read score_isize [u] hs w = (r, w1)" by force
  show "cursor_write score_isize u hs c w =
      guarded_write (cursor_read_one score_isize) cursor_put (u, hs) c w"
    by (cases r) (simp_all add: cursor_write_def guarded_write_def cursor_read_one_def cursor_put_def rd
      ensure_cursor_not_backwards_def)
qed

text \<open>Seeding another user's cursor, or this one's, changes no cursor: the tasks that only call
  \<open>init\<close> leave every store stable.\<close>

lemma zadd_nx_keeps:
  assumes "exact_scores s"
  shows "exact_scores (snd (cursor_zadd_nx u hs 0 s))"
    "cursor_vals (snd (cursor_zadd_nx u hs 0 s)) = cursor_vals s"
  using assms
  by (auto simp: cursor_zadd_nx_def exact_scores_def cursor_vals_def fun_eq_iff split: option.splits)

lemma cursor_stable_call:
  assumes "cursor_stable si w" "redis_call f w = (r, w')"
    and "\<And>s. exact_scores s \<Longrightarrow> exact_scores (snd (f s))"
  obtains s where "exact_scores s" "cursor_vals s = cursor_vals (kv w)" "cursor_stable si w'"
    "(\<exists>e. r = Inl e \<and> kv w' \<in> {s, snd (f s)}) \<or> (r = Inr (fst (f s)) \<and> kv w' = snd (f s))"
proof -
  let ?I = "\<lambda>s. exact_scores s \<and> cursor_vals s = cursor_vals (kv w)"
  have "env_keeps ?I w" "?I (kv w)" using assms(1) by (simp_all add: cursor_stable_def)
  from redis_callE [where I = ?I, OF assms(2) this] obtain s where s: "?I s" "same_schedule w w'"
    "(\<exists>e. r = Inl e \<and> kv w' \<in> {s, snd (f s)}) \<or> (r = Inr (fst (f s)) \<and> kv w' = snd (f s))" by blast
  then have "exact_scores (kv w')" using assms(3) by auto
  then have "cursor_stable si w'"
    using assms(1) env_keeps_same [OF s(2)] by (simp add: cursor_stable_def)
  with s that show thesis by blast
qed

lemma cursor_read_oneE:
  assumes "isize_exact si" "cursor_read_one si k w = (r, w')"
  obtains r0 where "redis_call (cursor_zscores [k]) w = (r0, w')"
    and "\<And>c s. \<lbrakk>r = Inr c; r0 = Inr (fst (cursor_zscores [k] s)); exact_scores s\<rbrakk> \<Longrightarrow> c = cursor_vals s k"
    and "\<And>e. r0 = Inl e \<Longrightarrow> r = Inl e"
proof -
  obtain r0 w0 where call: "redis_call (cursor_zscores [k]) w = (r0, w0)" by force
  have one: "cursor_read_one si k w = (case r0 of Inl e \<Rightarrow> (Inl e, w0)
      | Inr scores \<Rightarrow> (case scores_as_isize si scores of
          None \<Rightarrow> (Inl (CommandFailed ''response was of incompatible type''), w0)
        | Some is \<Rightarrow> (map_sum id (\<lambda>cs. case cs of [] \<Rightarrow> 0 | c # _ \<Rightarrow> c) (read_scores (snd k) is), w0)))"
    by (cases r0) (simp_all add: cursor_read_one_def cursor_read_def call split: option.splits)
  have "w' = w0" using assms(2) one by (auto split: sum.splits option.splits)
  moreover have "c = cursor_vals s k"
    if "r = Inr c" "r0 = Inr (fst (cursor_zscores [k] s))" "exact_scores s" for c s
  proof (cases "s k")
    case None
    then show ?thesis using that assms(2) one by (simp add: cursor_zscores_def cursor_vals_def)
  next
    case (Some x)
    then have "0 \<le> x" "si x = Some x" 
      using that(3) assms(1) unfolding exact_scores_def isize_exact_def by blast+
    then show ?thesis using that assms(2) one Some by (simp add: cursor_zscores_def cursor_vals_def)
  qed
  moreover have "r = Inl e" if "r0 = Inl e" for e using that assms(2) one by simp
  ultimately show thesis using that [of r0] call by simp
qed

interpretation external: cursor_store
  "cursor_read_one si" cursor_put "\<lambda>w. cursor_vals (kv w)" "cursor_stable si" "\<lambda>c. c < 2 ^ 53"
  for si
proof
  fix s r s' k
  assume st: "cursor_stable si s" and rd: "cursor_read_one si k s = (r, s')"
  have "isize_exact si" using st by (simp add: cursor_stable_def)
  from cursor_read_oneE [OF this rd] obtain r0 where c: "redis_call (cursor_zscores [k]) s = (r0, s')"
    and r: "\<And>c t. \<lbrakk>r = Inr c; r0 = Inr (fst (cursor_zscores [k] t)); exact_scores t\<rbrakk> \<Longrightarrow> c = cursor_vals t k"
    and e: "\<And>e. r0 = Inl e \<Longrightarrow> r = Inl e" by metis
  show "cursor_stable si s' \<and> cursor_vals (kv s') = cursor_vals (kv s) \<and>
      (\<forall>c. r = Inr c \<longrightarrow> c = cursor_vals (kv s) k)"
  proof (rule cursor_stable_call [OF st c])
    fix s0
    assume s0: "exact_scores s0" "cursor_vals s0 = cursor_vals (kv s)" "cursor_stable si s'"
      "(\<exists>e. r0 = Inl e \<and> kv s' \<in> {s0, snd (cursor_zscores [k] s0)}) \<or>
        r0 = Inr (fst (cursor_zscores [k] s0)) \<and> kv s' = snd (cursor_zscores [k] s0)"
    then have "kv s' = s0" by (auto simp: cursor_zscores_def)
    moreover have "c = cursor_vals s0 k" if "r = Inr c" for c using s0(1,4) r e that by auto
    ultimately show ?thesis using s0(2,3) by simp
  qed (simp add: cursor_zscores_def)
next
  fix s c ru s' k
  assume st: "cursor_stable si s" and c: "c < 2 ^ 53" and wr: "cursor_put k c s = (ru, s')"
  have score: "f64_of_int (int c) = int c" using c by (intro f64_of_int_exact) simp
  have set: "cursor_vals (snd (cursor_zadd (fst k) (snd k) (int c) t)) = (cursor_vals t)(k := c)" for t
    by (simp add: cursor_zadd_def cursor_vals_def fun_eq_iff)
  have "exact_scores (snd (cursor_zadd (fst k) (snd k) (int c) t))" if "exact_scores t" for t
    using that c by (simp add: cursor_zadd_def exact_scores_def)
  from cursor_stable_call [OF st wr [unfolded cursor_put_def score] this]
  show "cursor_stable si s' \<and> (cursor_vals (kv s') = (cursor_vals (kv s))(k := c) \<or>
      (\<exists>e. ru = Inl e) \<and> cursor_vals (kv s') = cursor_vals (kv s))"
    using set by (metis insertE singletonD)
qed

section \<open>Lemmas\<close>

lemma of_char_of_digit: "n < 10 \<Longrightarrow> (of_char (char_of (48 + n)) :: nat) = 48 + n"
  by (simp add: of_char_of)

lemma digit_char: "n < 10 \<Longrightarrow> is_digit (char_of (48 + n)) \<and> digit_value (char_of (48 + n)) = n"
  by (simp add: is_digit_def digit_value_def of_char_of_digit)

lemma parse_digits_snoc:
  "parse_digits acc (s @ [c]) =
     (case parse_digits acc s of None \<Rightarrow> None
      | Some a \<Rightarrow> if is_digit c \<and> a * 10 + digit_value c < 2 ^ 64 then Some (a * 10 + digit_value c) else None)"
  by (induction acc s rule: parse_digits.induct) auto

lemma parse_digits_show: "n < 2 ^ 64 \<Longrightarrow> parse_digits 0 (show_nat n) = Some n"
proof (induction n rule: show_nat.induct)
  case (1 n)
  show ?case
  proof (cases "n < 10")
    case True
    then show ?thesis using digit_char [of n] 1(2) by (subst show_nat.simps) simp
  next
    case False
    then have "parse_digits 0 (show_nat (n div 10)) = Some (n div 10)" using 1 by simp
    moreover have "n div 10 * 10 + n mod 10 = n" by simp
    ultimately show ?thesis
      using False digit_char [of "n mod 10"] 1(2) by (subst show_nat.simps) (simp add: parse_digits_snoc)
  qed
qed

lemma show_nat_head: "\<exists>c cs. show_nat n = c # cs \<and> is_digit c"
proof (induction n rule: show_nat.induct)
  case (1 n)
  show ?case
  proof (cases "n < 10")
    case True
    then show ?thesis using digit_char [of n] by (subst show_nat.simps) simp
  next
    case False
    with 1 obtain c cs where "show_nat (n div 10) = c # cs" "is_digit c" by blast
    then show ?thesis using False by (subst show_nat.simps) simp
  qed
qed

lemma index_get_stable:
  assumes "hs_stable w" "hs_get_from_index hid w = (r, w')"
  shows "hs_stable w'" "hs_vals (kv w') = hs_vals (kv w)"
proof -
  obtain r' where "index_cursor redis_homeserver_index hid w = (r', w')"
    using assms(2) by (simp add: index_cursor_def redis_homeserver_index_def)
  from primary.get_law [OF assms(1) this] show "hs_stable w'" "hs_vals (kv w') = hs_vals (kv w)" by blast+
qed

lemma put_fresh_stable:
  assumes "hs_stable w" "hs_put_to_index redis_homeserver_index \<lparr>hs_id = hid, hs_cursor = 0\<rparr> w = (r, w')"
  shows "hs_stable w'" "hs_vals (kv w') = hs_vals (kv w)"
proof -
  have "guarded_write (index_cursor redis_homeserver_index) (hs_set_cursor redis_homeserver_index) hid 0 w = (r, w')"
    using assms(2) by (simp add: hs_put_is_guarded)
  from primary.guarded_write_law(1,2) [OF assms(1) _ this]
  show "hs_stable w'" "hs_vals (kv w') = hs_vals (kv w)" by (auto simp: fun_eq_iff)
qed

lemma graph_call_hs_stable:
  assumes "hs_stable w" "graph_call f w = (r, w')" "\<And>s. hs_index (snd (f s)) = hs_index s"
  shows "hs_stable w'" "hs_vals (kv w') = hs_vals (kv w)"
proof -
  have vals: "hs_vals (snd (f s)) = hs_vals s" for s using assms(3) by (simp add: hs_vals_def fun_eq_iff)
  have "env_keeps (\<lambda>s. hs_vals s = hs_vals (kv w)) w" using assms(1) by (simp add: hs_stable_def)
  from graph_callE [OF assms(2) this] obtain s where "hs_vals s = hs_vals (kv w)" "same_schedule w w'"
    "kv w' \<in> {s, snd (f s)}" by auto
  then show "hs_stable w'" "hs_vals (kv w') = hs_vals (kv w)"
    using assms(1) hs_stable_same vals by auto
qed

section \<open>Properties\<close>

text \<open>C7. The cursor of a user on an external homeserver never moves backwards, whatever value is
  written, whichever calls fail and whatever other tasks seed meanwhile; a write that reports
  success leaves exactly the written cursor and changes no other one.\<close>

theorem user_cursor_never_rewinds:
  assumes "cursor_stable si w" and "c < 2 ^ 53" and "cursor_write si u hs c w = (r, w')"
  shows "cursor_vals (kv w) k \<le> cursor_vals (kv w') k \<and>
    (r = Inr () \<longrightarrow> cursor_vals (kv w') = (cursor_vals (kv w))((u, hs) := c))"
proof -
  note gw = assms(3) [unfolded cursor_write_is_guarded]
  show ?thesis
    using external.guarded_write_mono [OF assms(1,2) gw] external.guarded_write_law(3) [OF assms(1,2) gw]
    by blast
qed

text \<open>A world in which another task seeds the cursor of the same user before every call.\<close>

definition seeding_world :: "cursor_kv \<Rightarrow> cursor_kv world" where
  "seeding_world s = (calm_world s)\<lparr>env := (\<lambda>_ x. snd (cursor_zadd_nx ''u'' ''hs'' 0 x))\<rparr>"

theorem user_cursor_never_rewinds_witness:
  "cursor_vals (kv (snd (cursor_write Some ''u'' ''hs'' 50 (seeding_world [(''u'', ''hs'') \<mapsto> 100])))) (''u'', ''hs'')
     \<ge> 100 \<and>
   cursor_vals (kv (snd (cursor_write Some ''u'' ''hs'' 200 (seeding_world [(''u'', ''hs'') \<mapsto> 100])))) (''u'', ''hs'')
     \<ge> 100"
proof -
  let ?w = "seeding_world [(''u'', ''hs'') \<mapsto> 100]"
  have exact: "exact_scores [(''u'', ''hs'') \<mapsto> 100]" by (simp add: exact_scores_def)
  have "cursor_stable Some ?w"
    using zadd_nx_keeps exact
    by (simp add: cursor_stable_def isize_exact_def env_keeps_def seeding_world_def calm_world_def)
  then have "cursor_vals (kv ?w) (''u'', ''hs'') \<le>
      cursor_vals (kv (snd (cursor_write Some ''u'' ''hs'' c ?w))) (''u'', ''hs'')" if "c < 2 ^ 53" for c
    using user_cursor_never_rewinds [of Some ?w c "''u''" "''hs''"
        "fst (cursor_write Some ''u'' ''hs'' c ?w)" "snd (cursor_write Some ''u'' ''hs'' c ?w)"] that
    by simp
  from this [of 50] this [of 200] show ?thesis
    by (simp add: seeding_world_def calm_world_def cursor_vals_def)
qed

text \<open>The cursor of the primary homeserver never moves backwards: storing a homeserver record
  either leaves every stored cursor as it was or advances that homeserver's to the new value, and
  it reports success only in the second case.\<close>

theorem primary_cursor_never_rewinds:
  assumes "hs_stable w" and "hs_put_to_index redis_homeserver_index h w = (r, w')"
  shows "hs_vals (kv w) k \<le> hs_vals (kv w') k \<and>
    (r = Inr () \<longrightarrow> hs_vals (kv w') = (hs_vals (kv w))(hs_id h := hs_cursor h))"
proof -
  note gw = assms(2) [unfolded hs_put_is_guarded]
  show ?thesis
    using primary.guarded_write_mono [OF assms(1) TrueI gw] primary.guarded_write_law(3) [OF assms(1) TrueI gw]
    by blast
qed

theorem primary_cursor_never_rewinds_witness:
  "hs_vals (kv (snd (hs_put_to_index redis_homeserver_index \<lparr>hs_id = ''p'', hs_cursor = 3\<rparr>
     (calm_world \<lparr>hs_index = [''p'' \<mapsto> CursorString ''0007''], hs_graph = {}\<rparr>)))) ''p'' \<ge> 7"
proof -
  let ?s = "\<lparr>hs_index = [''p'' \<mapsto> CursorString ''0007''], hs_graph = {}\<rparr>"
  have "hs_vals ?s ''p'' = 7"
    by (simp add: hs_vals_def parse_u64_def is_digit_def digit_value_def)
  then show ?thesis
    using primary_cursor_never_rewinds [of "calm_world ?s" "\<lparr>hs_id = ''p'', hs_cursor = 3\<rparr>"
        "fst (hs_put_to_index redis_homeserver_index \<lparr>hs_id = ''p'', hs_cursor = 3\<rparr> (calm_world ?s))" _ "''p''"]
    by (simp add: hs_stable_def)
qed

text \<open>Recording a homeserver again never touches a cursor: whether the homeserver is known to
  the graph, the index, both or none, and whichever of the calls fail, \<open>persist_if_unknown\<close> leaves
  every stored cursor as it was.\<close>

theorem persist_if_unknown_keeps_cursors:
  assumes "hs_stable w" and "persist_if_unknown hid w = (r, w')"
  shows "hs_vals (kv w') = hs_vals (kv w)"
proof -
  have match: "hs_index (snd (hs_match_node hid s)) = hs_index s"
    and merge: "hs_index (snd (hs_merge_node hid s)) = hs_index s" for s
    by (simp_all add: hs_match_node_def hs_merge_node_def)
  obtain r1 w1 where c1: "graph_call (hs_match_node hid) w = (r1, w1)" by force
  note g1 = graph_call_hs_stable [OF assms(1) c1 match]
  obtain r2 w2 where c2: "hs_get_from_index hid w1 = (r2, w2)" by force
  note g2 = index_get_stable [OF g1(1) c2]
  obtain r3 w3 where c3: "graph_call (hs_merge_node hid) w2 = (r3, w3)" by force
  note g3 = graph_call_hs_stable [OF g2(1) c3 merge]
  obtain r4 w4 where c4: "hs_put_to_index redis_homeserver_index \<lparr>hs_id = hid, hs_cursor = 0\<rparr> w2 = (r4, w4)"
    by force
  note g4 = put_fresh_stable [OF g2(1) c4]
  obtain r5 w5 where c5: "hs_put_to_index redis_homeserver_index \<lparr>hs_id = hid, hs_cursor = 0\<rparr> w3 = (r5, w5)"
    by force
  note g5 = put_fresh_stable [OF g3(1) c5]
  have "w' = w1 \<or> w' = w2 \<or> w' = w3 \<or> w' = w4 \<or> w' = w5"
    using assms(2) c1 c2 c3 c4 c5
    by (auto simp: persist_if_unknown_def Let_def split: sum.splits if_splits)
  then show ?thesis using g1(2) g2(2) g3(2) g4(2) g5(2) by metis
qed

theorem persist_if_unknown_keeps_cursors_witness:
  "hs_vals (kv (snd (persist_if_unknown ''p''
     (calm_world \<lparr>hs_index = [''p'' \<mapsto> CursorNumber 9], hs_graph = {}\<rparr>)))) ''p'' = 9"
proof -
  let ?s = "\<lparr>hs_index = [''p'' \<mapsto> CursorNumber 9], hs_graph = {}\<rparr>"
  have "hs_vals (kv (snd (persist_if_unknown ''p'' (calm_world ?s)))) = hs_vals (kv (calm_world ?s))"
    by (rule persist_if_unknown_keeps_cursors [of _ "''p''" "fst (persist_if_unknown ''p'' (calm_world ?s))"])
      (simp_all add: hs_stable_def)
  then show ?thesis by (simp add: hs_vals_def)
qed

text \<open>The cursor text round-trips: a record whose cursor was stored as decimal text, as old
  versions did, denotes the same cursor as one stored as a number, over the whole range of \<open>u64\<close>.\<close>

theorem cursor_text_roundtrip:
  assumes "n < 2 ^ 64"
  shows "deserialize_cursor (CursorString (show_nat n)) = Some n \<and> deserialize_cursor (CursorNumber n) = Some n"
proof -
  obtain c cs where "show_nat n = c # cs" "is_digit c" using show_nat_head by blast
  moreover from this have "c \<noteq> CHR ''+''" by (auto simp: is_digit_def)
  ultimately show ?thesis using parse_digits_show [OF assms] by (simp add: parse_u64_def)
qed

theorem cursor_text_roundtrip_witness:
  "deserialize_cursor (CursorString (show_nat 18446744073709551615)) = Some 18446744073709551615"
  using cursor_text_roundtrip [of 18446744073709551615] by simp

end
