(* ===== verification/Hs_Indexer.thy ===== *)
theory Hs_Indexer
  imports Event_Processor Cursor_Store
begin

text \<open>
  The event processor of the primary homeserver (service/indexer/homeserver.rs): it polls one
  batch of event lines from the stored cursor, checks the cursor that closes the batch, handles
  the lines in order and stores the cursor once all of them are done. What it is built from (the
  homeserver client, the event handler, the graph lookup of a user's homeserver, the per-run
  mapping cache) is a record of operations on the state \<open>'s\<close>. Counters and log lines are left
  out.
\<close>

section \<open>Batches\<close>

definition strip_prefix :: "string \<Rightarrow> string \<Rightarrow> string option" where
  "strip_prefix p s = (if take (length p) s = p then Some (drop (length p) s) else None)"

type_synonym event_batch = "string list \<times> string option"

definition batch_step :: "event_batch \<Rightarrow> string \<Rightarrow> event_batch" where
  "batch_step b line =
     (case b of (event_lines, cursor) \<Rightarrow>
      case strip_prefix ''cursor: '' line of
        Some value \<Rightarrow> (event_lines, Some value)
      | None \<Rightarrow> (event_lines @ [line], cursor))"

definition event_batch_split :: "string list \<Rightarrow> event_batch" where
  "event_batch_split lines = foldl batch_step ([], None) lines"

definition has_events :: "event_batch \<Rightarrow> bool" where
  "has_events b \<longleftrightarrow> fst b \<noteq> []"

section \<open>The processor\<close>

datatype hs_mapping = Unbound | Current bool | Other string

record 's hs_indexer =
  hp_homeserver :: homeserver
  hp_limit :: nat
  hp_handle :: "event \<Rightarrow> 's \<Rightarrow> (ep_error, unit) result \<times> 's"
  hp_poll_events :: "string \<Rightarrow> nat \<Rightarrow> nat \<Rightarrow> 's \<Rightarrow> (hs_error, string list) result \<times> 's"
  hp_shutdown :: "'s \<Rightarrow> bool \<times> 's"
  hp_scheduler :: "'s retry_scheduler"
  hp_index :: "'s homeserver_index"
  hp_user_row :: "string \<Rightarrow> 's \<Rightarrow> (graph_error, (string \<times> bool) option) result \<times> 's"
  hp_cache_get :: "string \<Rightarrow> 's \<Rightarrow> hs_mapping option \<times> 's"
  hp_cache_insert :: "string \<Rightarrow> hs_mapping \<Rightarrow> 's \<Rightarrow> unit \<times> 's"
  hp_specs :: uri_specs
  hp_show_hs :: "hs_error \<Rightarrow> string"
  hp_show_graph :: "graph_error \<Rightarrow> string"
  hp_show_redis :: "redis_error \<Rightarrow> string"

definition user_hs_mapping ::
  "'s hs_indexer \<Rightarrow> string \<Rightarrow> 's \<Rightarrow> (graph_error, hs_mapping) result \<times> 's" where
  "user_hs_mapping hp user_id s =
     (case hp_cache_get hp user_id s of
        (Some m, s1) \<Rightarrow> (Inr m, s1)
      | (None, s1) \<Rightarrow>
          (case hp_user_row hp user_id s1 of
             (Inl e, s2) \<Rightarrow> (Inl e, s2)
           | (Inr row, s2) \<Rightarrow>
               (let mapping = (case row of
                      None \<Rightarrow> Unbound
                    | Some (hs, stale) \<Rightarrow>
                        if hs = hs_id (hp_homeserver hp) then Current stale else Other hs)
                in case hp_cache_insert hp user_id mapping s2 of (_, s3) \<Rightarrow> (Inr mapping, s3))))"

definition hs_should_process_event ::
  "'s hs_indexer \<Rightarrow> event \<Rightarrow> 's \<Rightarrow> (ep_error, bool) result \<times> 's" where
  "hs_should_process_event hp ev s =
     (case user_hs_mapping hp (pu_user_id (ev_parsed_uri ev)) s of
        (Inl e, s1) \<Rightarrow> (Inl (ep_from_graph (hp_show_graph hp) e), s1)
      | (Inr Unbound, s1) \<Rightarrow> (Inr True, s1)
      | (Inr (Current stale), s1) \<Rightarrow> (Inr (\<not> stale), s1)
      | (Inr (Other _), s1) \<Rightarrow> (Inr False, s1))"

definition hs_processor :: "'s hs_indexer \<Rightarrow> 's processor" where
  "hs_processor hp =
     \<lparr>p_handle = hp_handle hp, p_should_process = hs_should_process_event hp,
      p_scheduler = Some (hp_scheduler hp), p_homeserver_id = Some (hs_id (hp_homeserver hp)),
      p_specs = hp_specs hp\<rparr>"

definition resolve_batch_cursor ::
  "'s hs_indexer \<Rightarrow> string \<Rightarrow> bool \<Rightarrow> 's \<Rightarrow> (ep_error, homeserver option) result \<times> 's" where
  "resolve_batch_cursor hp raw_cursor batch_had_events s =
     (let requested = hs_cursor (hp_homeserver hp) in
      case try_from_cursor (hp_index hp) (hs_id (hp_homeserver hp)) raw_cursor s of
        (Inr h, s1) \<Rightarrow>
          if batch_had_events \<and> hs_cursor h \<le> requested then (Inr None, s1)
          else if \<not> batch_had_events \<and> hs_cursor h \<noteq> requested then (Inr None, s1)
          else (Inr (Some h), s1)
      | (Inl e, s1) \<Rightarrow>
          (case e of
             KvOperationFailed (InvalidInput _) \<Rightarrow> (Inr None, s1)
           | KvOperationFailed _ \<Rightarrow> (Inl (ep_from_model (hp_show_graph hp) (hp_show_redis hp) e), s1)
           | _ \<Rightarrow> (Inr None, s1)))"

text \<open>The loop over the lines; \<open>Inr False\<close> is the early return at shutdown.\<close>

fun process_lines :: "'s hs_indexer \<Rightarrow> string list \<Rightarrow> 's \<Rightarrow> (ep_error, bool) result \<times> 's" where
  "process_lines hp [] s = (Inr True, s)"
| "process_lines hp (line # lines) s =
     (case hp_shutdown hp s of
        (True, s1) \<Rightarrow> (Inr False, s1)
      | (False, s1) \<Rightarrow>
          (case process_event_line (hs_processor hp) line s1 of
             (Inl e, s2) \<Rightarrow> (Inl e, s2)
           | (Inr _, s2) \<Rightarrow> process_lines hp lines s2))"

definition process_batch_lines ::
  "'s hs_indexer \<Rightarrow> string list \<Rightarrow> homeserver option \<Rightarrow> 's \<Rightarrow> (ep_error, unit) result \<times> 's" where
  "process_batch_lines hp lines next_cursor s =
     (case process_lines hp lines s of
        (Inl e, s1) \<Rightarrow> (Inl e, s1)
      | (Inr False, s1) \<Rightarrow> (Inr (), s1)
      | (Inr True, s1) \<Rightarrow>
          (case next_cursor of
             None \<Rightarrow> (Inr (), s1)
           | Some h \<Rightarrow>
               (case hs_put_to_index (hp_index hp) h s1 of
                  (Inl e, s2) \<Rightarrow> (Inl (ep_from_redis (hp_show_redis hp) e), s2)
                | (Inr _, s2) \<Rightarrow> (Inr (), s2))))"

definition process_event_lines :: "'s hs_indexer \<Rightarrow> string list \<Rightarrow> 's \<Rightarrow> (ep_error, unit) result \<times> 's" where
  "process_event_lines hp lines s =
     (let batch = event_batch_split lines in
      case snd batch of
        Some raw_cursor \<Rightarrow>
          (case resolve_batch_cursor hp raw_cursor (has_events batch) s of
             (Inl e, s1) \<Rightarrow> (Inl e, s1)
           | (Inr None, s1) \<Rightarrow> (Inr (), s1)
           | (Inr (Some h), s1) \<Rightarrow> process_batch_lines hp (fst batch) (Some h) s1)
      | None \<Rightarrow>
          if has_events batch then (Inr (), s)
          else process_batch_lines hp (fst batch) None s)"

definition hs_run_internal :: "'s hs_indexer \<Rightarrow> 's \<Rightarrow> (ep_error, run_outcome) result \<times> 's" where
  "hs_run_internal hp s =
     (case hp_poll_events hp (hs_id (hp_homeserver hp)) (hs_cursor (hp_homeserver hp)) (hp_limit hp) s of
        (Inl e, s1) \<Rightarrow> (Inl (ep_from_hs (hp_show_hs hp) e), s1)
      | (Inr lines, s1) \<Rightarrow>
          if lines = [] then (Inr Completed, s1)
          else (case process_event_lines hp lines s1 of
                  (Inl e, s2) \<Rightarrow> (Inl e, s2)
                | (Inr _, s2) \<Rightarrow> (Inr Completed, s2)))"

section \<open>Lemmas\<close>

lemma batch_step_pair:
  "batch_step (es, c) l =
     (case strip_prefix ''cursor: '' l of Some v \<Rightarrow> (es, Some v) | None \<Rightarrow> (es @ [l], c))"
  by (simp add: batch_step_def)

lemma batch_fold:
  "foldl batch_step (es, c) lines =
     (es @ fst (event_batch_split lines),
      case snd (event_batch_split lines) of None \<Rightarrow> c | Some u \<Rightarrow> Some u)"
proof (induction lines arbitrary: es c)
  case Nil
  then show ?case by (simp add: event_batch_split_def)
next
  case (Cons l ls)
  have "event_batch_split (l # ls) = foldl batch_step (batch_step ([], None) l) ls"
    by (simp add: event_batch_split_def)
  then show ?case
    by (cases "strip_prefix ''cursor: '' l") (simp_all add: batch_step_pair Cons.IH split: option.splits)
qed

lemma event_batch_split_append:
  "event_batch_split (xs @ ys) =
     (fst (event_batch_split xs) @ fst (event_batch_split ys),
      case snd (event_batch_split ys) of None \<Rightarrow> snd (event_batch_split xs) | Some u \<Rightarrow> Some u)"
  by (metis batch_fold event_batch_split_def foldl_append prod.collapse)

lemma validate_state: "snd (validate_cursor_change ix hid c s) = snd (hi_get ix hid s)"
  by (auto simp: validate_cursor_change_def split: prod.splits sum.splits option.splits)

lemma try_from_cursor_cases:
  obtains "parse_u64 raw = None" "try_from_cursor ix hid raw s =
      (Inl (MGeneric (''Cannot create a homeserver from a non-numeric cursor: '' @ raw)), s)"
  | c e where "parse_u64 raw = Some c" "try_from_cursor ix hid raw s =
      (Inl (KvOperationFailed e), snd (hi_get ix hid s))"
  | c where "parse_u64 raw = Some c" "try_from_cursor ix hid raw s =
      (Inr \<lparr>hs_id = hid, hs_cursor = c\<rparr>, snd (hi_get ix hid s))"
proof (cases "parse_u64 raw")
  case None
  then show ?thesis using that(1) by (simp add: try_from_cursor_def)
next
  case (Some c)
  obtain r where v: "validate_cursor_change ix hid c s = (r, snd (hi_get ix hid s))"
    by (metis prod.collapse validate_state)
  then show ?thesis using that(2,3) Some by (cases r) (auto simp: try_from_cursor_def)
qed

text \<open>The verdict on the closing cursor: only its value and the requested cursor matter, and the
  only access to the state is one read of the record.\<close>

lemma resolve_state:
  "snd (resolve_batch_cursor hp raw had s) \<in> {s, snd (hi_get (hp_index hp) (hs_id (hp_homeserver hp)) s)}"
  by (rule try_from_cursor_cases [of raw "hp_index hp" "hs_id (hp_homeserver hp)" s])
    (auto simp: resolve_batch_cursor_def Let_def split: redis_error.splits)

lemma resolve_accepts:
  assumes "resolve_batch_cursor hp raw had s = (Inr (Some h), s1)"
  shows "\<exists>c. parse_u64 raw = Some c \<and> h = \<lparr>hs_id = hs_id (hp_homeserver hp), hs_cursor = c\<rparr> \<and>
    (if had then hs_cursor (hp_homeserver hp) < c else c = hs_cursor (hp_homeserver hp))"
  by (rule try_from_cursor_cases [of raw "hp_index hp" "hs_id (hp_homeserver hp)" s])
    (use assms in \<open>auto simp: resolve_batch_cursor_def Let_def split: redis_error.splits if_splits\<close>)

text \<open>\<open>lines_done hp ls s s'\<close>: every line was handled without error, none after a shutdown signal.\<close>

inductive lines_done :: "'s hs_indexer \<Rightarrow> string list \<Rightarrow> 's \<Rightarrow> 's \<Rightarrow> bool" for hp where
  done_nil: "lines_done hp [] s s"
| done_line: "\<lbrakk>hp_shutdown hp s = (False, s1); process_event_line (hs_processor hp) l s1 = (Inr (), s2);
    lines_done hp ls s2 s'\<rbrakk> \<Longrightarrow> lines_done hp (l # ls) s s'"

lemma process_lines_done:
  "process_lines hp ls s = (Inr True, s') \<Longrightarrow> lines_done hp ls s s'"
proof (induction ls arbitrary: s)
  case Nil
  then show ?case by (simp add: done_nil)
next
  case (Cons l ls)
  then show ?case by (auto split: prod.splits bool.splits sum.splits intro: done_line)
qed

lemma process_lines_keeps:
  assumes "\<And>s. P s \<Longrightarrow> P (snd (hp_shutdown hp s))"
    and "\<And>l s. P s \<Longrightarrow> P (snd (process_event_line (hs_processor hp) l s))"
    and "P s"
  shows "P (snd (process_lines hp ls s))"
  using assms(3)
proof (induction ls arbitrary: s)
  case Nil
  then show ?case by simp
next
  case (Cons l ls)
  obtain b s1 where sh: "hp_shutdown hp s = (b, s1)" by force
  obtain r s2 where pl: "process_event_line (hs_processor hp) l s1 = (r, s2)" by force
  have "P s1" "P s2" using assms(1) [OF Cons.prems] assms(2) [of s1 l] sh pl by auto
  then show ?case using Cons.IH sh pl by (cases b; cases r) auto
qed

text \<open>What a batch can do to the state: nothing but the read of the record, or its lines and then,
  when all are done, the write of the closing cursor.\<close>

lemma process_event_lines_cases:
  assumes "process_event_lines hp lines s = (r, s')"
  obtains (untouched) "s' = s"
  | (read) "s' = snd (hi_get (hp_index hp) (hs_id (hp_homeserver hp)) s)"
  | (partial) s1 r1 where "s1 \<in> {s, snd (hi_get (hp_index hp) (hs_id (hp_homeserver hp)) s)}"
      "process_lines hp (fst (event_batch_split lines)) s1 = (r1, s')" "r1 \<noteq> Inr True"
  | (whole) raw h s1 s2 where "snd (event_batch_split lines) = Some raw"
      "resolve_batch_cursor hp raw (has_events (event_batch_split lines)) s = (Inr (Some h), s1)"
      "process_lines hp (fst (event_batch_split lines)) s1 = (Inr True, s2)"
      "s' = snd (hs_put_to_index (hp_index hp) h s2)"
proof (cases "snd (event_batch_split lines)")
  case None
  then have "s' = s"
    using assms by (simp add: process_event_lines_def Let_def has_events_def process_batch_lines_def split: if_splits)
  then show ?thesis by (rule untouched)
next
  case (Some raw)
  let ?b = "event_batch_split lines"
  obtain r0 s1 where res: "resolve_batch_cursor hp raw (has_events ?b) s = (r0, s1)" by force
  have s1: "s1 \<in> {s, snd (hi_get (hp_index hp) (hs_id (hp_homeserver hp)) s)}"
    using resolve_state [of hp raw "has_events ?b" s] res by simp
  show ?thesis
  proof (cases "\<exists>h. r0 = Inr (Some h)")
    case False
    then have "s' = s1"
      using assms Some res by (auto simp: process_event_lines_def split: sum.splits option.splits)
    then show ?thesis using s1 untouched read by blast
  next
    case True
    then obtain h where h: "r0 = Inr (Some h)" by blast
    obtain r1 s2 where pl: "process_lines hp (fst ?b) s1 = (r1, s2)" by force
    show ?thesis
    proof (cases "r1 = Inr True")
      case True
      then have "s' = snd (hs_put_to_index (hp_index hp) h s2)"
        using assms Some res h pl
        by (auto simp: process_event_lines_def process_batch_lines_def split: prod.splits sum.splits)
      then show ?thesis using whole Some res h pl True by blast
    next
      case False
      then have "s' = s2"
        using assms Some res h pl
        by (auto simp: process_event_lines_def process_batch_lines_def split: sum.splits bool.splits)
      then show ?thesis using partial s1 pl False by blast
    qed
  qed
qed

section \<open>Streams\<close>

text \<open>
  The states a sequence of runs on the primary homeserver can reach: a run is built from the
  record the index holds (or fails to be built), and other tasks may act between runs as long as
  they keep \<open>J\<close>.
\<close>

inductive stream_reach ::
  "(homeserver \<Rightarrow> 's hs_indexer) \<Rightarrow> 's homeserver_index \<Rightarrow> string \<Rightarrow> ('s \<Rightarrow> 's \<Rightarrow> bool) \<Rightarrow> 's \<Rightarrow> 's \<Rightarrow> bool"
  for mk ix hid J where
  stream_start: "stream_reach mk ix hid J s s"
| stream_other: "\<lbrakk>stream_reach mk ix hid J s s1; J s1 s2\<rbrakk> \<Longrightarrow> stream_reach mk ix hid J s s2"
| stream_unbuilt: "\<lbrakk>stream_reach mk ix hid J s s1; hi_get ix hid s1 = (r, s2); \<forall>h. r \<noteq> Inr (Some h)\<rbrakk>
    \<Longrightarrow> stream_reach mk ix hid J s s2"
| stream_run: "\<lbrakk>stream_reach mk ix hid J s s1; hi_get ix hid s1 = (Inr (Some h), s2);
    hs_run_internal (mk h) s2 = (r, s3)\<rbrakk> \<Longrightarrow> stream_reach mk ix hid J s s3"

text \<open>
  What a run relies on. \<open>seen s\<close> are the lines that were taken care of: handled, queued for
  retry or found to need no handling. The homeserver's log lists its events with their cursors;
  \<open>complete_polls\<close> is the contract of the homeserver's \<open>/events\<close> endpoint, that a batch closed by
  cursor \<open>c\<close> carries every event after the requested cursor up to \<open>c\<close>.
\<close>

definition settles_lines :: "'s hs_indexer \<Rightarrow> ('s \<Rightarrow> bool) \<Rightarrow> ('s \<Rightarrow> nat) \<Rightarrow> ('s \<Rightarrow> string set) \<Rightarrow> string set \<Rightarrow> bool" where
  "settles_lines hp I val seen lines \<longleftrightarrow>
     (\<forall>s. I s \<longrightarrow> I (snd (hp_shutdown hp s)) \<and> val (snd (hp_shutdown hp s)) = val s \<and>
            seen s \<subseteq> seen (snd (hp_shutdown hp s))) \<and>
     (\<forall>l s r s'. I s \<and> process_event_line (hs_processor hp) l s = (r, s') \<longrightarrow>
        I s' \<and> val s' = val s \<and> seen s \<subseteq> seen s' \<and> (r = Inr () \<and> l \<in> lines \<longrightarrow> l \<in> seen s'))"

definition complete_polls :: "'s hs_indexer \<Rightarrow> ('s \<Rightarrow> bool) \<Rightarrow> ('s \<Rightarrow> nat) \<Rightarrow> ('s \<Rightarrow> string set) \<Rightarrow> (nat \<times> string) set \<Rightarrow> bool" where
  "complete_polls hp I val seen evlog \<longleftrightarrow>
     (\<forall>hid c limit s r s'. I s \<and> hp_poll_events hp hid c limit s = (r, s') \<longrightarrow>
        I s' \<and> val s' = val s \<and> seen s \<subseteq> seen s' \<and>
        (\<forall>lines raw c'. r = Inr lines \<and> snd (event_batch_split lines) = Some raw \<and> parse_u64 raw = Some c' \<longrightarrow>
           (\<forall>(e, l)\<in>evlog. c < e \<and> e \<le> c' \<longrightarrow> l \<in> set (fst (event_batch_split lines)))))"

lemma settles_shutdown:
  assumes "settles_lines hp I val seen lines" "I s"
  shows "I (snd (hp_shutdown hp s)) \<and> val (snd (hp_shutdown hp s)) = val s \<and>
    seen s \<subseteq> seen (snd (hp_shutdown hp s))"
  using assms by (simp add: settles_lines_def)

lemma settles_line:
  assumes "settles_lines hp I val seen lines" "I s"
  shows "I (snd (process_event_line (hs_processor hp) l s)) \<and>
    val (snd (process_event_line (hs_processor hp) l s)) = val s \<and>
    seen s \<subseteq> seen (snd (process_event_line (hs_processor hp) l s)) \<and>
    (fst (process_event_line (hs_processor hp) l s) = Inr () \<and> l \<in> lines \<longrightarrow>
       l \<in> seen (snd (process_event_line (hs_processor hp) l s)))"
  using assms unfolding settles_lines_def by (metis prod.collapse)

lemma lines_done_seen:
  assumes "lines_done hp ls s s'" "settles_lines hp I val seen lines" "I s"
  shows "I s' \<and> val s' = val s \<and> seen s \<subseteq> seen s' \<and> (set ls \<inter> lines \<subseteq> seen s')"
  using assms(1,3)
proof (induction rule: lines_done.induct)
  case (done_nil s)
  then show ?case by simp
next
  case (done_line s s1 l s2 ls s')
  have "I s1 \<and> val s1 = val s \<and> seen s \<subseteq> seen s1"
    using settles_shutdown [OF assms(2) done_line.prems] done_line.hyps(1) by simp
  moreover from this have "I s2 \<and> val s2 = val s1 \<and> seen s1 \<subseteq> seen s2 \<and> (l \<in> lines \<longrightarrow> l \<in> seen s2)"
    using settles_line [OF assms(2), of s1 l] done_line.hyps(2) by simp
  ultimately show ?case using done_line.IH by auto
qed

definition covered ::
  "(nat \<times> string) set \<Rightarrow> ('s \<Rightarrow> string \<Rightarrow> nat) \<Rightarrow> ('s \<Rightarrow> string set) \<Rightarrow> string \<Rightarrow> 's \<Rightarrow> bool" where
  "covered evlog val seen hid s \<longleftrightarrow> (\<forall>(e, l)\<in>evlog. e \<le> val s hid \<longrightarrow> l \<in> seen s)"

lemma coveredI: "\<forall>(e, l)\<in>evlog. e \<le> val s hid \<longrightarrow> l \<in> seen s \<Longrightarrow> covered evlog val seen hid s"
  by (simp add: covered_def)

lemma coveredD: "\<lbrakk>covered evlog val seen hid s; (e, l) \<in> evlog; e \<le> val s hid\<rbrakk> \<Longrightarrow> l \<in> seen s"
  by (auto simp: covered_def)

lemma covered_mono:
  "\<lbrakk>covered evlog val seen hid s; val s' hid = val s hid; seen s \<subseteq> seen s'\<rbrakk> \<Longrightarrow> covered evlog val seen hid s'"
  by (auto simp: covered_def)

definition index_keeps_seen :: "'s homeserver_index \<Rightarrow> string \<Rightarrow> ('s \<Rightarrow> bool) \<Rightarrow> ('s \<Rightarrow> string set) \<Rightarrow> bool" where
  "index_keeps_seen ix hid I seen \<longleftrightarrow>
     (\<forall>s. I s \<longrightarrow> seen s \<subseteq> seen (snd (hi_get ix hid s)) \<and> (\<forall>h. seen s \<subseteq> seen (snd (hi_set ix h s))))"

lemma index_cursor_eq: "index_cursor ix hid s =
    (map_sum id (\<lambda>h. case h of None \<Rightarrow> 0 | Some h \<Rightarrow> hs_cursor h) (fst (hi_get ix hid s)), snd (hi_get ix hid s))"
  by (simp add: index_cursor_def split: prod.splits)

lemma read_value:
  assumes "cursor_store (index_cursor ix) (hs_set_cursor ix) val I (\<lambda>_. True)" "I s"
    "hi_get ix hid s = (Inr (Some h), s')"
  shows "val s' hid = hs_cursor h"
  using cursor_store.get_law [OF assms(1,2) index_cursor_eq [of ix hid s]] assms(3) by auto

lemma read_keeps_covered:
  assumes "cursor_store (index_cursor ix) (hs_set_cursor ix) val I (\<lambda>_. True)"
    "index_keeps_seen ix hid I seen" "I s" "covered evlog val seen hid s"
  shows "I (snd (hi_get ix hid s)) \<and> val (snd (hi_get ix hid s)) = val s \<and>
    seen s \<subseteq> seen (snd (hi_get ix hid s)) \<and> covered evlog val seen hid (snd (hi_get ix hid s))"
  using cursor_store.get_law [OF assms(1,3) index_cursor_eq [of ix hid s]] assms(2-4)
    covered_mono [OF assms(4)] by (auto simp: index_keeps_seen_def)

lemma put_keeps_seen:
  assumes "cursor_store (index_cursor ix) (hs_set_cursor ix) val I (\<lambda>_. True)"
    "index_keeps_seen ix (hs_id h) I seen" "I s"
  shows "seen s \<subseteq> seen (snd (hs_put_to_index ix h s))"
proof -
  have "I (snd (hi_get ix (hs_id h) s))"
    using cursor_store.get_law [OF assms(1,3) index_cursor_eq [of ix "hs_id h" s]] by blast
  then have "seen s \<subseteq> seen (snd (hi_get ix (hs_id h) s))"
    "seen (snd (hi_get ix (hs_id h) s)) \<subseteq> seen (snd (hi_set ix h (snd (hi_get ix (hs_id h) s))))"
    using assms(2,3) by (auto simp: index_keeps_seen_def)
  then show ?thesis
    using validate_state [of ix "hs_id h" "hs_cursor h" s]
    by (auto simp: hs_put_to_index_def split: prod.splits sum.splits)
qed

lemma batch_keeps_covered:
  assumes store: "cursor_store (index_cursor ix) (hs_set_cursor ix) val I (\<lambda>_. True)"
    and seen: "index_keeps_seen ix hid I seen" and ix: "hp_index hp = ix" "hs_id (hp_homeserver hp) = hid"
    and settles: "settles_lines hp I (\<lambda>s. val s hid) seen (snd ` evlog)"
    and s: "I s" "covered evlog val seen hid s" "val s hid = hs_cursor (hp_homeserver hp)"
    and run: "process_event_lines hp lines s = (r, s')"
    and complete: "\<forall>raw c'. snd (event_batch_split lines) = Some raw \<and> parse_u64 raw = Some c' \<longrightarrow>
      (\<forall>(e, l)\<in>evlog. hs_cursor (hp_homeserver hp) < e \<and> e \<le> c' \<longrightarrow> l \<in> set (fst (event_batch_split lines)))"
  shows "I s' \<and> covered evlog val seen hid s'"
  using run
proof (cases rule: process_event_lines_cases)
  case untouched
  then show ?thesis using s by simp
next
  case read
  then show ?thesis using read_keeps_covered [OF store seen s(1,2)] ix by simp
next
  case (partial s1 r1)
  let ?P = "\<lambda>t. I t \<and> val t hid = val s hid \<and> seen s \<subseteq> seen t"
  have "?P s1" using partial(1) read_keeps_covered [OF store seen s(1,2)] s(1) ix by auto
  have sh: "?P (snd (hp_shutdown hp t))" if "?P t" for t
    using settles_shutdown [OF settles, of t] that by auto
  have ln: "?P (snd (process_event_line (hs_processor hp) l t))" if "?P t" for l t
    using settles_line [OF settles, of t l] that by auto
  have "?P (snd (process_lines hp (fst (event_batch_split lines)) s1))"
    by (rule process_lines_keeps [where P = ?P]) (fact sh ln \<open>?P s1\<close>)+
  then show ?thesis using partial(2) covered_mono [OF s(2)] by simp
next
  case (whole raw h s1 s2)
  have s1: "I s1 \<and> val s1 hid = val s hid \<and> seen s \<subseteq> seen s1"
    using read_keeps_covered [OF store seen s(1,2)] s(1) ix resolve_state whole(2)
    by (metis (no_types, lifting) insertE order_refl singletonD snd_conv)
  have s2: "I s2" "val s2 hid = val s1 hid" "seen s1 \<subseteq> seen s2"
    "set (fst (event_batch_split lines)) \<inter> snd ` evlog \<subseteq> seen s2"
    using lines_done_seen [OF process_lines_done [OF whole(3)] settles] s1 by blast+
  obtain c where c: "parse_u64 raw = Some c" "h = \<lparr>hs_id = hid, hs_cursor = c\<rparr>"
    using resolve_accepts [OF whole(2)] ix by blast
  obtain ru where "guarded_write (index_cursor ix) (hs_set_cursor ix) hid c s2 = (ru, s')"
    using whole(4) ix c(2) by (metis hs_put_is_guarded homeserver.select_convs prod.collapse)
  from cursor_store.guarded_write_law(1,2) [OF store s2(1) TrueI this]
  have "I s'" "val s' hid = val s2 hid \<or> val s' hid = c" by auto
  moreover have sub: "seen s2 \<subseteq> seen s'"
    using put_keeps_seen [OF store, of h seen s2] seen s2(1) whole(4) ix c(2) by simp
  moreover have "l \<in> seen s'" if "(e, l) \<in> evlog" "e \<le> c" for e l
  proof (cases "e \<le> val s hid")
    case True
    then show ?thesis using coveredD [OF s(2) that(1)] s1 s2(3) sub by blast
  next
    case False
    then have "l \<in> set (fst (event_batch_split lines))" using complete whole(1) c(1) that s(3) by fastforce
    then show ?thesis using s2(4) sub that(1) by (metis IntI image_eqI snd_conv subsetD)
  qed
  moreover have "l \<in> seen s'" if "(e, l) \<in> evlog" "e \<le> val s2 hid" for e l
    using coveredD [OF s(2) that(1)] that(2) s1 s2(2,3) sub by auto
  ultimately show ?thesis by (auto simp: covered_def)
qed

lemma run_keeps_covered:
  assumes store: "cursor_store (index_cursor ix) (hs_set_cursor ix) val I (\<lambda>_. True)"
    and seen: "index_keeps_seen ix hid I seen" and ix: "hp_index hp = ix" "hs_id (hp_homeserver hp) = hid"
    and settles: "settles_lines hp I (\<lambda>s. val s hid) seen (snd ` evlog)"
    and polls: "complete_polls hp I (\<lambda>s. val s hid) seen evlog"
    and s: "I s" "covered evlog val seen hid s" "val s hid = hs_cursor (hp_homeserver hp)"
    and run: "hs_run_internal hp s = (r, s')"
  shows "I s' \<and> covered evlog val seen hid s'"
proof -
  obtain rp s1 where poll: "hp_poll_events hp hid (hs_cursor (hp_homeserver hp)) (hp_limit hp) s = (rp, s1)" by force
  then have s1: "I s1" "val s1 hid = val s hid" "seen s \<subseteq> seen s1"
    using polls s(1) unfolding complete_polls_def by metis+
  note cov1 = covered_mono [OF s(2) s1(2,3)]
  show ?thesis
  proof (cases "\<exists>lines. rp = Inr lines \<and> lines \<noteq> []")
    case False
    then have "s' = s1" using run poll ix by (auto simp: hs_run_internal_def split: sum.splits)
    then show ?thesis using s1(1) cov1 by simp
  next
    case True
    then obtain lines rl where lines: "rp = Inr lines" "process_event_lines hp lines s1 = (rl, s')"
      using run poll ix by (auto simp: hs_run_internal_def split: sum.splits prod.splits)
    show ?thesis
      by (rule batch_keeps_covered [OF store seen ix settles s1(1) cov1 _ lines(2)])
        (use s1(2) s(1,3) polls poll lines(1) in \<open>simp_all add: complete_polls_def\<close>, blast)
  qed
qed

section \<open>Properties\<close>

text \<open>The split of a homeserver's response does not depend on where the cursor line stands: the
  event lines are exactly the other lines in their order, and of several cursor lines the last one
  closes the batch.\<close>

theorem batch_split_order_independent:
  "fst (event_batch_split (xs @ (''cursor: '' @ v) # ys)) =
     fst (event_batch_split xs) @ fst (event_batch_split ys) \<and>
   snd (event_batch_split (xs @ (''cursor: '' @ v) # ys)) =
     (case snd (event_batch_split ys) of None \<Rightarrow> Some v | Some u \<Rightarrow> Some u)"
proof -
  have "event_batch_split [''cursor: '' @ v] = ([], Some v)"
    by (simp add: event_batch_split_def batch_step_def strip_prefix_def)
  then show ?thesis
    using event_batch_split_append [of xs "[''cursor: '' @ v] @ ys"]
      event_batch_split_append [of "[''cursor: '' @ v]" ys]
    by (simp split: option.splits)
qed

text \<open>A batch whose closing cursor cannot be applied has no effect: when it carries events and
  no cursor, an unreadable one or one that does not advance past the requested cursor, or carries
  no events and a cursor other than the requested one, then no line is handled and nothing is
  stored; at most the stored record is read.\<close>

theorem rejected_batch_has_no_effect:
  assumes "event_batch_split lines = (evs, cur)"
    and "\<forall>raw c. cur = Some raw \<and> parse_u64 raw = Some c \<longrightarrow>
      (if evs = [] then c \<noteq> hs_cursor (hp_homeserver hp) else c \<le> hs_cursor (hp_homeserver hp))"
  shows "snd (process_event_lines hp lines s) \<in>
    {s, snd (hi_get (hp_index hp) (hs_id (hp_homeserver hp)) s)}"
proof (cases cur)
  case None
  then show ?thesis
    using assms(1) by (simp add: process_event_lines_def has_events_def process_batch_lines_def)
next
  case (Some raw)
  obtain r s1 where res: "resolve_batch_cursor hp raw (evs \<noteq> []) s = (r, s1)" by force
  have "r \<noteq> Inr (Some h)" for h
    using resolve_accepts [of hp raw "evs \<noteq> []" s h s1] res assms(2) Some by (auto split: if_splits)
  then have "snd (process_event_lines hp lines s) = s1"
    using assms(1) Some res
    by (auto simp: process_event_lines_def has_events_def split: sum.splits option.splits)
  then show ?thesis using resolve_state [of hp raw "evs \<noteq> []" s] res by simp
qed

text \<open>C4. No event of the primary homeserver is lost: after any sequence of runs, aborted by
  errors and shutdowns at any point or not, every event of the homeserver's log up to the stored
  cursor has been taken care of, provided the homeserver's batches are complete and the handlers
  and the other tasks leave the cursor alone.\<close>

theorem primary_events_taken_care_of:
  assumes store: "cursor_store (index_cursor ix) (hs_set_cursor ix) val I (\<lambda>_. True)"
    and seen_index: "index_keeps_seen ix hid I seen"
    and runs: "\<forall>h. hp_index (mk h) = ix \<and> hp_homeserver (mk h) = h \<and>
      settles_lines (mk h) I (\<lambda>s. val s hid) seen (snd ` evlog) \<and>
      complete_polls (mk h) I (\<lambda>s. val s hid) seen evlog"
    and names: "\<forall>s h s'. hi_get ix hid s = (Inr (Some h), s') \<longrightarrow> hs_id h = hid"
    and other: "\<forall>s s'. J s s' \<and> I s \<longrightarrow> I s' \<and> val s' hid = val s hid \<and> seen s \<subseteq> seen s'"
    and start: "I s0" "\<forall>(e, l)\<in>evlog. e \<le> val s0 hid \<longrightarrow> l \<in> seen s0"
    and reach: "stream_reach mk ix hid J s0 s"
  shows "I s \<and> (\<forall>(e, l)\<in>evlog. e \<le> val s hid \<longrightarrow> l \<in> seen s)"
  using reach start
proof (induction rule: stream_reach.induct)
  case (stream_start s)
  then show ?case by blast
next
  case (stream_other s s1 s2)
  then have "I s1 \<and> (\<forall>(e, l)\<in>evlog. e \<le> val s1 hid \<longrightarrow> l \<in> seen s1)" by blast
  then show ?case using stream_other.hyps(2) other by (fastforce dest: subsetD)
next
  case (stream_unbuilt s s1 r s2)
  then have s1: "I s1" "covered evlog val seen hid s1" by (blast intro: coveredI)+
  have "I s2 \<and> covered evlog val seen hid s2"
    using read_keeps_covered [OF store seen_index s1] stream_unbuilt.hyps(2) by simp
  then show ?case by (simp add: covered_def)
next
  case (stream_run s s1 h s2 r s3)
  then have s1: "I s1" "covered evlog val seen hid s1" by (blast intro: coveredI)+
  have s2: "I s2" "covered evlog val seen hid s2" "val s2 hid = hs_cursor h"
    using read_keeps_covered [OF store seen_index s1] stream_run.hyps(2)
      read_value [OF store s1(1) stream_run.hyps(2)] by simp_all
  have "I s3 \<and> covered evlog val seen hid s3"
    using run_keeps_covered [OF store seen_index _ _ _ _ s2(1,2) _ stream_run.hyps(3)]
      runs names stream_run.hyps(2) s2(3) by metis
  then show ?case by (simp add: covered_def)
qed

section \<open>A concrete stream\<close>

definition demo_line :: string where
  "demo_line = event_line_of Put ''pubky://u/pub/pubky.app/posts/p''"

definition demo_hs_specs :: uri_specs where
  "demo_hs_specs = \<lparr>try_from_uri = (\<lambda>u. Inr (PubkyApp ''u'' (PostR ''p''))),
                    try_to_uri_str = (\<lambda>_. Inr ''pubky://u/pub/pubky.app/posts/p'')\<rparr>"

text \<open>The handler records the event's line as a node of the graph; nothing is ever queued.\<close>

definition demo_mk :: "homeserver \<Rightarrow> hs_kv world hs_indexer" where
  "demo_mk h =
     \<lparr>hp_homeserver = h, hp_limit = 10,
      hp_handle = (\<lambda>ev w. (Inr (), w\<lparr>kv := snd (hs_merge_node (ev_line ev) (kv w))\<rparr>)),
      hp_poll_events = (\<lambda>_ c _ w. (Inr (if c < 5 then [demo_line, ''cursor: 5''] else [''cursor: 5'']), w)),
      hp_shutdown = shutdown_rx,
      hp_scheduler =
        \<lparr>sched_store = \<lparr>rs_put = (\<lambda>_ w. (Inr (), w)), rs_get = (\<lambda>_ w. (Inr None, w)),
           rs_remove = (\<lambda>_ w. (Inr (), w)), rs_remove_if = (\<lambda>_ _ w. (Inr False, w)),
           rs_put_if = (\<lambda>_ _ w. (Inr False, w)), rs_fetch_ready = (\<lambda>_ _ w. (Inr [], w))\<rparr>,
         sched_initial = \<lparr>missing_dep_ms = 0, transient_ms = 0\<rparr>,
         sched_now_ms = utc_now, sched_now_ns = utc_now\<rparr>,
      hp_index = redis_homeserver_index,
      hp_user_row = (\<lambda>_ w. (Inr None, w)), hp_cache_get = (\<lambda>_ w. (None, w)),
      hp_cache_insert = (\<lambda>_ _ w. ((), w)), hp_specs = demo_hs_specs,
      hp_show_hs = (\<lambda>_. ''hs''), hp_show_graph = (\<lambda>_. ''graph''), hp_show_redis = (\<lambda>_. ''redis'')\<rparr>"

definition demo_hs_world :: "hs_kv world" where
  "demo_hs_world = calm_world \<lparr>hs_index = [''p'' \<mapsto> CursorNumber 0], hs_graph = {}\<rparr>"

text \<open>The homeserver index as its only user sees it.\<close>

definition hs_alone :: "hs_kv world \<Rightarrow> bool" where
  "hs_alone w \<longleftrightarrow> env w = (\<lambda>_ s. s)"

lemma hs_alone_same: "same_schedule w w' \<Longrightarrow> hs_alone w' = hs_alone w"
  by (simp add: hs_alone_def same_schedule_def)

lemma hs_alone_stable: "hs_alone w \<Longrightarrow> hs_stable w"
  by (simp add: hs_alone_def hs_stable_def env_keeps_def)

lemma hs_alone_store:
  "cursor_store (index_cursor redis_homeserver_index) (hs_set_cursor redis_homeserver_index)
     (\<lambda>w. hs_vals (kv w)) hs_alone (\<lambda>_. True)"
proof
  fix s r s' and k :: string
  assume I: "hs_alone s" and rd: "index_cursor redis_homeserver_index k s = (r, s')"
  from redis_index_cursorE [OF rd] have "same_schedule s s'" using redis_call_schedule by metis
  then show "hs_alone s' \<and> hs_vals (kv s') = hs_vals (kv s) \<and> (\<forall>c. r = Inr c \<longrightarrow> c = hs_vals (kv s) k)"
    using primary.get_law [OF hs_alone_stable [OF I] rd] I hs_alone_same by blast
next
  fix s c ru s' and k :: string
  assume I: "hs_alone s" and wr: "hs_set_cursor redis_homeserver_index k c s = (ru, s')"
  have "same_schedule s s'"
    using wr redis_call_schedule by (fastforce simp: hs_set_cursor_def redis_homeserver_index_def)
  then show "hs_alone s' \<and> (hs_vals (kv s') = (hs_vals (kv s))(k := c) \<or>
      (\<exists>e. ru = Inl e) \<and> hs_vals (kv s') = hs_vals (kv s))"
    using primary.set_law [OF hs_alone_stable [OF I] TrueI wr] I hs_alone_same by blast
qed

lemma alone_call:
  assumes "hs_alone w" "redis_call f w = (r, w')" "\<And>s. hs_graph (snd (f s)) = hs_graph s"
  shows "hs_graph (kv w') = hs_graph (kv w)"
  using assms by (auto simp: redis_call_def Let_def env_step_def hs_alone_def split: option.splits call_fault.splits)

lemma demo_index_seen: "index_keeps_seen redis_homeserver_index hid hs_alone (\<lambda>w. hs_graph (kv w))"
proof -
  have "hs_graph (kv (snd (hs_get_from_index hid s))) = hs_graph (kv s)" if "hs_alone s" for s
  proof -
    obtain r s' where c: "redis_call (hs_json_get hid) s = (r, s')" by force
    have "snd (hs_get_from_index hid s) = s'"
      by (simp add: hs_get_from_index_def c split: sum.splits option.splits)
    then show ?thesis using alone_call [OF that c] by (simp add: hs_json_get_def)
  qed
  moreover have "hs_graph (kv (snd (redis_call (hs_json_set h) s))) = hs_graph (kv s)" if "hs_alone s" for h s
    by (rule alone_call [OF that prod.collapse [symmetric]]) (simp add: hs_json_set_def)
  ultimately show ?thesis by (simp add: index_keeps_seen_def redis_homeserver_index_def)
qed

definition demo_hs_event :: event where
  "demo_hs_event = \<lparr>ev_uri = ''pubky://u/pub/pubky.app/posts/p'', ev_type = Put,
     ev_parsed_uri = PubkyApp ''u'' (PostR ''p''), ev_line = demo_line\<rparr>"

lemma demo_hs_parse: "parse_event demo_hs_specs demo_line = Inr (Parsed demo_hs_event)"
  by (simp add: demo_line_def parse_event_line_of parse_event_parts_def demo_hs_specs_def demo_hs_event_def)

lemma demo_line_cases:
  "\<exists>ls. process_event_line (hs_processor (demo_mk h)) l w = (Inr (), w\<lparr>kv := (kv w)\<lparr>hs_graph := hs_graph (kv w) \<union> ls\<rparr>\<rparr>) \<and>
     (l = demo_line \<longrightarrow> demo_line \<in> ls)"
proof (cases "\<exists>ev. parse_event demo_hs_specs l = Inr (Parsed ev)")
  case True
  then obtain ev where ev: "parse_event demo_hs_specs l = Inr (Parsed ev)" by blast
  have "process_event_line (hs_processor (demo_mk h)) l w =
      (Inr (), w\<lparr>kv := (kv w)\<lparr>hs_graph := hs_graph (kv w) \<union> {ev_line ev}\<rparr>\<rparr>)"
    by (simp add: process_event_line_def handle_event_def hs_processor_def demo_mk_def ev
        hs_should_process_event_def user_hs_mapping_def hs_merge_node_def)
  moreover have "l = demo_line \<longrightarrow> demo_line \<in> {ev_line ev}"
    using ev demo_hs_parse by (auto simp: demo_hs_event_def)
  ultimately show ?thesis by blast
next
  case False
  then have "process_event_line (hs_processor (demo_mk h)) l w = (Inr (), w)"
    by (auto simp: process_event_line_def hs_processor_def demo_mk_def split: sum.splits parse_result.splits)
  moreover have "l \<noteq> demo_line" using False demo_hs_parse by auto
  ultimately show ?thesis by (intro exI [of _ "{}"]) simp
qed

lemma demo_settles:
  "settles_lines (demo_mk h) hs_alone (\<lambda>w. hs_vals (kv w) hid) (\<lambda>w. hs_graph (kv w)) {demo_line}"
  unfolding settles_lines_def
proof (intro conjI allI impI)
  fix w :: "hs_kv world"
  assume w: "hs_alone w"
  then have sh: "snd (hp_shutdown (demo_mk h) w) = w\<lparr>tick := Suc (tick w)\<rparr>"
    by (simp add: demo_mk_def shutdown_rx_def env_step_def hs_alone_def)
  show "hs_alone (snd (hp_shutdown (demo_mk h) w))"
    "hs_vals (kv (snd (hp_shutdown (demo_mk h) w))) hid = hs_vals (kv w) hid"
    "hs_graph (kv w) \<subseteq> hs_graph (kv (snd (hp_shutdown (demo_mk h) w)))"
    using w unfolding sh by (simp_all add: hs_alone_def)
next
  fix l and w w' :: "hs_kv world" and r
  assume asm: "hs_alone w \<and> process_event_line (hs_processor (demo_mk h)) l w = (r, w')"
  obtain ls where "process_event_line (hs_processor (demo_mk h)) l w =
      (Inr (), w\<lparr>kv := (kv w)\<lparr>hs_graph := hs_graph (kv w) \<union> ls\<rparr>\<rparr>)" and ls: "l = demo_line \<longrightarrow> demo_line \<in> ls"
    using demo_line_cases [of h l w] by blast
  then have w': "w' = w\<lparr>kv := (kv w)\<lparr>hs_graph := hs_graph (kv w) \<union> ls\<rparr>\<rparr>" using asm by simp
  show "hs_alone w'" "hs_vals (kv w') hid = hs_vals (kv w) hid" "hs_graph (kv w) \<subseteq> hs_graph (kv w')"
    using asm unfolding w' by (simp_all add: hs_alone_def hs_vals_def)
  show "l \<in> hs_graph (kv w')" if "r = Inr () \<and> l \<in> {demo_line}" using that ls unfolding w' by simp
qed

lemma demo_split:
  "event_batch_split [demo_line, ''cursor: 5''] = ([demo_line], Some ''5'')"
  "event_batch_split [''cursor: 5''] = ([], Some ''5'')"
  by (simp_all add: event_batch_split_def batch_step_def strip_prefix_def demo_line_def event_line_of_def
      show_event_type_def)

lemma demo_five: "parse_u64 ''5'' = Some 5"
  by (simp add: parse_u64_def is_digit_def digit_value_def)

lemma demo_complete:
  "complete_polls (demo_mk h) hs_alone (\<lambda>w. hs_vals (kv w) hid) (\<lambda>w. hs_graph (kv w)) {(1, demo_line)}"
  by (auto simp: complete_polls_def demo_mk_def demo_split split: if_splits)

theorem rejected_batch_has_no_effect_witness:
  "snd (process_event_lines (demo_mk \<lparr>hs_id = ''p'', hs_cursor = 5\<rparr>) [demo_line, ''cursor: 5''] demo_hs_world)
   \<in> {demo_hs_world, snd (hi_get redis_homeserver_index ''p'' demo_hs_world)}"
proof -
  let ?hp = "demo_mk \<lparr>hs_id = ''p'', hs_cursor = 5\<rparr>"
  have "snd (process_event_lines ?hp [demo_line, ''cursor: 5''] demo_hs_world) \<in>
      {demo_hs_world, snd (hi_get (hp_index ?hp) (hs_id (hp_homeserver ?hp)) demo_hs_world)}"
    by (rule rejected_batch_has_no_effect [OF demo_split(1)]) (simp add: demo_five demo_mk_def)
  then show ?thesis by (simp add: demo_mk_def)
qed

lemma demo_run_cursor:
  "hs_vals (kv (snd (hs_run_internal (demo_mk \<lparr>hs_id = ''p'', hs_cursor = 0\<rparr>)
     (snd (hi_get redis_homeserver_index ''p'' demo_hs_world))))) ''p'' = 5"
proof -
  have line: "process_event_line (hs_processor (demo_mk h)) demo_line w =
      (Inr (), w\<lparr>kv := (kv w)\<lparr>hs_graph := insert demo_line (hs_graph (kv w))\<rparr>\<rparr>)" for h w
    by (simp add: process_event_line_def handle_event_def hs_processor_def demo_mk_def demo_hs_parse
        hs_should_process_event_def user_hs_mapping_def hs_merge_node_def demo_hs_event_def)
  have mk: "hp_poll_events (demo_mk \<lparr>hs_id = ''p'', hs_cursor = 0\<rparr>) hid 0 n w = (Inr [demo_line, ''cursor: 5''], w)"
    "hp_index (demo_mk h) = redis_homeserver_index" "hp_homeserver (demo_mk h) = h"
    "hp_shutdown (demo_mk h) = shutdown_rx" for h w hid n
    by (simp_all add: demo_mk_def)
  show ?thesis
    by (simp add: hs_run_internal_def mk process_event_lines_def Let_def demo_split has_events_def
        resolve_batch_cursor_def try_from_cursor_def demo_five validate_cursor_change_def
        process_batch_lines_def line shutdown_rx_def hs_put_to_index_def
        redis_homeserver_index_def hs_get_from_index_def redis_call_def env_step_def
        demo_hs_world_def calm_world_def hs_json_get_def hs_json_set_def ensure_cursor_not_backwards_def
        hs_vals_def)
qed

theorem primary_events_taken_care_of_witness:
  "stream_reach demo_mk redis_homeserver_index ''p'' (=) demo_hs_world
     (snd (hs_run_internal (demo_mk \<lparr>hs_id = ''p'', hs_cursor = 0\<rparr>)
        (snd (hi_get redis_homeserver_index ''p'' demo_hs_world)))) \<and>
   hs_vals (kv (snd (hs_run_internal (demo_mk \<lparr>hs_id = ''p'', hs_cursor = 0\<rparr>)
      (snd (hi_get redis_homeserver_index ''p'' demo_hs_world))))) ''p'' = 5 \<and>
   demo_line \<in> hs_graph (kv (snd (hs_run_internal (demo_mk \<lparr>hs_id = ''p'', hs_cursor = 0\<rparr>)
      (snd (hi_get redis_homeserver_index ''p'' demo_hs_world)))))"
proof -
  let ?h = "\<lparr>hs_id = ''p'', hs_cursor = 0\<rparr>"
  let ?w1 = "snd (hi_get redis_homeserver_index ''p'' demo_hs_world)"
  let ?w2 = "snd (hs_run_internal (demo_mk ?h) ?w1)"
  have "hi_get redis_homeserver_index ''p'' demo_hs_world = (Inr (Some ?h), ?w1)"
    by (simp add: redis_homeserver_index_def hs_get_from_index_def redis_call_def Let_def env_step_def
        demo_hs_world_def calm_world_def hs_json_get_def)
  then have reach: "stream_reach demo_mk redis_homeserver_index ''p'' (=) demo_hs_world ?w2"
    by (rule stream_run [OF stream_start, where r = "fst (hs_run_internal (demo_mk ?h) ?w1)"]) simp
  have "hs_alone ?w2 \<and> (\<forall>(e, l)\<in>{(1, demo_line)}. e \<le> hs_vals (kv ?w2) ''p'' \<longrightarrow> l \<in> hs_graph (kv ?w2))"
  proof (rule primary_events_taken_care_of [OF hs_alone_store demo_index_seen _ _ _ _ _ reach])
    show "\<forall>h. hp_index (demo_mk h) = redis_homeserver_index \<and> hp_homeserver (demo_mk h) = h \<and>
        settles_lines (demo_mk h) hs_alone (\<lambda>s. hs_vals (kv s) ''p'') (\<lambda>w. hs_graph (kv w)) (snd ` {(1, demo_line)}) \<and>
        complete_polls (demo_mk h) hs_alone (\<lambda>s. hs_vals (kv s) ''p'') (\<lambda>w. hs_graph (kv w)) {(1, demo_line)}"
      using demo_settles demo_complete by (simp add: demo_mk_def)
    show "\<forall>s h s'. hi_get redis_homeserver_index ''p'' s = (Inr (Some h), s') \<longrightarrow> hs_id h = ''p''"
      by (auto simp: redis_homeserver_index_def hs_get_from_index_def split: prod.splits sum.splits option.splits)
    show "hs_alone demo_hs_world" by (simp add: hs_alone_def demo_hs_world_def calm_world_def)
    show "\<forall>(e, l)\<in>{(1, demo_line)}. e \<le> hs_vals (kv demo_hs_world) ''p'' \<longrightarrow> l \<in> hs_graph (kv demo_hs_world)"
      by (simp add: demo_hs_world_def calm_world_def hs_vals_def)
  qed auto
  with reach demo_run_cursor show ?thesis by simp
qed

end
