(* ===== verification/Hs_Backoff.thy ===== *)
theory Hs_Backoff
  imports Nexus_Prelude
begin

text \<open>
  The state the runner of external homeservers keeps in memory between runs
  (nexus-watcher/src/service/runner): the exponential backoff of failing homeservers
  (key_based_hs_backoff.rs), the runs for which a user that was not found is skipped
  (key_based_user_backoff.rs) and the user a homeserver's next run starts from
  (key_based_user_resume.rs). Each is a map behind a mutex; an operation here is one critical
  section. A public key is represented by its z32 text, which the code sorts and compares.
\<close>

section \<open>Instants\<close>

text \<open>
  \<open>std::time::Instant\<close> as nanoseconds; adding a duration panics (\<open>None\<close>) when the seconds leave
  the range of i64.
\<close>

type_synonym instant = int

definition NANOS :: int where
  "NANOS = 1000000000"

definition instant_add_secs :: "instant \<Rightarrow> u64 \<Rightarrow> instant option" where
  "instant_add_secs t secs =
     (if t div NANOS + uint secs < 2 ^ 63 then Some (t + uint secs * NANOS) else None)"

section \<open>HomeserverBackoff\<close>

record backoff_state =
  next_backoff_secs :: u64
  backoff_until :: instant

record homeserver_backoff =
  hb_initial_backoff_secs :: u64
  hb_max_backoff_secs :: u64
  hb_state :: "string \<rightharpoonup> backoff_state"

text \<open>\<open>HomeserverBackoff::new\<close> panics on an initial value above the maximum.\<close>

definition homeserver_backoff_new :: "u64 \<Rightarrow> u64 \<Rightarrow> homeserver_backoff option" where
  "homeserver_backoff_new initial mx =
     (if initial > mx then None
      else Some \<lparr>hb_initial_backoff_secs = initial, hb_max_backoff_secs = mx, hb_state = Map.empty\<rparr>)"

definition should_skip :: "homeserver_backoff \<Rightarrow> string \<Rightarrow> instant \<Rightarrow> bool" where
  "should_skip b hs_id now =
     (case hb_state b hs_id of Some bs \<Rightarrow> now < backoff_until bs | None \<Rightarrow> False)"

definition hb_record_success :: "homeserver_backoff \<Rightarrow> string \<Rightarrow> homeserver_backoff" where
  "hb_record_success b hs_id = b\<lparr>hb_state := (hb_state b)(hs_id := None)\<rparr>"

text \<open>
  \<open>record_failure\<close> reads the clock twice: \<open>t0\<close> for a new entry, \<open>t1\<close> for the window. A panic of the
  addition leaves the map as it is at that point (the poisoned lock is entered again).
\<close>

definition hb_record_failure ::
  "homeserver_backoff \<Rightarrow> string \<Rightarrow> instant \<Rightarrow> instant \<Rightarrow> unit option \<times> homeserver_backoff" where
  "hb_record_failure b hs_id t0 t1 =
     (let entry = (case hb_state b hs_id of
                     Some bs \<Rightarrow> bs
                   | None \<Rightarrow> \<lparr>next_backoff_secs = hb_initial_backoff_secs b, backoff_until = t0\<rparr>);
          backoff_secs = next_backoff_secs entry
      in case instant_add_secs t1 backoff_secs of
           None \<Rightarrow> (None, b\<lparr>hb_state := (hb_state b)(hs_id \<mapsto> entry)\<rparr>)
         | Some until \<Rightarrow>
             (Some (), b\<lparr>hb_state := (hb_state b)(hs_id \<mapsto>
                \<lparr>next_backoff_secs = min (backoff_secs * 2) (hb_max_backoff_secs b),
                 backoff_until = until\<rparr>)\<rparr>))"

section \<open>UserNotFoundBackoff\<close>

definition MAX_FAILURES :: nat where
  "MAX_FAILURES = 10"

record backoff_entry =
  consecutive_failures :: nat
  skips_remaining :: nat

type_synonym user_not_found_backoff = "string \<rightharpoonup> backoff_entry"

definition consume_skip :: "user_not_found_backoff \<Rightarrow> string \<Rightarrow> bool \<times> user_not_found_backoff" where
  "consume_skip m user_pk =
     (case m user_pk of
        Some entry \<Rightarrow>
          if skips_remaining entry > 0
          then (True, m(user_pk \<mapsto> entry\<lparr>skips_remaining := skips_remaining entry - 1\<rparr>))
          else (False, m)
      | None \<Rightarrow> (False, m))"

definition nf_record_failure :: "user_not_found_backoff \<Rightarrow> string \<Rightarrow> user_not_found_backoff" where
  "nf_record_failure m user_pk =
     (let entry = (case m user_pk of Some e \<Rightarrow> e
                   | None \<Rightarrow> \<lparr>consecutive_failures = 0, skips_remaining = 0\<rparr>);
          n = min (consecutive_failures entry + 1) MAX_FAILURES
      in m(user_pk \<mapsto> entry\<lparr>consecutive_failures := n, skips_remaining := n\<rparr>))"

definition nf_record_success :: "user_not_found_backoff \<Rightarrow> string \<Rightarrow> user_not_found_backoff" where
  "nf_record_success m user_pk = m(user_pk := None)"

section \<open>UserResumePoints\<close>

type_synonym user_cursor = "string \<times> nat"

type_synonym user_resume_points = "string \<rightharpoonup> string"

text \<open>
  \<open>order\<close>: a stable sort by key, then a rotation to the first key that is not below the resume
  point (\<open>partition_point\<close> on the sorted slice).
\<close>

definition partition_point :: "('a \<Rightarrow> bool) \<Rightarrow> 'a list \<Rightarrow> nat" where
  "partition_point P xs = length (takeWhile P xs)"

definition order :: "user_resume_points \<Rightarrow> string \<Rightarrow> user_cursor list \<Rightarrow> user_cursor list" where
  "order points hs_id users =
     (let users = sort_key fst users in
      case points hs_id of
        None \<Rightarrow> users
      | Some resume_at \<Rightarrow> rotate (partition_point (\<lambda>u. fst u < resume_at) users) users)"

definition record_stop_after ::
  "user_resume_points \<Rightarrow> string \<Rightarrow> user_cursor list \<Rightarrow> nat \<Rightarrow> user_resume_points" where
  "record_stop_after points hs_id users index =
     points(hs_id \<mapsto> fst (users ! ((index + 1) mod length users)))"

definition record_full_pass :: "user_resume_points \<Rightarrow> string \<Rightarrow> user_resume_points" where
  "record_full_pass points hs_id = points(hs_id := None)"

section \<open>Lemmas on the homeserver backoff\<close>

text \<open>Failures in a row, each with its two clock readings.\<close>

fun hb_record_failures ::
  "homeserver_backoff \<Rightarrow> string \<Rightarrow> (instant \<times> instant) list \<Rightarrow> unit option \<times> homeserver_backoff" where
  "hb_record_failures b hs_id [] = (Some (), b)"
| "hb_record_failures b hs_id ((t0, t1) # ts) =
     (case hb_record_failure b hs_id t0 t1 of
        (None, b') \<Rightarrow> (None, b')
      | (Some _, b') \<Rightarrow> hb_record_failures b' hs_id ts)"

text \<open>What the doubling is meant to give: the n-th window in seconds.\<close>

definition backoff_window :: "homeserver_backoff \<Rightarrow> nat \<Rightarrow> int" where
  "backoff_window b n = min (uint (hb_initial_backoff_secs b) * 2 ^ n) (uint (hb_max_backoff_secs b))"

text \<open>A window that can be added to the clock can be doubled: the product does not wrap.\<close>

lemma doubled_no_wrap:
  fixes secs :: u64
  assumes "uint secs < 2 ^ 63"
  shows "uint (secs * 2) = 2 * uint secs"
  using assms by (simp add: uint_word_ariths(3))

lemma min_double:
  fixes a m :: int
  assumes "0 \<le> m"
  shows "min (2 * min a m) m = min (2 * a) m"
  using assms by (simp add: min_def)

lemma uint_min: "uint (min a b) = min (uint a) (uint b)"
  by (simp add: min_def word_le_def)

lemma hb_record_failure_window:
  assumes "hb_state b hs_id = (if n = 0 then None else Some bs)"
    and "n \<noteq> 0 \<Longrightarrow> uint (next_backoff_secs bs) = backoff_window b n"
    and "hb_initial_backoff_secs b \<le> hb_max_backoff_secs b"
    and "0 \<le> t1" and "t1 div NANOS + uint (hb_max_backoff_secs b) < 2 ^ 63"
  obtains bs' where
    "hb_record_failure b hs_id t0 t1 = (Some (), b\<lparr>hb_state := (hb_state b)(hs_id \<mapsto> bs')\<rparr>)"
    and "uint (next_backoff_secs bs') = backoff_window b (Suc n)"
    and "backoff_until bs' = t1 + backoff_window b n * NANOS"
proof -
  let ?e = "case hb_state b hs_id of Some bs \<Rightarrow> bs
    | None \<Rightarrow> \<lparr>next_backoff_secs = hb_initial_backoff_secs b, backoff_until = t0\<rparr>"
  let ?secs = "next_backoff_secs ?e"
  have win: "uint ?secs = backoff_window b n"
    using assms(1-3) by (cases "n = 0") (auto simp: backoff_window_def word_le_def)
  then have le: "uint ?secs \<le> uint (hb_max_backoff_secs b)"
    by (simp add: backoff_window_def)
  have "0 \<le> t1 div NANOS" using assms(4) by (simp add: NANOS_def)
  with le assms(5) have small: "uint ?secs < 2 ^ 63" by linarith
  have add: "instant_add_secs t1 ?secs = Some (t1 + uint ?secs * NANOS)"
    using le assms(5) by (simp add: instant_add_secs_def)
  have nxt: "uint (min (?secs * 2) (hb_max_backoff_secs b)) = backoff_window b (Suc n)"
    using min_double [of "uint (hb_max_backoff_secs b)"] doubled_no_wrap [OF small] win
    by (simp add: uint_min backoff_window_def mult.assoc mult.left_commute)
  show ?thesis
    by (rule that [of "\<lparr>next_backoff_secs = min (?secs * 2) (hb_max_backoff_secs b),
          backoff_until = t1 + uint ?secs * NANOS\<rparr>"])
      (use add nxt win in \<open>simp_all add: hb_record_failure_def Let_def\<close>)
qed

lemma hb_record_failures_append:
  "hb_record_failures b hs_id (ts @ us) =
     (case hb_record_failures b hs_id ts of
        (None, b') \<Rightarrow> (None, b')
      | (Some _, b') \<Rightarrow> hb_record_failures b' hs_id us)"
  by (induction b hs_id ts rule: hb_record_failures.induct) (simp_all split: option.splits prod.splits)

text \<open>The entry of a homeserver after failures at \<open>ts\<close>.\<close>

definition window_entry ::
  "homeserver_backoff \<Rightarrow> (instant \<times> instant) list \<Rightarrow> backoff_state option \<Rightarrow> bool" where
  "window_entry b ts v =
     (case v of
        None \<Rightarrow> ts = []
      | Some bs \<Rightarrow> ts \<noteq> [] \<and> uint (next_backoff_secs bs) = backoff_window b (length ts) \<and>
          backoff_until bs = snd (last ts) + backoff_window b (length ts - 1) * NANOS)"

lemma hb_record_failures_window:
  assumes "hb_state b hs_id = None" and "hb_initial_backoff_secs b \<le> hb_max_backoff_secs b"
    and "\<forall>(t0, t1)\<in>set ts. 0 \<le> t1 \<and> t1 div NANOS + uint (hb_max_backoff_secs b) < 2 ^ 63"
  shows "\<exists>v. hb_record_failures b hs_id ts = (Some (), b\<lparr>hb_state := (hb_state b)(hs_id := v)\<rparr>) \<and>
    window_entry b ts v"
  using assms(3)
proof (induction ts rule: rev_induct)
  case Nil
  have "b\<lparr>hb_state := (hb_state b)(hs_id := None)\<rparr> = b" using assms(1) by (simp add: fun_upd_idem)
  moreover have "window_entry b [] None" by (simp add: window_entry_def)
  ultimately show ?case by (metis hb_record_failures.simps(1))
next
  case (snoc t ts)
  obtain t0 t1 where t: "t = (t0, t1)" by force
  from snoc obtain v where
    pre: "hb_record_failures b hs_id ts = (Some (), b\<lparr>hb_state := (hb_state b)(hs_id := v)\<rparr>)"
    and v: "window_entry b ts v"
    by (metis (no_types, lifting) UnCI set_append)
  let ?b = "b\<lparr>hb_state := (hb_state b)(hs_id := v)\<rparr>"
  obtain bs where "v = (if length ts = 0 then None else Some bs)"
    "length ts \<noteq> 0 \<Longrightarrow> uint (next_backoff_secs bs) = backoff_window b (length ts)"
    using v by (cases v) (auto simp: window_entry_def)
  then obtain bs' where "hb_record_failure ?b hs_id t0 t1 =
        (Some (), ?b\<lparr>hb_state := (hb_state ?b)(hs_id \<mapsto> bs')\<rparr>)"
      "uint (next_backoff_secs bs') = backoff_window ?b (Suc (length ts))"
      "backoff_until bs' = t1 + backoff_window ?b (length ts) * NANOS"
    using hb_record_failure_window [of ?b hs_id "length ts" bs t1 t0] assms(2) snoc.prems t
    by (auto simp: backoff_window_def)
  then have "hb_record_failures b hs_id (ts @ [t]) =
      (Some (), b\<lparr>hb_state := (hb_state b)(hs_id \<mapsto> bs')\<rparr>)" "window_entry b (ts @ [t]) (Some bs')"
    using pre t by (simp_all add: hb_record_failures_append window_entry_def backoff_window_def)
  then show ?case by blast
qed

section \<open>Lemmas on skipped users\<close>

text \<open>
  One run's turn of a user whose fetch would fail with 404: the result says whether the turn was
  skipped.
\<close>

definition not_found_turn :: "string \<Rightarrow> user_not_found_backoff \<Rightarrow> bool \<times> user_not_found_backoff" where
  "not_found_turn u m =
     (case consume_skip m u of
        (True, m') \<Rightarrow> (True, m')
      | (False, m') \<Rightarrow> (False, nf_record_failure m' u))"

fun not_found_turns :: "string \<Rightarrow> nat \<Rightarrow> user_not_found_backoff \<Rightarrow> bool list \<times> user_not_found_backoff" where
  "not_found_turns u 0 m = ([], m)"
| "not_found_turns u (Suc n) m =
     (case not_found_turn u m of (b, m1) \<Rightarrow>
      case not_found_turns u n m1 of (bs, m2) \<Rightarrow> (b # bs, m2))"

lemma not_found_turns_add:
  "not_found_turns u (n + k) m =
     (case not_found_turns u n m of (bs, m1) \<Rightarrow>
      case not_found_turns u k m1 of (cs, m2) \<Rightarrow> (bs @ cs, m2))"
  by (induction n arbitrary: m) (simp_all split: prod.splits)

lemma not_found_turns_skip:
  assumes "m u = Some \<lparr>consecutive_failures = c, skips_remaining = n\<rparr>"
  shows "not_found_turns u n m =
    (replicate n True, m(u \<mapsto> \<lparr>consecutive_failures = c, skips_remaining = 0\<rparr>))"
  using assms
proof (induction n arbitrary: m)
  case 0
  then show ?case by (auto simp: fun_eq_iff)
next
  case (Suc n)
  let ?m = "m(u \<mapsto> \<lparr>consecutive_failures = c, skips_remaining = n\<rparr>)"
  have "not_found_turn u m = (True, ?m)"
    using Suc.prems by (simp add: not_found_turn_def consume_skip_def)
  moreover have "not_found_turns u n ?m =
      (replicate n True, ?m(u \<mapsto> \<lparr>consecutive_failures = c, skips_remaining = 0\<rparr>))"
    by (rule Suc.IH) simp
  ultimately show ?case by (simp add: fun_eq_iff)
qed

text \<open>\<open>settled_at m u c\<close>: \<open>c\<close> failures recorded for the user and no skips left.\<close>

definition settled_at :: "user_not_found_backoff \<Rightarrow> string \<Rightarrow> nat \<Rightarrow> bool" where
  "settled_at m u c =
     (case m u of None \<Rightarrow> c = 0 | Some e \<Rightarrow> e = \<lparr>consecutive_failures = c, skips_remaining = 0\<rparr>)"

lemma not_found_cycle:
  assumes "settled_at m u c"
  shows "\<exists>m'. not_found_turns u (Suc (min (Suc c) MAX_FAILURES)) m =
      (False # replicate (min (Suc c) MAX_FAILURES) True, m') \<and> settled_at m' u (min (Suc c) MAX_FAILURES)"
proof -
  let ?n = "min (Suc c) MAX_FAILURES"
  let ?m = "m(u \<mapsto> \<lparr>consecutive_failures = ?n, skips_remaining = ?n\<rparr>)"
  have "not_found_turn u m = (False, ?m)"
    using assms
    by (auto simp: not_found_turn_def consume_skip_def nf_record_failure_def settled_at_def Let_def
        split: option.splits)
  moreover have "not_found_turns u ?n ?m =
      (replicate ?n True, ?m(u \<mapsto> \<lparr>consecutive_failures = ?n, skips_remaining = 0\<rparr>))"
    by (rule not_found_turns_skip) simp
  ultimately show ?thesis by (simp add: settled_at_def)
qed

section \<open>Lemmas on resume points\<close>

lemma takeWhile_sorted_nth:
  assumes "sorted (map f xs)" "distinct (map f xs)" "p < length xs"
  shows "length (takeWhile (\<lambda>x. f x < f (xs ! p)) xs) = p"
proof -
  have "\<forall>i<p. f (xs ! i) < f (xs ! p)"
  proof (intro allI impI)
    fix i assume "i < p"
    then have "f (xs ! i) \<le> f (xs ! p)" "f (xs ! i) \<noteq> f (xs ! p)"
      using assms sorted_nth_mono [OF assms(1), of i p] nth_eq_iff_index_eq [OF assms(2), of i p] by auto
    then show "f (xs ! i) < f (xs ! p)" by simp
  qed
  then have "takeWhile (\<lambda>x. f x < f (xs ! p)) xs = take p xs"
    using assms(3) by (intro takeWhile_eq_take_P_nth) auto
  then show ?thesis using assms(3) by simp
qed

lemma rotate_mod_nth:
  assumes "i < length xs"
  shows "rotate p xs ! i = xs ! ((p + i) mod length xs)"
  using assms by (simp add: nth_rotate add.commute)

text \<open>The runs of one homeserver whose budget ends after the user at index \<open>i\<close> of their turn order.\<close>

fun budgeted_runs ::
  "string \<Rightarrow> user_cursor list \<Rightarrow> nat list \<Rightarrow> user_resume_points \<Rightarrow> user_cursor list \<times> user_resume_points" where
  "budgeted_runs hs_id users [] points = ([], points)"
| "budgeted_runs hs_id users (i # is) points =
     (let turn = order points hs_id users in
      case budgeted_runs hs_id users is (record_stop_after points hs_id turn i) of
        (visited, points') \<Rightarrow> (take (Suc i) turn @ visited, points'))"

definition turn_start :: "user_resume_points \<Rightarrow> string \<Rightarrow> user_cursor list \<Rightarrow> nat" where
  "turn_start points hs_id users =
     (case points hs_id of None \<Rightarrow> 0
      | Some r \<Rightarrow> partition_point (\<lambda>u. fst u < r) (sort_key fst users))"

lemma order_rotates: "order points hs_id users = rotate (turn_start points hs_id users) (sort_key fst users)"
  by (simp add: order_def turn_start_def Let_def split: option.splits)

lemma set_order [simp]: "set (order points hs_id users) = set users"
  by (simp add: order_rotates)

lemma length_order [simp]: "length (order points hs_id users) = length users"
  by (simp add: order_rotates)

lemma distinct_sort_key_map: "distinct (map f (sort_key f xs)) = distinct (map f xs)"
  by (metis (no_types) distinct_map distinct_sort set_sort)

lemma turn_start_after_stop:
  assumes "distinct (map fst users)" "i < length users"
  shows "turn_start (record_stop_after points hs_id (order points hs_id users) i) hs_id users =
    (turn_start points hs_id users + i + 1) mod length users"
proof -
  let ?xs = "sort_key fst users" and ?p = "turn_start points hs_id users"
  let ?q = "(?p + i + 1) mod length users"
  have pos: "0 < length users" using assms(2) by linarith
  have "order points hs_id users ! ((i + 1) mod length users) = ?xs ! ((?p + (i + 1) mod length users) mod length users)"
    unfolding order_rotates using rotate_mod_nth [of "(i + 1) mod length users" ?xs ?p] pos by simp
  then have resume: "record_stop_after points hs_id (order points hs_id users) i =
      points(hs_id \<mapsto> fst (?xs ! ?q))"
    by (simp add: record_stop_after_def mod_simps add.assoc)
  have "length (takeWhile (\<lambda>u. fst u < fst (?xs ! ?q)) ?xs) = ?q"
    using assms(1) pos by (intro takeWhile_sorted_nth) (simp_all add: distinct_sort_key_map)
  with resume show ?thesis by (simp add: turn_start_def partition_point_def)
qed

text \<open>The users the runs visit are consecutive on the circle of the sorted users.\<close>

lemma budgeted_runs_visit:
  assumes "distinct (map fst users)" "\<forall>i\<in>set is. i < length users"
    "k < sum_list (map Suc is)"
  shows "sort_key fst users ! ((turn_start points hs_id users + k) mod length users)
    \<in> set (fst (budgeted_runs hs_id users is points))"
  using assms(2,3)
proof (induction "is" arbitrary: points k)
  case Nil
  then show ?case by simp
next
  case (Cons i "is")
  let ?turn = "order points hs_id users" and ?p = "turn_start points hs_id users"
  have i: "i < length users" using Cons.prems by simp
  show ?case
  proof (cases "k \<le> i")
    case True
    then have "?turn ! k = sort_key fst users ! ((?p + k) mod length users)"
      unfolding order_rotates using i rotate_mod_nth [of k "sort_key fst users" ?p] by simp
    moreover have "?turn ! k \<in> set (take (Suc i) ?turn)"
      using True i by (auto simp: in_set_conv_nth intro!: exI [of _ k])
    ultimately show ?thesis by (simp add: Let_def split: prod.splits)
  next
    case False
    let ?points = "record_stop_after points hs_id ?turn i"
    have "sort_key fst users ! ((turn_start ?points hs_id users + (k - Suc i)) mod length users)
        \<in> set (fst (budgeted_runs hs_id users is ?points))"
      using Cons.prems False by (intro Cons.IH) auto
    moreover have "(turn_start ?points hs_id users + (k - Suc i)) mod length users = (?p + k) mod length users"
      
    proof -
      have "(turn_start ?points hs_id users + (k - Suc i)) mod length users =
          (?p + i + 1 + (k - Suc i)) mod length users"
        unfolding turn_start_after_stop [OF assms(1) i] by (rule mod_add_left_eq)
      moreover have "?p + i + 1 + (k - Suc i) = ?p + k" using False by simp
      ultimately show ?thesis by simp
    qed
    ultimately show ?thesis by (auto simp: Let_def split: prod.splits)
  qed
qed

section \<open>Properties\<close>

text \<open>A homeserver that fails n times in a row is skipped for the initial backoff doubled n - 1
  times and cut at the maximum, counted from the last failure, and for no longer; the 64-bit
  doubling never wraps and the recording never panics as long as the clock can represent the
  maximum. Other homeservers are not affected.\<close>

theorem failing_homeserver_backs_off_exponentially:
  assumes "hb_initial_backoff_secs b \<le> hb_max_backoff_secs b" and "hb_state b hs_id = None"
    and "ts \<noteq> []"
    and "\<forall>(t0, t1)\<in>set ts. 0 \<le> t1 \<and> t1 div NANOS + uint (hb_max_backoff_secs b) < 2 ^ 63"
  shows "\<exists>b'. hb_record_failures b hs_id ts = (Some (), b') \<and>
    (\<forall>now. should_skip b' hs_id now \<longleftrightarrow>
       now < snd (last ts) + min (uint (hb_initial_backoff_secs b) * 2 ^ (length ts - 1))
                                 (uint (hb_max_backoff_secs b)) * NANOS) \<and>
    (\<forall>other now. other \<noteq> hs_id \<longrightarrow> should_skip b' other now = should_skip b other now)"
proof -
  obtain v where run: "hb_record_failures b hs_id ts = (Some (), b\<lparr>hb_state := (hb_state b)(hs_id := v)\<rparr>)"
    and v: "window_entry b ts v"
    using hb_record_failures_window [OF assms(2,1,4)] by blast
  obtain bs where "v = Some bs"
    "backoff_until bs = snd (last ts) + backoff_window b (length ts - 1) * NANOS"
    using v assms(3) by (auto simp: window_entry_def split: option.splits)
  then show ?thesis
    by (intro exI [of _ "b\<lparr>hb_state := (hb_state b)(hs_id := v)\<rparr>"] conjI)
      (simp_all add: run should_skip_def backoff_window_def)
qed

definition demo_backoff :: homeserver_backoff where
  "demo_backoff = \<lparr>hb_initial_backoff_secs = 60, hb_max_backoff_secs = 3600, hb_state = Map.empty\<rparr>"

theorem failing_homeserver_backs_off_exponentially_witness:
  "homeserver_backoff_new 60 3600 = Some demo_backoff \<and>
   (\<exists>b'. hb_record_failures demo_backoff ''hs1'' [(0, 0), (100, 100)] = (Some (), b') \<and>
     should_skip b' ''hs1'' (100 + 119 * NANOS) \<and> \<not> should_skip b' ''hs1'' (100 + 120 * NANOS))"
proof -
  have "\<exists>b'. hb_record_failures demo_backoff ''hs1'' [(0, 0), (100, 100)] = (Some (), b') \<and>
    (\<forall>now. should_skip b' ''hs1'' now \<longleftrightarrow> now < snd (last [(0::instant, 0::instant), (100::instant, 100::instant)]) +
       min (uint (hb_initial_backoff_secs demo_backoff) * 2 ^ (length [(0::instant, 0::instant), (100::instant, 100::instant)] - 1))
           (uint (hb_max_backoff_secs demo_backoff)) * NANOS) \<and>
    (\<forall>other now. other \<noteq> ''hs1'' \<longrightarrow> should_skip b' other now = should_skip demo_backoff other now)"
    by (rule failing_homeserver_backs_off_exponentially) (simp_all add: demo_backoff_def NANOS_def)
  moreover have "homeserver_backoff_new 60 3600 = Some demo_backoff"
    by (simp add: homeserver_backoff_new_def demo_backoff_def word_less_def)
  ultimately show ?thesis by (auto simp: demo_backoff_def NANOS_def)
qed

text \<open>The turns of a user whose fetch keeps failing with 404: one attempt, then one skipped
  run, one attempt, two skipped runs and so on up to ten skipped runs between attempts, so the
  user is never given up.\<close>

theorem not_found_user_is_retried_forever:
  "fst (not_found_turns u (\<Sum>k<n. Suc (min (Suc k) MAX_FAILURES)) Map.empty) =
   concat (map (\<lambda>k. False # replicate (min (Suc k) MAX_FAILURES) True) [0..<n])"
proof -
  have "\<exists>m. not_found_turns u (\<Sum>k<n. Suc (min (Suc k) MAX_FAILURES)) Map.empty =
      (concat (map (\<lambda>k. False # replicate (min (Suc k) MAX_FAILURES) True) [0..<n]), m) \<and>
      settled_at m u (min n MAX_FAILURES)"
  proof (induction n)
    case 0
    then show ?case by (simp add: settled_at_def)
  next
    case (Suc n)
    then obtain m where pre: "not_found_turns u (\<Sum>k<n. Suc (min (Suc k) MAX_FAILURES)) Map.empty =
        (concat (map (\<lambda>k. False # replicate (min (Suc k) MAX_FAILURES) True) [0..<n]), m)"
      and m: "settled_at m u (min n MAX_FAILURES)" by blast
    have eq: "min (Suc (min n MAX_FAILURES)) MAX_FAILURES = min (Suc n) MAX_FAILURES" by simp
    from not_found_cycle [OF m, unfolded eq] obtain m' where
      "not_found_turns u (Suc (min (Suc n) MAX_FAILURES)) m =
        (False # replicate (min (Suc n) MAX_FAILURES) True, m')"
      "settled_at m' u (min (Suc n) MAX_FAILURES)" by blast
    with pre show ?case by (simp only: sum.lessThan_Suc not_found_turns_add) simp
  qed
  then show ?thesis by auto
qed

text \<open>C31. No user is starved by the run budget: when every run of a homeserver reaches at least one
  user before its budget is spent and the next run starts from the recorded resume point, runs
  that together reach as many users as the homeserver has reach every one of them, from whatever
  resume point they start.\<close>

theorem budgeted_runs_reach_every_user:
  assumes "distinct (map fst users)" and "\<forall>i\<in>set is. i < length users"
    and "length users \<le> sum_list (map Suc is)"
  shows "set users \<subseteq> set (fst (budgeted_runs hs_id users is points))"
proof
  fix u assume "u \<in> set users"
  then obtain j where j: "j < length users" "u = sort_key fst users ! j"
    by (metis in_set_conv_nth length_sort set_sort)
  let ?n = "length users" and ?p = "turn_start points hs_id users"
  define k where "k = (j + (?n - ?p mod ?n)) mod ?n"
  have pos: "0 < ?n" using j(1) by linarith
  then have "?p mod ?n < ?n" by (rule mod_less_divisor)
  then have "?p mod ?n + (j + (?n - ?p mod ?n)) = j + ?n" by simp
  then have "(?p mod ?n + (j + (?n - ?p mod ?n))) mod ?n = j" using j(1) by simp
  then have "(?p + k) mod ?n = j" unfolding k_def by (simp add: mod_simps)
  moreover have "k < ?n" unfolding k_def using pos by (rule mod_less_divisor)
  then have "k < sum_list (map Suc is)" using assms(3) by linarith
  ultimately show "u \<in> set (fst (budgeted_runs hs_id users is points))"
    using budgeted_runs_visit [OF assms(1,2), of k points hs_id] j(2) by simp
qed

theorem budgeted_runs_reach_every_user_witness:
  "distinct (map fst [(''c'', 0), (''a'', 5), (''b'', 7)]) \<and>
   set [(''c'', 0), (''a'', 5), (''b'', 7)] \<subseteq>
   set (fst (budgeted_runs ''hs'' [(''c'', 0), (''a'', 5), (''b'', 7)] [1, 0] [''hs'' \<mapsto> ''b'']))"
  using budgeted_runs_reach_every_user [of "[(''c'', 0), (''a'', 5), (''b'', 7)]" "[1, 0]" "''hs''" "[''hs'' \<mapsto> ''b'']"]
  by simp

end
