(* ===== verification/Key_Based_Indexer.thy ===== *)
theory Key_Based_Indexer
  imports Event_Processor Cursor_Store Hs_Backoff
begin

text \<open>
  The event processor of an external homeserver (service/indexer/key_based.rs): for every user
  hosted there it fetches that user's stream from the stored cursor, checks the whole batch
  before the first handler runs, handles the events in order and stores the cursor of the last
  one that was taken care of. Users that keep returning 404 are skipped for some runs, and a run
  that has spent its budget leaves the remaining users to the next one. The shared in-memory maps
  are part of \<open>kb_state\<close>; everything else the processor touches is the state \<open>'s\<close>.
\<close>

section \<open>State and configuration\<close>

record 's kb_indexer =
  kb_homeserver_id :: string
  kb_limit :: nat
  kb_handle :: "event \<Rightarrow> 's \<Rightarrow> (ep_error, unit) result \<times> 's"
  kb_user_events :: "string \<Rightarrow> string \<Rightarrow> nat \<Rightarrow> nat \<Rightarrow> 's \<Rightarrow> (hs_error, hs_stream_event list) result \<times> 's"
  kb_blacklist :: "string list"
  kb_scheduler :: "'s retry_scheduler"
  kb_shutdown :: "'s \<Rightarrow> bool \<times> 's"
  kb_now :: "'s \<Rightarrow> instant \<times> 's"
  kb_budget :: instant
  kb_user_ids :: "string \<Rightarrow> 's \<Rightarrow> (graph_error, string list) result \<times> 's"
  kb_parse_pk :: "string \<Rightarrow> string option"
  kb_cursor_read :: "string list \<Rightarrow> string \<Rightarrow> 's \<Rightarrow> (redis_error, nat list) result \<times> 's"
  kb_cursor_write :: "string \<Rightarrow> string \<Rightarrow> nat \<Rightarrow> 's \<Rightarrow> (redis_error, unit) result \<times> 's"
  kb_specs :: uri_specs
  kb_show_hs :: "hs_error \<Rightarrow> string"
  kb_show_graph :: "graph_error \<Rightarrow> string"
  kb_show_redis :: "redis_error \<Rightarrow> string"

record 's kb_state =
  kb_not_found :: user_not_found_backoff
  kb_resume :: user_resume_points
  kb_rest :: 's

text \<open>\<open>should_process_event\<close> is the trait's default: every event is processed.\<close>

definition kb_processor :: "'s kb_indexer \<Rightarrow> 's processor" where
  "kb_processor kb =
     \<lparr>p_handle = kb_handle kb, p_should_process = (\<lambda>_ s. (Inr True, s)),
      p_scheduler = Some (kb_scheduler kb), p_homeserver_id = Some (kb_homeserver_id kb),
      p_specs = kb_specs kb\<rparr>"

section \<open>One user's events\<close>

definition validate_user_id :: "string \<Rightarrow> hs_stream_event \<Rightarrow> string \<Rightarrow> (ep_error, unit) result" where
  "validate_user_id hs se expected =
     (if se_owner se \<noteq> expected then Inl (UserIdMismatch hs expected (se_owner se)) else Inr ())"

text \<open>The check of the batch: the first cursor at or below the floor, with that floor.\<close>

fun out_of_order :: "nat \<Rightarrow> hs_stream_event list \<Rightarrow> (nat \<times> nat) option" where
  "out_of_order flr [] = None"
| "out_of_order flr (se # ses) =
     (if se_cursor se \<le> flr then Some (se_cursor se, flr) else out_of_order (se_cursor se) ses)"

text \<open>The match of the loop body: events Nexus does not handle and unparseable ones are skipped.\<close>

definition handle_stream_event :: "'s kb_indexer \<Rightarrow> hs_stream_event \<Rightarrow> 's \<Rightarrow> (ep_error, unit) result \<times> 's" where
  "handle_stream_event kb se s =
     (case from_stream_event (kb_specs kb) se of
        Inr (Some ev) \<Rightarrow> handle_event (kb_processor kb) ev s
      | Inr None \<Rightarrow> (Inr (), s)
      | Inl _ \<Rightarrow> (Inr (), s))"

text \<open>The loop over the events; \<open>latest\<close> is the cursor that is safe to store.\<close>

fun handle_stream ::
  "'s kb_indexer \<Rightarrow> string \<Rightarrow> instant \<Rightarrow> nat option \<Rightarrow> hs_stream_event list \<Rightarrow> 's
     \<Rightarrow> (nat option \<times> (ep_error, unit) result) \<times> 's" where
  "handle_stream kb user_id deadline latest [] s = ((latest, Inr ()), s)"
| "handle_stream kb user_id deadline latest (se # ses) s =
     (case kb_shutdown kb s of
        (True, s1) \<Rightarrow> ((latest, Inr ()), s1)
      | (False, s1) \<Rightarrow>
          (case validate_user_id (kb_homeserver_id kb) se user_id of
             Inl err \<Rightarrow> ((latest, Inl err), s1)
           | Inr _ \<Rightarrow>
               (case handle_stream_event kb se s1 of
                  (Inl err, s2) \<Rightarrow> ((latest, Inl err), s2)
                | (Inr _, s2) \<Rightarrow>
                    (case kb_now kb s2 of (now, s3) \<Rightarrow>
                       if now \<ge> deadline then ((Some (se_cursor se), Inr ()), s3)
                       else handle_stream kb user_id deadline (Some (se_cursor se)) ses s3))))"

definition process_user_events ::
  "'s kb_indexer \<Rightarrow> string \<Rightarrow> nat \<Rightarrow> hs_stream_event list \<Rightarrow> instant \<Rightarrow> 's
     \<Rightarrow> (nat option \<times> (ep_error, unit) result) \<times> 's" where
  "process_user_events kb user_id persisted_cursor ses deadline s =
     (case kb_shutdown kb s of
        (True, s1) \<Rightarrow> ((None, Inr ()), s1)
      | (False, s1) \<Rightarrow>
          (case out_of_order persisted_cursor ses of
             Some (cursor, flr) \<Rightarrow>
               ((None, Inl (EventCursorOutOfOrder (kb_homeserver_id kb) user_id cursor flr)), s1)
           | None \<Rightarrow> handle_stream kb user_id deadline None ses s1))"

text \<open>The cursor write is best effort: its error is only logged.\<close>

definition process_user ::
  "'s kb_indexer \<Rightarrow> string \<Rightarrow> nat \<Rightarrow> instant \<Rightarrow> 's \<Rightarrow> (ep_error, unit) result \<times> 's" where
  "process_user kb user_id cursor deadline s =
     (case kb_user_events kb (kb_homeserver_id kb) user_id cursor (kb_limit kb) s of
        (Inl e, s1) \<Rightarrow> (Inl (ep_from_hs (kb_show_hs kb) e), s1)
      | (Inr ses, s1) \<Rightarrow>
          (case process_user_events kb user_id cursor ses deadline s1 of
             ((None, r), s2) \<Rightarrow> (r, s2)
           | ((Some c, r), s2) \<Rightarrow>
               (r, snd (kb_cursor_write kb user_id (kb_homeserver_id kb) c s2))))"

section \<open>A run over the homeserver's users\<close>

fun parse_users :: "(string \<Rightarrow> string option) \<Rightarrow> string list \<Rightarrow> (string \<times> string) list" where
  "parse_users parse_pk [] = []"
| "parse_users parse_pk (u # us) =
     (case parse_pk u of None \<Rightarrow> parse_users parse_pk us | Some pk \<Rightarrow> (pk, u) # parse_users parse_pk us)"

definition resolve_users_with_cursors ::
  "'s kb_indexer \<Rightarrow> 's \<Rightarrow> (ep_error, user_cursor list) result \<times> 's" where
  "resolve_users_with_cursors kb s =
     (case kb_user_ids kb (kb_homeserver_id kb) s of
        (Inl e, s1) \<Rightarrow> (Inl (ep_from_graph (kb_show_graph kb) e), s1)
      | (Inr user_ids, s1) \<Rightarrow>
          (let valid_users = parse_users (kb_parse_pk kb) user_ids in
           case kb_cursor_read kb (map snd valid_users) (kb_homeserver_id kb) s1 of
             (Inl e, s2) \<Rightarrow> (Inl (ep_from_redis (kb_show_redis kb) e), s2)
           | (Inr cursors, s2) \<Rightarrow> (Inr (zip (map fst valid_users) cursors), s2)))"

text \<open>
  The turn of one user. \<open>Inl\<close> aborts the run, \<open>Inr False\<close> is a skipped user, after which the
  budget is not looked at.
\<close>

definition user_turn ::
  "'s kb_indexer \<Rightarrow> instant \<Rightarrow> user_cursor \<Rightarrow> 's kb_state \<Rightarrow> (ep_error, bool) result \<times> 's kb_state" where
  "user_turn kb deadline u st =
     (case consume_skip (kb_not_found st) (fst u) of
        (True, nf) \<Rightarrow> (Inr False, st\<lparr>kb_not_found := nf\<rparr>)
      | (False, nf) \<Rightarrow>
          (case process_user kb (fst u) (snd u) deadline (kb_rest st) of
             (Inr _, s1) \<Rightarrow>
               (Inr True, st\<lparr>kb_not_found := nf_record_success nf (fst u), kb_rest := s1\<rparr>)
           | (Inl err, s1) \<Rightarrow>
               if should_not_retry_now err then (Inl err, st\<lparr>kb_not_found := nf, kb_rest := s1\<rparr>)
               else if is_not_found err
               then (Inr True, st\<lparr>kb_not_found := nf_record_failure nf (fst u), kb_rest := s1\<rparr>)
               else (Inr True, st\<lparr>kb_not_found := nf, kb_rest := s1\<rparr>)))"

text \<open>The loop; \<open>index\<close> is the position of the next user in the turn order \<open>users\<close>.\<close>

fun run_users ::
  "'s kb_indexer \<Rightarrow> instant \<Rightarrow> user_cursor list \<Rightarrow> nat \<Rightarrow> user_cursor list \<Rightarrow> 's kb_state
     \<Rightarrow> (ep_error, run_outcome) result \<times> 's kb_state" where
  "run_users kb deadline users index [] st =
     (Inr Completed, st\<lparr>kb_resume := record_full_pass (kb_resume st) (kb_homeserver_id kb)\<rparr>)"
| "run_users kb deadline users index (u # us) st =
     (case kb_shutdown kb (kb_rest st) of
        (True, s1) \<Rightarrow> (Inr Completed, st\<lparr>kb_rest := s1\<rparr>)
      | (False, s1) \<Rightarrow>
          (case user_turn kb deadline u (st\<lparr>kb_rest := s1\<rparr>) of
             (Inl err, st2) \<Rightarrow> (Inl err, st2)
           | (Inr False, st2) \<Rightarrow> run_users kb deadline users (Suc index) us st2
           | (Inr True, st2) \<Rightarrow>
               (case kb_now kb (kb_rest st2) of (now, s3) \<Rightarrow>
                  if now \<ge> deadline
                  then (Inr BudgetSpent, st2\<lparr>kb_rest := s3, kb_resume :=
                          record_stop_after (kb_resume st2) (kb_homeserver_id kb) users index\<rparr>)
                  else run_users kb deadline users (Suc index) us (st2\<lparr>kb_rest := s3\<rparr>))))"

definition kb_run_internal ::
  "'s kb_indexer \<Rightarrow> 's kb_state \<Rightarrow> (ep_error, run_outcome) result \<times> 's kb_state" where
  "kb_run_internal kb st =
     (if is_blacklisted (kb_blacklist kb) (kb_homeserver_id kb)
      then (Inl (HsBlacklisted (kb_homeserver_id kb)), st)
      else case kb_now kb (kb_rest st) of (now, s1) \<Rightarrow>
           (case resolve_users_with_cursors kb s1 of
              (Inl e, s2) \<Rightarrow> (Inl e, st\<lparr>kb_rest := s2\<rparr>)
            | (Inr users, s2) \<Rightarrow>
                if users = [] then (Inr Completed, st\<lparr>kb_rest := s2\<rparr>)
                else (let turn = order (kb_resume st) (kb_homeserver_id kb) users in
                      run_users kb (now + kb_budget kb) turn 0 turn (st\<lparr>kb_rest := s2\<rparr>))))"

section \<open>Lemmas on one batch\<close>

lemma out_of_order_None: "out_of_order flr ses = None \<longleftrightarrow> sorted_wrt (<) (flr # map se_cursor ses)"
  by (induction flr ses rule: out_of_order.induct) (auto intro: less_trans)

text \<open>
  \<open>stream_settled\<close>: the events were taken in order, none after a shutdown signal, each belongs to
  the user and was handled without error or is not for Nexus.
\<close>

inductive stream_settled :: "'s kb_indexer \<Rightarrow> string \<Rightarrow> hs_stream_event list \<Rightarrow> 's \<Rightarrow> 's \<Rightarrow> bool"
  for kb user_id where
  settled_nil: "stream_settled kb user_id [] s s"
| settled_event: "\<lbrakk>kb_shutdown kb s = (False, s1); se_owner se = user_id;
    handle_stream_event kb se s1 = (Inr (), s2);
    kb_now kb s2 = (now, s3); stream_settled kb user_id ses s3 s'\<rbrakk>
    \<Longrightarrow> stream_settled kb user_id (se # ses) s s'"

text \<open>What may still happen after the last settled event: the shutdown signal is read, and the next
  event's handler may fail.\<close>

definition stream_stop :: "'s kb_indexer \<Rightarrow> 's \<Rightarrow> 's \<Rightarrow> bool" where
  "stream_stop kb s s' \<longleftrightarrow>
     s' = s \<or> s' = snd (kb_shutdown kb s) \<or>
     (\<exists>se. s' = snd (handle_stream_event kb se (snd (kb_shutdown kb s))))"

lemma handle_stream_settled:
  assumes "handle_stream kb user_id deadline latest ses s = ((l, r), s')"
  shows "\<exists>don rest s1. ses = don @ rest \<and> stream_settled kb user_id don s s1 \<and> stream_stop kb s1 s' \<and>
    l = (if don = [] then latest else Some (se_cursor (last don)))"
  using assms
proof (induction ses arbitrary: latest s)
  case Nil
  then show ?case by (auto simp: stream_stop_def intro: settled_nil)
next
  case (Cons se ses)
  obtain b s1 where sh: "kb_shutdown kb s = (b, s1)" by force
  obtain rh s2 where h: "handle_stream_event kb se s1 = (rh, s2)" by force
  obtain now s3 where now: "kb_now kb s2 = (now, s3)" by force
  show ?case
  proof (cases "b \<or> se_owner se \<noteq> user_id \<or> rh \<noteq> Inr ()")
    case True
    then have "l = latest \<and> s' \<in> {s1, s2}"
      using Cons.prems sh h by (cases b; cases rh) (auto simp: validate_user_id_def split: if_splits)
    then have "l = latest" "stream_stop kb s s'" using sh h by (auto simp: stream_stop_def intro!: exI [of _ se])
    then show ?thesis by (intro exI [of _ "[]"] exI [of _ "se # ses"] exI [of _ s]) (simp add: settled_nil)
  next
    case False
    then have ok: "\<not> b" "se_owner se = user_id" "rh = Inr ()" by simp_all
    then have step: "\<And>es t. stream_settled kb user_id es s3 t \<Longrightarrow> stream_settled kb user_id (se # es) s t"
      using settled_event [of kb s s1 se user_id s2 now s3] sh h now by simp
    show ?thesis
    proof (cases "now \<ge> deadline")
      case True
      then have "l = Some (se_cursor se)" "s' = s3"
        using Cons.prems sh h now ok by (simp_all add: validate_user_id_def)
      then show ?thesis using step [OF settled_nil]
        by (intro exI [of _ "[se]"] exI [of _ ses] exI [of _ s3]) (simp add: stream_stop_def)
    next
      case False
      then have "handle_stream kb user_id deadline (Some (se_cursor se)) ses s3 = ((l, r), s')"
        using Cons.prems sh h now ok by (simp add: validate_user_id_def)
      from Cons.IH [OF this] obtain don rest t where "ses = don @ rest"
        "stream_settled kb user_id don s3 t" "stream_stop kb t s'"
        "l = (if don = [] then Some (se_cursor se) else Some (se_cursor (last don)))" by blast
      then show ?thesis using step
        by (intro exI [of _ "se # don"] exI [of _ rest] exI [of _ t]) auto
    qed
  qed
qed

section \<open>The cursor store as the processor uses it\<close>

locale user_cursor_store =
  fixes rd :: "string list \<Rightarrow> string \<Rightarrow> 's \<Rightarrow> (redis_error, nat list) result \<times> 's"
    and wr :: "string \<Rightarrow> string \<Rightarrow> nat \<Rightarrow> 's \<Rightarrow> (redis_error, unit) result \<times> 's"
    and val :: "'s \<Rightarrow> string \<times> string \<Rightarrow> nat"
    and I :: "'s \<Rightarrow> bool"
    and storable :: "nat \<Rightarrow> bool"
  assumes read_law: "\<lbrakk>I s; rd us hs s = (r, s')\<rbrakk> \<Longrightarrow>
      I s' \<and> val s' = val s \<and> (\<forall>cs. r = Inr cs \<longrightarrow> cs = map (\<lambda>u. val s (u, hs)) us)"
    and write_law: "\<lbrakk>I s; storable c; wr u hs c s = (ru, s')\<rbrakk> \<Longrightarrow>
      I s' \<and> (val s' = val s \<or> val s (u, hs) \<le> c \<and> val s' = (val s)((u, hs) := c))"

text \<open>
  What a run relies on beside the store: reading the clock, the shutdown signal and the graph and
  fetching events change no cursor; a handler that returns without error has taken care of its
  event; the homeserver's user stream (\<open>/events-stream\<close>) leaves out no event between the
  requested cursor and the last one it returns. \<open>L\<close> are the users' events that Nexus handles.
\<close>

definition quiet_step :: "('s \<Rightarrow> bool) \<Rightarrow> ('s \<Rightarrow> string \<times> string \<Rightarrow> nat) \<Rightarrow> ('s \<Rightarrow> 'e set) \<Rightarrow> 's \<Rightarrow> 's \<Rightarrow> bool" where
  "quiet_step I val seen s s' \<longleftrightarrow> (I s \<longrightarrow> I s' \<and> val s' = val s \<and> seen s \<subseteq> seen s')"

definition kb_contract ::
  "'s kb_indexer \<Rightarrow> ('s \<Rightarrow> bool) \<Rightarrow> ('s \<Rightarrow> string \<times> string \<Rightarrow> nat) \<Rightarrow> ('s \<Rightarrow> hs_stream_event set)
     \<Rightarrow> hs_stream_event set \<Rightarrow> (nat \<Rightarrow> bool) \<Rightarrow> bool" where
  "kb_contract kb I val seen L storable \<longleftrightarrow>
     (\<forall>s. quiet_step I val seen s (snd (kb_shutdown kb s))) \<and>
     (\<forall>s. quiet_step I val seen s (snd (kb_now kb s))) \<and>
     (\<forall>hs s. quiet_step I val seen s (snd (kb_user_ids kb hs s))) \<and>
     (\<forall>us hs s. I s \<longrightarrow> seen s \<subseteq> seen (snd (kb_cursor_read kb us hs s))) \<and>
     (\<forall>u hs c s. I s \<longrightarrow> seen s \<subseteq> seen (snd (kb_cursor_write kb u hs c s))) \<and>
     (\<forall>se s. quiet_step I val seen s (snd (handle_stream_event kb se s)) \<and>
        (I s \<and> fst (handle_stream_event kb se s) = Inr () \<and> se \<in> L \<longrightarrow>
           se \<in> seen (snd (handle_stream_event kb se s)))) \<and>
     (\<forall>hs u c limit s ses s'. kb_user_events kb hs u c limit s = (Inr ses, s') \<longrightarrow>
        (\<forall>se\<in>set ses. storable (se_cursor se)) \<and>
        (\<forall>se\<in>L. se_owner se = u \<and> c < se_cursor se \<and> (\<exists>x\<in>set ses. se_cursor se \<le> se_cursor x) \<longrightarrow> se \<in> set ses)) \<and>
     (\<forall>hs u c limit s. quiet_step I val seen s (snd (kb_user_events kb hs u c limit s)))"

definition kb_covered ::
  "('s \<Rightarrow> string \<times> string \<Rightarrow> nat) \<Rightarrow> ('s \<Rightarrow> hs_stream_event set) \<Rightarrow> hs_stream_event set \<Rightarrow> string \<Rightarrow> 's \<Rightarrow> bool" where
  "kb_covered val seen L hs s \<longleftrightarrow> (\<forall>se\<in>L. se_cursor se \<le> val s (se_owner se, hs) \<longrightarrow> se \<in> seen s)"

lemma kb_covered_quiet:
  "\<lbrakk>kb_covered val seen L hs s; I s; quiet_step I val seen s s'\<rbrakk> \<Longrightarrow> kb_covered val seen L hs s'"
  by (auto simp: kb_covered_def quiet_step_def)

lemma quiet_trans:
  "\<lbrakk>quiet_step I val seen s s1; quiet_step I val seen s1 s2\<rbrakk> \<Longrightarrow> quiet_step I val seen s s2"
  by (auto simp: quiet_step_def)

lemma contract_steps:
  assumes "kb_contract kb I val seen L storable"
  shows "kb_shutdown kb s = (b, s1) \<Longrightarrow> quiet_step I val seen s s1"
    and "kb_now kb s = (t, s1) \<Longrightarrow> quiet_step I val seen s s1"
    and "kb_user_ids kb hs s = (ri, s1) \<Longrightarrow> quiet_step I val seen s s1"
    and "kb_user_events kb hs u c limit s = (re, s1) \<Longrightarrow> quiet_step I val seen s s1"
    and "handle_stream_event kb se s = (rh, s1) \<Longrightarrow> quiet_step I val seen s s1"
    and "\<lbrakk>handle_stream_event kb se s = (Inr (), s1); I s; se \<in> L\<rbrakk> \<Longrightarrow> se \<in> seen s1"
  using assms unfolding kb_contract_def by (metis fst_conv snd_conv)+

lemma settled_seen:
  assumes "stream_settled kb u ses s s'" "kb_contract kb I val seen L storable" "I s"
  shows "quiet_step I val seen s s' \<and> set ses \<inter> L \<subseteq> seen s' \<and> (\<forall>se\<in>set ses. se_owner se = u)"
  using assms(1,3)
proof (induction rule: stream_settled.induct)
  case (settled_nil s)
  then show ?case by (simp add: quiet_step_def)
next
  case (settled_event s s1 se s2 now s3 ses s')
  note steps = contract_steps [OF assms(2)]
  have q: "quiet_step I val seen s s1" "quiet_step I val seen s1 s2" "quiet_step I val seen s2 s3"
    using steps(1) [OF settled_event.hyps(1)] steps(5) [OF settled_event.hyps(3)]
      steps(2) [OF settled_event.hyps(4)] by blast+
  then have I: "I s1" "I s3" "seen s2 \<subseteq> seen s3"
    using settled_event.prems by (auto simp: quiet_step_def)
  have "se \<in> seen s2" if "se \<in> L" by (rule steps(6) [OF settled_event.hyps(3) I(1) that])
  moreover have "seen s3 \<subseteq> seen s'" using settled_event.IH I(2) by (auto simp: quiet_step_def)
  ultimately show ?case
    using settled_event.IH [OF I(2)] q quiet_trans settled_event.hyps(2) I(3)
    by (auto 0 3 intro: quiet_trans)
qed

lemma stop_quiet:
  assumes "kb_contract kb I val seen L storable" "stream_stop kb s s'"
  shows "quiet_step I val seen s s'"
proof -
  obtain b s1 where sh: "kb_shutdown kb s = (b, s1)" by force
  have q: "quiet_step I val seen s s1" by (rule contract_steps(1) [OF assms(1) sh])
  have "quiet_step I val seen s1 (snd (handle_stream_event kb se s1))" for se
    by (rule contract_steps(5) [OF assms(1)]) (rule prod.collapse [symmetric])
  then show ?thesis
    using assms(2) sh q quiet_trans [OF q] by (auto simp: stream_stop_def quiet_step_def)
qed

text \<open>Of the events of a batch, the ones up to the cursor to store are taken care of.\<close>

lemma process_user_events_settled:
  assumes "process_user_events kb u c ses deadline s = ((l, r), s')"
    "kb_contract kb I val seen L storable" "I s"
  shows "quiet_step I val seen s s' \<and> (\<forall>v. l = Some v \<longrightarrow>
    c < v \<and> (\<exists>x\<in>set ses. se_cursor x = v) \<and> (\<forall>se\<in>set ses \<inter> L. se_cursor se \<le> v \<longrightarrow> se \<in> seen s'))"
proof -
  obtain b s1 where sh: "kb_shutdown kb s = (b, s1)" by force
  note q1 = contract_steps(1) [OF assms(2) sh]
  show ?thesis
  proof (cases "\<not> b \<and> out_of_order c ses = None")
    case False
    then have "s' = s1 \<and> l = None"
      using assms(1) sh by (cases b) (auto simp: process_user_events_def split: option.splits)
    then show ?thesis using q1 by simp
  next
    case True
    then have "handle_stream kb u deadline None ses s1 = ((l, r), s')"
      using assms(1) sh by (simp add: process_user_events_def)
    from handle_stream_settled [OF this] obtain don rest t where
      ses: "ses = don @ rest" and don: "stream_settled kb u don s1 t" and stop: "stream_stop kb t s'"
      and l: "l = (if don = [] then None else Some (se_cursor (last don)))" by blast
    have I1: "I s1" using q1 assms(3) by (simp add: quiet_step_def)
    note seen = settled_seen [OF don assms(2) I1]
    note stop' = stop_quiet [OF assms(2) stop]
    have It: "I t" using seen I1 by (simp add: quiet_step_def)
    then have sub: "seen t \<subseteq> seen s'" using stop' by (simp add: quiet_step_def)
    have quiet: "quiet_step I val seen s s'" using q1 seen stop' by (blast intro: quiet_trans)
    have inc: "sorted_wrt (<) (c # map se_cursor ses)" using True by (simp add: out_of_order_None)
    have "c < v \<and> (\<exists>x\<in>set ses. se_cursor x = v) \<and> (\<forall>se\<in>set ses \<inter> L. se_cursor se \<le> v \<longrightarrow> se \<in> seen s')"
      if v: "l = Some v" for v
    proof -
      have ne: "don \<noteq> []" "v = se_cursor (last don)" using v l by (auto split: if_splits)
      then have "last don \<in> set ses" "last don \<in> set don" using ses by auto
      moreover have "se \<in> set don" if "se \<in> set ses" "se_cursor se \<le> v" for se
        using that ses inc ne \<open>last don \<in> set don\<close>
        by (auto simp: sorted_wrt_append not_le [symmetric])
      ultimately show ?thesis using inc ne seen sub by auto
    qed
    then show ?thesis using quiet by blast
  qed
qed

section \<open>Runs keep the cursors covered\<close>

text \<open>The users a run keeps are among the resolved ids, without repetition when those have none.\<close>

definition sublist_ids :: "string list \<Rightarrow> string list \<Rightarrow> bool" where
  "sublist_ids xs ys \<longleftrightarrow> set xs \<subseteq> set ys \<and> (distinct ys \<longrightarrow> distinct xs)"

lemma order_distinct: "distinct (map fst (order points hs users)) = distinct (map fst users)"
  by (simp add: order_rotates rotate_map [symmetric] distinct_sort_key_map)

context user_cursor_store
begin

lemma process_user_covered:
  assumes kb: "kb_contract kb I val seen L storable" "kb_cursor_write kb = wr"
    and s: "I s" "kb_covered val seen L (kb_homeserver_id kb) s" "val s (u, kb_homeserver_id kb) = c"
    and run: "process_user kb u c deadline s = (r, s')"
  shows "I s' \<and> kb_covered val seen L (kb_homeserver_id kb) s' \<and>
    (\<forall>k. k \<noteq> (u, kb_homeserver_id kb) \<longrightarrow> val s' k = val s k)"
proof -
  let ?hs = "kb_homeserver_id kb"
  obtain re s1 where ev: "kb_user_events kb ?hs u c (kb_limit kb) s = (re, s1)" by force
  note q1 = contract_steps(4) [OF kb(1) ev]
  have s1: "I s1" "val s1 = val s" "kb_covered val seen L ?hs s1"
    using q1 s(1) kb_covered_quiet [OF s(2,1) q1] by (simp_all add: quiet_step_def)
  show ?thesis
  proof (cases re)
    case (Inl e)
    then have "s' = s1" using run ev by (simp add: process_user_def)
    then show ?thesis using s1 by simp
  next
    case (Inr ses)
    obtain l r2 s2 where pe: "process_user_events kb u c ses deadline s1 = ((l, r2), s2)"
      by (metis surj_pair)
    note settled = process_user_events_settled [OF pe kb(1) s1(1)]
    then have s2: "I s2" "val s2 = val s" "kb_covered val seen L ?hs s2"
      using s1 kb_covered_quiet [of val seen L ?hs s1 I s2] by (auto simp: quiet_step_def)
    show ?thesis
    proof (cases l)
      case None
      then have "s' = s2" using run ev Inr pe by (simp add: process_user_def)
      then show ?thesis using s2 by simp
    next
      case (Some v)
      then have s': "s' = snd (wr u ?hs v s2)" using run ev Inr pe kb(2) by (simp add: process_user_def)
      have v: "c < v" "\<exists>x\<in>set ses. se_cursor x = v"
        "\<forall>se\<in>set ses \<inter> L. se_cursor se \<le> v \<longrightarrow> se \<in> seen s2"
        using settled Some by blast+
      have fetch: "\<forall>se\<in>set ses. storable (se_cursor se)"
        "\<forall>se\<in>L. se_owner se = u \<and> c < se_cursor se \<and> (\<exists>x\<in>set ses. se_cursor se \<le> se_cursor x) \<longrightarrow> se \<in> set ses"
        using kb(1) ev Inr unfolding kb_contract_def by metis+
      have sub: "seen s2 \<subseteq> seen s'" using kb s2(1) unfolding s' kb_contract_def by metis
      have st: "storable v" using v(2) fetch(1) by blast
      have w: "I s' \<and> (val s' = val s2 \<or> val s2 (u, ?hs) \<le> v \<and> val s' = (val s2)((u, ?hs) := v))"
        using write_law [OF s2(1) st, of u ?hs "fst (wr u ?hs v s2)" s'] s' by simp
      have new: "se \<in> seen s'" if "se \<in> L" "se_owner se = u" "se_cursor se \<le> v" for se
      proof (cases "se_cursor se \<le> c")
        case True
        then show ?thesis using that s2(2,3) s(3) sub by (auto simp: kb_covered_def)
      next
        case False
        then have "se \<in> set ses" using that v(2) fetch(2) by force
        then show ?thesis using that v(3) sub by auto
      qed
      have old: "se \<in> seen s'" if "se \<in> L" "se_cursor se \<le> val s2 (se_owner se, ?hs)" for se
        using that s2(3) sub by (auto simp: kb_covered_def)
      show ?thesis using w s2(2) new old by (auto simp: kb_covered_def split: if_splits)
    qed
  qed
qed

lemma user_turn_covered:
  assumes kb: "kb_contract kb I val seen L storable" "kb_cursor_write kb = wr"
    and st: "I (kb_rest st)" "kb_covered val seen L (kb_homeserver_id kb) (kb_rest st)"
      "val (kb_rest st) (fst u, kb_homeserver_id kb) = snd u"
    and run: "user_turn kb deadline u st = (r, st')"
  shows "I (kb_rest st') \<and> kb_covered val seen L (kb_homeserver_id kb) (kb_rest st') \<and>
    (\<forall>k. k \<noteq> (fst u, kb_homeserver_id kb) \<longrightarrow> val (kb_rest st') k = val (kb_rest st) k)"
proof -
  obtain b nf where skip: "consume_skip (kb_not_found st) (fst u) = (b, nf)" by force
  obtain rp s1 where pu: "process_user kb (fst u) (snd u) deadline (kb_rest st) = (rp, s1)" by force
  have "kb_rest st' = kb_rest st \<or> kb_rest st' = s1"
    using run skip pu by (cases b; cases rp) (auto simp: user_turn_def split: if_splits)
  then show ?thesis using process_user_covered [OF kb st pu] st by auto
qed

lemma run_users_covered:
  assumes kb: "kb_contract kb I val seen L storable" "kb_cursor_write kb = wr"
  shows "\<lbrakk>run_users kb deadline users n us st = (r, st'); I (kb_rest st);
      kb_covered val seen L (kb_homeserver_id kb) (kb_rest st); distinct (map fst us);
      \<forall>u\<in>set us. val (kb_rest st) (fst u, kb_homeserver_id kb) = snd u\<rbrakk>
    \<Longrightarrow> I (kb_rest st') \<and> kb_covered val seen L (kb_homeserver_id kb) (kb_rest st')"
proof (induction us arbitrary: n st)
  case Nil
  then show ?case by auto
next
  case (Cons u us)
  let ?hs = "kb_homeserver_id kb"
  obtain b s1 where sh: "kb_shutdown kb (kb_rest st) = (b, s1)" by force
  note q1 = contract_steps(1) [OF kb(1) sh]
  let ?st1 = "st\<lparr>kb_rest := s1\<rparr>"
  have s1: "I s1" "kb_covered val seen L ?hs s1" "val s1 = val (kb_rest st)"
    using q1 Cons.prems(2) kb_covered_quiet [OF Cons.prems(3,2) q1] by (simp_all add: quiet_step_def)
  obtain rt st2 where turn: "user_turn kb deadline u ?st1 = (rt, st2)" by force
  have s2: "I (kb_rest st2)" "kb_covered val seen L ?hs (kb_rest st2)"
      "\<forall>k. k \<noteq> (fst u, ?hs) \<longrightarrow> val (kb_rest st2) k = val s1 k"
    using user_turn_covered [OF kb _ _ _ turn] s1 Cons.prems(5) by simp_all
  obtain now s3 where now: "kb_now kb (kb_rest st2) = (now, s3)" by force
  note q3 = contract_steps(2) [OF kb(1) now]
  have s3: "I s3" "kb_covered val seen L ?hs s3" "val s3 = val (kb_rest st2)"
    using q3 s2(1) kb_covered_quiet [OF s2(2,1) q3] by (simp_all add: quiet_step_def)
  have vals: "\<forall>v\<in>set us. val (kb_rest st2) (fst v, ?hs) = snd v"
  proof
    fix v assume "v \<in> set us"
    then have "fst v \<in> fst ` set us" "val (kb_rest st) (fst v, ?hs) = snd v"
      using Cons.prems(5) by simp_all
    moreover have "fst u \<notin> fst ` set us" using Cons.prems(4) by simp
    ultimately have "(fst v, ?hs) \<noteq> (fst u, ?hs)" "val (kb_rest st) (fst v, ?hs) = snd v"
      by (metis prod.inject)+
    then show "val (kb_rest st2) (fst v, ?hs) = snd v" using s2(3) s1(3) by simp
  qed
  consider (stop) "kb_rest st' \<in> {s1, kb_rest st2, s3}"
    | (skipped) "run_users kb deadline users (Suc n) us st2 = (r, st')"
    | (full) "run_users kb deadline users (Suc n) us (st2\<lparr>kb_rest := s3\<rparr>) = (r, st')"
    using Cons.prems(1) sh turn now
    by (cases b; cases rt) (auto split: bool.splits if_splits)
  then show ?case
  proof cases
    case stop
    then show ?thesis using s1 s2 s3 by auto
  next
    case skipped
    show ?thesis by (rule Cons.IH [OF skipped s2(1,2)]) (use Cons.prems(4) vals in simp_all)
  next
    case full
    show ?thesis by (rule Cons.IH [OF full]) (use Cons.prems(4) vals s3 in simp_all)
  qed
qed

lemma kb_run_covered:
  assumes kb: "kb_contract kb I val seen L storable" "kb_cursor_read kb = rd" "kb_cursor_write kb = wr"
    and ids: "\<And>t ids t'. kb_user_ids kb (kb_homeserver_id kb) t = (Inr ids, t') \<Longrightarrow> distinct ids"
      "\<And>u pk. kb_parse_pk kb u = Some pk \<Longrightarrow> pk = u"
    and st: "I (kb_rest st)" "kb_covered val seen L (kb_homeserver_id kb) (kb_rest st)"
    and run: "kb_run_internal kb st = (r, st')"
  shows "I (kb_rest st') \<and> kb_covered val seen L (kb_homeserver_id kb) (kb_rest st')"
proof (cases "is_blacklisted (kb_blacklist kb) (kb_homeserver_id kb)")
  case True
  then show ?thesis using run st by (simp add: kb_run_internal_def)
next
  case False
  let ?hs = "kb_homeserver_id kb"
  obtain now s1 where now: "kb_now kb (kb_rest st) = (now, s1)" by force
  note q1 = contract_steps(2) [OF kb(1) now]
  have s1: "I s1" "kb_covered val seen L ?hs s1"
    using q1 st kb_covered_quiet [OF st(2,1) q1] by (simp_all add: quiet_step_def)
  obtain ri s2 where ui: "kb_user_ids kb ?hs s1 = (ri, s2)" by force
  note q2 = contract_steps(3) [OF kb(1) ui]
  have s2: "I s2" "kb_covered val seen L ?hs s2"
    using q2 s1 kb_covered_quiet [OF s1(2,1) q2] by (simp_all add: quiet_step_def)
  show ?thesis
  proof (cases ri)
    case (Inl e)
    then have "kb_rest st' = s2"
      using run False now ui by (auto simp: kb_run_internal_def resolve_users_with_cursors_def)
    then show ?thesis using s2 by simp
  next
    case (Inr uids)
    let ?valid = "parse_users (kb_parse_pk kb) uids"
    obtain rc s3 where rd: "rd (map snd ?valid) ?hs s2 = (rc, s3)" by force
    note l = read_law [OF s2(1) rd]
    have "seen s2 \<subseteq> seen s3" using kb(1,2) rd s2(1) unfolding kb_contract_def by (metis snd_conv)
    then have s3: "I s3" "kb_covered val seen L ?hs s3" using l s2(2) by (auto simp: kb_covered_def)
    show ?thesis
    proof (cases "\<exists>cs. rc = Inr cs \<and> zip (map fst ?valid) cs \<noteq> []")
      case False
      then have "kb_rest st' = s3"
        using run \<open>\<not> is_blacklisted _ _\<close> now ui Inr rd kb(2)
        by (auto simp: kb_run_internal_def resolve_users_with_cursors_def split: sum.splits)
      then show ?thesis using s3 by simp
    next
      case True
      then obtain cs where cs: "rc = Inr cs" by blast
      let ?users = "zip (map fst ?valid) cs"
      let ?turn = "order (kb_resume st) ?hs ?users"
      have run': "run_users kb (now + kb_budget kb) ?turn 0 ?turn (st\<lparr>kb_rest := s3\<rparr>) = (r, st')"
        using run \<open>\<not> is_blacklisted _ _\<close> now ui Inr rd kb(2) cs True
        by (simp add: kb_run_internal_def resolve_users_with_cursors_def Let_def)
      have same: "map fst ?valid = map snd ?valid" "sublist_ids (map snd ?valid) uids"
        by (induction uids) (auto simp: sublist_ids_def ids(2) split: option.splits)
      have vals: "cs = map (\<lambda>u. val s3 (u, ?hs)) (map fst ?valid)" using l cs same(1) by simp
      have "\<forall>u\<in>set ?turn. val s3 (fst u, ?hs) = snd u" unfolding vals by (auto simp: set_zip)
      moreover have "distinct (map fst ?valid)"
        using same ids(1) [OF ui [unfolded Inr]] unfolding sublist_ids_def by metis
      then have "distinct (map fst ?turn)" by (simp add: order_distinct vals)
      ultimately show ?thesis using run_users_covered [OF kb(1,3) run'] s3 by simp
    qed
  qed
qed

end

section \<open>The Redis cursors implement the store\<close>

lemma scores_exact:
  assumes "isize_exact si" "exact_scores s"
  shows "scores_as_isize si (map s ks) = Some (map s ks)"
    and "read_scores hs (map s ks) = Inr (map (cursor_vals s) ks)"
proof -
  have ok: "0 \<le> x \<and> si x = Some x" if "s k = Some x" for k x
    using assms that unfolding isize_exact_def exact_scores_def by blast
  show "scores_as_isize si (map s ks) = Some (map s ks)"
  proof (induction ks)
    case (Cons k ks)
    then show ?case using ok [of k] by (cases "s k") auto
  qed simp
  show "read_scores hs (map s ks) = Inr (map (cursor_vals s) ks)"
  proof (induction ks)
    case (Cons k ks)
    then show ?case using ok [of k] by (cases "s k") (auto simp: cursor_vals_def)
  qed simp
qed

lemma cursor_read_law:
  assumes "cursor_stable si w" "cursor_read si us hs w = (r, w')"
  shows "cursor_stable si w' \<and> cursor_vals (kv w') = cursor_vals (kv w) \<and>
    (\<forall>cs. r = Inr cs \<longrightarrow> cs = map (\<lambda>u. cursor_vals (kv w) (u, hs)) us)"
proof (cases "us = []")
  case True
  then show ?thesis using assms by (auto simp: cursor_read_def)
next
  case False
  let ?ks = "map (\<lambda>u. (u, hs)) us"
  have si: "isize_exact si" using assms(1) by (simp add: cursor_stable_def)
  obtain r0 w0 where c: "redis_call (cursor_zscores ?ks) w = (r0, w0)" by force
  show ?thesis
  proof (rule cursor_stable_call [OF assms(1) c])
    fix s
    assume s: "exact_scores s" "cursor_vals s = cursor_vals (kv w)" "cursor_stable si w0"
      "(\<exists>e. r0 = Inl e \<and> kv w0 \<in> {s, snd (cursor_zscores ?ks s)}) \<or>
        r0 = Inr (fst (cursor_zscores ?ks s)) \<and> kv w0 = snd (cursor_zscores ?ks s)"
    then have "kv w0 = s" by (auto simp: cursor_zscores_def)
    moreover have "w' = w0 \<and> (\<forall>cs. r = Inr cs \<longrightarrow> cs = map (cursor_vals s) ?ks)"
    proof (cases r0)
      case (Inl e)
      then show ?thesis using assms(2) False c by (auto simp: cursor_read_def)
    next
      case (Inr scores)
      then have "scores = map s ?ks" using s(4) by (simp add: cursor_zscores_def)
      then have "scores_as_isize si scores = Some scores"
        "read_scores hs scores = Inr (map (cursor_vals s) ?ks)"
        using scores_exact(1) [OF si s(1), of ?ks] scores_exact(2) [OF si s(1), of hs ?ks] by (simp_all only:)
      then show ?thesis using assms(2) False c Inr by (auto simp: cursor_read_def)
    qed
    moreover have "map (cursor_vals s) ?ks = map (\<lambda>u. cursor_vals (kv w) (u, hs)) us" using s(2) by simp
    ultimately show ?thesis using s(2,3) by (simp only:) simp
  qed (simp add: cursor_zscores_def)
qed

lemma cursor_read_schedule: "cursor_read si us hs w = (r, w') \<Longrightarrow> same_schedule w w'"
  using redis_call_schedule by (fastforce simp: cursor_read_def split: if_splits prod.splits sum.splits option.splits)

lemma cursor_write_schedule:
  assumes "cursor_write si u hs c w = (r, w')"
  shows "same_schedule w w'"
proof -
  obtain rr w1 where rd: "cursor_read si [u] hs w = (rr, w1)" by force
  obtain ru w2 where wr: "redis_call (cursor_zadd u hs (f64_of_int (int c))) w1 = (ru, w2)" by force
  have "w' = w1 \<or> w' = w2"
    using assms rd wr by (auto simp: cursor_write_def split: sum.splits)
  then show ?thesis
    using cursor_read_schedule [OF rd] redis_call_schedule [OF wr] same_schedule_trans by blast
qed

text \<open>
  The stores the processor may be run on: \<open>E\<close> is whatever else is known of what the other tasks
  do.
\<close>

definition cursors_under :: "(int \<Rightarrow> int option) \<Rightarrow> ((nat \<Rightarrow> cursor_kv \<Rightarrow> cursor_kv) \<Rightarrow> bool) \<Rightarrow> cursor_kv world \<Rightarrow> bool" where
  "cursors_under si E w \<longleftrightarrow> cursor_stable si w \<and> E (env w)"

interpretation redis_users: user_cursor_store
  "cursor_read si" "cursor_write si" "\<lambda>w. cursor_vals (kv w)" "cursors_under si E" "\<lambda>c. c < 2 ^ 53"
  for si E
proof
  fix s us hs r s'
  assume asm: "cursors_under si E s" "cursor_read si us hs s = (r, s')"
  then show "cursors_under si E s' \<and> cursor_vals (kv s') = cursor_vals (kv s) \<and>
      (\<forall>cs. r = Inr cs \<longrightarrow> cs = map (\<lambda>u. cursor_vals (kv s) (u, hs)) us)"
    using cursor_read_law [of si s us hs r s'] cursor_read_schedule [OF asm(2)]
    by (simp add: cursors_under_def same_schedule_def)
next
  fix s u hs c ru s'
  assume asm: "cursors_under si E s" "c < 2 ^ 53" and wr: "cursor_write si u hs c s = (ru, s')"
  then have "guarded_write (cursor_read_one si) cursor_put (u, hs) c s = (ru, s')" "cursor_stable si s"
    by (simp_all add: cursor_write_is_guarded cursors_under_def)
  from external.guarded_write_law(1,2) [OF this(2) asm(2) this(1)] cursor_write_schedule [OF wr] asm(1)
  show "cursors_under si E s' \<and> (cursor_vals (kv s') = cursor_vals (kv s) \<or>
      cursor_vals (kv s) (u, hs) \<le> c \<and> cursor_vals (kv s') = (cursor_vals (kv s))((u, hs) := c))"
    by (simp add: cursors_under_def same_schedule_def)
qed

section \<open>Resume points\<close>

lemma user_turn_resume: "kb_resume (snd (user_turn kb deadline u st)) = kb_resume st"
  by (simp add: user_turn_def split: prod.splits bool.splits sum.splits)

lemma run_users_resume:
  assumes "run_users kb deadline users n us st = (r, st')" "users = don @ us" "length don = n"
  shows "case r of
      Inl _ \<Rightarrow> kb_resume st' = kb_resume st
    | Inr Completed \<Rightarrow> kb_resume st' \<in> {kb_resume st, record_full_pass (kb_resume st) (kb_homeserver_id kb)}
    | Inr BudgetSpent \<Rightarrow> \<exists>i<length users.
        kb_resume st' = record_stop_after (kb_resume st) (kb_homeserver_id kb) users i"
  using assms
proof (induction us arbitrary: n st don)
  case Nil
  then show ?case by auto
next
  case (Cons u us)
  obtain b s1 where sh: "kb_shutdown kb (kb_rest st) = (b, s1)" by force
  obtain rt st2 where turn: "user_turn kb deadline u (st\<lparr>kb_rest := s1\<rparr>) = (rt, st2)" by force
  have res: "kb_resume st2 = kb_resume st" using user_turn_resume [of kb deadline u "st\<lparr>kb_rest := s1\<rparr>"] turn by simp
  obtain now s3 where now: "kb_now kb (kb_rest st2) = (now, s3)" by force
  have ih: ?case if "run_users kb deadline users (Suc n) us st3 = (r, st')" "kb_resume st3 = kb_resume st" for st3
    using Cons.IH [OF that(1), of "don @ [u]", unfolded that(2)] Cons.prems(2,3) by simp
  show ?case
  proof (cases "b \<or> (\<exists>e. rt = Inl e)")
    case True
    then have "(r = Inr Completed \<or> (\<exists>e. r = Inl e)) \<and> kb_resume st' = kb_resume st"
      using Cons.prems(1) sh turn res by (cases b) auto
    then show ?thesis by auto
  next
    case False
    then obtain x where x: "\<not> b" "rt = Inr x" by (cases rt) auto
    show ?thesis
    proof (cases "x \<and> now \<ge> deadline")
      case True
      then have "r = Inr BudgetSpent"
        "kb_resume st' = record_stop_after (kb_resume st) (kb_homeserver_id kb) users n"
        using Cons.prems(1) sh turn now res x by auto
      then show ?thesis using Cons.prems(2,3) by (auto intro!: exI [of _ n])
    next
      case False
      then have "run_users kb deadline users (Suc n) us (if x then st2\<lparr>kb_rest := s3\<rparr> else st2) = (r, st')"
        using Cons.prems(1) sh turn now x by (cases x) simp_all
      then show ?thesis by (rule ih) (simp add: res)
    qed
  qed
qed

section \<open>Properties\<close>

text \<open>Consecutive runs on external homeservers that share the in-memory maps and the store.\<close>

fun kb_runs :: "'s kb_indexer list \<Rightarrow> 's kb_state \<Rightarrow> 's kb_state" where
  "kb_runs [] st = st"
| "kb_runs (kb # kbs) st = kb_runs kbs (snd (kb_run_internal kb st))"

text \<open>A processor of homeserver \<open>hs\<close> whose cursors are the Redis ones; the user ids the graph returns
  are distinct and in the canonical form that parsing keeps.\<close>

definition kb_on_redis ::
  "cursor_kv world kb_indexer \<Rightarrow> string \<Rightarrow> (int \<Rightarrow> int option) \<Rightarrow> ((nat \<Rightarrow> cursor_kv \<Rightarrow> cursor_kv) \<Rightarrow> bool)
     \<Rightarrow> (cursor_kv world \<Rightarrow> hs_stream_event set) \<Rightarrow> hs_stream_event set \<Rightarrow> bool" where
  "kb_on_redis kb hs si E seen L \<longleftrightarrow>
     kb_homeserver_id kb = hs \<and> kb_cursor_read kb = cursor_read si \<and> kb_cursor_write kb = cursor_write si \<and>
     kb_contract kb (cursors_under si E) (\<lambda>w. cursor_vals (kv w)) seen L (\<lambda>c. c < 2 ^ 53) \<and>
     (\<forall>t ids t'. kb_user_ids kb hs t = (Inr ids, t') \<longrightarrow> distinct ids) \<and>
     (\<forall>u pk. kb_parse_pk kb u = Some pk \<longrightarrow> pk = u)"

text \<open>C1. No event of an external homeserver is lost: after any sequence of runs, cut short by
  budgets, shutdowns, failing handlers and lost Redis calls or not, every event of a user up to
  the cursor stored for that user has been taken care of, provided the homeserver's user streams
  have no gaps and handlers leave the cursors alone. The stored cursors are the Redis scores, which
  other tasks may seed at any time.\<close>

theorem external_events_taken_care_of:
  assumes "\<forall>kb\<in>set kbs. kb_on_redis kb hs si E seen L"
    and "cursors_under si E (kb_rest st)"
    and "\<forall>se\<in>L. se_cursor se \<le> cursor_vals (kv (kb_rest st)) (se_owner se, hs) \<longrightarrow> se \<in> seen (kb_rest st)"
  shows "\<forall>se\<in>L. se_cursor se \<le> cursor_vals (kv (kb_rest (kb_runs kbs st))) (se_owner se, hs) \<longrightarrow>
    se \<in> seen (kb_rest (kb_runs kbs st))"
proof -
  let ?cov = "kb_covered (\<lambda>w. cursor_vals (kv w)) seen L hs"
  have "cursors_under si E (kb_rest (kb_runs kbs st)) \<and> ?cov (kb_rest (kb_runs kbs st))"
    if "cursors_under si E (kb_rest st)" "?cov (kb_rest st)" using assms(1) that
  proof (induction kbs arbitrary: st)
    case Nil
    then show ?case by simp
  next
    case (Cons kb kbs)
    obtain r st1 where run: "kb_run_internal kb st = (r, st1)" by force
    have kb: "kb_homeserver_id kb = hs" "kb_cursor_read kb = cursor_read si" "kb_cursor_write kb = cursor_write si"
      "kb_contract kb (cursors_under si E) (\<lambda>w. cursor_vals (kv w)) seen L (\<lambda>c. c < 2 ^ 53)"
      using Cons.prems(1) unfolding kb_on_redis_def by (meson list.set_intros(1))+
    have ids: "\<And>t ids t'. kb_user_ids kb (kb_homeserver_id kb) t = (Inr ids, t') \<Longrightarrow> distinct ids"
      "\<And>u pk. kb_parse_pk kb u = Some pk \<Longrightarrow> pk = u"
      using Cons.prems(1) kb(1) unfolding kb_on_redis_def by (metis list.set_intros(1))+
    have "cursors_under si E (kb_rest st1) \<and>
        kb_covered (\<lambda>w. cursor_vals (kv w)) seen L (kb_homeserver_id kb) (kb_rest st1)"
    proof (rule redis_users.kb_run_covered [OF kb(4,2,3) _ _ Cons.prems(2) _ run])
      show "kb_covered (\<lambda>w. cursor_vals (kv w)) seen L (kb_homeserver_id kb) (kb_rest st)"
        using Cons.prems(3) by (simp only: kb(1))
    qed (erule ids)+
    then have "cursors_under si E (kb_rest st1) \<and> ?cov (kb_rest st1)" by (simp only: kb(1))
    then show ?case using Cons.IH [of st1] Cons.prems(1) run by simp
  qed
  then show ?thesis using assms(2,3) by (simp add: kb_covered_def)
qed

text \<open>The batch check alone: an error naming the offending cursor, and only the shutdown signal read.\<close>

lemma process_user_events_out_of_order:
  assumes "\<not> sorted_wrt (<) (persisted # map se_cursor ses)"
  shows "\<exists>r. process_user_events kb user_id persisted ses deadline s = ((None, r), snd (kb_shutdown kb s)) \<and>
    (\<not> fst (kb_shutdown kb s) \<longrightarrow>
       (\<exists>c f. r = Inl (EventCursorOutOfOrder (kb_homeserver_id kb) user_id c f) \<and> c \<le> f \<and>
          c \<in> se_cursor ` set ses))"
proof -
  have first: "c \<le> f \<and> c \<in> se_cursor ` set es" if "out_of_order m es = Some (c, f)" for m es c f
    using that by (induction m es rule: out_of_order.induct) (auto split: if_splits)
  obtain c f where oo: "out_of_order persisted ses = Some (c, f)"
    using assms out_of_order_None [of persisted ses] by (cases "out_of_order persisted ses") auto
  show ?thesis
    using first [OF oo] oo
    by (cases "kb_shutdown kb s"; cases "fst (kb_shutdown kb s)") (simp_all add: process_user_events_def)
qed

text \<open>C8. A batch that is not in order runs no handler and stops the homeserver's run: when the turn of
  a user comes, the user is not skipped, and the fetch returns a batch whose cursors do not strictly
  increase from above the stored one, then no handler runs and no cursor is stored, for this user
  nothing happens after the fetch but one look at the shutdown signal; and without a signal the
  whole run ends right there with the error that names the offending cursor: no later user is
  served and no resume point is recorded.\<close>

theorem out_of_order_batch_runs_no_handler:
  assumes "kb_shutdown kb (kb_rest st) = (False, s0)"
    and "consume_skip (kb_not_found st) user_id = (False, nf)"
    and "kb_user_events kb (kb_homeserver_id kb) user_id persisted (kb_limit kb) s0 = (Inr ses, s1)"
    and "\<not> sorted_wrt (<) (persisted # map se_cursor ses)"
  shows "(\<exists>r. process_user kb user_id persisted deadline s0 = (r, snd (kb_shutdown kb s1))) \<and>
    (\<not> fst (kb_shutdown kb s1) \<longrightarrow>
       (\<exists>c f. run_users kb deadline users index ((user_id, persisted) # us) st =
          (Inl (EventCursorOutOfOrder (kb_homeserver_id kb) user_id c f),
           st\<lparr>kb_not_found := nf, kb_rest := snd (kb_shutdown kb s1)\<rparr>) \<and>
          c \<le> f \<and> c \<in> se_cursor ` set ses))"
proof -
  let ?s2 = "snd (kb_shutdown kb s1)"
  note pe = process_user_events_out_of_order [OF assms(4), of kb user_id deadline s1]
  then obtain r where r: "process_user_events kb user_id persisted ses deadline s1 = ((None, r), ?s2)"
    by (elim exE conjE)
  then have pu: "process_user kb user_id persisted deadline s0 = (r, ?s2)"
    using assms(3) by (simp add: process_user_def)
  have "\<exists>c f. run_users kb deadline users index ((user_id, persisted) # us) st =
          (Inl (EventCursorOutOfOrder (kb_homeserver_id kb) user_id c f),
           st\<lparr>kb_not_found := nf, kb_rest := ?s2\<rparr>) \<and> c \<le> f \<and> c \<in> se_cursor ` set ses"
    if sh: "\<not> fst (kb_shutdown kb s1)"
  proof -
    obtain c f where c: "r = Inl (EventCursorOutOfOrder (kb_homeserver_id kb) user_id c f)"
      "c \<le> f" "c \<in> se_cursor ` set ses"
      using pe r sh by (elim exE conjE) (simp only: prod.inject simp_thms, elim exE conjE, simp)
    then have "run_users kb deadline users index ((user_id, persisted) # us) st =
        (Inl (EventCursorOutOfOrder (kb_homeserver_id kb) user_id c f),
         st\<lparr>kb_not_found := nf, kb_rest := ?s2\<rparr>)"
      using pu assms(1,2) by (simp add: user_turn_def)
    with c(2,3) show ?thesis by (intro exI conjI)
  qed
  then show ?thesis by (intro conjI impI exI [of _ r] pu)
qed

text \<open>The cursor a batch advances to covers only events that were taken care of: it is the
  cursor of the last event of a non-empty prefix of the batch, it lies above the stored one, every
  event of the prefix belongs to the user and was handled without error or is not for Nexus, and
  all events after the prefix have larger cursors, so the next fetch returns them again.\<close>

theorem advanced_cursor_covers_settled_prefix:
  assumes "process_user_events kb user_id persisted ses deadline s = ((Some c, r), s')"
  shows "\<exists>don rest s1 s2. ses = don @ rest \<and> don \<noteq> [] \<and> c = se_cursor (last don) \<and> persisted < c \<and>
    kb_shutdown kb s = (False, s1) \<and> stream_settled kb user_id don s1 s2 \<and> stream_stop kb s2 s' \<and>
    (\<forall>se\<in>set rest. c < se_cursor se)"
proof -
  obtain b s1 where sh: "kb_shutdown kb s = (b, s1)" by force
  have ok: "\<not> b" "out_of_order persisted ses = None"
    using assms sh by (cases b; auto simp: process_user_events_def split: option.splits)+
  then have "handle_stream kb user_id deadline None ses s1 = ((Some c, r), s')"
    using assms sh by (simp add: process_user_events_def)
  from handle_stream_settled [OF this] obtain don rest s2 where
    split: "ses = don @ rest" "stream_settled kb user_id don s1 s2" "stream_stop kb s2 s'"
    "Some c = (if don = [] then None else Some (se_cursor (last don)))" by blast
  then have don: "don \<noteq> []" "c = se_cursor (last don)" by (auto split: if_splits)
  have "sorted_wrt (<) (persisted # map se_cursor ses)" using ok(2) by (simp add: out_of_order_None)
  then have "persisted < c" "\<forall>se\<in>set rest. c < se_cursor se"
    using split(1) don last_in_set [OF don(1)] by (auto simp: sorted_wrt_append)
  then show ?thesis using split don sh ok(1) by auto
qed

text \<open>A run leaves the resume point right: a run that stops at its budget has served at least
  one user of its turn order and records the user after the last one served; a run that reached
  all users clears the point or, at shutdown, keeps it; a failed run keeps it.\<close>

theorem run_records_resume_point:
  assumes "kb_run_internal kb st = (r, st')"
  shows "case r of
      Inl _ \<Rightarrow> kb_resume st' = kb_resume st
    | Inr Completed \<Rightarrow> kb_resume st' \<in> {kb_resume st, record_full_pass (kb_resume st) (kb_homeserver_id kb)}
    | Inr BudgetSpent \<Rightarrow> \<exists>users i. i < length users \<and> kb_resume st' =
        record_stop_after (kb_resume st) (kb_homeserver_id kb)
          (order (kb_resume st) (kb_homeserver_id kb) users) i"
proof (cases "\<exists>users now s. run_users kb (now + kb_budget kb) (order (kb_resume st) (kb_homeserver_id kb) users) 0
    (order (kb_resume st) (kb_homeserver_id kb) users) (st\<lparr>kb_rest := s\<rparr>) = (r, st')")
  case True
  then obtain users now s where "run_users kb (now + kb_budget kb) (order (kb_resume st) (kb_homeserver_id kb) users) 0
    (order (kb_resume st) (kb_homeserver_id kb) users) (st\<lparr>kb_rest := s\<rparr>) = (r, st')" by blast
  from run_users_resume [OF this] show ?thesis by (auto split: sum.splits run_outcome.splits)
next
  case False
  then have "(r = Inr Completed \<or> (\<exists>e. r = Inl e)) \<and> kb_resume st' = kb_resume st"
    using assms by (auto simp: kb_run_internal_def Let_def split: if_splits prod.splits sum.splits)
  then show ?thesis by auto
qed

section \<open>A concrete external homeserver\<close>

definition demo_se :: hs_stream_event where
  "demo_se = \<lparr>se_type = Put, se_owner = ''u'', se_uri = ''pubky://u/pub/pubky.app/posts/p'', se_cursor = 3\<rparr>"

text \<open>The handler marks the event's URI by a sorted-set member of score 0; marks are never removed.\<close>

definition demo_seen :: "cursor_kv world \<Rightarrow> hs_stream_event set" where
  "demo_seen w = {se. kv w (se_uri se, ''seen'') \<noteq> None}"

definition keeps_members :: "(nat \<Rightarrow> cursor_kv \<Rightarrow> cursor_kv) \<Rightarrow> bool" where
  "keeps_members e \<longleftrightarrow> (\<forall>n s k. s k \<noteq> None \<longrightarrow> e n s k \<noteq> None)"

definition demo_kb :: "cursor_kv world kb_indexer" where
  "demo_kb =
     \<lparr>kb_homeserver_id = ''hs'', kb_limit = 50,
      kb_handle = (\<lambda>ev w. (Inr (), w\<lparr>kv := snd (cursor_zadd_nx (ev_uri ev) ''seen'' 0 (kv w))\<rparr>)),
      kb_user_events = (\<lambda>_ u c _ w. (Inr (if u = ''u'' \<and> c < 3 then [demo_se] else []), w)),
      kb_blacklist = [],
      kb_scheduler =
        \<lparr>sched_store = \<lparr>rs_put = (\<lambda>_ w. (Inr (), w)), rs_get = (\<lambda>_ w. (Inr None, w)),
           rs_remove = (\<lambda>_ w. (Inr (), w)), rs_remove_if = (\<lambda>_ _ w. (Inr False, w)),
           rs_put_if = (\<lambda>_ _ w. (Inr False, w)), rs_fetch_ready = (\<lambda>_ _ w. (Inr [], w))\<rparr>,
         sched_initial = \<lparr>missing_dep_ms = 0, transient_ms = 0\<rparr>,
         sched_now_ms = utc_now, sched_now_ns = utc_now\<rparr>,
      kb_shutdown = (\<lambda>w. (False, w)), kb_now = (\<lambda>w. (0, w)), kb_budget = 5,
      kb_user_ids = (\<lambda>_ w. (Inr [''u''], w)), kb_parse_pk = Some,
      kb_cursor_read = cursor_read Some, kb_cursor_write = cursor_write Some,
      kb_specs = \<lparr>try_from_uri = (\<lambda>u. Inr (PubkyApp ''u'' (PostR ''p''))),
                  try_to_uri_str = (\<lambda>_. Inr ''pubky://u/pub/pubky.app/posts/p'')\<rparr>,
      kb_show_hs = (\<lambda>_. ''hs''), kb_show_graph = (\<lambda>_. ''graph''), kb_show_redis = (\<lambda>_. ''redis'')\<rparr>"

definition demo_kb_state :: "cursor_kv world kb_state" where
  "demo_kb_state = \<lparr>kb_not_found = Map.empty, kb_resume = Map.empty, kb_rest = calm_world Map.empty\<rparr>"

lemma members_call:
  assumes "redis_call f w = (r, w')" "keeps_members (env w)" "\<And>s k. s k \<noteq> None \<Longrightarrow> snd (f s) k \<noteq> None"
  shows "demo_seen w \<subseteq> demo_seen w'"
proof -
  have "kv w' k \<noteq> None" if "kv w k \<noteq> None" for k
  proof -
    have e: "env w (tick w) (kv w) k \<noteq> None" using assms(2) that unfolding keeps_members_def by blast
    have "kv w' \<in> {env w (tick w) (kv w), snd (f (env w (tick w) (kv w)))}"
      using assms(1) by (auto simp: redis_call_def Let_def env_step_def split: option.splits call_fault.splits)
    moreover have "snd (f (env w (tick w) (kv w))) k \<noteq> None" using e by (rule assms(3))
    ultimately show ?thesis using e by auto
  qed
  then show ?thesis by (auto simp: demo_seen_def)
qed

lemma demo_read_seen:
  assumes "keeps_members (env w)"
  shows "demo_seen w \<subseteq> demo_seen (snd (cursor_read si us hs w))"
proof (cases "us = []")
  case True
  then show ?thesis by (simp add: cursor_read_def)
next
  case False
  obtain r w' where c: "redis_call (cursor_zscores (map (\<lambda>u. (u, hs)) us)) w = (r, w')" by force
  have "snd (cursor_read si us hs w) = w'" using False c by (simp add: cursor_read_def split: sum.splits option.splits)
  then show ?thesis using members_call [OF c assms] by (simp add: cursor_zscores_def)
qed

lemma demo_write_seen:
  assumes "keeps_members (env w)"
  shows "demo_seen w \<subseteq> demo_seen (snd (cursor_write si u hs c w))"
proof -
  obtain r w1 where rd: "cursor_read si [u] hs w = (r, w1)" by force
  have k1: "keeps_members (env w1)" using cursor_read_schedule [OF rd] assms by (simp add: same_schedule_def)
  obtain ru w2 where wr: "redis_call (cursor_zadd u hs (f64_of_int (int c))) w1 = (ru, w2)" by force
  have "demo_seen w \<subseteq> demo_seen w1" using demo_read_seen [OF assms, of si "[u]" hs] rd by simp
  moreover have "demo_seen w1 \<subseteq> demo_seen w2"
    by (rule members_call [OF wr k1]) (simp add: cursor_zadd_def)
  moreover have "snd (cursor_write si u hs c w) \<in> {w1, w2}"
    using rd wr by (simp add: cursor_write_def split: sum.splits)
  ultimately show ?thesis by auto
qed

lemma demo_mark_quiet:
  "quiet_step (cursors_under Some E) (\<lambda>w. cursor_vals (kv w)) demo_seen w
     (w\<lparr>kv := snd (cursor_zadd_nx uri ''seen'' 0 (kv w))\<rparr>)"
  using zadd_nx_keeps
  by (auto simp: quiet_step_def cursors_under_def cursor_stable_def env_keeps_def demo_seen_def cursor_zadd_nx_def
      split: option.splits)

lemma demo_event_step:
  "handle_stream_event demo_kb se w = (Inr (), w) \<or>
   handle_stream_event demo_kb se w = (Inr (), w\<lparr>kv := snd (cursor_zadd_nx (se_uri se) ''seen'' 0 (kv w))\<rparr>)"
  "handle_stream_event demo_kb demo_se w =
     (Inr (), w\<lparr>kv := snd (cursor_zadd_nx (se_uri demo_se) ''seen'' 0 (kv w))\<rparr>)"
  by (auto simp: handle_stream_event_def from_stream_event_def parse_event_parts_def handle_event_def
      kb_processor_def demo_kb_def demo_se_def split: event_type.splits)

lemma demo_kb_contract:
  "kb_contract demo_kb (cursors_under Some keeps_members) (\<lambda>w. cursor_vals (kv w)) demo_seen {demo_se} (\<lambda>c. c < 2 ^ 53)"
proof -
  let ?q = "quiet_step (cursors_under Some keeps_members) (\<lambda>w. cursor_vals (kv w)) demo_seen"
  have refl: "?q w w" for w by (simp add: quiet_step_def)
  have mark: "?q w (snd (handle_stream_event demo_kb se w))" for se w
    using demo_event_step(1) [of se w] demo_mark_quiet refl by auto
  have seen: "demo_se \<in> demo_seen (snd (handle_stream_event demo_kb demo_se w))" for w
    by (simp add: demo_event_step(2) demo_seen_def cursor_zadd_nx_def split: option.splits)
  have rd: "demo_seen w \<subseteq> demo_seen (snd (cursor_read Some us hs w))"
    and wr: "demo_seen w \<subseteq> demo_seen (snd (cursor_write Some u hs c w))"
    if "cursors_under Some keeps_members w" for us hs u c w
    using that demo_read_seen demo_write_seen by (simp_all add: cursors_under_def)
  have flds: "kb_shutdown demo_kb = (\<lambda>w. (False, w))" "kb_now demo_kb = (\<lambda>w. (0, w))"
    "kb_user_ids demo_kb = (\<lambda>_ w. (Inr [''u''], w))" "kb_cursor_read demo_kb = cursor_read Some"
    "kb_cursor_write demo_kb = cursor_write Some"
    "kb_user_events demo_kb = (\<lambda>_ u c _ w. (Inr (if u = ''u'' \<and> c < 3 then [demo_se] else []), w))"
    by (simp_all add: demo_kb_def)
  have fetch: "(\<forall>se\<in>set ses. se_cursor se < 2 ^ 53) \<and>
      (\<forall>se\<in>{demo_se}. se_owner se = u \<and> c < se_cursor se \<and> (\<exists>x\<in>set ses. se_cursor se \<le> se_cursor x) \<longrightarrow> se \<in> set ses)"
    if "(Inr (if u = ''u'' \<and> c < 3 then [demo_se] else []), w) =
      (Inr ses :: (hs_error, hs_stream_event list) result, w' :: cursor_kv world)" for u c ses w w'
    using that by (auto simp: demo_se_def)
  show ?thesis
    unfolding kb_contract_def flds snd_conv
  proof (intro conjI allI impI)
    show "?q w w" for w by (rule refl)
    show "?q w (snd (handle_stream_event demo_kb se w))" for se w by (rule mark)
    show "demo_seen w \<subseteq> demo_seen (snd (cursor_read Some us hs w))"
      if "cursors_under Some keeps_members w" for us hs w by (rule rd [OF that])
    show "demo_seen w \<subseteq> demo_seen (snd (cursor_write Some u hs c w))"
      if "cursors_under Some keeps_members w" for u hs c w by (rule wr [OF that])
    show "se \<in> demo_seen (snd (handle_stream_event demo_kb se w))"
      if "cursors_under Some keeps_members w \<and> fst (handle_stream_event demo_kb se w) = Inr () \<and> se \<in> {demo_se}"
      for se w using that seen by simp
  next
    fix u ses and c :: nat and w w' :: "cursor_kv world"
    assume "(Inr (if u = ''u'' \<and> c < 3 then [demo_se] else []), w) = (Inr ses :: (hs_error, hs_stream_event list) result, w')"
    note f = fetch [OF this]
    show "\<forall>se\<in>set ses. se_cursor se < 2 ^ 53" using f by (rule conjunct1)
    show "\<forall>se\<in>{demo_se}. se_owner se = u \<and> c < se_cursor se \<and> (\<exists>x\<in>set ses. se_cursor se \<le> se_cursor x)
        \<longrightarrow> se \<in> set ses" using f by (rule conjunct2)
  qed (rule refl)+
qed

lemma demo_kb_final:
  "cursor_vals (kv (kb_rest (kb_runs [demo_kb, demo_kb] demo_kb_state))) (''u'', ''hs'') = 3"
  by (simp add: kb_run_internal_def resolve_users_with_cursors_def demo_kb_state_def calm_world_def
      cursor_read_def redis_call_def env_step_def cursor_zscores_def order_def process_user_def
      user_turn_def consume_skip_def nf_record_success_def process_user_events_def validate_user_id_def
      handle_stream_event_def from_stream_event_def parse_event_parts_def handle_event_def
      kb_processor_def demo_kb_def demo_se_def is_blacklisted_def cursor_write_def cursor_zadd_def
      cursor_zadd_nx_def ensure_cursor_not_backwards_def f64_of_int_exact cursor_vals_def Let_def
      record_full_pass_def)

lemma demo_kb_budget:
  "kb_run_internal (demo_kb\<lparr>kb_budget := 0\<rparr>) demo_kb_state =
     (Inr BudgetSpent, snd (kb_run_internal (demo_kb\<lparr>kb_budget := 0\<rparr>) demo_kb_state))"
  "kb_resume demo_kb_state = Map.empty" "kb_homeserver_id demo_kb = ''hs''"
  by (simp_all add: kb_run_internal_def resolve_users_with_cursors_def demo_kb_state_def calm_world_def
      cursor_read_def redis_call_def env_step_def cursor_zscores_def order_def process_user_def
      user_turn_def consume_skip_def nf_record_success_def process_user_events_def validate_user_id_def
      handle_stream_event_def from_stream_event_def parse_event_parts_def handle_event_def
      kb_processor_def demo_kb_def demo_se_def is_blacklisted_def cursor_write_def cursor_zadd_def
      cursor_zadd_nx_def ensure_cursor_not_backwards_def f64_of_int_exact cursor_vals_def Let_def
      record_full_pass_def)
lemma demo_under: "cursors_under Some keeps_members (kb_rest demo_kb_state)"
  by (simp add: cursors_under_def cursor_stable_def isize_exact_def exact_scores_def env_keeps_def
      keeps_members_def demo_kb_state_def calm_world_def)

lemma demo_fetch_order: "\<not> sorted_wrt (<) (3 # map se_cursor [demo_se])"
  by (simp add: demo_se_def)

theorem external_events_taken_care_of_witness:
  "cursor_vals (kv (kb_rest (kb_runs [demo_kb, demo_kb] demo_kb_state))) (''u'', ''hs'') = 3 \<and>
   demo_se \<in> demo_seen (kb_rest (kb_runs [demo_kb, demo_kb] demo_kb_state))"
proof -
  have kb: "kb_on_redis demo_kb ''hs'' Some keeps_members demo_seen {demo_se}"
    using demo_kb_contract unfolding kb_on_redis_def by (simp add: demo_kb_def)
  have "\<forall>se\<in>{demo_se}. se_cursor se \<le> cursor_vals (kv (kb_rest (kb_runs [demo_kb, demo_kb] demo_kb_state))) (se_owner se, ''hs'')
      \<longrightarrow> se \<in> demo_seen (kb_rest (kb_runs [demo_kb, demo_kb] demo_kb_state))"
    by (rule external_events_taken_care_of [OF _ demo_under])
      (use kb in \<open>simp_all add: demo_kb_state_def calm_world_def cursor_vals_def demo_se_def\<close>)
  then show ?thesis using demo_kb_final by (simp add: demo_se_def)
qed

theorem out_of_order_batch_runs_no_handler_witness:
  "\<exists>c f. fst (run_users (demo_kb\<lparr>kb_user_events := (\<lambda>_ _ _ _ w. (Inr [demo_se], w))\<rparr>) 5
       [(''u'', 3), (''v'', 0)] 0 [(''u'', 3), (''v'', 0)] demo_kb_state) =
     Inl (EventCursorOutOfOrder ''hs'' ''u'' c f) \<and> c \<le> f"
proof -
  let ?kb = "demo_kb\<lparr>kb_user_events := (\<lambda>_ _ _ _ w. (Inr [demo_se], w))\<rparr>"
  have "kb_shutdown ?kb (kb_rest demo_kb_state) = (False, kb_rest demo_kb_state)"
    "consume_skip (kb_not_found demo_kb_state) ''u'' = (False, kb_not_found demo_kb_state)"
    "kb_user_events ?kb (kb_homeserver_id ?kb) ''u'' 3 (kb_limit ?kb) (kb_rest demo_kb_state) =
      (Inr [demo_se], kb_rest demo_kb_state)"
    "\<not> fst (kb_shutdown ?kb (kb_rest demo_kb_state))" "kb_homeserver_id ?kb = ''hs''"
    by (simp_all add: demo_kb_def demo_kb_state_def consume_skip_def)
  with out_of_order_batch_runs_no_handler [OF this(1-3) demo_fetch_order, of 5
      "[(''u'', 3), (''v'', 0)]" 0 "[(''v'', 0)]"]
  show ?thesis by fastforce
qed

theorem advanced_cursor_covers_settled_prefix_witness:
  "\<exists>s1 s2. stream_settled demo_kb ''u'' [demo_se] s1 s2 \<and> (0::nat) < 3"
proof -
  have run: "process_user_events demo_kb ''u'' 0 [demo_se] 5 (calm_world Map.empty) =
      ((Some 3, Inr ()), snd (process_user_events demo_kb ''u'' 0 [demo_se] 5 (calm_world Map.empty)))"
  proof -
    have "kb_shutdown demo_kb = (\<lambda>w. (False, w))" "kb_now demo_kb = (\<lambda>w. (0, w))" by (simp_all add: demo_kb_def)
    moreover have "se_cursor demo_se = 3" "se_owner demo_se = ''u''" by (simp_all add: demo_se_def)
    ultimately show ?thesis
      by (simp add: process_user_events_def validate_user_id_def demo_event_step(2))
  qed
  from advanced_cursor_covers_settled_prefix [OF run] obtain don rest s1 s2 where
    d: "[demo_se] = don @ rest" "don \<noteq> []" "(0::nat) < 3" "stream_settled demo_kb ''u'' don s1 s2" by blast
  then have "don = [demo_se]" by (cases don) auto
  with d show ?thesis by blast
qed

theorem run_records_resume_point_witness:
  "\<exists>users i. i < length users \<and>
     kb_resume (snd (kb_run_internal (demo_kb\<lparr>kb_budget := 0\<rparr>) demo_kb_state)) =
     record_stop_after Map.empty ''hs'' (order Map.empty ''hs'' users) i"
  using run_records_resume_point [of "demo_kb\<lparr>kb_budget := 0\<rparr>" demo_kb_state "Inr BudgetSpent"
      "snd (kb_run_internal (demo_kb\<lparr>kb_budget := 0\<rparr>) demo_kb_state)"] demo_kb_budget
  by simp

end
