(* ===== verification/Runner.thy ===== *)
theory Runner
  imports Hs_Indexer Key_Based_Indexer
begin

text \<open>
  The runners that build and run the event processors (service/runner): the loop of the trait
  \<open>TEventProcessorRunner\<close> with its statistics (service/stats.rs), the runner of the external
  homeservers with its backoff (runner/key_based.rs) and the runner of the primary homeserver
  (runner/homeserver.rs). A runner is the record of what an implementation of the trait supplies;
  gauges, spans and log lines are left out.
\<close>

section \<open>Statistics\<close>

datatype processor_run_status = FailedToBuild | StOk | StError | StPanic | StBudgetSpent | Skipped

fun status_from_run_result :: "(run_error, unit) result \<Rightarrow> processor_run_status" where
  "status_from_run_result (Inr _) = StOk"
| "status_from_run_result (Inl (Internal _)) = StError"
| "status_from_run_result (Inl Panicked) = StPanic"
| "status_from_run_result (Inl RunBudgetSpent) = StBudgetSpent"

record processor_run_stats =
  prs_hs_id :: string
  prs_duration :: int
  prs_status :: processor_run_status

type_synonym run_all_stats = "processor_run_stats list"

definition add_run_result :: "run_all_stats \<Rightarrow> string \<Rightarrow> int \<Rightarrow> processor_run_status \<Rightarrow> run_all_stats" where
  "add_run_result stats hs d st = stats @ [\<lparr>prs_hs_id = hs, prs_duration = d, prs_status = st\<rparr>]"

definition count_status :: "run_all_stats \<Rightarrow> processor_run_status \<Rightarrow> nat" where
  "count_status stats st = length (filter (\<lambda>ps. prs_status ps = st) stats)"

section \<open>The run loop\<close>

record 's runner =
  r_pre_run :: "'s \<Rightarrow> (string, string list) result \<times> 's"
  r_poll_limit :: nat
  r_shutdown :: "'s \<Rightarrow> bool \<times> 's"
  r_should_skip :: "string \<Rightarrow> 's \<Rightarrow> bool \<times> 's"
  r_now :: "'s \<Rightarrow> instant \<times> 's"
  r_build :: "string \<Rightarrow> 's \<Rightarrow> (string, 's \<Rightarrow> (run_error, unit) result \<times> 's) result \<times> 's"
  r_record_result :: "string \<Rightarrow> processor_run_status \<Rightarrow> 's \<Rightarrow> 's"

text \<open>Building and running one processor.\<close>

definition build_and_run :: "'s runner \<Rightarrow> string \<Rightarrow> 's \<Rightarrow> processor_run_status \<times> 's" where
  "build_and_run rn hs s =
     (case r_build rn hs s of
        (Inr run, s1) \<Rightarrow> (case run s1 of (r, s2) \<Rightarrow> (status_from_run_result r, s2))
      | (Inl _, s1) \<Rightarrow> (FailedToBuild, s1))"

fun run_loop :: "'s runner \<Rightarrow> nat \<Rightarrow> string list \<Rightarrow> run_all_stats \<Rightarrow> 's \<Rightarrow> run_all_stats \<times> 's" where
  "run_loop rn polled [] stats s = (stats, s)"
| "run_loop rn polled (hs # hss) stats s =
     (if polled \<ge> r_poll_limit rn then (stats, s)
      else case r_shutdown rn s of
             (True, s1) \<Rightarrow> (stats, s1)
           | (False, s1) \<Rightarrow>
               (case r_should_skip rn hs s1 of
                  (True, s2) \<Rightarrow> run_loop rn polled hss (add_run_result stats hs 0 Skipped) s2
                | (False, s2) \<Rightarrow>
                    (case r_now rn s2 of (t0, s3) \<Rightarrow>
                     case build_and_run rn hs s3 of (status, s4) \<Rightarrow>
                     case r_now rn s4 of (t1, s5) \<Rightarrow>
                       run_loop rn (Suc polled) hss (add_run_result stats hs (t1 - t0) status)
                         (r_record_result rn hs status s5))))"

definition runner_run :: "'s runner \<Rightarrow> 's \<Rightarrow> (string, run_all_stats) result \<times> 's" where
  "runner_run rn s =
     (case r_pre_run rn s of
        (Inl e, s1) \<Rightarrow> (Inl e, s1)
      | (Inr hs_ids, s1) \<Rightarrow>
          (case run_loop rn 0 hs_ids [] s1 of (stats, s2) \<Rightarrow> (Inr stats, s2)))"

section \<open>External homeservers\<close>

record 's kb_runner =
  kr_limit :: nat
  kr_monitored_hs_limit :: nat
  kr_primary_homeserver :: string
  kr_hs_blacklist :: "string list"
  kr_pubky_id :: "string \<Rightarrow> string option"
  kr_processor :: "string \<Rightarrow> 's kb_indexer"
  kr_active :: "'s \<Rightarrow> (string, string list) result \<times> 's"
  kr_shutdown :: "'s \<Rightarrow> bool \<times> 's"
  kr_now :: "'s \<Rightarrow> instant \<times> 's"
  kr_panics :: "string \<Rightarrow> 's kb_state \<Rightarrow> 's kb_state option"

record 's kr_state =
  kr_backoff :: homeserver_backoff
  kr_kb :: "'s kb_state"

definition on_rest :: "('s \<Rightarrow> 'a \<times> 's) \<Rightarrow> 's kr_state \<Rightarrow> 'a \<times> 's kr_state" where
  "on_rest f st =
     (case f (kb_rest (kr_kb st)) of (a, s') \<Rightarrow> (a, st\<lparr>kr_kb := (kr_kb st)\<lparr>kb_rest := s'\<rparr>\<rparr>))"

definition select_homeservers :: "'s kb_runner \<Rightarrow> string list \<Rightarrow> string list" where
  "select_homeservers kr active =
     filter (\<lambda>hs. \<not> is_blacklisted (kr_hs_blacklist kr) hs)
       (filter (\<lambda>hs. hs \<noteq> kr_primary_homeserver kr) active)"

definition hs_by_priority :: "'s kb_runner \<Rightarrow> 's kr_state \<Rightarrow> (string, string list) result \<times> 's kr_state" where
  "hs_by_priority kr st =
     (case on_rest (kr_active kr) st of
        (Inl e, st1) \<Rightarrow> (Inl e, st1)
      | (Inr active, st1) \<Rightarrow> (Inr (select_homeservers kr active), st1))"

text \<open>
  \<open>build\<close> and the run of what it built, on its own task: a panic of the task leaves the state it
  had reached.
\<close>

definition kb_build ::
  "'s kb_runner \<Rightarrow> string \<Rightarrow> 's kr_state
     \<Rightarrow> (string, 's kr_state \<Rightarrow> (run_error, unit) result \<times> 's kr_state) result \<times> 's kr_state" where
  "kb_build kr hs st =
     (case kr_pubky_id kr hs of
        None \<Rightarrow> (Inl ''invalid homeserver id'', st)
      | Some hid \<Rightarrow>
          (Inr (\<lambda>st. case kr_panics kr hid (kr_kb st) of
                       Some kb' \<Rightarrow> (run_result None, st\<lparr>kr_kb := kb'\<rparr>)
                     | None \<Rightarrow>
                         (case kb_run_internal
                                 ((kr_processor kr hid)\<lparr>kb_homeserver_id := hid, kb_limit := kr_limit kr,
                                    kb_blacklist := kr_hs_blacklist kr\<rparr>) (kr_kb st) of
                            (r, kb') \<Rightarrow> (run_result (Some r), st\<lparr>kr_kb := kb'\<rparr>))), st))"

text \<open>Only an \<open>Ok\<close> run resets the backoff; every other status backs the homeserver off further.\<close>

definition record_run_status ::
  "homeserver_backoff \<Rightarrow> string \<Rightarrow> processor_run_status \<Rightarrow> instant \<Rightarrow> instant \<Rightarrow> homeserver_backoff" where
  "record_run_status b hs status t0 t1 =
     (if status = StOk then hb_record_success b hs else snd (hb_record_failure b hs t0 t1))"

definition kb_runner_as_runner :: "'s kb_runner \<Rightarrow> 's kr_state runner" where
  "kb_runner_as_runner kr =
     \<lparr>r_pre_run = hs_by_priority kr, r_poll_limit = kr_monitored_hs_limit kr,
      r_shutdown = on_rest (kr_shutdown kr),
      r_should_skip = (\<lambda>hs st. case on_rest (kr_now kr) st of (now, st1) \<Rightarrow>
                         (should_skip (kr_backoff st1) hs now, st1)),
      r_now = on_rest (kr_now kr), r_build = kb_build kr,
      r_record_result = (\<lambda>hs status st.
         case on_rest (kr_now kr) st of (t0, st1) \<Rightarrow>
         case on_rest (kr_now kr) st1 of (t1, st2) \<Rightarrow>
           st2\<lparr>kr_backoff := record_run_status (kr_backoff st2) hs status t0 t1\<rparr>)\<rparr>"

section \<open>The primary homeserver\<close>

record 's hs_runner =
  hr_primary_homeserver :: string
  hr_pubky_id :: "string \<Rightarrow> string option"
  hr_processor :: "homeserver \<Rightarrow> 's hs_indexer"
  hr_index :: "'s homeserver_index"
  hr_shutdown :: "'s \<Rightarrow> bool \<times> 's"
  hr_now :: "'s \<Rightarrow> instant \<times> 's"
  hr_show_redis :: "redis_error \<Rightarrow> string"
  hr_panics :: "homeserver \<Rightarrow> 's \<Rightarrow> 's option"

text \<open>
  \<open>Homeserver::get_by_id\<close> has no fallback: a record missing from the index fails the build. The
  mapping cache starts empty, which is part of what \<open>hr_processor\<close> builds.
\<close>

definition hs_build ::
  "'s hs_runner \<Rightarrow> string \<Rightarrow> 's \<Rightarrow> (string, 's \<Rightarrow> (run_error, unit) result \<times> 's) result \<times> 's" where
  "hs_build hr hs s =
     (case hr_pubky_id hr hs of
        None \<Rightarrow> (Inl ''invalid homeserver id'', s)
      | Some hid \<Rightarrow>
          (case hi_get (hr_index hr) hid s of
             (Inl e, s1) \<Rightarrow> (Inl (hr_show_redis hr e), s1)
           | (Inr None, s1) \<Rightarrow> (Inl ''Homeserver not found'', s1)
           | (Inr (Some h), s1) \<Rightarrow>
               (Inr (\<lambda>s. case hr_panics hr h s of
                           Some s' \<Rightarrow> (run_result None, s')
                         | None \<Rightarrow> (case hs_run_internal (hr_processor hr h) s of
                                      (r, s') \<Rightarrow> (run_result (Some r), s'))), s1)))"

definition hs_runner_as_runner :: "'s hs_runner \<Rightarrow> 's runner" where
  "hs_runner_as_runner hr =
     \<lparr>r_pre_run = (\<lambda>s. (Inr [hr_primary_homeserver hr], s)), r_poll_limit = 2 ^ 64 - 1,
      r_shutdown = hr_shutdown hr, r_should_skip = (\<lambda>_ s. (False, s)), r_now = hr_now hr,
      r_build = hs_build hr, r_record_result = (\<lambda>_ _ s. s)\<rparr>"

section \<open>Lemmas on the loop\<close>

abbreviation polled_ids :: "run_all_stats \<Rightarrow> string list" where
  "polled_ids stats \<equiv> map prs_hs_id (filter (\<lambda>p. prs_status p \<noteq> Skipped) stats)"

lemma build_status_not_skipped: "build_and_run rn hs s = (st, s') \<Longrightarrow> st \<noteq> Skipped"
  by (auto simp: build_and_run_def split: prod.splits sum.splits elim!: status_from_run_result.elims)

lemma run_loop_prefix:
  assumes "run_loop rn p hss stats s = (stats', s')" "length (polled_ids stats) = p" "p \<le> r_poll_limit rn"
  shows "\<exists>new. stats' = stats @ new \<and> (\<exists>rest. hss = map prs_hs_id new @ rest) \<and>
    length (polled_ids stats') \<le> r_poll_limit rn"
  using assms
proof (induction hss arbitrary: p stats s)
  case Nil
  then show ?case by simp
next
  case (Cons hs hss)
  have stop: ?case if "stats' = stats"
    using that Cons.prems(2,3) by (intro exI [of _ "[]"]) simp
  have more: ?case
    if "run_loop rn q hss (add_run_result stats hs d st) t = (stats', s')"
      "q = (if st = Skipped then p else Suc p)" "p < r_poll_limit rn" for q d st t
  proof -
    have "\<exists>new. stats' = add_run_result stats hs d st @ new \<and> (\<exists>rest. hss = map prs_hs_id new @ rest) \<and>
        length (polled_ids stats') \<le> r_poll_limit rn"
      by (rule Cons.IH [OF that(1)]) (use that(2,3) Cons.prems(2) in \<open>auto simp: add_run_result_def\<close>)
    then obtain new rest where "stats' = add_run_result stats hs d st @ new" "hss = map prs_hs_id new @ rest"
      "length (polled_ids stats') \<le> r_poll_limit rn" by blast
    then show ?thesis
      by (intro exI [of _ "\<lparr>prs_hs_id = hs, prs_duration = d, prs_status = st\<rparr> # new"])
        (simp add: add_run_result_def)
  qed
  show ?case
  proof (cases "r_poll_limit rn \<le> p")
    case True
    then show ?thesis using Cons.prems(1) stop by simp
  next
    case False
    obtain b s1 where sh: "r_shutdown rn s = (b, s1)" by force
    obtain k s2 where sk: "r_should_skip rn hs s1 = (k, s2)" by force
    obtain t0 s3 where n0: "r_now rn s2 = (t0, s3)" by force
    obtain st s4 where br: "build_and_run rn hs s3 = (st, s4)" by force
    obtain t1 s5 where n1: "r_now rn s4 = (t1, s5)" by force
    note eqs = sh sk n0 br n1
    show ?thesis
    proof (cases b)
      case True
      then show ?thesis using Cons.prems(1) eqs False stop by simp
    next
      case nb: False
      show ?thesis
      proof (cases k)
        case True
        then have "run_loop rn p hss (add_run_result stats hs 0 Skipped) s2 = (stats', s')"
          using Cons.prems(1) eqs False nb by simp
        then show ?thesis by (rule more) (use False in simp_all)
      next
        case nk: False
        then have "run_loop rn (Suc p) hss (add_run_result stats hs (t1 - t0) st)
            (r_record_result rn hs st s5) = (stats', s')"
          using Cons.prems(1) eqs False nb by simp
        then show ?thesis
          by (rule more) (use False build_status_not_skipped [OF br] in simp_all)
      qed
    qed
  qed
qed

lemma run_loop_polls:
  assumes "\<And>hs s. fst (r_should_skip rn hs s) = sk hs" "\<And>s. \<not> fst (r_shutdown rn s)"
  shows "polled_ids (fst (run_loop rn p hss stats s)) =
    polled_ids stats @ take (r_poll_limit rn - p) (filter (\<lambda>hs. \<not> sk hs) hss)"
proof (induction hss arbitrary: p stats s)
  case Nil
  then show ?case by simp
next
  case (Cons hs hss)
  obtain s1 where sh: "r_shutdown rn s = (False, s1)" using assms(2) [of s] by (cases "r_shutdown rn s") simp
  obtain s2 where sk: "r_should_skip rn hs s1 = (sk hs, s2)"
    using assms(1) [of hs s1] by (cases "r_should_skip rn hs s1") simp
  obtain t0 s3 where n0: "r_now rn s2 = (t0, s3)" by force
  obtain st s4 where br: "build_and_run rn hs s3 = (st, s4)" by force
  obtain t1 s5 where n1: "r_now rn s4 = (t1, s5)" by force
  show ?case
  proof (cases "r_poll_limit rn - p")
    case (Suc n)
    then have "r_poll_limit rn - Suc p = n" "\<not> r_poll_limit rn \<le> p" by simp_all
    then show ?thesis
      using sh sk n0 br n1 Suc build_status_not_skipped [OF br]
      by (cases "sk hs") (simp_all add: Cons.IH add_run_result_def)
  qed simp
qed

section \<open>Lemmas on the external runner\<close>

lemma on_rest_backoff: "on_rest f st = (a, st') \<Longrightarrow> kr_backoff st' = kr_backoff st"
  by (auto simp: on_rest_def split: prod.splits)

lemma kb_build_run_backoff:
  "build_and_run (kb_runner_as_runner kr) hs st = (status, st') \<Longrightarrow> kr_backoff st' = kr_backoff st"
  by (auto simp: build_and_run_def kb_runner_as_runner_def kb_build_def split: option.splits prod.splits)

text \<open>What the outcome of a run means for the entry of the homeserver.\<close>

definition backoff_after :: "processor_run_status \<Rightarrow> backoff_state option \<Rightarrow> backoff_state option \<Rightarrow> bool" where
  "backoff_after status old new =
     (case status of Skipped \<Rightarrow> new = old | StOk \<Rightarrow> new = None | _ \<Rightarrow> new \<noteq> None)"

lemma record_run_status_entry:
  "backoff_after status (hb_state b hs) (hb_state (record_run_status b hs status t0 t1) hs) \<or> status = Skipped"
  "other \<noteq> hs \<Longrightarrow> hb_state (record_run_status b hs status t0 t1) other = hb_state b other"
  by (auto simp: record_run_status_def backoff_after_def hb_record_success_def hb_record_failure_def Let_def
      split: processor_run_status.splits option.splits)

lemma record_result_backoff:
  "\<exists>t0 t1. kr_backoff (r_record_result (kb_runner_as_runner kr) hs status st) =
     record_run_status (kr_backoff st) hs status t0 t1"
proof -
  obtain t0 st1 where n0: "on_rest (kr_now kr) st = (t0, st1)" by force
  obtain t1 st2 where n1: "on_rest (kr_now kr) st1 = (t1, st2)" by force
  have "kr_backoff st2 = kr_backoff st" using on_rest_backoff [OF n0] on_rest_backoff [OF n1] by simp
  then have "kr_backoff (r_record_result (kb_runner_as_runner kr) hs status st) =
      record_run_status (kr_backoff st) hs status t0 t1"
    by (simp add: kb_runner_as_runner_def n0 n1)
  then show ?thesis by blast
qed

lemma external_loop_backoff:
  assumes "run_loop (kb_runner_as_runner kr) p hss stats st = (stats', st')" "distinct hss"
  shows "\<exists>new. stats' = stats @ new \<and> set (map prs_hs_id new) \<subseteq> set hss \<and>
    (\<forall>q\<in>set new. backoff_after (prs_status q) (hb_state (kr_backoff st) (prs_hs_id q))
        (hb_state (kr_backoff st') (prs_hs_id q))) \<and>
    (\<forall>hs. hs \<notin> prs_hs_id ` set new \<longrightarrow> hb_state (kr_backoff st') hs = hb_state (kr_backoff st) hs)"
  using assms
proof (induction hss arbitrary: p stats st)
  case Nil
  then show ?case by simp
next
  case (Cons hs hss)
  let ?rn = "kb_runner_as_runner kr"
  have stop: ?case if "stats' = stats" "kr_backoff st' = kr_backoff st"
    using that by (intro exI [of _ "[]"]) simp
  have more: ?case
    if run: "run_loop ?rn q hss (add_run_result stats hs d status) t = (stats', st')"
      and own: "backoff_after status (hb_state (kr_backoff st) hs) (hb_state (kr_backoff t) hs)"
      and others: "\<And>h. h \<noteq> hs \<Longrightarrow> hb_state (kr_backoff t) h = hb_state (kr_backoff st) h" for q d status t
  proof -
    have d: "hs \<notin> set hss" "distinct hss" using Cons.prems(2) by simp_all
    obtain new where new: "stats' = add_run_result stats hs d status @ new" "set (map prs_hs_id new) \<subseteq> set hss"
      "\<forall>q\<in>set new. backoff_after (prs_status q) (hb_state (kr_backoff t) (prs_hs_id q))
        (hb_state (kr_backoff st') (prs_hs_id q))"
      "\<forall>h. h \<notin> prs_hs_id ` set new \<longrightarrow> hb_state (kr_backoff st') h = hb_state (kr_backoff t) h"
      using Cons.IH [OF run d(2)] by blast
    have "hs \<notin> prs_hs_id ` set new" using new(2) d(1) by auto
    then have "hb_state (kr_backoff st') hs = hb_state (kr_backoff t) hs" using new(4) by blast
    then have "backoff_after status (hb_state (kr_backoff st) hs) (hb_state (kr_backoff st') hs)" using own by simp
    moreover have "\<forall>q\<in>set new. backoff_after (prs_status q) (hb_state (kr_backoff st) (prs_hs_id q))
        (hb_state (kr_backoff st') (prs_hs_id q))"
      using new(2,3) others d(1) by (metis imageI set_map subsetD)
    ultimately show ?thesis
      using new(1,2,4) others
      by (intro exI [of _ "\<lparr>prs_hs_id = hs, prs_duration = d, prs_status = status\<rparr> # new"])
        (auto simp: add_run_result_def)
  qed
  show ?case
  proof (cases "r_poll_limit ?rn \<le> p")
    case True
    then show ?thesis using Cons.prems(1) stop by simp
  next
    case False
    obtain b s1 where sh: "r_shutdown ?rn st = (b, s1)" by force
    obtain k s2 where sk: "r_should_skip ?rn hs s1 = (k, s2)" by force
    obtain t0 s3 where n0: "r_now ?rn s2 = (t0, s3)" by force
    obtain status s4 where br: "build_and_run ?rn hs s3 = (status, s4)" by force
    obtain t1 s5 where n1: "r_now ?rn s4 = (t1, s5)" by force
    note eqs = sh sk n0 br n1
    have b1: "kr_backoff s1 = kr_backoff st" using sh by (auto simp: kb_runner_as_runner_def dest: on_rest_backoff)
    have b2: "kr_backoff s2 = kr_backoff st"
      using sk b1 by (auto simp: kb_runner_as_runner_def split: prod.splits dest: on_rest_backoff)
    have b5: "kr_backoff s5 = kr_backoff st"
      using n0 n1 b2 kb_build_run_backoff [OF br] by (auto simp: kb_runner_as_runner_def dest!: on_rest_backoff)
    obtain u0 u1 where rec: "kr_backoff (r_record_result ?rn hs status s5) =
        record_run_status (kr_backoff st) hs status u0 u1"
      using record_result_backoff [of kr hs status s5] b5 by auto
    show ?thesis
    proof (cases b)
      case True
      then show ?thesis using Cons.prems(1) eqs False stop b1 by simp
    next
      case nb: False
      show ?thesis
      proof (cases k)
        case True
        then have "run_loop ?rn p hss (add_run_result stats hs 0 Skipped) s2 = (stats', st')"
          using Cons.prems(1) eqs False nb by simp
        then show ?thesis by (rule more) (simp_all add: backoff_after_def b2)
      next
        case nk: False
        then have "run_loop ?rn (Suc p) hss (add_run_result stats hs (t1 - t0) status)
            (r_record_result ?rn hs status s5) = (stats', st')"
          using Cons.prems(1) eqs False nb by simp
        then show ?thesis
        proof (rule more)
          show "backoff_after status (hb_state (kr_backoff st) hs)
              (hb_state (kr_backoff (r_record_result ?rn hs status s5)) hs)"
            using record_run_status_entry(1) [of status "kr_backoff st" hs u0 u1] build_status_not_skipped [OF br]
            by (simp add: rec)
        qed (simp add: rec record_run_status_entry(2))
      qed
    qed
  qed
qed

section \<open>Properties\<close>

text \<open>Homeservers in backoff do not use up the poll limit: in a run that is not shut down, the
  homeservers that are built and run are exactly the first \<open>poll_limit\<close> of those not in backoff, in
  the order of priority.\<close>

theorem run_polls_first_available:
  assumes "\<forall>hs s. fst (r_should_skip rn hs s) = sk hs" and "\<forall>s. \<not> fst (r_shutdown rn s)"
    and "r_pre_run rn s = (Inr hs_ids, s1)" and "runner_run rn s = (Inr stats, s')"
  shows "polled_ids stats = take (r_poll_limit rn) (filter (\<lambda>hs. \<not> sk hs) hs_ids)"
  using run_loop_polls [of rn sk 0 hs_ids "[]" s1] assms
  by (auto simp: runner_run_def split: prod.splits)

definition demo_runner :: "nat runner" where
  "demo_runner = \<lparr>r_pre_run = (\<lambda>s. (Inr [''a'', ''b'', ''c'', ''d''], s)), r_poll_limit = 2,
     r_shutdown = (\<lambda>s. (False, s)), r_should_skip = (\<lambda>hs s. (hs = ''b'', s)), r_now = (\<lambda>s. (int s, Suc s)),
     r_build = (\<lambda>hs s. if hs = ''a'' then (Inl ''bad'', s) else (Inr (\<lambda>s. (Inr (), s + 1)), s)),
     r_record_result = (\<lambda>_ _ s. s)\<rparr>"

theorem run_polls_first_available_witness:
  "\<exists>stats s'. runner_run demo_runner 0 = (Inr stats, s') \<and> polled_ids stats = [''a'', ''c'']"
proof -
  obtain stats s' where run: "runner_run demo_runner 0 = (Inr stats, s')"
    by (cases "runner_run demo_runner 0") (auto simp: runner_run_def demo_runner_def split: prod.splits)
  have "polled_ids stats = take (r_poll_limit demo_runner) (filter (\<lambda>hs. \<not> hs = ''b'') [''a'', ''b'', ''c'', ''d''])"
    by (rule run_polls_first_available [OF _ _ _ run, where ?s1.0 = 0]) (simp_all add: demo_runner_def)
  then show ?thesis using run by (auto simp: demo_runner_def)
qed

text \<open>A run over the external homeservers treats active homeservers in the graph's order, never
  more than the limit of them, and neither the primary nor a blacklisted one; whatever the
  processors do.\<close>

theorem external_run_targets:
  assumes "runner_run (kb_runner_as_runner kr) st = (Inr stats, st')"
  shows "\<exists>active rest. map prs_hs_id stats @ rest = select_homeservers kr active \<and>
    length (polled_ids stats) \<le> kr_monitored_hs_limit kr \<and>
    (\<forall>p\<in>set stats. prs_hs_id p \<in> set active \<and> prs_hs_id p \<noteq> kr_primary_homeserver kr \<and>
       prs_hs_id p \<notin> set (kr_hs_blacklist kr))"
proof -
  obtain active st1 where act: "on_rest (kr_active kr) st = (Inr active, st1)"
    using assms by (auto simp: runner_run_def kb_runner_as_runner_def hs_by_priority_def split: prod.splits sum.splits)
  then have "run_loop (kb_runner_as_runner kr) 0 (select_homeservers kr active) [] st1 = (stats, st')"
    using assms by (auto simp: runner_run_def kb_runner_as_runner_def hs_by_priority_def split: prod.splits)
  from run_loop_prefix [OF this] obtain rest where
    r: "select_homeservers kr active = map prs_hs_id stats @ rest"
    "length (polled_ids stats) \<le> r_poll_limit (kb_runner_as_runner kr)" by auto
  have "prs_hs_id p \<in> set (select_homeservers kr active)" if "p \<in> set stats" for p
    using that r(1) by simp
  then show ?thesis
    using r by (intro exI [of _ active] exI [of _ rest])
      (auto simp: select_homeservers_def is_blacklisted_def list_ex_iff kb_runner_as_runner_def)
qed

text \<open>Every outcome of a run is recorded in the homeserver's backoff, and only there: after a
  run a homeserver that was indexed without error has no backoff, one whose processor could not be
  built, failed, panicked or spent its budget has one, and all others keep theirs.\<close>

theorem external_run_records_backoff:
  assumes "runner_run (kb_runner_as_runner kr) st = (Inr stats, st')"
    and "\<forall>s s' active. kr_active kr s = (Inr active, s') \<longrightarrow> distinct active"
  shows "(\<forall>p\<in>set stats. backoff_after (prs_status p) (hb_state (kr_backoff st) (prs_hs_id p))
      (hb_state (kr_backoff st') (prs_hs_id p))) \<and>
    (\<forall>hs. hs \<notin> prs_hs_id ` set stats \<longrightarrow> hb_state (kr_backoff st') hs = hb_state (kr_backoff st) hs)"
proof -
  obtain active st1 where act: "on_rest (kr_active kr) st = (Inr active, st1)"
    using assms(1) by (auto simp: runner_run_def kb_runner_as_runner_def hs_by_priority_def split: prod.splits sum.splits)
  then have run: "run_loop (kb_runner_as_runner kr) 0 (select_homeservers kr active) [] st1 = (stats, st')"
    using assms(1) by (auto simp: runner_run_def kb_runner_as_runner_def hs_by_priority_def split: prod.splits)
  have "distinct (select_homeservers kr active)"
    using act assms(2) by (auto simp: on_rest_def select_homeservers_def split: prod.splits)
  from external_loop_backoff [OF run this] on_rest_backoff [OF act] show ?thesis by auto
qed

text \<open>A run in which one homeserver is the primary one, one is blacklisted and one cannot be built.\<close>

definition demo_kr :: "cursor_kv world kb_runner" where
  "demo_kr =
     \<lparr>kr_limit = 10, kr_monitored_hs_limit = 5, kr_primary_homeserver = ''hp'', kr_hs_blacklist = [''hb''],
      kr_pubky_id = (\<lambda>_. None), kr_processor = (\<lambda>_. demo_kb),
      kr_active = (\<lambda>w. (Inr [''hp'', ''hb'', ''hx''], w)), kr_shutdown = (\<lambda>w. (False, w)),
      kr_now = (\<lambda>w. (0, w)), kr_panics = (\<lambda>_ _. None)\<rparr>"

definition demo_kr_state :: "cursor_kv world kr_state" where
  "demo_kr_state = \<lparr>kr_backoff = \<lparr>hb_initial_backoff_secs = 10, hb_max_backoff_secs = 100, hb_state = Map.empty\<rparr>,
     kr_kb = demo_kb_state\<rparr>"

lemma demo_kr_run:
  "\<exists>st'. runner_run (kb_runner_as_runner demo_kr) demo_kr_state =
     (Inr [\<lparr>prs_hs_id = ''hx'', prs_duration = 0, prs_status = FailedToBuild\<rparr>], st')"
  by (simp add: runner_run_def kb_runner_as_runner_def hs_by_priority_def on_rest_def select_homeservers_def
      is_blacklisted_def demo_kr_def demo_kr_state_def demo_kb_state_def should_skip_def build_and_run_def
      kb_build_def add_run_result_def)

theorem external_run_targets_witness:
  "\<exists>stats st'. runner_run (kb_runner_as_runner demo_kr) demo_kr_state = (Inr stats, st') \<and>
     length (polled_ids stats) \<le> 5 \<and> stats \<noteq> []"
proof -
  obtain stats st' where run: "runner_run (kb_runner_as_runner demo_kr) demo_kr_state = (Inr stats, st')" "stats \<noteq> []"
    using demo_kr_run by blast
  show ?thesis using external_run_targets [OF run(1)] run by (auto simp: demo_kr_def)
qed

theorem external_run_records_backoff_witness:
  "\<exists>stats st'. runner_run (kb_runner_as_runner demo_kr) demo_kr_state = (Inr stats, st') \<and>
     hb_state (kr_backoff st') ''hx'' \<noteq> None"
proof -
  obtain st' where run: "runner_run (kb_runner_as_runner demo_kr) demo_kr_state =
      (Inr [\<lparr>prs_hs_id = ''hx'', prs_duration = 0, prs_status = FailedToBuild\<rparr>], st')"
    using demo_kr_run by blast
  have "hb_state (kr_backoff st') ''hx'' \<noteq> None"
    using external_run_records_backoff [OF run] by (simp add: demo_kr_def backoff_after_def)
  then show ?thesis using run by blast
qed

end
