(* ===== verification/Job_Lock.thy ===== *)
theory Job_Lock
  imports Cursor_Store Hs_Backoff
begin

text \<open>
  The run lock of the jobs: the lock with a time to live on Redis (nexus-common/src/db/kv/lock.rs)
  and what the daemon builds on it (nexusd/src/jobs/lock.rs): the trait \<open>RunLock\<close> as a record of
  operations, the Redis implementation with its tokens, the guard and \<open>acquire\<close>. The locale
  \<open>run_lock_contract\<close> states what the runs rely on. The second half is the interleaving of any
  number of processes with one Redis, with lost and late requests, crashes and time, on which the
  exclusion of runs is proved. Counters and histograms are left out.
\<close>

section \<open>Constants\<close>

definition MAX_RUN :: int where
  "MAX_RUN = 3600 * NANOS"

definition LEASE_MARGIN :: int where
  "LEASE_MARGIN = 60 * NANOS"

definition LOCK_IO_TIMEOUT :: int where
  "LOCK_IO_TIMEOUT = 5 * NANOS"

definition LOCK_TTL_SECS :: nat where
  "LOCK_TTL_SECS = nat (MAX_RUN div NANOS) + nat (LEASE_MARGIN div NANOS)"

lemmas lock_consts = MAX_RUN_def LEASE_MARGIN_def LOCK_IO_TIMEOUT_def LOCK_TTL_SECS_def NANOS_def

section \<open>A lock with a time to live\<close>

text \<open>A key holds a token until its expiry; the time is that of the server.\<close>

record lock_kv =
  lk_now :: instant
  lk_leases :: "string \<rightharpoonup> string \<times> instant"

definition lease_of :: "lock_kv \<Rightarrow> string \<Rightarrow> string option" where
  "lease_of s k = (case lk_leases s k of None \<Rightarrow> None | Some (t, e) \<Rightarrow> if lk_now s \<le> e then Some t else None)"

text \<open>\<open>SET key token NX EX ttl\<close>.\<close>

definition set_nx_ex :: "string \<Rightarrow> string \<Rightarrow> nat \<Rightarrow> lock_kv \<Rightarrow> bool \<times> lock_kv" where
  "set_nx_ex k token ttl s =
     (case lease_of s k of
        Some _ \<Rightarrow> (False, s)
      | None \<Rightarrow> (True, s\<lparr>lk_leases := (lk_leases s)(k \<mapsto> (token, lk_now s + int ttl * NANOS))\<rparr>))"

text \<open>The script \<open>RELEASE\<close>: compare and delete.\<close>

definition release_script :: "string \<Rightarrow> string \<Rightarrow> lock_kv \<Rightarrow> nat \<times> lock_kv" where
  "release_script k token s =
     (if lease_of s k = Some token then (1, s\<lparr>lk_leases := (lk_leases s)(k := None)\<rparr>) else (0, s))"

definition try_acquire_lock ::
  "string \<Rightarrow> string \<Rightarrow> nat \<Rightarrow> lock_kv world \<Rightarrow> (redis_error, bool) result \<times> lock_kv world" where
  "try_acquire_lock k token ttl w = redis_call (set_nx_ex k token ttl) w"

definition release_lock :: "string \<Rightarrow> string \<Rightarrow> lock_kv world \<Rightarrow> (redis_error, unit) result \<times> lock_kv world" where
  "release_lock k token w =
     (case redis_call (release_script k token) w of
        (Inl e, w1) \<Rightarrow> (Inl e, w1)
      | (Inr _, w1) \<Rightarrow> (Inr (), w1))"

section \<open>RunLock\<close>

text \<open>The result of a call under \<open>tokio::time::timeout\<close>.\<close>

datatype 'a timed = Elapsed | Within 'a

text \<open>\<open>LockError\<close> boxes the error of the backend, of which there is one.\<close>

type_synonym lock_error = redis_error

record 's run_lock =
  rl_new_token :: "'s \<Rightarrow> string \<times> 's"
  rl_acquire :: "string \<Rightarrow> string \<Rightarrow> 's \<Rightarrow> (lock_error, bool) result timed \<times> 's"
  rl_unlock :: "string \<Rightarrow> string \<Rightarrow> 's \<Rightarrow> (lock_error, unit) result timed \<times> 's"

section \<open>RedisRunLock\<close>

record lock_world =
  lw_counter :: u64
  lw_redis :: "lock_kv world"

definition job_key :: "string \<Rightarrow> string" where
  "job_key job = ''lock:job:'' @ job"

definition token_text :: "nat \<Rightarrow> nat \<Rightarrow> u64 \<Rightarrow> string" where
  "token_text pid seed c = show_nat pid @ ''-'' @ show_nat seed @ ''-'' @ show_nat (unat c)"

definition new_token :: "nat \<Rightarrow> nat \<Rightarrow> lock_world \<Rightarrow> string \<times> lock_world" where
  "new_token pid seed s = (token_text pid seed (lw_counter s), s\<lparr>lw_counter := lw_counter s + 1\<rparr>)"

text \<open>
  \<open>elapsed\<close> says which calls pass their deadline: the caller then sees no reply, whatever became
  of the request.
\<close>

definition timed_call ::
  "(nat \<Rightarrow> bool) \<Rightarrow> (lock_kv world \<Rightarrow> (redis_error, 'a) result \<times> lock_kv world) \<Rightarrow> lock_world
     \<Rightarrow> (redis_error, 'a) result timed \<times> lock_world" where
  "timed_call elapsed f s =
     (case f (lw_redis s) of (r, w) \<Rightarrow>
        (if elapsed (tick (lw_redis s)) then Elapsed else Within r, s\<lparr>lw_redis := w\<rparr>))"

definition redis_run_lock :: "nat \<Rightarrow> nat \<Rightarrow> (nat \<Rightarrow> bool) \<Rightarrow> lock_world run_lock" where
  "redis_run_lock pid seed elapsed =
     \<lparr>rl_new_token = new_token pid seed,
      rl_acquire = (\<lambda>job token. timed_call elapsed (try_acquire_lock (job_key job) token LOCK_TTL_SECS)),
      rl_unlock = (\<lambda>job token. timed_call elapsed (release_lock (job_key job) token))\<rparr>"

section \<open>LockGuard and acquire\<close>

record lock_guard =
  lg_job :: string
  lg_token :: "string option"

datatype release_outcome = Released | NotHeld | ReleaseFailed | ReleaseTimedOut

definition release_as :: "'s run_lock \<Rightarrow> lock_guard \<Rightarrow> 's \<Rightarrow> release_outcome \<times> 's" where
  "release_as L g s =
     (case lg_token g of
        None \<Rightarrow> (NotHeld, s)
      | Some token \<Rightarrow>
          (case rl_unlock L (lg_job g) token s of
             (Within (Inr _), s1) \<Rightarrow> (Released, s1)
           | (Within (Inl _), s1) \<Rightarrow> (ReleaseFailed, s1)
           | (Elapsed, s1) \<Rightarrow> (ReleaseTimedOut, s1)))"

text \<open>
  Dropping an armed guard spawns the same unlock and ignores its result; a task the runtime never
  polls is one whose request is lost.
\<close>

definition guard_drop :: "'s run_lock \<Rightarrow> lock_guard \<Rightarrow> 's \<Rightarrow> 's" where
  "guard_drop L g s =
     (case lg_token g of None \<Rightarrow> s | Some token \<Rightarrow> snd (rl_unlock L (lg_job g) token s))"

definition disarm :: "lock_guard \<Rightarrow> lock_guard" where
  "disarm g = g\<lparr>lg_token := None\<rparr>"

datatype acquired = Taken lock_guard | Held | AcqFailed lock_error bool | AcqTimedOut bool

definition acquire :: "string \<Rightarrow> 's run_lock \<Rightarrow> 's \<Rightarrow> acquired \<times> 's" where
  "acquire job L s =
     (case rl_new_token L s of (token, s1) \<Rightarrow>
      let guard = \<lparr>lg_job = job, lg_token = Some token\<rparr> in
      case rl_acquire L job token s1 of
        (Within (Inr True), s2) \<Rightarrow> (Taken guard, s2)
      | (Within (Inr False), s2) \<Rightarrow> (Held, guard_drop L (disarm guard) s2)
      | (Within (Inl e), s2) \<Rightarrow>
          (case release_as L guard s2 of (rel, s3) \<Rightarrow> (AcqFailed e (rel = Released), s3))
      | (Elapsed, s2) \<Rightarrow>
          (case release_as L guard s2 of (rel, s3) \<Rightarrow> (AcqTimedOut (rel = Released), s3)))"

section \<open>What a run lock promises\<close>

text \<open>
  \<open>holder s job\<close> is the token that holds the slot. A granted acquire leaves the slot with the
  caller's token, a refused one leaves it with somebody, and an acknowledged unlock never leaves
  it with the token it was called with.
\<close>

locale run_lock_contract =
  fixes L :: "'s run_lock" and holder :: "'s \<Rightarrow> string \<Rightarrow> string option"
  assumes granted: "rl_acquire L job token s = (Within (Inr True), s') \<Longrightarrow> holder s' job = Some token"
    and refused: "rl_acquire L job token s = (Within (Inr False), s') \<Longrightarrow> holder s' job \<noteq> None"
    and unlocked: "rl_unlock L job token s = (Within (Inr u), s') \<Longrightarrow> holder s' job \<noteq> Some token"
begin

lemma release_frees:
  "release_as L g s = (Released, s') \<Longrightarrow> \<exists>token. lg_token g = Some token \<and> holder s' (lg_job g) \<noteq> Some token"
  by (auto simp: release_as_def split: option.splits prod.splits timed.splits sum.splits dest: unlocked)

lemma acquire_taken:
  assumes "acquire job L s = (Taken g, s')"
  shows "\<exists>token. g = \<lparr>lg_job = job, lg_token = Some token\<rparr> \<and> token = fst (rl_new_token L s) \<and>
    holder s' job = Some token"
  using assms
  by (auto simp: acquire_def Let_def split: prod.splits timed.splits sum.splits bool.splits dest: granted)

lemma acquire_held: "acquire job L s = (Held, s') \<Longrightarrow> holder s' job \<noteq> None"
  by (auto simp: acquire_def Let_def guard_drop_def disarm_def
      split: prod.splits timed.splits sum.splits bool.splits dest: refused)

lemma acquire_cleaned_up:
  assumes "acquire job L s = (AcqFailed e True, s') \<or> acquire job L s = (AcqTimedOut True, s')"
  shows "holder s' job \<noteq> Some (fst (rl_new_token L s))"
  using assms release_frees
  by (fastforce simp: acquire_def Let_def split: prod.splits timed.splits sum.splits bool.splits)

end

lemma set_nx_ex_result:
  "fst (set_nx_ex k t ttl s) \<Longrightarrow> lease_of (snd (set_nx_ex k t ttl s)) k = Some t"
  "\<not> fst (set_nx_ex k t ttl s) \<Longrightarrow> \<exists>u. lease_of (snd (set_nx_ex k t ttl s)) k = Some u"
  by (auto simp: set_nx_ex_def lease_of_def NANOS_def split: option.splits if_splits)

lemma release_script_result: "lease_of (snd (release_script k t s)) k \<noteq> Some t"
proof (cases "lease_of s k = Some t")
  case True
  then show ?thesis by (simp add: release_script_def) (simp add: lease_of_def)
qed (simp add: release_script_def)

interpretation redis_lock: run_lock_contract "redis_run_lock pid seed elapsed"
  "\<lambda>s job. lease_of (kv (lw_redis s)) (job_key job)" for pid seed elapsed
  by unfold_locales
    (auto simp: redis_run_lock_def timed_call_def try_acquire_lock_def release_lock_def redis_call_def Let_def
      release_script_result set_nx_ex_result
      split: prod.splits if_splits option.splits call_fault.splits sum.splits)

section \<open>Tokens\<close>

lemma show_nat_digits: "c \<in> set (show_nat n) \<Longrightarrow> is_digit c"
proof (induction n rule: show_nat.induct)
  case (1 n)
  then show ?case
    using digit_char [of n] digit_char [of "n mod 10"] by (subst (asm) show_nat.simps) (auto split: if_splits)
qed

definition digits_value :: "string \<Rightarrow> nat" where
  "digits_value cs = foldl (\<lambda>a c. a * 10 + digit_value c) 0 cs"

lemma digits_value_show: "digits_value (show_nat n) = n"
proof (induction n rule: show_nat.induct)
  case (1 n)
  then show ?case
    using digit_char [of n] digit_char [of "n mod 10"]
    by (subst show_nat.simps) (auto simp: digits_value_def)
qed

lemma split_at_dash:
  assumes "a @ CHR ''-'' # b = c @ CHR ''-'' # d" "CHR ''-'' \<notin> set a" "CHR ''-'' \<notin> set c"
  shows "a = c \<and> b = d"
  using assms
proof (induction a arbitrary: c)
  case Nil
  then show ?case by (cases c) auto
next
  case (Cons x a)
  then show ?case by (cases c) auto
qed

lemma token_text_inject:
  "token_text p s c = token_text p' s' c' \<longleftrightarrow> p = p' \<and> s = s' \<and> c = c'"
proof -
  have nd: "CHR ''-'' \<notin> set (show_nat n)" for n
    using show_nat_digits [of "CHR ''-''" n] by (auto simp: is_digit_def)
  have inj: "show_nat m = show_nat n \<longleftrightarrow> m = n" for m n
    using digits_value_show by metis
  have parts: "show_nat p = show_nat p' \<and> show_nat s = show_nat s' \<and> show_nat (unat c) = show_nat (unat c')"
    if "token_text p s c = token_text p' s' c'"
  proof -
    have "show_nat p = show_nat p' \<and> show_nat s @ CHR ''-'' # show_nat (unat c) =
        show_nat s' @ CHR ''-'' # show_nat (unat c')"
      by (rule split_at_dash) (use that nd in \<open>simp_all add: token_text_def\<close>)
    then show ?thesis using split_at_dash [OF _ nd nd] by blast
  qed
  then show ?thesis using word_unat_eq_iff [of c c'] by (auto simp: inj)
qed

section \<open>Processes and one Redis\<close>

text \<open>
  The runs of one job by any number of processes, each identified by its process id and start
  time. A process arms its guard and sends the \<open>SET\<close>; the request is executed at any later time
  or never, also after the process stopped waiting for it. A granted reply starts the run if it
  arrives within \<open>LOCK_IO_TIMEOUT\<close>; an error or a deadline sends the release instead. A run ends
  by finishing, failing, panicking, at a shutdown or at its deadline, and its release is executed
  at any later time or never. A process may crash at any point. Time passes, but not beyond the
  deadline of a run plus the delay \<open>ov\<close> with which the deadline is noticed. All clocks advance
  together.
\<close>

datatype job_run_phase =
    Idle
  | Acquiring string instant "bool option"
  | Running string instant
  | Releasing string

type_synonym process = "nat \<times> nat"

record job_sys =
  sys_kv :: lock_kv
  sys_phase :: "process \<Rightarrow> job_run_phase"
  sys_minted :: "process \<Rightarrow> nat"
  sys_sets :: "(process \<times> string) set"
  sys_dels :: "string set"

definition mint :: "process \<Rightarrow> nat \<Rightarrow> string" where
  "mint p n = token_text (fst p) (snd p) (of_nat n)"

abbreviation set_phase :: "process \<Rightarrow> job_run_phase \<Rightarrow> job_sys \<Rightarrow> job_sys" where
  "set_phase p ph s \<equiv> s\<lparr>sys_phase := (sys_phase s)(p := ph)\<rparr>"

abbreviation sys_now :: "job_sys \<Rightarrow> instant" where
  "sys_now s \<equiv> lk_now (sys_kv s)"

text \<open>The reply to a \<open>SET\<close>, seen by a process that still waits for it.\<close>

definition deliver :: "process \<Rightarrow> string \<Rightarrow> bool \<Rightarrow> job_sys \<Rightarrow> job_sys" where
  "deliver p token b s =
     (case sys_phase s p of
        Acquiring u t None \<Rightarrow> if u = token then set_phase p (Acquiring u t (Some b)) s else s
      | _ \<Rightarrow> s)"

inductive sys_step :: "string \<Rightarrow> int \<Rightarrow> job_sys \<Rightarrow> job_sys \<Rightarrow> bool" for job ov where
  Arm: "sys_phase s p = Idle \<Longrightarrow> sys_minted s p < 2 ^ 64 \<Longrightarrow> token = mint p (sys_minted s p) \<Longrightarrow>
    sys_step job ov s ((set_phase p (Acquiring token (sys_now s) None) s)
      \<lparr>sys_minted := (sys_minted s)(p := Suc (sys_minted s p)), sys_sets := insert (p, token) (sys_sets s)\<rparr>)"
| ServerSet: "(p, token) \<in> sys_sets s \<Longrightarrow> set_nx_ex (job_key job) token LOCK_TTL_SECS (sys_kv s) = (b, kv') \<Longrightarrow>
    sys_step job ov s (deliver p token b (s\<lparr>sys_kv := kv', sys_sets := sys_sets s - {(p, token)}\<rparr>))"
| LoseSet: "sys_step job ov s (s\<lparr>sys_sets := sys_sets s - {(p, token)}\<rparr>)"
| Granted: "sys_phase s p = Acquiring token t (Some True) \<Longrightarrow> sys_now s \<le> t + LOCK_IO_TIMEOUT \<Longrightarrow>
    sys_step job ov s (set_phase p (Running token (sys_now s)) s)"
| Refused: "sys_phase s p = Acquiring token t (Some False) \<Longrightarrow> sys_step job ov s (set_phase p Idle s)"
| GiveUp: "sys_phase s p = Acquiring token t r \<Longrightarrow>
    sys_step job ov s ((set_phase p (Releasing token) s)\<lparr>sys_dels := insert token (sys_dels s)\<rparr>)"
| RunEnds: "sys_phase s p = Running token t \<Longrightarrow>
    sys_step job ov s ((set_phase p (Releasing token) s)\<lparr>sys_dels := insert token (sys_dels s)\<rparr>)"
| ServerDel: "token \<in> sys_dels s \<Longrightarrow>
    sys_step job ov s (s\<lparr>sys_kv := snd (release_script (job_key job) token (sys_kv s)),
      sys_dels := sys_dels s - {token}\<rparr>)"
| LoseDel: "sys_step job ov s (s\<lparr>sys_dels := sys_dels s - {token}\<rparr>)"
| ReleaseDone: "sys_phase s p = Releasing token \<Longrightarrow> sys_step job ov s (set_phase p Idle s)"
| Crash: "sys_step job ov s (set_phase p Idle s)"
| Pass: "0 \<le> d \<Longrightarrow> \<forall>p token t. sys_phase s p = Running token t \<longrightarrow> sys_now s + d \<le> t + MAX_RUN + ov \<Longrightarrow>
    sys_step job ov s (s\<lparr>sys_kv := (sys_kv s)\<lparr>lk_now := sys_now s + d\<rparr>\<rparr>)"

text \<open>At the start the counters are 0, nothing runs and no request is under way; the key may hold
  any old lease.\<close>

definition sys_init :: "job_sys \<Rightarrow> bool" where
  "sys_init s \<longleftrightarrow> (\<forall>p. sys_phase s p = Idle \<and> sys_minted s p = 0) \<and> sys_sets s = {} \<and> sys_dels s = {}"

inductive sys_reach :: "string \<Rightarrow> int \<Rightarrow> job_sys \<Rightarrow> bool" for job ov where
  Start: "sys_init s \<Longrightarrow> sys_reach job ov s"
| Step: "sys_reach job ov s \<Longrightarrow> sys_step job ov s s' \<Longrightarrow> sys_reach job ov s'"

section \<open>Exclusion\<close>

lemma mint_inject: "m < 2 ^ 64 \<Longrightarrow> n < 2 ^ 64 \<Longrightarrow> mint p m = mint q n \<longleftrightarrow> p = q \<and> m = n"
  by (auto simp: mint_def token_text_inject prod_eq_iff word_unat_eq_iff unat_of_nat)

fun phase_token :: "job_run_phase \<Rightarrow> string option" where
  "phase_token Idle = None"
| "phase_token (Acquiring u _ _) = Some u"
| "phase_token (Running u _) = Some u"
| "phase_token (Releasing u) = Some u"

text \<open>What a phase says of the lease: \<open>covers\<close> holds while the process may rely on it.\<close>

fun covered :: "string \<Rightarrow> int \<Rightarrow> lock_kv \<Rightarrow> job_run_phase \<Rightarrow> bool" where
  "covered job ov db (Running u t) \<longleftrightarrow>
     lk_now db \<le> t + MAX_RUN + ov \<and>
     (\<exists>e. lk_leases db (job_key job) = Some (u, e) \<and> t + int LOCK_TTL_SECS * NANOS - LOCK_IO_TIMEOUT \<le> e)"
| "covered job ov db (Acquiring u t r) \<longleftrightarrow>
     t \<le> lk_now db \<and>
     (r = Some True \<and> lk_now db \<le> t + LOCK_IO_TIMEOUT \<longrightarrow>
        (\<exists>e. lk_leases db (job_key job) = Some (u, e) \<and> t + int LOCK_TTL_SECS * NANOS \<le> e))"
| "covered job ov db _ \<longleftrightarrow> True"

definition minted :: "(process \<Rightarrow> nat) \<Rightarrow> string \<Rightarrow> bool" where
  "minted m u \<longleftrightarrow> (\<exists>p n. n < m p \<and> u = mint p n)"

text \<open>A process may only rely on a lease that no release on its way would delete.\<close>

definition sys_inv :: "string \<Rightarrow> int \<Rightarrow> job_sys \<Rightarrow> bool" where
  "sys_inv job ov s \<longleftrightarrow>
     (\<forall>p. sys_minted s p \<le> 2 ^ 64) \<and>
     (\<forall>p u. phase_token (sys_phase s p) = Some u \<longrightarrow> (\<exists>n. sys_minted s p = Suc n \<and> u = mint p n)) \<and>
     (\<forall>u\<in>sys_dels s. minted (sys_minted s) u) \<and>
     (\<forall>p u. phase_token (sys_phase s p) = Some u \<longrightarrow> u \<in> sys_dels s \<longrightarrow> sys_phase s p = Releasing u) \<and>
     (\<forall>p. covered job ov (sys_kv s) (sys_phase s p))"

lemma sys_invD:
  assumes "sys_inv job ov s"
  shows "covered job ov (sys_kv s) (sys_phase s p)"
    and "phase_token (sys_phase s p) = Some u \<Longrightarrow> u \<in> sys_dels s \<Longrightarrow> sys_phase s p = Releasing u"
  using assms unfolding sys_inv_def by blast+

lemma minted_Suc: "minted m u \<Longrightarrow> minted (m(p := Suc (m p))) u"
  unfolding minted_def by (metis fun_upd_apply less_Suc_eq)

lemma fresh_token:
  assumes "\<forall>p. m p \<le> 2 ^ 64" "m p < 2 ^ 64" shows "\<not> minted m (mint p (m p))"
proof
  assume "minted m (mint p (m p))"
  then obtain q n where q: "n < m q" "mint p (m p) = mint q n" by (auto simp: minted_def)
  have "m q \<le> 2 ^ 64" using assms(1) by (rule spec)
  then have "n < 2 ^ 64" using q(1) by (rule less_le_trans [rotated])
  then have "p = q \<and> m p = n" using q(2) mint_inject [OF assms(2)] by metis
  then show False using q(1) by auto
qed

lemma owner_unique:
  assumes "sys_inv job ov s" "phase_token (sys_phase s p) = Some u" "phase_token (sys_phase s q) = Some u"
  shows "p = q"
proof -
  obtain m n where "sys_minted s p = Suc m" "u = mint p m" "sys_minted s q = Suc n" "u = mint q n"
    using assms unfolding sys_inv_def by blast
  moreover have "m < 2 ^ 64" "n < 2 ^ 64"
    using assms(1) calculation(1,3) unfolding sys_inv_def by (metis Suc_le_eq)+
  ultimately show ?thesis using mint_inject by blast
qed

text \<open>The invariant survives a change of one process that keeps or frees its token.\<close>

lemma sys_inv_phase:
  assumes "sys_inv job ov s" "covered job ov (sys_kv s) ph"
    and "phase_token ph = None \<or> phase_token ph = phase_token (sys_phase s p)"
    and "\<And>u. phase_token ph = Some u \<Longrightarrow> u \<in> sys_dels s \<Longrightarrow> ph = Releasing u"
  shows "sys_inv job ov (set_phase p ph s)"
  using assms unfolding sys_inv_def by auto

lemma sys_inv_release:
  assumes inv: "sys_inv job ov s" and u: "phase_token (sys_phase s p) = Some u"
  shows "sys_inv job ov ((set_phase p (Releasing u) s)\<lparr>sys_dels := insert u (sys_dels s)\<rparr>)"
proof -
  have "minted (sys_minted s) u" using inv u unfolding sys_inv_def minted_def by (metis lessI)
  moreover have "phase_token (sys_phase s q) \<noteq> Some u" if "q \<noteq> p" for q
    using owner_unique [OF inv u] that by blast
  ultimately show ?thesis using inv u unfolding sys_inv_def by auto
qed

text \<open>While a phase relies on the lease, a \<open>SET\<close> by anybody is refused.\<close>

lemma covered_live:
  assumes "covered job ov db ph" "ov + LOCK_IO_TIMEOUT \<le> LEASE_MARGIN"
    and "(\<exists>t. ph = Running u t) \<or> (\<exists>t. ph = Acquiring u t (Some True) \<and> lk_now db \<le> t + LOCK_IO_TIMEOUT)"
  shows "lease_of db (job_key job) = Some u"
  using assms by (auto simp: lease_of_def lock_consts)

lemma covered_after_set:
  assumes "covered job ov db ph" "ov + LOCK_IO_TIMEOUT \<le> LEASE_MARGIN"
    and "set_nx_ex (job_key job) token LOCK_TTL_SECS db = (b, db')"
  shows "covered job ov db' ph"
proof -
  have now: "lk_now db' = lk_now db" using assms(3) by (auto simp: set_nx_ex_def split: option.splits)
  have same: "db' = db" if "lease_of db (job_key job) = Some u" for u
    using that assms(3) by (simp add: set_nx_ex_def)
  show ?thesis
  proof (cases ph)
    case (Running u t)
    then show ?thesis using same [OF covered_live [OF assms(1,2)]] assms(1) by blast
  next
    case (Acquiring u t r)
    then show ?thesis
    proof (cases "r = Some True \<and> lk_now db \<le> t + LOCK_IO_TIMEOUT")
      case True
      then show ?thesis using same [OF covered_live [OF assms(1,2)]] assms(1) Acquiring by blast
    next
      case False
      then show ?thesis using assms(1) Acquiring now by auto
    qed
  qed simp_all
qed

lemma covered_after_release:
  assumes "covered job ov db ph" "phase_token ph \<noteq> Some token \<or> ph = Releasing token"
  shows "covered job ov (snd (release_script (job_key job) token db)) ph"
  using assms by (cases ph) (auto simp: release_script_def lease_of_def split: option.splits if_splits)

lemma sys_step_inv:
  assumes "sys_step job ov s s'" "sys_inv job ov s" "ov + LOCK_IO_TIMEOUT \<le> LEASE_MARGIN" "0 \<le> ov"
  shows "sys_inv job ov s'"
  using assms(1)
proof cases
  case (Arm p token)
  let ?m = "(sys_minted s)(p := Suc (sys_minted s p))"
  have fresh: "\<not> minted (sys_minted s) token" using fresh_token assms(2) Arm unfolding sys_inv_def by simp
  have "sys_minted s q \<le> 2 ^ 64" for q using assms(2) unfolding sys_inv_def by blast
  then have "?m q \<le> 2 ^ 64" for q using Arm(3) by simp
  moreover have "minted ?m u" "u \<noteq> token" if "u \<in> sys_dels s" for u
    using that assms(2) fresh minted_Suc unfolding sys_inv_def by blast+
  ultimately show ?thesis using assms(2) Arm unfolding sys_inv_def by auto
next
  case (ServerSet p token b db')
  let ?s = "s\<lparr>sys_kv := db', sys_sets := sys_sets s - {(p, token)}\<rparr>"
  have inv: "sys_inv job ov ?s"
    using assms(2) covered_after_set [OF _ assms(3) ServerSet(3)] unfolding sys_inv_def by simp
  show ?thesis
  proof (cases "\<exists>t. sys_phase s p = Acquiring token t None")
    case True
    then obtain t where t: "sys_phase s p = Acquiring token t None" by blast
    have nd: "token \<notin> sys_dels s" using sys_invD(2) [OF assms(2), of p token] t by auto
    have "t \<le> sys_now s" using sys_invD(1) [OF assms(2), of p] t by simp
    then have c: "covered job ov (sys_kv ?s) (Acquiring token t (Some b))"
      using ServerSet(3) by (cases b) (auto simp: set_nx_ex_def split: option.splits)
    have "sys_inv job ov (set_phase p (Acquiring token t (Some b)) ?s)"
      by (rule sys_inv_phase [OF inv c]) (use t nd in simp_all)
    then show ?thesis using ServerSet(1) t by (simp add: deliver_def)
  next
    case False
    then have "deliver p token b ?s = ?s" by (auto simp: deliver_def split: job_run_phase.splits option.splits)
    then show ?thesis using inv ServerSet(1) by simp
  qed
next
  case (LoseSet p token)
  then show ?thesis using assms(2) by (simp add: sys_inv_def)
next
  case (Granted p token t)
  have "covered job ov (sys_kv s) (Acquiring token t (Some True))"
    using sys_invD(1) [OF assms(2), of p] Granted(2) by simp
  then have c: "covered job ov (sys_kv s) (Running token (sys_now s))"
    using Granted(3) assms(4) by (auto simp: MAX_RUN_def NANOS_def)
  show ?thesis
    unfolding Granted(1) by (rule sys_inv_phase [OF assms(2) c])
      (use Granted(2) sys_invD(2) [OF assms(2), of p token] in auto)
next
  case (Refused p token t)
  then show ?thesis using assms(2) by (simp add: sys_inv_def)
next
  case (GiveUp p token t r)
  then show ?thesis using sys_inv_release [OF assms(2), of p token] by simp
next
  case (RunEnds p token t)
  then show ?thesis using sys_inv_release [OF assms(2), of p token] by simp
next
  case (ServerDel token)
  then show ?thesis using assms(2) covered_after_release unfolding sys_inv_def by auto
next
  case (LoseDel token)
  then show ?thesis using assms(2) by (simp add: sys_inv_def)
next
  case (ReleaseDone p token)
  then show ?thesis using assms(2) by (simp add: sys_inv_def)
next
  case (Crash p)
  then show ?thesis using assms(2) by (simp add: sys_inv_def)
next
  case (Pass d)
  have "covered job ov (sys_kv s') (sys_phase s p)" for p
  proof -
    have "covered job ov (sys_kv s) (sys_phase s p)" using assms(2) by (rule sys_invD)
    then show ?thesis using Pass(1,2) spec [OF Pass(3), of p] by (cases "sys_phase s p") auto
  qed
  then show ?thesis using assms(2) Pass(1) unfolding sys_inv_def by simp
qed

lemma sys_reach_inv:
  assumes "sys_reach job ov s" "ov + LOCK_IO_TIMEOUT \<le> LEASE_MARGIN" "0 \<le> ov"
  shows "sys_inv job ov s"
  using assms(1)
proof induction
  case (Start s)
  then show ?case by (simp add: sys_init_def sys_inv_def)
next
  case (Step s s')
  then show ?case using sys_step_inv assms(2,3) by blast
qed

section \<open>Properties\<close>

text \<open>C3. Two processes never run a job at the same time: in every state that processes and Redis
  can reach, with requests lost, executed late or answered too late, with crashes at any point,
  and with the deadline of a run noticed up to \<open>ov\<close> after it passed, at most one process is in
  its run, as long as that delay and one lock round trip fit into the margin of the lease.\<close>

theorem job_runs_never_overlap:
  assumes "sys_reach job ov s" and "0 \<le> ov" and "ov + LOCK_IO_TIMEOUT \<le> LEASE_MARGIN"
    and "sys_phase s p = Running u t" and "sys_phase s q = Running u' t'"
  shows "p = q"
proof -
  have inv: "sys_inv job ov s" using sys_reach_inv assms(1-3) by blast
  have "lease_of (sys_kv s) (job_key job) = Some u" "lease_of (sys_kv s) (job_key job) = Some u'"
    using covered_live [OF sys_invD(1) [OF inv, of p] assms(3), of u]
      covered_live [OF sys_invD(1) [OF inv, of q] assms(3), of u'] assms(4,5) by blast+
  then have "u = u'" by simp
  then show ?thesis using owner_unique [OF inv, of p u q] assms(4,5) by simp
qed

definition demo_sys :: job_sys where
  "demo_sys = \<lparr>sys_kv = \<lparr>lk_now = 0, lk_leases = Map.empty\<rparr>, sys_phase = (\<lambda>_. Idle), sys_minted = (\<lambda>_. 0),
     sys_sets = {}, sys_dels = {}\<rparr>"

lemma demo_sys_running:
  "\<exists>s. sys_reach ''j'' (30 * NANOS) s \<and> sys_phase s (1, 7) = Running (mint (1, 7) 0) 0"
proof -
  let ?p = "(1, 7) :: process" and ?u = "mint (1, 7) 0"
  let ?s1 = "(set_phase ?p (Acquiring ?u (sys_now demo_sys) None) demo_sys)
      \<lparr>sys_minted := (sys_minted demo_sys)(?p := Suc (sys_minted demo_sys ?p)),
       sys_sets := insert (?p, ?u) (sys_sets demo_sys)\<rparr>"
  let ?s2 = "deliver ?p ?u (fst (set_nx_ex (job_key ''j'') ?u LOCK_TTL_SECS (sys_kv ?s1)))
      (?s1\<lparr>sys_kv := snd (set_nx_ex (job_key ''j'') ?u LOCK_TTL_SECS (sys_kv ?s1)),
           sys_sets := sys_sets ?s1 - {(?p, ?u)}\<rparr>)"
  have r0: "sys_reach ''j'' (30 * NANOS) demo_sys"
    by (rule sys_reach.Start) (simp add: sys_init_def demo_sys_def)
  have r1: "sys_reach ''j'' (30 * NANOS) ?s1"
    by (rule sys_reach.Step [OF r0], rule sys_step.Arm) (simp_all add: demo_sys_def)
  have r2: "sys_reach ''j'' (30 * NANOS) ?s2"
    by (rule sys_reach.Step [OF r1], rule sys_step.ServerSet) simp_all
  have ph: "sys_phase ?s2 ?p = Acquiring ?u 0 (Some True)" "sys_now ?s2 = 0"
    by (simp_all add: deliver_def demo_sys_def set_nx_ex_def lease_of_def)
  have "sys_step ''j'' (30 * NANOS) ?s2 (set_phase ?p (Running ?u (sys_now ?s2)) ?s2)"
    by (rule sys_step.Granted [OF ph(1)]) (use ph(2) in \<open>simp add: lock_consts\<close>)
  from sys_reach.Step [OF r2 this] show ?thesis using ph(2) by (intro exI conjI) (assumption, simp)
qed

theorem job_runs_never_overlap_witness:
  "\<exists>s. sys_reach ''j'' (30 * NANOS) s \<and> (\<exists>u t. sys_phase s (1, 7) = Running u t) \<and>
     \<not> (\<exists>u t. sys_phase s (2, 9) = Running u t)"
proof -
  obtain s where s: "sys_reach ''j'' (30 * NANOS) s" "sys_phase s (1, 7) = Running (mint (1, 7) 0) 0"
    using demo_sys_running by blast
  have "\<not> (\<exists>u t. sys_phase s (2, 9) = Running u t)"
    using job_runs_never_overlap [OF s(1) _ _ s(2), of "(2, 9)"] by (auto simp: lock_consts)
  then show ?thesis using s by blast
qed

end
