(* ===== verification/Job_Scheduler.thy ===== *)
theory Job_Scheduler
  imports Job_Lock
begin

text \<open>
  The jobs of the daemon (nexusd/src/jobs): the registry with its configuration checks
  (registry.rs, mod.rs), a run on demand (runner.rs), the scheduler with its waits on the wall
  clock, its runs under the lock and its loop (scheduler.rs). The cron crate, the set-up of the
  stack, the clock and the shutdown channel are parameters. Counters become the value a fire
  returns; log lines are left out.
\<close>

section \<open>Jobs and configuration\<close>

datatype cron_parse_error = CronParseError string string

datatype job_error =
    AlreadyRunning string
  | JobLock lock_error
  | UnknownJobConfig "string list" string
  | UnknownJobName string string
  | InvalidCron string cron_parse_error
  | JobStack string
  | JobTimedOut string int
  | JobLockTimedOut string
  | JobRun string string

text \<open>
  A job's \<open>run\<close> is given the time its future is dropped at the latest. It returns the time and
  result of a run that ended by then (no result: it panicked), and the state it left.
\<close>

record 's job =
  j_name :: string
  j_default_cron :: "string option"
  j_run :: "instant \<Rightarrow> 's \<Rightarrow> (instant \<times> (string, unit) result option) option \<times> 's"

text \<open>\<open>c_parse\<close> is \<open>Schedule::from_str\<close>, \<open>c_after\<close> the first fire time after an instant.\<close>

record 'c cron =
  c_parse :: "string \<Rightarrow> (string, 'c) result"
  c_after :: "'c \<Rightarrow> instant \<Rightarrow> instant option"

definition validate_cron :: "'c cron \<Rightarrow> instant \<Rightarrow> string \<Rightarrow> (cron_parse_error, 'c) result" where
  "validate_cron C now expr =
     (case c_parse C expr of
        Inl e \<Rightarrow> Inl (CronParseError expr (''parse failed: '' @ e))
      | Inr sched \<Rightarrow>
          (case c_after C sched now of
             None \<Rightarrow> Inl (CronParseError expr ''has no upcoming fire times'')
           | Some _ \<Rightarrow> Inr sched))"

text \<open>A configuration section is its optional cron text.\<close>

definition job_cron :: "'c cron \<Rightarrow> instant \<Rightarrow> string option \<Rightarrow> (cron_parse_error, 'c option) result" where
  "job_cron C now cfg =
     (case cfg of
        None \<Rightarrow> Inr None
      | Some expr \<Rightarrow> (case validate_cron C now expr of Inl e \<Rightarrow> Inl e | Inr sched \<Rightarrow> Inr (Some sched)))"

section \<open>The registry\<close>

text \<open>\<open>JobRegistry::new\<close> panics (\<open>None\<close>) on duplicate names.\<close>

definition registry_new :: "'s job list \<Rightarrow> 's job list option" where
  "registry_new jobs = (if distinct (map j_name jobs) then Some jobs else None)"

definition job_names :: "'s job list \<Rightarrow> string list" where
  "job_names jobs = map j_name jobs"

fun join :: "string \<Rightarrow> string list \<Rightarrow> string" where
  "join sep [] = []"
| "join sep [x] = x"
| "join sep (x # xs) = x @ sep @ join sep xs"

definition available_jobs_hint :: "'s job list \<Rightarrow> string" where
  "available_jobs_hint jobs = (if job_names jobs = [] then ''(none)'' else join '', '' (job_names jobs))"

text \<open>The sections of the configuration are a map, given by its distinct keys and values.\<close>

type_synonym jobs_config = "(string \<times> string option) list"

definition unknown_sections :: "'s job list \<Rightarrow> jobs_config \<Rightarrow> string list" where
  "unknown_sections jobs cfg = sort (filter (\<lambda>n. n \<notin> set (job_names jobs)) (map fst cfg))"

definition job_config :: "jobs_config \<Rightarrow> 's job \<Rightarrow> string option" where
  "job_config cfg j = (case map_of cfg (j_name j) of Some c \<Rightarrow> c | None \<Rightarrow> j_default_cron j)"

fun schedule_jobs :: "'c cron \<Rightarrow> instant \<Rightarrow> jobs_config \<Rightarrow> 's job list \<Rightarrow> (job_error, ('c \<times> 's job) list) result" where
  "schedule_jobs C now cfg [] = Inr []"
| "schedule_jobs C now cfg (j # js) =
     (case job_cron C now (job_config cfg j) of
        Inl e \<Rightarrow> Inl (InvalidCron (j_name j) e)
      | Inr c \<Rightarrow>
          (case schedule_jobs C now cfg js of
             Inl e \<Rightarrow> Inl e
           | Inr rest \<Rightarrow> Inr (case c of None \<Rightarrow> rest | Some sched \<Rightarrow> (sched, j) # rest)))"

definition scheduled_jobs ::
  "'c cron \<Rightarrow> instant \<Rightarrow> 's job list \<Rightarrow> jobs_config \<Rightarrow> (job_error, ('c \<times> 's job) list) result" where
  "scheduled_jobs C now jobs cfg =
     (if unknown_sections jobs cfg \<noteq> []
      then Inl (UnknownJobConfig (unknown_sections jobs cfg) (available_jobs_hint jobs))
      else schedule_jobs C now cfg jobs)"

section \<open>Waiting on the wall clock\<close>

definition MAX_SLEEP :: int where
  "MAX_SLEEP = 30 * NANOS"

text \<open>
  \<open>now\<close> reads the wall clock and \<open>slp d\<close> sleeps \<open>d\<close> of monotonic time; the wall clock may move
  differently meanwhile. The loop ends only if the clock lets it.
\<close>

partial_function (option) sleep_wall_loop ::
  "('s \<Rightarrow> instant \<times> 's) \<Rightarrow> (int \<Rightarrow> 's \<Rightarrow> 's) \<Rightarrow> int \<Rightarrow> int \<Rightarrow> instant \<Rightarrow> 's \<Rightarrow> 's option" where
  "sleep_wall_loop now slp dur max_sleep started s =
     (case now s of (t, s1) \<Rightarrow>
        let remaining = dur - max 0 (t - started) in
        if remaining \<le> 0 then Some s1
        else sleep_wall_loop now slp dur max_sleep started (slp (min remaining max_sleep) s1))"

definition sleep_wall :: "('s \<Rightarrow> instant \<times> 's) \<Rightarrow> (int \<Rightarrow> 's \<Rightarrow> 's) \<Rightarrow> int \<Rightarrow> int \<Rightarrow> 's \<Rightarrow> 's option" where
  "sleep_wall now slp dur max_sleep s =
     (case now s of (started, s1) \<Rightarrow> sleep_wall_loop now slp dur max_sleep started s1)"

section \<open>Runs under the lock\<close>

text \<open>
  \<open>tokio::select!\<close> with \<open>biased\<close>: of the branches ready at the earliest time the first in the
  order of the source wins, the shutdown before the run and the run before the deadline.
\<close>

datatype 'r race = Abandoned | Finished 'r | DeadlinePassed

definition select_run :: "instant option \<Rightarrow> instant \<Rightarrow> (instant \<times> 'r) option \<Rightarrow> 'r race" where
  "select_run shut dl fin =
     (case fin of
        Some (t, r) \<Rightarrow>
          (case shut of
             Some ts \<Rightarrow> if ts \<le> t \<and> ts \<le> dl then Abandoned else if t \<le> dl then Finished r else DeadlinePassed
           | None \<Rightarrow> if t \<le> dl then Finished r else DeadlinePassed)
      | None \<Rightarrow> (case shut of Some ts \<Rightarrow> if ts \<le> dl then Abandoned else DeadlinePassed | None \<Rightarrow> DeadlinePassed))"

definition cut_at :: "instant option \<Rightarrow> instant \<Rightarrow> instant" where
  "cut_at shut dl = (case shut of None \<Rightarrow> dl | Some ts \<Rightarrow> min ts dl)"

text \<open>A run on demand; \<open>dl\<close> is when the wait for the deadline ends. \<open>None\<close>: the job panicked.\<close>

definition run_once_locked ::
  "'s job \<Rightarrow> 's run_lock \<Rightarrow> ('s \<Rightarrow> instant) \<Rightarrow> 's \<Rightarrow> (job_error, unit) result option \<times> 's" where
  "run_once_locked j L dl s =
     (case acquire (j_name j) L s of
        (Held, s1) \<Rightarrow> (Some (Inl (AlreadyRunning (j_name j))), s1)
      | (AcqFailed e _, s1) \<Rightarrow> (Some (Inl (JobLock e)), s1)
      | (AcqTimedOut _, s1) \<Rightarrow> (Some (Inl (JobLockTimedOut (j_name j))), s1)
      | (Taken guard, s1) \<Rightarrow>
          (case j_run j (dl s1) s1 of (fin, s2) \<Rightarrow>
           case select_run None (dl s1) fin of
             Finished None \<Rightarrow> (None, guard_drop L guard s2)
           | Finished (Some r) \<Rightarrow>
               (Some (case r of Inr _ \<Rightarrow> Inr () | Inl e \<Rightarrow> Inl (JobRun (j_name j) e)), snd (release_as L guard s2))
           | _ \<Rightarrow> (Some (Inl (JobTimedOut (j_name j) MAX_RUN)), snd (release_as L guard s2))))"

text \<open>\<open>JobRegistry::run_on_demand\<close>; \<open>setup\<close> is \<open>StackManager::setup\<close>.\<close>

definition run_on_demand ::
  "'c cron \<Rightarrow> ('s \<Rightarrow> (string, unit) result \<times> 's) \<Rightarrow> 's run_lock \<Rightarrow> ('s \<Rightarrow> instant) \<Rightarrow> instant
     \<Rightarrow> 's job list \<Rightarrow> jobs_config \<Rightarrow> string \<Rightarrow> 's \<Rightarrow> (job_error, unit) result option \<times> 's" where
  "run_on_demand C setup L dl now jobs cfg name s =
     (case scheduled_jobs C now jobs cfg of
        Inl e \<Rightarrow> (Some (Inl e), s)
      | Inr _ \<Rightarrow>
          (case find (\<lambda>j. j_name j = name) jobs of
             None \<Rightarrow> (Some (Inl (UnknownJobName name (available_jobs_hint jobs))), s)
           | Some j \<Rightarrow>
               (case setup s of
                  (Inl e, s1) \<Rightarrow> (Some (Inl (JobStack e)), s1)
                | (Inr _, s1) \<Rightarrow> run_once_locked j L dl s1)))"

datatype skip_reason = InProgress | LockFailed | AcquireTimedOut | ShutdownBeforeAcquire
datatype job_run_outcome = RunOk | RunError | RunAbandoned | RunTimedOut
datatype fire = FireSkipped skip_reason | FireCompleted job_run_outcome | FirePanicked

text \<open>
  What the scheduler is given: the clock, the lock, the current value of the shutdown channel, a
  wait that a shutdown cuts short (\<open>True\<close>), and for a run the time a shutdown arrives, if it
  does, and the time its deadline is noticed.
\<close>

record 's scheduler =
  sc_now :: "'s \<Rightarrow> instant \<times> 's"
  sc_lock :: "'s run_lock"
  sc_shutdown :: "'s \<Rightarrow> bool"
  sc_wait :: "int \<Rightarrow> 's \<Rightarrow> bool \<times> 's"
  sc_cut :: "'s \<Rightarrow> instant option \<times> instant"
  sc_max_sleep :: int

definition run_locked :: "'s scheduler \<Rightarrow> 's job \<Rightarrow> 's \<Rightarrow> fire \<times> 's" where
  "run_locked sc j s =
     (if sc_shutdown sc s then (FireSkipped ShutdownBeforeAcquire, s)
      else case acquire (j_name j) (sc_lock sc) s of
        (Held, s1) \<Rightarrow> (FireSkipped InProgress, s1)
      | (AcqFailed _ _, s1) \<Rightarrow> (FireSkipped LockFailed, s1)
      | (AcqTimedOut _, s1) \<Rightarrow> (FireSkipped AcquireTimedOut, s1)
      | (Taken guard, s1) \<Rightarrow>
          (case sc_cut sc s1 of (shut, dl) \<Rightarrow>
           case j_run j (cut_at shut dl) s1 of (fin, s2) \<Rightarrow>
           case select_run shut dl fin of
             Finished None \<Rightarrow> (FirePanicked, guard_drop (sc_lock sc) guard s2)
           | Finished (Some r) \<Rightarrow>
               (FireCompleted (case r of Inr _ \<Rightarrow> RunOk | Inl _ \<Rightarrow> RunError), snd (release_as (sc_lock sc) guard s2))
           | Abandoned \<Rightarrow> (FireCompleted RunAbandoned, snd (release_as (sc_lock sc) guard s2))
           | DeadlinePassed \<Rightarrow> (FireCompleted RunTimedOut, snd (release_as (sc_lock sc) guard s2))))"

section \<open>The scheduler's loop\<close>

text \<open>\<open>sleep_until\<close> returns \<open>True\<close> at the deadline, \<open>False\<close> on a shutdown, and may wait forever.\<close>

partial_function (option) sleep_until :: "'s scheduler \<Rightarrow> instant \<Rightarrow> 's \<Rightarrow> (bool \<times> 's) option" where
  "sleep_until sc deadline s =
     (case sc_now sc s of (t, s1) \<Rightarrow>
        if deadline - t \<le> 0 then Some (True, s1)
        else case sc_wait sc (min (deadline - t) (sc_max_sleep sc)) s1 of (shut, s2) \<Rightarrow>
               if shut then Some (False, s2) else sleep_until sc deadline s2)"

text \<open>
  \<open>run_job\<close> as far as \<open>n\<close> rounds go: the fires so far, oldest first, each with its tick and what
  became of it, and how the loop stands.
\<close>

datatype job_loop = Looping | ShutDown | ScheduleExhausted | LoopPanicked | Waiting

fun run_job ::
  "'s scheduler \<Rightarrow> (instant \<Rightarrow> instant option) \<Rightarrow> 's job \<Rightarrow> nat \<Rightarrow> instant option \<Rightarrow> (instant \<times> fire) list \<Rightarrow> 's
     \<Rightarrow> job_loop \<times> (instant \<times> fire) list \<times> 's" where
  "run_job sc after j 0 last_fired fires s = (Looping, fires, s)"
| "run_job sc after j (Suc n) last_fired fires s =
     (if sc_shutdown sc s then (ShutDown, fires, s)
      else case sc_now sc s of (now, s1) \<Rightarrow>
        case after (case last_fired of None \<Rightarrow> now | Some l \<Rightarrow> max l now) of
          None \<Rightarrow> (ScheduleExhausted, fires, s1)
        | Some tk \<Rightarrow>
            (case sleep_until sc tk s1 of
               None \<Rightarrow> (Waiting, fires, s1)
             | Some (False, s2) \<Rightarrow> (ShutDown, fires, s2)
             | Some (True, s2) \<Rightarrow>
                 (case run_locked sc j s2 of
                    (FirePanicked, s3) \<Rightarrow> (LoopPanicked, fires @ [(tk, FirePanicked)], s3)
                  | (f, s3) \<Rightarrow> run_job sc after j n (Some tk) (fires @ [(tk, f)]) s3)))"

section \<open>Lemmas on the waits\<close>

text \<open>
  A wall clock that a sleep moves by at least its length and at most \<open>ov\<close> more. The delays of the
  chunks do not add up, because the clock is read again after each.
\<close>

lemma sleep_wall_loop_ends:
  assumes now: "\<And>s. now s = (clk s, s)"
    and slp: "\<And>d s. 0 < d \<Longrightarrow> clk s + d \<le> clk (slp d s) \<and> clk (slp d s) \<le> clk s + d + ov"
    and "0 < max_sleep" "started \<le> clk s" "clk s \<le> started + dur + ov"
  shows "\<exists>s'. sleep_wall_loop now slp dur max_sleep started s = Some s' \<and>
    started + dur \<le> clk s' \<and> clk s' \<le> started + dur + ov"
  using assms(4,5)
proof (induction "nat (started + dur - clk s)" arbitrary: s rule: less_induct)
  case less
  let ?d = "min (dur - (clk s - started)) max_sleep"
  show ?case
  proof (cases "dur - (clk s - started) \<le> 0")
    case True
    then show ?thesis using less.prems by (subst sleep_wall_loop.simps) (simp add: now)
  next
    case False
    then have "0 < ?d" using assms(3) by simp
    note mv = slp [OF this, of s]
    have "\<exists>s'. sleep_wall_loop now slp dur max_sleep started (slp ?d s) = Some s' \<and>
        started + dur \<le> clk s' \<and> clk s' \<le> started + dur + ov"
      by (rule less.hyps) (use mv \<open>0 < ?d\<close> False less.prems in \<open>auto simp: min_def split: if_splits\<close>)
    then show ?thesis
      using False less.prems by (subst sleep_wall_loop.simps) (simp add: now Let_def)
  qed
qed

lemma sleep_until_on_time:
  assumes "sleep_until sc d s = Some (True, s')" shows "\<exists>s0 t. sc_now sc s0 = (t, s') \<and> d \<le> t"
proof -
  have "fst r \<longrightarrow> (\<exists>s0 t. sc_now sc s0 = (t, snd r) \<and> d \<le> t)" if "sleep_until sc d s = Some r" for r
  proof (rule sleep_until.raw_induct [where P = "\<lambda>sc d s r. fst r \<longrightarrow>
      (\<exists>s0 t. sc_now sc s0 = (t, snd r) \<and> d \<le> t)", OF _ that])
    fix rec :: "'a scheduler \<Rightarrow> instant \<Rightarrow> 'a \<Rightarrow> (bool \<times> 'a) option" and sc d s r
    assume IH: "\<And>sc d s r. rec sc d s = Some r \<Longrightarrow> fst r \<longrightarrow> (\<exists>s0 t. sc_now sc s0 = (t, snd r) \<and> d \<le> t)"
      and eq: "(case sc_now sc s of (t, s1) \<Rightarrow> if d - t \<le> 0 then Some (True, s1)
        else case sc_wait sc (min (d - t) (sc_max_sleep sc)) s1 of (shut, s2) \<Rightarrow>
          if shut then Some (False, s2) else rec sc d s2) = Some r"
    obtain t s1 where t: "sc_now sc s = (t, s1)" by force
    obtain shut s2 where w: "sc_wait sc (min (d - t) (sc_max_sleep sc)) s1 = (shut, s2)" by force
    show "fst r \<longrightarrow> (\<exists>s0 t. sc_now sc s0 = (t, snd r) \<and> d \<le> t)"
    proof (cases "d \<le> t")
      case True
      then have "r = (True, s1)" using eq t by simp
      then show ?thesis using t True by (metis snd_conv)
    next
      case False
      then show ?thesis using eq t w IH [of sc d s2 r] by (auto split: if_splits)
    qed
  qed
  then show ?thesis using assms by fastforce
qed

text \<open>The ticks of later rounds lie after the last one.\<close>

lemma run_job_ticks:
  assumes "\<And>a tk. after a = Some tk \<Longrightarrow> a < tk"
    and "run_job sc after j n prev fires s = (l, fires', s')"
    and "sorted_wrt (<) (map fst fires)" "\<And>tk. tk \<in> fst ` set fires \<Longrightarrow> \<exists>m. prev = Some m \<and> tk \<le> m"
    and "\<And>tk. tk \<in> fst ` set fires \<Longrightarrow> \<exists>a. after a = Some tk"
  shows "sorted_wrt (<) (map fst fires') \<and> (\<forall>tk\<in>fst ` set fires'. \<exists>a. after a = Some tk)"
  using assms(2-)
proof (induction n arbitrary: prev fires s)
  case 0
  then show ?case by auto
next
  case (Suc n)
  obtain now s1 where now: "sc_now sc s = (now, s1)" by force
  let ?a = "case prev of None \<Rightarrow> now | Some m \<Rightarrow> max m now"
  have stop: ?case if "fires' = fires" using that Suc.prems(2,4) by blast
  show ?case
  proof (cases "sc_shutdown sc s \<or> after ?a = None")
    case True
    then have "fires' = fires" using Suc.prems(1) now by (cases "sc_shutdown sc s") simp_all
    then show ?thesis by (rule stop)
  next
    case False
    then obtain tk where tk: "after ?a = Some tk" by blast
    have less: "x < tk" if "x \<in> fst ` set fires" for x
      using Suc.prems(3) [OF that] assms(1) [OF tk] by auto
    then have so: "sorted_wrt (<) (map fst (fires @ [(tk, f)]))" for f
      using Suc.prems(2) by (auto simp: sorted_wrt_append)
    have mem: "\<exists>a. after a = Some x" if "x \<in> fst ` set (fires @ [(tk, f)])" for x f
      using that Suc.prems(4) tk by auto
    show ?thesis
    proof (cases "sleep_until sc tk s1")
      case None
      then show ?thesis using Suc.prems(1) now False tk stop by simp
    next
      case (Some bs)
      obtain b s2 where bs: "bs = (b, s2)" by force
      obtain f s3 where f: "run_locked sc j s2 = (f, s3)" by force
      show ?thesis
      proof (cases "b \<and> f \<noteq> FirePanicked")
        case True
        then have "run_job sc after j n (Some tk) (fires @ [(tk, f)]) s3 = (l, fires', s')"
          using Suc.prems(1) now False tk Some bs f by (cases f) simp_all
        then show ?thesis
          by (rule Suc.IH [OF _ so _ mem]) (use less in fastforce)+
      next
        case nb: False
        then have "fires' = fires \<or> fires' = fires @ [(tk, FirePanicked)]"
          using Suc.prems(1) now False tk Some bs f by (cases b; cases f) auto
        then show ?thesis using stop so [of FirePanicked] mem [where f = FirePanicked] by metis
      qed
    qed
  qed
qed

section \<open>Lemmas on locked runs\<close>

text \<open>A run takes place between a granted acquire and an unlock under the same token.\<close>

definition ran_under_lock ::
  "'s run_lock \<Rightarrow> ('s \<Rightarrow> string \<Rightarrow> string option) \<Rightarrow> string \<Rightarrow> string \<Rightarrow> 's \<Rightarrow> 's \<Rightarrow> 's \<Rightarrow> bool" where
  "ran_under_lock L holder name token s1 s2 s' \<longleftrightarrow>
     holder s1 name = Some token \<and> s' = snd (rl_unlock L name token s2) \<and>
     (\<forall>u. fst (rl_unlock L name token s2) = Within (Inr u) \<longrightarrow> holder s' name \<noteq> Some token)"

context run_lock_contract
begin

lemma unlock_ends_run:
  assumes "acquire name L s = (Taken g, s1)"
  shows "ran_under_lock L holder name (fst (rl_new_token L s)) s1 s2 (guard_drop L g s2)"
    and "ran_under_lock L holder name (fst (rl_new_token L s)) s1 s2 (snd (release_as L g s2))"
  using acquire_taken [OF assms] unlocked
  by (auto simp: ran_under_lock_def guard_drop_def release_as_def prod_eq_iff
      split: prod.splits timed.splits sum.splits)

lemma run_once_under_lock:
  assumes "run_once_locked j L dl s = (r, s')"
  shows "r = Some (Inl (AlreadyRunning (j_name j))) \<and> holder s' (j_name j) \<noteq> None \<or>
    (\<exists>e. r = Some (Inl (JobLock e))) \<or> r = Some (Inl (JobLockTimedOut (j_name j))) \<or>
    (\<exists>s1 s2. snd (j_run j (dl s1) s1) = s2 \<and> ran_under_lock L holder (j_name j) (fst (rl_new_token L s)) s1 s2 s')"
proof -
  obtain a s1 where a: "acquire (j_name j) L s = (a, s1)" by force
  show ?thesis
  proof (cases a)
    case (Taken g)
    note g = unlock_ends_run [OF a [unfolded Taken]]
    obtain fin s2 where run: "j_run j (dl s1) s1 = (fin, s2)" by force
    have "s' = guard_drop L g s2 \<or> s' = snd (release_as L g s2)"
      using assms a Taken run
      by (auto simp: run_once_locked_def split: race.splits option.splits)
    then show ?thesis using g run by (metis snd_conv)
  next
    case Held
    then show ?thesis using assms a acquire_held by (auto simp: run_once_locked_def)
  qed (use assms a in \<open>auto simp: run_once_locked_def\<close>)
qed

lemma run_locked_under_lock:
  assumes "run_locked sc j s = (f, s')" "sc_lock sc = L" "\<nexists>r. f = FireSkipped r"
  shows "\<exists>s1 s2 cut. snd (j_run j cut s1) = s2 \<and> ran_under_lock L holder (j_name j) (fst (rl_new_token L s)) s1 s2 s'"
proof -
  obtain a s1 where a: "acquire (j_name j) L s = (a, s1)" by force
  obtain shut dl where cut: "sc_cut sc s1 = (shut, dl)" by force
  have "\<not> sc_shutdown sc s" using assms by (auto simp: run_locked_def)
  then obtain g where g: "a = Taken g" using assms a by (cases a) (auto simp: run_locked_def)
  note u = unlock_ends_run [OF a [unfolded g]]
  obtain fin s2 where run: "j_run j (cut_at shut dl) s1 = (fin, s2)" by force
  have "s' = guard_drop L g s2 \<or> s' = snd (release_as L g s2)"
    using assms a g run cut \<open>\<not> sc_shutdown sc s\<close>
    by (auto simp: run_locked_def split: race.splits option.splits)
  then show ?thesis using u run by (metis snd_conv)
qed

end

section \<open>Lemmas on the configuration\<close>

lemma schedule_jobs_Inr:
  "schedule_jobs C now cfg js = Inr xs \<Longrightarrow>
     map snd xs = filter (\<lambda>j. job_config cfg j \<noteq> None) js \<and>
     (\<forall>(c, j)\<in>set xs. \<exists>e. job_config cfg j = Some e \<and> validate_cron C now e = Inr c)"
proof (induction js arbitrary: xs)
  case (Cons j js)
  then obtain c rest where c: "job_cron C now (job_config cfg j) = Inr c" "schedule_jobs C now cfg js = Inr rest"
    "xs = (case c of None \<Rightarrow> rest | Some sched \<Rightarrow> (sched, j) # rest)"
    by (auto split: sum.splits)
  then show ?case
    using Cons.IH [OF c(2)] by (auto simp: job_cron_def split: option.splits sum.splits)
qed simp

lemma schedule_jobs_ok:
  "(\<exists>xs. schedule_jobs C now cfg js = Inr xs) \<longleftrightarrow>
     (\<forall>j\<in>set js. \<forall>e. job_config cfg j = Some e \<longrightarrow> (\<exists>c. validate_cron C now e = Inr c))"
proof (induction js)
  case (Cons j js)
  have "(\<exists>c. job_cron C now (job_config cfg j) = Inr c) \<longleftrightarrow>
      (\<forall>e. job_config cfg j = Some e \<longrightarrow> (\<exists>c. validate_cron C now e = Inr c))"
    by (auto simp: job_cron_def split: option.splits sum.splits)
  moreover have "(\<exists>xs. schedule_jobs C now cfg (j # js) = Inr xs) \<longleftrightarrow>
      (\<exists>c. job_cron C now (job_config cfg j) = Inr c) \<and> (\<exists>xs. schedule_jobs C now cfg js = Inr xs)"
    by (cases "job_cron C now (job_config cfg j)"; cases "schedule_jobs C now cfg js") auto
  ultimately show ?case using Cons.IH by simp
qed simp

lemma unknown_sections_empty: "unknown_sections jobs cfg = [] \<longleftrightarrow> fst ` set cfg \<subseteq> j_name ` set jobs"
proof -
  have "unknown_sections jobs cfg = [] \<longleftrightarrow> set (unknown_sections jobs cfg) = {}" by simp
  then show ?thesis by (auto simp: unknown_sections_def job_names_def)
qed

section \<open>Properties\<close>

text \<open>C25. A tick fires at most once, however the wall clock jumps: the ticks a job's scheduler
  fires are strictly increasing fire times of its schedule, skipped and failed runs included.\<close>

theorem ticks_fire_once:
  assumes "\<forall>a tk. after a = Some tk \<longrightarrow> a < tk" and "run_job sc after j n None [] s = (l, fires, s')"
  shows "sorted_wrt (<) (map fst fires) \<and> (\<forall>tk\<in>fst ` set fires. \<exists>a. after a = Some tk)"
  by (rule run_job_ticks [OF _ assms(2)]) (use assms(1) in auto)

text \<open>The deadline of a run is kept on the wall clock: \<open>sleep_wall\<close> returns, not before the
  time has passed and at most the delay of a single sleep after it, because the delays of the
  chunks do not add up. With a delay of up to the lease margin less one lock round trip this is
  the bound that the exclusion of runs relies on.\<close>

theorem sleep_wall_bounds:
  assumes "\<forall>s. now s = (clk s, s)" and "0 \<le> dur" and "0 < max_sleep" and "0 \<le> ov"
    and "\<forall>d s. 0 < d \<longrightarrow> clk s + d \<le> clk (slp d s) \<and> clk (slp d s) \<le> clk s + d + ov"
  shows "\<exists>s'. sleep_wall now slp dur max_sleep s = Some s' \<and>
    clk s + dur \<le> clk s' \<and> clk s' \<le> clk s + dur + ov"
  using sleep_wall_loop_ends [of now clk slp ov max_sleep "clk s" s dur] assms by (simp add: sleep_wall_def)

text \<open>A job runs only while its run lock on Redis is held: a run on demand either reports that the
  slot is taken or that the lock failed, or its run started in a state where Redis held the
  run's own token, and ended with the release of that token, which, if acknowledged, freed it.\<close>

theorem on_demand_run_holds_lock:
  assumes "run_once_locked j (redis_run_lock pid seed elapsed) dl s = (r, s')"
  shows "r = Some (Inl (AlreadyRunning (j_name j))) \<and> lease_of (kv (lw_redis s')) (job_key (j_name j)) \<noteq> None \<or>
    (\<exists>e. r = Some (Inl (JobLock e))) \<or> r = Some (Inl (JobLockTimedOut (j_name j))) \<or>
    (\<exists>s1 s2. snd (j_run j (dl s1) s1) = s2 \<and>
       ran_under_lock (redis_run_lock pid seed elapsed) (\<lambda>s job. lease_of (kv (lw_redis s)) (job_key job))
         (j_name j) (token_text pid seed (lw_counter s)) s1 s2 s')"
  using redis_lock.run_once_under_lock [OF assms]
  by (simp add: redis_run_lock_def new_token_def)

text \<open>A scheduled fire that is not skipped ran the job under the run lock in the same way.\<close>

theorem scheduled_run_holds_lock:
  assumes "run_locked sc j s = (f, s')" and "sc_lock sc = redis_run_lock pid seed elapsed"
    and "\<nexists>r. f = FireSkipped r"
  shows "\<exists>s1 s2 cut. snd (j_run j cut s1) = s2 \<and>
    ran_under_lock (redis_run_lock pid seed elapsed) (\<lambda>s job. lease_of (kv (lw_redis s)) (job_key job))
      (j_name j) (token_text pid seed (lw_counter s)) s1 s2 s'"
  using redis_lock.run_locked_under_lock [OF assms] by (simp add: redis_run_lock_def new_token_def)

text \<open>The configuration is accepted exactly when every section names a registered job and every
  cron text in force is valid; then the scheduled jobs are the registered ones with a cron text, in
  the order of the registry, each with the schedule of its text.\<close>

theorem scheduled_jobs_spec:
  "(\<exists>xs. scheduled_jobs C now jobs cfg = Inr xs \<and>
      map snd xs = filter (\<lambda>j. job_config cfg j \<noteq> None) jobs \<and>
      (\<forall>(c, j)\<in>set xs. \<exists>e. job_config cfg j = Some e \<and> validate_cron C now e = Inr c)) \<longleftrightarrow>
   fst ` set cfg \<subseteq> j_name ` set jobs \<and>
   (\<forall>j\<in>set jobs. \<forall>e. job_config cfg j = Some e \<longrightarrow> (\<exists>c. validate_cron C now e = Inr c))"
proof (cases "unknown_sections jobs cfg = []")
  case True
  then show ?thesis
    using unknown_sections_empty [of jobs cfg] schedule_jobs_ok [of C now cfg jobs] schedule_jobs_Inr [of C now cfg jobs]
    by (auto simp: scheduled_jobs_def)
next
  case False
  then show ?thesis using unknown_sections_empty [of jobs cfg] by (simp add: scheduled_jobs_def)
qed

section \<open>A concrete scheduler\<close>

text \<open>A process with the lock to itself, a schedule that fires every ten nanoseconds, and a job
  that ends at once.\<close>

definition demo_clock :: "lock_world \<Rightarrow> instant" where
  "demo_clock s = lk_now (kv (lw_redis s))"

definition demo_sleep :: "int \<Rightarrow> lock_world \<Rightarrow> lock_world" where
  "demo_sleep d s = s\<lparr>lw_redis := (lw_redis s)\<lparr>kv := (kv (lw_redis s))\<lparr>lk_now := demo_clock s + d\<rparr>\<rparr>\<rparr>"

definition demo_scheduler :: "lock_world scheduler" where
  "demo_scheduler = \<lparr>sc_now = (\<lambda>s. (demo_clock s, s)), sc_lock = redis_run_lock 1 7 (\<lambda>_. False),
     sc_shutdown = (\<lambda>_. False), sc_wait = (\<lambda>d s. (False, demo_sleep d s)),
     sc_cut = (\<lambda>s. (None, demo_clock s + MAX_RUN)), sc_max_sleep = MAX_SLEEP\<rparr>"

definition demo_job :: "lock_world job" where
  "demo_job = \<lparr>j_name = ''j'', j_default_cron = None, j_run = (\<lambda>cut s. (Some (demo_clock s, Some (Inr ())), s))\<rparr>"

definition demo_lock_world :: lock_world where
  "demo_lock_world = \<lparr>lw_counter = 0, lw_redis = calm_world \<lparr>lk_now = 0, lk_leases = Map.empty\<rparr>\<rparr>"

lemmas demo_run_simps =
  run_locked_def demo_scheduler_def demo_job_def acquire_def redis_run_lock_def new_token_def
  timed_call_def try_acquire_lock_def redis_call_def env_step_def set_nx_ex_def lease_of_def Let_def
  select_run_def cut_at_def release_as_def release_lock_def demo_clock_def demo_lock_world_def calm_world_def
  MAX_RUN_def NANOS_def

lemma demo_sleep_until:
  "sleep_until demo_scheduler 10 demo_lock_world = Some (True, demo_sleep 10 demo_lock_world)"
  by (subst sleep_until.simps, subst sleep_until.simps)
    (simp add: demo_scheduler_def demo_sleep_def demo_clock_def demo_lock_world_def calm_world_def
      MAX_SLEEP_def NANOS_def)

lemma demo_fire: "fst (run_locked demo_scheduler demo_job (demo_sleep 10 demo_lock_world)) = FireCompleted RunOk"
  by (simp add: demo_run_simps demo_sleep_def)

theorem ticks_fire_once_witness:
  "\<exists>l s'. run_job demo_scheduler (\<lambda>a. Some (a + 10)) demo_job 1 None [] demo_lock_world =
      (l, [(10, FireCompleted RunOk)], s') \<and> sorted_wrt (<) (map fst [(10 :: int, FireCompleted RunOk)])"
proof -
  obtain s3 where f: "run_locked demo_scheduler demo_job (demo_sleep 10 demo_lock_world) = (FireCompleted RunOk, s3)"
    using demo_fire by (metis prod.collapse)
  have "sc_now demo_scheduler demo_lock_world = (0, demo_lock_world)"
    by (simp add: demo_scheduler_def demo_clock_def demo_lock_world_def)
  then have run: "run_job demo_scheduler (\<lambda>a. Some (a + 10)) demo_job 1 None [] demo_lock_world =
      (Looping, [(10, FireCompleted RunOk)], s3)"
    using f demo_sleep_until by (simp add: demo_scheduler_def)
  show ?thesis using ticks_fire_once [OF _ run] run by simp
qed

theorem sleep_wall_bounds_witness:
  "\<exists>s'. sleep_wall (\<lambda>s. (s, s)) (\<lambda>d s. s + d + 1) MAX_RUN MAX_SLEEP (0 :: int) = Some s' \<and>
     MAX_RUN \<le> s' \<and> s' \<le> MAX_RUN + 1"
  using sleep_wall_bounds [of "\<lambda>s. (s, s)" "\<lambda>s. s" MAX_RUN MAX_SLEEP 1 "\<lambda>d s. s + d + 1" 0]
  by (simp add: MAX_RUN_def MAX_SLEEP_def NANOS_def)

theorem on_demand_run_holds_lock_witness:
  "\<exists>s' s1 s2. run_once_locked demo_job (redis_run_lock 1 7 (\<lambda>_. False)) (\<lambda>s. demo_clock s + MAX_RUN) demo_lock_world =
      (Some (Inr ()), s') \<and>
     ran_under_lock (redis_run_lock 1 7 (\<lambda>_. False)) (\<lambda>s job. lease_of (kv (lw_redis s)) (job_key job))
       ''j'' (token_text 1 7 0) s1 s2 s'"
proof -
  have "fst (run_once_locked demo_job (redis_run_lock 1 7 (\<lambda>_. False)) (\<lambda>s. demo_clock s + MAX_RUN) demo_lock_world) =
      Some (Inr ())"
    by (simp add: run_once_locked_def demo_run_simps)
  then obtain s' where run: "run_once_locked demo_job (redis_run_lock 1 7 (\<lambda>_. False)) (\<lambda>s. demo_clock s + MAX_RUN)
      demo_lock_world = (Some (Inr ()), s')"
    by (metis prod.collapse)
  have n: "j_name demo_job = ''j''" "lw_counter demo_lock_world = 0"
    by (simp_all add: demo_job_def demo_lock_world_def)
  show ?thesis using on_demand_run_holds_lock [OF run] run unfolding n by blast
qed

theorem scheduled_run_holds_lock_witness:
  "\<exists>s' s1 s2. run_locked demo_scheduler demo_job demo_lock_world = (FireCompleted RunOk, s') \<and>
     ran_under_lock (redis_run_lock 1 7 (\<lambda>_. False)) (\<lambda>s job. lease_of (kv (lw_redis s)) (job_key job))
       ''j'' (token_text 1 7 0) s1 s2 s'"
proof -
  have "fst (run_locked demo_scheduler demo_job demo_lock_world) = FireCompleted RunOk"
    by (simp add: demo_run_simps)
  then obtain s' where run: "run_locked demo_scheduler demo_job demo_lock_world = (FireCompleted RunOk, s')"
    by (metis prod.collapse)
  have n: "j_name demo_job = ''j''" "lw_counter demo_lock_world = 0" "sc_lock demo_scheduler = redis_run_lock 1 7 (\<lambda>_. False)"
    by (simp_all add: demo_job_def demo_lock_world_def demo_scheduler_def)
  show ?thesis using scheduled_run_holds_lock [OF run n(3)] run unfolding n by blast
qed

definition demo_cron :: "unit cron" where
  "demo_cron = \<lparr>c_parse = (\<lambda>e. if e = ''bad'' then Inl ''no'' else Inr ()), c_after = (\<lambda>_ t. Some (t + 1))\<rparr>"

theorem scheduled_jobs_spec_witness:
  "\<exists>xs. scheduled_jobs demo_cron 0 [demo_job] [(''j'', Some ''@daily'')] = Inr xs \<and> map snd xs = [demo_job]"
  using scheduled_jobs_spec [of demo_cron 0 "[demo_job]" "[(''j'', Some ''@daily'')]"]
  by (auto simp: demo_job_def demo_cron_def job_config_def validate_cron_def)

text \<open>
  A host that is suspended during a run counts as a sleep that takes longer than asked for: the
  deadline is then noticed up to one chunk after the host wakes, when the lease may be gone.
\<close>

lemma suspended_run_outlives_lease:
  "sleep_wall (\<lambda>s. (s, s)) (\<lambda>d s. if s = 0 then s + 7200 * NANOS + d else s + d) MAX_RUN MAX_SLEEP (0 :: int) =
     Some (7200 * NANOS + MAX_SLEEP) \<and> int LOCK_TTL_SECS * NANOS < 7200 * NANOS"
  by (simp add: sleep_wall_def)
    (subst sleep_wall_loop.simps, subst sleep_wall_loop.simps, simp add: lock_consts MAX_SLEEP_def)

end
