(* ===== verification/User_Hs_Resolver.thy ===== *)
theory User_Hs_Resolver
  imports Redis_World Hs_Backoff
begin

text \<open>
  The periodic task that keeps the homeserver of every user
  (nexus-watcher/src/service/user_hs_resolver.rs): the users that are due, the order they are
  looked up in, the check of the published record (nexus-common/src/models/user/homeserver_resolver.rs),
  and the binding on the graph (queries put.rs and get.rs, models/user/details.rs). The PKDNS client
  and the codec of public keys are parameters. Metrics are left out.
\<close>

section \<open>Published records\<close>

type_synonym bytes = "8 word list"

text \<open>The data of a \<open>_pubky\<close> resource record.\<close>

datatype rdata = SVCB string | HTTPS string | OtherRData

record signed_packet =
  sp_public_key :: bytes
  sp_timestamp :: u64
  sp_bytes :: bytes
  sp_pubky_records :: "rdata list"

datatype pkdns_record = Missing | Published signed_packet

text \<open>\<open>hex::encode\<close> and \<open>hex::decode\<close>; the decoder also reads capital letters.\<close>

definition hex_digit :: "nat \<Rightarrow> char" where
  "hex_digit n = char_of (if n < 10 then 48 + n else 87 + n)"

definition hex_value :: "char \<Rightarrow> nat option" where
  "hex_value c =
     (let n = of_char c :: nat in
      if 48 \<le> n \<and> n \<le> 57 then Some (n - 48)
      else if 97 \<le> n \<and> n \<le> 102 then Some (n - 87)
      else if 65 \<le> n \<and> n \<le> 70 then Some (n - 55)
      else None)"

definition hex_encode :: "bytes \<Rightarrow> string" where
  "hex_encode bs = concat (map (\<lambda>b. [hex_digit (unat b div 16), hex_digit (unat b mod 16)]) bs)"

fun hex_decode :: "string \<Rightarrow> bytes option" where
  "hex_decode [] = Some []"
| "hex_decode [_] = None"
| "hex_decode (a # b # cs) =
     (case hex_value a of
        None \<Rightarrow> None
      | Some m \<Rightarrow>
          (case hex_value b of
             None \<Rightarrow> None
           | Some n \<Rightarrow> map_option ((#) (of_nat (16 * m + n))) (hex_decode cs)))"

record stored_record =
  sr_packet :: string
  sr_timestamp :: int

text \<open>\<open>TryFrom<&SignedPacket>\<close>: the timestamp has to fit an i64.\<close>

definition stored_of_packet :: "signed_packet \<Rightarrow> stored_record option" where
  "stored_of_packet p =
     (if uint (sp_timestamp p) < 2 ^ 63
      then Some \<lparr>sr_packet = hex_encode (sp_bytes p), sr_timestamp = uint (sp_timestamp p)\<rparr> else None)"

definition record_stored :: "pkdns_record \<Rightarrow> stored_record option" where
  "record_stored r = (case r of Missing \<Rightarrow> None | Published p \<Rightarrow> stored_of_packet p)"

text \<open>\<open>relay\<close> is \<open>SignedPacket::from_relay_payload\<close>, which checks the signature.\<close>

datatype verify_error = NotHex | TooShort | SignedByAnotherKey | BadPayload string

definition verify ::
  "(bytes \<Rightarrow> bytes \<Rightarrow> (string, signed_packet) result) \<Rightarrow> stored_record \<Rightarrow> bytes \<Rightarrow> (verify_error, signed_packet) result" where
  "verify relay r user =
     (case hex_decode (sr_packet r) of
        None \<Rightarrow> Inl NotHex
      | Some bs \<Rightarrow>
          if length bs < 32 then Inl TooShort
          else if take 32 bs \<noteq> user then Inl SignedByAnotherKey
          else case relay user (drop 32 bs) of Inl e \<Rightarrow> Inl (BadPayload e) | Inr p \<Rightarrow> Inr p)"

section \<open>The resolver\<close>

datatype cut = NotCut | CutBefore | CutDuring

text \<open>
  \<open>re_parse_pk\<close> parses an id, \<open>re_z32\<close> prints a key, \<open>re_target\<close> parses the target of a record,
  \<open>re_resolve\<close> is the client's lookup, \<open>re_now\<close> the monotonic clock, and \<open>re_cut n\<close> says whether a change of the shutdown
  channel stops the run at its \<open>n\<close>-th user, before or during the resolution.
\<close>

record 's resolver =
  re_parse_pk :: "string \<Rightarrow> bytes option"
  re_z32 :: "bytes \<Rightarrow> string"
  re_target :: "string \<Rightarrow> bytes option"
  re_resolve :: "bytes \<Rightarrow> 's \<Rightarrow> (string, pkdns_record) result \<times> 's"
  re_now :: "'s \<Rightarrow> instant \<times> 's"
  re_ttl_ms :: u64
  re_cut :: "nat \<Rightarrow> cut"

fun target_of :: "rdata \<Rightarrow> string option" where
  "target_of (SVCB t) = Some t"
| "target_of (HTTPS t) = Some t"
| "target_of OtherRData = None"

fun find_map :: "('a \<Rightarrow> 'b option) \<Rightarrow> 'a list \<Rightarrow> 'b option" where
  "find_map f [] = None"
| "find_map f (x # xs) = (case f x of None \<Rightarrow> find_map f xs | Some y \<Rightarrow> Some y)"

definition published_homeserver :: "'s resolver \<Rightarrow> signed_packet \<Rightarrow> string option" where
  "published_homeserver R p =
     (case find_map target_of (sp_pubky_records p) of
        None \<Rightarrow> None
      | Some t \<Rightarrow> map_option (re_z32 R) (re_target R t))"

definition record_homeserver :: "'s resolver \<Rightarrow> pkdns_record \<Rightarrow> string option" where
  "record_homeserver R r = (case r of Missing \<Rightarrow> None | Published p \<Rightarrow> published_homeserver R p)"

definition resolve_own_record :: "'s resolver \<Rightarrow> bytes \<Rightarrow> 's \<Rightarrow> (string, pkdns_record) result \<times> 's" where
  "resolve_own_record R user s =
     (case re_resolve R user s of
        (Inl e, s1) \<Rightarrow> (Inl e, s1)
      | (Inr Missing, s1) \<Rightarrow> (Inr Missing, s1)
      | (Inr (Published p), s1) \<Rightarrow>
          if sp_public_key p \<noteq> user
          then (Inl (''PKDNS answer for '' @ re_z32 R user @ '' is signed by '' @ re_z32 R (sp_public_key p)), s1)
          else if stored_of_packet p = None then (Inr Missing, s1)
          else (Inr (Published p), s1))"

section \<open>Bindings on the graph\<close>

text \<open>
  A \<open>HOSTED_BY\<close> edge with its properties, absent ones being null. \<open>ug_hosted\<close> gives the edges of a
  user, \<open>ug_users\<close> the user nodes with their flag \<open>deleted\<close> (null counts as false), both in the
  order the database returns them.
\<close>

record hosted_by =
  ho_resolved_at :: "int option"
  ho_stale :: "bool option"
  ho_record :: "string option"
  ho_record_ts :: "int option"

record user_graph =
  ug_users :: "(string \<times> bool) list"
  ug_homeservers :: "string set"
  ug_hosted :: "string \<Rightarrow> (string \<times> hosted_by) list"

definition new_edge :: hosted_by where
  "new_edge = \<lparr>ho_resolved_at = None, ho_stale = None, ho_record = None, ho_record_ts = None\<rparr>"

definition coalesce :: "'a option \<Rightarrow> 'a option \<Rightarrow> 'a option" where
  "coalesce a b = (case a of None \<Rightarrow> b | Some _ \<Rightarrow> a)"

definition touch_edge :: "int \<Rightarrow> stored_record option \<Rightarrow> hosted_by \<Rightarrow> hosted_by" where
  "touch_edge now r e =
     e\<lparr>ho_resolved_at := Some now, ho_record := coalesce (map_option sr_packet r) (ho_record e),
       ho_record_ts := coalesce (map_option sr_timestamp r) (ho_record_ts e)\<rparr>"

definition set_user_homeserver ::
  "int \<Rightarrow> string \<Rightarrow> string \<Rightarrow> stored_record option \<Rightarrow> user_graph \<Rightarrow> user_graph" where
  "set_user_homeserver now u hs r g =
     (if u \<notin> fst ` set (ug_users g) then g
      else let kept = filter (\<lambda>(h, _). h = hs) (ug_hosted g u);
               merged = (if kept = [] then [(hs, new_edge)] else kept)
           in g\<lparr>ug_homeservers := insert hs (ug_homeservers g),
                ug_hosted := (ug_hosted g)(u := map (\<lambda>(h, e). (h, touch_edge now r e)) merged)\<rparr>)"

definition set_user_homeserver_stale ::
  "int \<Rightarrow> string \<Rightarrow> bool \<Rightarrow> stored_record option \<Rightarrow> user_graph \<Rightarrow> user_graph" where
  "set_user_homeserver_stale now u stale r g =
     g\<lparr>ug_hosted := (ug_hosted g)
         (u := map (\<lambda>(h, e). (h, (touch_edge now r e)\<lparr>ho_stale := Some stale\<rparr>)) (ug_hosted g u))\<rparr>"

record user_homeserver_mapping =
  um_hs_id :: string
  um_stale :: bool

definition get_user_homeserver :: "string \<Rightarrow> user_graph \<Rightarrow> user_homeserver_mapping option" where
  "get_user_homeserver u g =
     (case ug_hosted g u of
        [] \<Rightarrow> None
      | (hs, e) # _ \<Rightarrow> Some \<lparr>um_hs_id = hs, um_stale = (case ho_stale e of None \<Rightarrow> False | Some b \<Rightarrow> b)\<rparr>)"

text \<open>One row per edge that is due, and one for a user without an edge.\<close>

definition due_edge :: "int \<Rightarrow> u64 \<Rightarrow> hosted_by \<Rightarrow> bool" where
  "due_edge now ttl e = (case ho_resolved_at e of None \<Rightarrow> True | Some t \<Rightarrow> t < now - wrap_i64 (uint ttl))"

definition get_users_needing_resolution :: "int \<Rightarrow> u64 \<Rightarrow> user_graph \<Rightarrow> string list" where
  "get_users_needing_resolution now ttl g =
     concat (map (\<lambda>(u, deleted).
       if deleted then []
       else if ug_hosted g u = [] then [u]
       else map (\<lambda>_. u) (filter (\<lambda>(h, e). due_edge now ttl e) (ug_hosted g u))) (ug_users g))"

definition get_user_ids_by_homeserver :: "string \<Rightarrow> user_graph \<Rightarrow> string list" where
  "get_user_ids_by_homeserver hs g =
     concat (map (\<lambda>(u, deleted).
       if deleted then []
       else map (\<lambda>_. u) (filter (\<lambda>(h, e). h = hs \<and> ho_stale e \<noteq> Some True) (ug_hosted g u))) (ug_users g))"

section \<open>Unbound users\<close>

record unbound_entry =
  ub_next_attempt :: instant
  ub_wait :: int

type_synonym unbound_backoff = "string \<rightharpoonup> unbound_entry"

definition UNBOUND_RETRY_INITIAL :: int where
  "UNBOUND_RETRY_INITIAL = 60 * NANOS"

definition DURATION_MAX :: int where
  "DURATION_MAX = (2 ^ 64 - 1) * NANOS + 999999999"

text \<open>
  \<open>ttl\<close> is a number of milliseconds of type u64, so the sum \<open>now + w\<close> is far from the end of the
  range of instants.
\<close>

definition retain_due :: "unbound_backoff \<Rightarrow> string list \<Rightarrow> instant \<Rightarrow> string list \<times> unbound_backoff" where
  "retain_due b users now =
     (let b' = b |` set users in
      (filter (\<lambda>u. case b' u of None \<Rightarrow> True | Some e \<Rightarrow> ub_next_attempt e \<le> now) users, b'))"

definition record_unbound :: "unbound_backoff \<Rightarrow> string \<Rightarrow> instant \<Rightarrow> int \<Rightarrow> unbound_backoff" where
  "record_unbound b u now ttl =
     (let w = min (case b u of Some e \<Rightarrow> min (ub_wait e * 2) DURATION_MAX | None \<Rightarrow> UNBOUND_RETRY_INITIAL) ttl
      in b(u \<mapsto> \<lparr>ub_next_attempt = now + w, ub_wait = w\<rparr>))"

definition unbound_clear :: "unbound_backoff \<Rightarrow> string \<Rightarrow> unbound_backoff" where
  "unbound_clear b u = b(u := None)"

section \<open>Resolving one user\<close>

datatype stale_reason = Unresolved | HsChanged
datatype mapping_state = MsUnbound | MsActive | MsStale
datatype resolution =
    Unbound
  | Bound
  | Confirmed bool
  | Diverged stale_reason bool
  | LookupFailed mapping_state

definition mapping_state_of :: "user_homeserver_mapping option \<Rightarrow> mapping_state" where
  "mapping_state_of m = (case m of None \<Rightarrow> MsUnbound | Some x \<Rightarrow> if um_stale x then MsStale else MsActive)"

datatype outcome = OResolved | OUnresolved | OError

fun resolution_outcome :: "resolution \<Rightarrow> outcome" where
  "resolution_outcome Bound = OResolved"
| "resolution_outcome (Confirmed _) = OResolved"
| "resolution_outcome (Diverged HsChanged _) = OResolved"
| "resolution_outcome Unbound = OUnresolved"
| "resolution_outcome (Diverged Unresolved _) = OUnresolved"
| "resolution_outcome (LookupFailed _) = OError"

fun resolution_mapping :: "resolution \<Rightarrow> mapping_state" where
  "resolution_mapping Unbound = MsUnbound"
| "resolution_mapping Bound = MsUnbound"
| "resolution_mapping (Confirmed was_stale) = (if was_stale then MsStale else MsActive)"
| "resolution_mapping (Diverged _ was_stale) = (if was_stale then MsStale else MsActive)"
| "resolution_mapping (LookupFailed m) = m"

fun newly_stale :: "resolution \<Rightarrow> stale_reason option" where
  "newly_stale (Diverged reason False) = Some reason"
| "newly_stale _ = None"

text \<open>A graph write at the database's time.\<close>

definition graph_write :: "(int \<Rightarrow> user_graph \<Rightarrow> user_graph) \<Rightarrow> user_graph world \<Rightarrow> (graph_error, unit) result \<times> user_graph world" where
  "graph_write f w = graph_call (\<lambda>g. ((), f (clock w (tick w)) g)) w"

definition resolve_user ::
  "user_graph world resolver \<Rightarrow> bytes \<Rightarrow> user_graph world \<Rightarrow> (graph_error, resolution) result \<times> user_graph world" where
  "resolve_user R pk w =
     (let u = re_z32 R pk in
      case graph_call (\<lambda>g. (get_user_homeserver u g, g)) w of
        (Inl e, w1) \<Rightarrow> (Inl e, w1)
      | (Inr stored, w1) \<Rightarrow>
          (case resolve_own_record R pk w1 of
             (Inl _, w2) \<Rightarrow> (Inr (LookupFailed (mapping_state_of stored)), w2)
           | (Inr rcd, w2) \<Rightarrow>
               (case stored of
                  None \<Rightarrow>
                    (case rcd of
                       Missing \<Rightarrow> (Inr Unbound, w2)
                     | Published _ \<Rightarrow>
                         (case (record_homeserver R rcd, record_stored rcd) of
                            (Some hs, Some sr) \<Rightarrow>
                              (case graph_write (\<lambda>now. set_user_homeserver now u hs (Some sr)) w2 of
                                 (Inl e, w3) \<Rightarrow> (Inl e, w3)
                               | (Inr _, w3) \<Rightarrow> (Inr Bound, w3))
                          | _ \<Rightarrow> (Inr Unbound, w2)))
                | Some m \<Rightarrow>
                    let published = record_homeserver R rcd; same = (published = Some (um_hs_id m)) in
                    case graph_write (\<lambda>now. set_user_homeserver_stale now u (\<not> same) (record_stored rcd)) w2 of
                      (Inl e, w3) \<Rightarrow> (Inl e, w3)
                    | (Inr _, w3) \<Rightarrow>
                        (Inr (if same then Confirmed (um_stale m)
                              else Diverged (case published of None \<Rightarrow> Unresolved | Some _ \<Rightarrow> HsChanged) (um_stale m)),
                         w3))))"

section \<open>The order of the lookups\<close>

text \<open>The breadth-first walk over the halves of the sorted keys; an entry of the queue is \<open>[lo, hi)\<close>.\<close>

function bisect :: "'a list \<Rightarrow> (nat \<times> nat) list \<Rightarrow> 'a list" where
  "bisect xs [] = []"
| "bisect xs ((lo, hi) # q) =
     (if hi \<le> lo then bisect xs q
      else let mid = lo + (hi - lo) div 2 in xs ! mid # bisect xs (q @ [(lo, mid), (mid + 1, hi)]))"
  by pat_completeness auto

termination bisect
proof (relation "measure (\<lambda>(xs, q). \<Sum>(lo, hi)\<leftarrow>q. 2 * (hi - lo) + 1)")
  show "wf (measure (\<lambda>(xs, q). \<Sum>(lo, hi)\<leftarrow>q. 2 * (hi - lo) + 1))" by simp
next
  fix xs :: "'a list" and lo hi :: nat and q
  show "((xs, q), xs, (lo, hi) # q) \<in> measure (\<lambda>(xs, q). \<Sum>(lo, hi)\<leftarrow>q. 2 * (hi - lo) + 1)" by simp
next
  fix xs :: "'a list" and lo hi mid :: nat and q
  assume "\<not> hi \<le> lo" "mid = lo + (hi - lo) div 2"
  then have "2 * (mid - lo) + (2 * (hi - (mid + 1)) + 2) < 2 * (hi - lo) + 1" by simp
  then show "((xs, q @ [(lo, mid), (mid + 1, hi)]), xs, (lo, hi) # q)
      \<in> measure (\<lambda>(xs, q). \<Sum>(lo, hi)\<leftarrow>q. 2 * (hi - lo) + 1)" by simp
qed

definition bisection_order_user_pks :: "bytes list \<Rightarrow> bytes list" where
  "bisection_order_user_pks pks =
     (let s = sort pks; n = length s in bisect s (if n > 0 then [(0, n)] else []))"

section \<open>A run\<close>

text \<open>
  \<open>resolve_all\<close> counts the failures. A resolution that is cut during its work may have written the
  graph, but nothing is recorded of it.
\<close>

definition note_resolution :: "unbound_backoff \<Rightarrow> string \<Rightarrow> resolution \<Rightarrow> instant \<Rightarrow> u64 \<Rightarrow> unbound_backoff" where
  "note_resolution b u res now ttl =
     (case res of
        Unbound \<Rightarrow> record_unbound b u now (uint ttl * 1000000)
      | LookupFailed _ \<Rightarrow> b
      | _ \<Rightarrow> unbound_clear b u)"

fun resolve_all ::
  "user_graph world resolver \<Rightarrow> nat \<Rightarrow> bytes list \<Rightarrow> unbound_backoff \<Rightarrow> nat \<Rightarrow> user_graph world
     \<Rightarrow> nat \<times> unbound_backoff \<times> user_graph world" where
  "resolve_all R n [] b failed w = (failed, b, w)"
| "resolve_all R n (pk # pks) b failed w =
     (case re_cut R n of
        CutBefore \<Rightarrow> (failed, b, w)
      | CutDuring \<Rightarrow> (failed, b, snd (resolve_user R pk w))
      | NotCut \<Rightarrow>
          (case resolve_user R pk w of
             (Inl e, w1) \<Rightarrow> resolve_all R (Suc n) pks b (Suc failed) w1
           | (Inr res, w1) \<Rightarrow>
               (case (if res = Unbound then re_now R w1 else (0, w1)) of (now, w2) \<Rightarrow>
                  resolve_all R (Suc n) pks (note_resolution b (re_z32 R pk) res now (re_ttl_ms R))
                    (if resolution_outcome res = OResolved then failed else Suc failed) w2)))"

definition resolver_run ::
  "user_graph world resolver \<Rightarrow> unbound_backoff \<Rightarrow> user_graph world
     \<Rightarrow> (graph_error, nat \<times> nat) result \<times> unbound_backoff \<times> user_graph world" where
  "resolver_run R b w =
     (case graph_call (\<lambda>g. (get_users_needing_resolution (clock w (tick w)) (re_ttl_ms R) g, g)) w of
        (Inl e, w1) \<Rightarrow> (Inl e, b, w1)
      | (Inr ids, w1) \<Rightarrow>
          (case re_now R w1 of (now, w2) \<Rightarrow>
           case retain_due b ids now of (due, b1) \<Rightarrow>
             let pks = List.map_filter (re_parse_pk R) due in
             case resolve_all R 0 (bisection_order_user_pks pks) b1 0 w2 of (failed, b2, w3) \<Rightarrow>
               (Inr (length pks, failed), b2, w3)))"

section \<open>Lemmas\<close>

text \<open>The lookups and the clock do not touch the graph.\<close>

definition pure_lookup :: "user_graph world resolver \<Rightarrow> bool" where
  "pure_lookup R \<longleftrightarrow>
     (\<forall>pk w. same_schedule w (snd (re_resolve R pk w)) \<and> kv (snd (re_resolve R pk w)) = kv w) \<and>
     (\<forall>w. same_schedule w (snd (re_now R w)) \<and> kv (snd (re_now R w)) = kv w)"

definition bound_to :: "string \<Rightarrow> string \<Rightarrow> user_graph \<Rightarrow> bool" where
  "bound_to u hs g \<longleftrightarrow> map fst (ug_hosted g u) = [hs]"

lemma bound_to_stale [simp]: "bound_to u hs (set_user_homeserver_stale now v st r g) = bound_to u hs g"
  by (simp add: bound_to_def set_user_homeserver_stale_def comp_def case_prod_beta)

lemma bound_to_set_other: "v \<noteq> u \<Longrightarrow> bound_to u hs (set_user_homeserver now v h r g) = bound_to u hs g"
  by (simp add: bound_to_def set_user_homeserver_def Let_def)

lemma bound_to_get: "bound_to u hs g \<Longrightarrow> \<exists>m. get_user_homeserver u g = Some m \<and> um_hs_id m = hs"
  by (auto simp: bound_to_def get_user_homeserver_def)

lemma own_record_pure:
  assumes "pure_lookup R" "resolve_own_record R pk w = (r, w')"
  shows "same_schedule w w' \<and> kv w' = kv w"
proof -
  have "w' = snd (re_resolve R pk w)"
    using assms(2) by (auto simp: resolve_own_record_def split: prod.splits sum.splits pkdns_record.splits if_splits)
  then show ?thesis using assms(1) by (simp add: pure_lookup_def)
qed

lemma graph_write_keeps:
  assumes "graph_write f w = (r, w')" "env_keeps I w" "I (kv w)" "\<And>now g. I g \<Longrightarrow> I (f now g)"
  shows "env_keeps I w' \<and> I (kv w')"
proof -
  from assms(1)[unfolded graph_write_def] assms(2,3) show ?thesis
    by (rule graph_callE) (use assms(2,4) in \<open>auto intro: env_keeps_same [THEN iffD2]\<close>)
qed

lemma resolve_user_keeps:
  assumes "resolve_user R pk w = (r, w')" "pure_lookup R" "env_keeps (bound_to u hs) w" "bound_to u hs (kv w)"
  shows "env_keeps (bound_to u hs) w' \<and> bound_to u hs (kv w')"
proof -
  let ?u = "re_z32 R pk" and ?I = "bound_to u hs"
  obtain r1 w1 where c: "graph_call (\<lambda>g. (get_user_homeserver ?u g, g)) w = (r1, w1)" by force
  from c assms(3,4) obtain g where g: "?I g" "same_schedule w w1" "kv w1 = g"
    "(\<exists>e. r1 = Inl e) \<or> r1 = Inr (get_user_homeserver ?u g)" by (rule graph_callE) auto
  have k1: "env_keeps ?I w1" "?I (kv w1)" using g env_keeps_same assms(3) by auto
  obtain r2 w2 where o: "resolve_own_record R pk w1 = (r2, w2)" by force
  have k2: "env_keeps ?I w2" "?I (kv w2)"
    using own_record_pure [OF assms(2) o] k1 env_keeps_same by auto
  show ?thesis
  proof (cases r1)
    case (Inl e)
    then show ?thesis using assms(1) c k1 by (simp add: resolve_user_def)
  next
    case (Inr stored)
    show ?thesis
    proof (cases r2)
      case (Inl e)
      then show ?thesis using assms(1) c o k2 Inr by (simp add: resolve_user_def Let_def)
    next
      case rcd: (Inr rcd)
      note run = assms(1) [unfolded resolve_user_def Let_def c o Inr rcd prod.case sum.case]
      show ?thesis
      proof (cases stored)
        case (Some m)
        let ?f = "\<lambda>now. set_user_homeserver_stale now ?u (record_homeserver R rcd \<noteq> Some (um_hs_id m)) (record_stored rcd)"
        obtain r3 w3 where wr: "graph_write ?f w2 = (r3, w3)" by force
        have "w' = w3" using run wr Some by (cases r3) (auto simp: Let_def)
        then show ?thesis using graph_write_keeps [OF wr k2] by simp
      next
        case None
        then have "?u \<noteq> u" using Inr g(1,4) bound_to_get [of u hs g] by auto
        note keep = bound_to_set_other [OF this, of hs, THEN iffD2]
        show ?thesis
        proof (cases "\<exists>h sr. record_homeserver R rcd = Some h \<and> record_stored rcd = Some sr")
          case True
          then obtain h sr where h: "record_homeserver R rcd = Some h" "record_stored rcd = Some sr" by blast
          obtain p where p: "rcd = Published p" using h(1) by (cases rcd) (auto simp: record_homeserver_def)
          obtain r3 w3 where wr: "graph_write (\<lambda>now. set_user_homeserver now ?u h (Some sr)) w2 = (r3, w3)" by force
          have "w' = w3" using run wr None h p by (cases r3) auto
          then show ?thesis using graph_write_keeps [OF wr k2] keep by blast
        next
          case False
          then have "w' = w2" using run None by (auto split: pkdns_record.splits option.splits)
          then show ?thesis using k2 by simp
        qed
      qed
    qed
  qed
qed

lemma resolve_all_keeps:
  "resolve_all R n pks b failed w = (f', b', w') \<Longrightarrow> pure_lookup R \<Longrightarrow> env_keeps (bound_to u hs) w \<Longrightarrow>
     bound_to u hs (kv w) \<Longrightarrow> bound_to u hs (kv w')"
proof (induction pks arbitrary: n b failed w)
  case (Cons pk pks)
  obtain r w1 where r: "resolve_user R pk w = (r, w1)" by force
  note k = resolve_user_keeps [OF r Cons.prems(2-4)]
  obtain now w2 where now: "re_now R w1 = (now, w2)" by force
  have k2: "env_keeps (bound_to u hs) w2" "bound_to u hs (kv w2)"
    using Cons.prems(2) k now env_keeps_same unfolding pure_lookup_def by (metis snd_conv)+
  show ?case
  proof (cases "re_cut R n")
    case NotCut
    show ?thesis
    proof (cases r)
      case (Inl e)
      then show ?thesis using Cons NotCut r k by simp
    next
      case (Inr res)
      then show ?thesis using Cons NotCut r k k2 now by (cases "res = Unbound") auto
    qed
  qed (use Cons.prems r k in auto)
qed simp

text \<open>The walk visits each slice once.\<close>

definition span_of :: "'a list \<Rightarrow> nat \<times> nat \<Rightarrow> 'a list" where
  "span_of xs i = take (snd i - fst i) (drop (fst i) xs)"

lemma span_of_split:
  assumes "lo \<le> mid" "mid < hi" "hi \<le> length xs"
  shows "span_of xs (lo, hi) = span_of xs (lo, mid) @ xs ! mid # span_of xs (Suc mid, hi)"
proof -
  have "span_of xs (lo, hi) = take (mid - lo) (drop lo xs) @ take (hi - mid) (drop (mid - lo) (drop lo xs))"
    using assms take_add [of "mid - lo" "hi - mid" "drop lo xs"] by (simp add: span_of_def)
  also have "drop (mid - lo) (drop lo xs) = xs ! mid # drop (Suc mid) xs"
    using assms by (simp add: Cons_nth_drop_Suc)
  also have "hi - mid = Suc (hi - Suc mid)" using assms by simp
  finally show ?thesis by (simp add: span_of_def)
qed

lemma mset_bisect:
  "(\<forall>i\<in>set q. snd i \<le> length xs) \<Longrightarrow> mset (bisect xs q) = (\<Sum>i\<leftarrow>q. mset (span_of xs i))"
proof (induction xs q rule: bisect.induct)
  case (2 xs lo hi q)
  show ?case
  proof (cases "hi \<le> lo")
    case True
    then show ?thesis using 2 by (simp add: span_of_def)
  next
    case False
    define mid where "mid = lo + (hi - lo) div 2"
    have m: "lo \<le> mid" "mid < hi" using False unfolding mid_def by linarith+
    have "mset (bisect xs (q @ [(lo, mid), (mid + 1, hi)])) = (\<Sum>i\<leftarrow>q @ [(lo, mid), (mid + 1, hi)]. mset (span_of xs i))"
      using 2(2) [OF False mid_def] 2(3) m by auto
    moreover have "mset (span_of xs (lo, hi)) = mset (span_of xs (lo, mid)) + {#xs ! mid#} + mset (span_of xs (Suc mid, hi))"
      using span_of_split [OF m, of xs] 2(3) by simp
    ultimately show ?thesis using False by (simp add: Let_def flip: mid_def)
  qed
qed simp

lemma hex_value_digit: "n < 16 \<Longrightarrow> hex_value (hex_digit n) = Some n"
  by (simp add: hex_value_def hex_digit_def Let_def)

lemma hex_decode_encode: "hex_decode (hex_encode bs) = Some bs"
proof (induction bs)
  case (Cons b bs)
  have "unat b < 2 ^ 8" using unsigned_less [of b] by simp
  then have "unat b < 256" by simp
  then have "hex_value (hex_digit (unat b div 16)) = Some (unat b div 16)"
    "hex_value (hex_digit (unat b mod 16)) = Some (unat b mod 16)"
    by (intro hex_value_digit; simp add: less_mult_imp_div_less)+
  moreover have "(of_nat (16 * (unat b div 16) + unat b mod 16) :: 8 word) = b" by simp
  ultimately show ?case using Cons unfolding hex_encode_def by (simp del: of_nat_add of_nat_mult)
qed (simp add: hex_encode_def)

text \<open>A database no other task writes and whose queries do not fail.\<close>

definition quiet_graph :: "user_graph world \<Rightarrow> bool" where
  "quiet_graph w \<longleftrightarrow> (\<forall>n g. env w n g = g) \<and> (\<forall>n. graph_fault w n = None)"

lemma quiet_graph_call:
  "quiet_graph w \<Longrightarrow> graph_call f w = (Inr (fst (f (kv w))), (env_step w)\<lparr>kv := snd (f (kv w))\<rparr>)"
  by (simp add: graph_call_def quiet_graph_def env_step_def Let_def)

lemma quiet_same: "same_schedule w w' \<Longrightarrow> quiet_graph w' = quiet_graph w"
  by (simp add: same_schedule_def quiet_graph_def)

lemma quiet_resolution:
  assumes "resolve_user R pk w = (Inr res, w')" "pure_lookup R" "quiet_graph w"
    and "ug_hosted (kv w) (re_z32 R pk) = [(hs, e)]" "\<nexists>m. res = LookupFailed m"
  shows "\<exists>now r. kv w' = set_user_homeserver_stale now (re_z32 R pk) (\<not> (\<exists>b. res = Confirmed b)) r (kv w)"
proof -
  let ?u = "re_z32 R pk"
  obtain w1 where c: "graph_call (\<lambda>g. (get_user_homeserver ?u g, g)) w = (Inr (get_user_homeserver ?u (kv w)), w1)"
    "kv w1 = kv w" by (simp add: quiet_graph_call [OF assms(3)])
  have q1: "quiet_graph w1" using graph_call_schedule [OF c(1)] assms(3) quiet_same by blast
  obtain m where m: "get_user_homeserver ?u (kv w) = Some m" "um_hs_id m = hs"
    using assms(4) by (simp add: get_user_homeserver_def)
  obtain r2 w2 where o: "resolve_own_record R pk w1 = (r2, w2)" by force
  obtain rcd where rcd: "r2 = Inr rcd"
    using assms(1,5) c o by (cases r2) (auto simp: resolve_user_def Let_def)
  have k2: "kv w2 = kv w" "quiet_graph w2"
    using own_record_pure [OF assms(2) o] c(2) q1 quiet_same by auto
  let ?f = "\<lambda>now. set_user_homeserver_stale now ?u (record_homeserver R rcd \<noteq> Some hs) (record_stored rcd)"
  obtain w3 where wr: "graph_write ?f w2 = (Inr (), w3)" "kv w3 = ?f (clock w2 (tick w2)) (kv w)"
    by (simp add: quiet_graph_call [OF k2(2)] k2(1) graph_write_def)
  have "res = (if record_homeserver R rcd = Some hs then Confirmed (um_stale m)
      else Diverged (case record_homeserver R rcd of None \<Rightarrow> Unresolved | Some _ \<Rightarrow> HsChanged) (um_stale m)) \<and> w' = w3"
    using assms(1) c(1) o rcd m wr(1) by (simp add: resolve_user_def Let_def)
  then have "(\<exists>b. res = Confirmed b) \<longleftrightarrow> record_homeserver R rcd = Some hs" "w' = w3" by auto
  then show ?thesis using wr(2) by auto
qed

lemma user_rows:
  assumes "(u, False) \<in> set us" "dkeys us"
  shows "u \<in> set (concat (map (\<lambda>(v, deleted). if deleted then [] else f v) us)) \<longleftrightarrow>
    u \<in> set (f u) \<or> (\<exists>v. v \<noteq> u \<and> (v, False) \<in> set us \<and> u \<in> set (f v))"
  using assms by (auto split: if_splits)

section \<open>Properties\<close>

text \<open>C9. The resolver never moves a user to another homeserver: a user that is bound to one stays
  bound to exactly that one through a run, whatever the lookups answer, whichever graph queries
  fail and wherever a shutdown cuts the run, provided the other tasks keep the binding too.\<close>

theorem bound_homeserver_never_switches:
  assumes "resolver_run R b w = (r, b', w')" and "pure_lookup R"
    and "env_keeps (bound_to u hs) w" and "bound_to u hs (kv w)"
  shows "bound_to u hs (kv w')"
proof -
  obtain r1 w1 where c: "graph_call (\<lambda>g. (get_users_needing_resolution (clock w (tick w)) (re_ttl_ms R) g, g)) w = (r1, w1)"
    by force
  from c assms(3,4) have k1: "bound_to u hs (kv w1)" "same_schedule w w1" by (rule graph_callE, auto)+
  obtain now w2 where now: "re_now R w1 = (now, w2)" by force
  have k2: "env_keeps (bound_to u hs) w2" "bound_to u hs (kv w2)"
    using assms(2,3) k1 now env_keeps_same unfolding pure_lookup_def by (metis snd_conv)+
  show ?thesis
  proof (cases r1)
    case (Inl e)
    then show ?thesis using assms(1) c k1 by (simp add: resolver_run_def)
  next
    case (Inr ids)
    then obtain pks b1 f b2 w3 where all: "resolve_all R 0 pks b1 0 w2 = (f, b2, w3)" "w' = w3"
      using assms(1) c now by (auto simp: resolver_run_def Let_def split: prod.splits)
    then show ?thesis using resolve_all_keeps assms(2) k2 by blast
  qed
qed

text \<open>The order of the lookups is a permutation of the users: bisection visits every key exactly
  as often as it is due.\<close>

theorem bisection_is_permutation: "mset (bisection_order_user_pks pks) = mset pks"
proof (cases "pks = []")
  case False
  then have "length (sort pks) > 0" by simp
  then have "bisection_order_user_pks pks = bisect (sort pks) [(0, length (sort pks))]"
    unfolding bisection_order_user_pks_def Let_def by (rule if_P [THEN arg_cong])
  moreover have "mset (bisect (sort pks) [(0, length (sort pks))]) = mset pks"
    using mset_bisect [of "[(0, length (sort pks))]" "sort pks"] by (simp add: span_of_def del: bisect.simps(2))
  ultimately show ?thesis by simp
qed (simp add: bisection_order_user_pks_def)

text \<open>A record kept on the graph is proof of what its user published: it verifies against the
  key of the user that signed the packet and gives that packet back, and it verifies against no
  other key.\<close>

theorem stored_record_verifies:
  assumes "stored_of_packet p = Some r" and "sp_bytes p = key @ payload" and "length key = 32"
    and "relay key payload = Inr p"
  shows "verify relay r key = Inr p \<and> (\<forall>other. other \<noteq> key \<longrightarrow> verify relay r other = Inl SignedByAnotherKey)"
proof -
  have "hex_decode (sr_packet r) = Some (key @ payload)"
    using assms(1,2) by (auto simp: stored_of_packet_def hex_decode_encode split: if_splits)
  then show ?thesis using assms(3,4) by (simp add: verify_def)
qed

text \<open>A resolution decides whether a bound user is indexed: when it succeeds, the user is among
  those indexed on the bound homeserver exactly if the published homeserver was confirmed, and the
  user is due again exactly when the time to live has passed since.\<close>

theorem resolution_decides_indexing:
  assumes "resolve_user R pk w = (Inr res, w')" and "pure_lookup R" and "quiet_graph w"
    and "ug_hosted (kv w) (re_z32 R pk) = [(hs, e)]" and "\<nexists>m. res = LookupFailed m"
    and "(re_z32 R pk, False) \<in> set (ug_users (kv w))" and "dkeys (ug_users (kv w))"
    and "uint ttl < 2 ^ 63"
  shows "(re_z32 R pk \<in> set (get_user_ids_by_homeserver hs (kv w')) \<longleftrightarrow> (\<exists>b. res = Confirmed b)) \<and>
    (\<exists>now. \<forall>t. re_z32 R pk \<in> set (get_users_needing_resolution t ttl (kv w')) \<longleftrightarrow> now + uint ttl < t)"
proof -
  let ?u = "re_z32 R pk"
  obtain now r where kv': "kv w' = set_user_homeserver_stale now ?u (\<not> (\<exists>b. res = Confirmed b)) r (kv w)"
    using quiet_resolution [OF assms(1-5)] by blast
  have us: "ug_users (kv w') = ug_users (kv w)" by (simp add: kv' set_user_homeserver_stale_def)
  have ho: "ug_hosted (kv w') ?u = [(hs, (touch_edge now r e)\<lparr>ho_stale := Some (\<not> (\<exists>b. res = Confirmed b))\<rparr>)]"
    using assms(4) by (simp add: kv' set_user_homeserver_stale_def)
  have "i64_ok (uint ttl)" unfolding i64_ok_def using assms(8) by (simp add: order_trans [OF _ unsigned_greater_eq])
  then have ttl: "wrap_i64 (uint ttl) = uint ttl" by simp
  have "?u \<in> set (get_user_ids_by_homeserver hs (kv w')) \<longleftrightarrow> (\<exists>b. res = Confirmed b)"
    unfolding get_user_ids_by_homeserver_def us
    by (subst user_rows [OF assms(6,7)]) (auto simp: ho)
  moreover have "?u \<in> set (get_users_needing_resolution t ttl (kv w')) \<longleftrightarrow> now + uint ttl < t" for t
    unfolding get_users_needing_resolution_def us
    by (subst user_rows [OF assms(6,7)]) (auto simp: ho due_edge_def touch_edge_def ttl)
  ultimately show ?thesis by blast
qed

section \<open>A concrete resolver\<close>

text \<open>One bound user whose record names another homeserver.\<close>

definition demo_key :: bytes where
  "demo_key = replicate 32 7"

definition demo_packet :: signed_packet where
  "demo_packet = \<lparr>sp_public_key = demo_key, sp_timestamp = 5, sp_bytes = demo_key @ [1, 2, 255],
     sp_pubky_records = [OtherRData, HTTPS ''hs2'']\<rparr>"

definition demo_resolver :: "user_graph world resolver" where
  "demo_resolver = \<lparr>re_parse_pk = (\<lambda>_. Some demo_key), re_z32 = (\<lambda>k. if k = demo_key then ''u'' else ''hs2''),
     re_target = (\<lambda>_. Some [2]), re_resolve = (\<lambda>_ w. (Inr (Published demo_packet), w)), re_now = (\<lambda>w. (0, w)),
     re_ttl_ms = 1000, re_cut = (\<lambda>_. NotCut)\<rparr>"

definition demo_graph :: user_graph where
  "demo_graph = \<lparr>ug_users = [(''u'', False)], ug_homeservers = {''hs1''},
     ug_hosted = (\<lambda>u. if u = ''u'' then [(''hs1'', new_edge)] else [])\<rparr>"

lemma demo_lookup: "pure_lookup demo_resolver" "quiet_graph (calm_world g)"
  by (simp_all add: pure_lookup_def demo_resolver_def quiet_graph_def calm_world_def)

theorem bound_homeserver_never_switches_witness:
  "bound_to ''u'' ''hs1'' (kv (snd (snd (resolver_run demo_resolver Map.empty (calm_world demo_graph)))))"
proof -
  obtain r b' w' where run: "resolver_run demo_resolver Map.empty (calm_world demo_graph) = (r, b', w')"
    by (cases "resolver_run demo_resolver Map.empty (calm_world demo_graph)") auto
  have "bound_to ''u'' ''hs1'' (kv w')"
    by (rule bound_homeserver_never_switches [OF run demo_lookup(1)]) (simp_all add: demo_graph_def bound_to_def)
  then show ?thesis by (simp add: run)
qed

theorem stored_record_verifies_witness:
  "verify (\<lambda>_ _. Inr demo_packet) \<lparr>sr_packet = hex_encode (sp_bytes demo_packet), sr_timestamp = 5\<rparr> demo_key = Inr demo_packet"
  using stored_record_verifies [of demo_packet "\<lparr>sr_packet = hex_encode (sp_bytes demo_packet), sr_timestamp = 5\<rparr>"
      demo_key "[1, 2, 255]" "\<lambda>_ _. Inr demo_packet"]
  by (simp add: stored_of_packet_def demo_packet_def demo_key_def)

lemma demo_resolution:
  "\<exists>w'. resolve_user demo_resolver demo_key (calm_world demo_graph) = (Inr (Diverged HsChanged False), w')"
proof -
  have "demo_key \<noteq> [2]" by (simp add: demo_key_def numeral_eq_Suc)
  then show ?thesis
    by (simp add: resolve_user_def graph_write_def graph_call_def Let_def calm_world_def env_step_def
        get_user_homeserver_def demo_graph_def demo_resolver_def resolve_own_record_def demo_packet_def
        stored_of_packet_def record_homeserver_def published_homeserver_def new_edge_def)
qed

theorem resolution_decides_indexing_witness:
  "\<exists>w'. resolve_user demo_resolver demo_key (calm_world demo_graph) = (Inr (Diverged HsChanged False), w') \<and>
     ''u'' \<notin> set (get_user_ids_by_homeserver ''hs1'' (kv w'))"
proof -
  obtain w' where run: "resolve_user demo_resolver demo_key (calm_world demo_graph) = (Inr (Diverged HsChanged False), w')"
    using demo_resolution by blast
  have "re_z32 demo_resolver demo_key = ''u''" by (simp add: demo_resolver_def)
  with resolution_decides_indexing [OF run demo_lookup, of "''hs1''" new_edge 5]
  have "''u'' \<notin> set (get_user_ids_by_homeserver ''hs1'' (kv w'))" by (simp add: demo_graph_def)
  then show ?thesis using run by blast
qed

end
