(* ===== verification/User_Ingestor.thy ===== *)
theory User_Ingestor
  imports User_Hs_Resolver Cursor_Store
begin

text \<open>
  The ingestion of users the index does not know yet (nexus-common/src/models/user/ingestor.rs):
  an event that refers to an unknown user creates a stub of that user and binds it to the
  homeserver its record names, unless that homeserver or the user's own key is blacklisted.
\<close>

text \<open>
  The stores the ingestor writes: \<open>ig_known\<close> is \<open>UserDetails::get_by_id\<close>, \<open>ig_put_stub\<close> the write of
  the stub to the graph, \<open>ig_bind\<close> is \<open>set_user_homeserver_from_record\<close> and \<open>ig_init_cursor\<close> is
  \<open>UserHsCursor::init\<close>.
\<close>

record 's ingestor =
  ig_blacklist :: "string list"
  ig_resolver :: "'s resolver"
  ig_public_key :: "string \<Rightarrow> bytes"
  ig_known :: "string \<Rightarrow> 's \<Rightarrow> (model_error, bool) result \<times> 's"
  ig_put_stub :: "string \<Rightarrow> 's \<Rightarrow> (graph_error, unit) result \<times> 's"
  ig_bind :: "string \<Rightarrow> string \<Rightarrow> stored_record \<Rightarrow> 's \<Rightarrow> (graph_error, unit) result \<times> 's"
  ig_init_cursor :: "string \<Rightarrow> string \<Rightarrow> 's \<Rightarrow> (redis_error, unit) result \<times> 's"

definition resolve_unless_blacklisted ::
  "'s ingestor \<Rightarrow> string \<Rightarrow> 's \<Rightarrow> (model_error, (string \<times> stored_record) option) result \<times> 's" where
  "resolve_unless_blacklisted G user_id s =
     (if is_blacklisted (ig_blacklist G) user_id then (Inl (MHsBlacklisted user_id), s)
      else case resolve_own_record (ig_resolver G) (ig_public_key G user_id) s of
        (Inl e, s1) \<Rightarrow> (Inl (MGeneric e), s1)
      | (Inr rcd, s1) \<Rightarrow>
          (case (record_stored rcd, record_homeserver (ig_resolver G) rcd) of
             (Some stored, Some hid) \<Rightarrow>
               if is_blacklisted (ig_blacklist G) hid then (Inl (MHsBlacklisted hid), s1)
               else (Inr (Some (hid, stored)), s1)
           | _ \<Rightarrow> (Inr None, s1)))"

definition ensure_hs_not_blacklisted ::
  "'s ingestor \<Rightarrow> string \<Rightarrow> 's \<Rightarrow> (model_error, string option) result \<times> 's" where
  "ensure_hs_not_blacklisted G user_id s =
     (case resolve_unless_blacklisted G user_id s of
        (Inl e, s1) \<Rightarrow> (Inl e, s1)
      | (Inr r, s1) \<Rightarrow> (Inr (map_option fst r), s1))"

text \<open>The three writes, each only after the one before succeeded.\<close>

definition persist_ingested ::
  "'s ingestor \<Rightarrow> string \<Rightarrow> string \<Rightarrow> stored_record \<Rightarrow> 's \<Rightarrow> (model_error, unit) result \<times> 's" where
  "persist_ingested G user_id hid rcd s =
     (case ig_put_stub G user_id s of
        (Inl e, s1) \<Rightarrow> (Inl (GraphOperationFailed e), s1)
      | (Inr _, s1) \<Rightarrow>
          (case ig_bind G user_id hid rcd s1 of
             (Inl e, s2) \<Rightarrow> (Inl (GraphOperationFailed e), s2)
           | (Inr _, s2) \<Rightarrow>
               (case ig_init_cursor G user_id hid s2 of
                  (Inl e, s3) \<Rightarrow> (Inl (KvOperationFailed e), s3)
                | (Inr _, s3) \<Rightarrow> (Inr (), s3))))"

definition maybe_ingest_user :: "'s ingestor \<Rightarrow> string \<Rightarrow> 's \<Rightarrow> (model_error, unit) result \<times> 's" where
  "maybe_ingest_user G user_id s =
     (case ig_known G user_id s of
        (Inl e, s1) \<Rightarrow> (Inl e, s1)
      | (Inr True, s1) \<Rightarrow> (Inr (), s1)
      | (Inr False, s1) \<Rightarrow>
          (case resolve_unless_blacklisted G user_id s1 of
             (Inl e, s2) \<Rightarrow> (Inl e, s2)
           | (Inr None, s2) \<Rightarrow> (Inr (), s2)
           | (Inr (Some (hid, rcd)), s2) \<Rightarrow> persist_ingested G user_id hid rcd s2))"

section \<open>Lemmas\<close>

lemma resolved_not_blacklisted:
  assumes "resolve_unless_blacklisted G user_id s = (Inr (Some (hid, rcd)), s')"
  shows "\<not> is_blacklisted (ig_blacklist G) user_id \<and> \<not> is_blacklisted (ig_blacklist G) hid \<and>
    (\<exists>p. resolve_own_record (ig_resolver G) (ig_public_key G user_id) s = (Inr (Published p), s') \<and>
       sp_public_key p = ig_public_key G user_id \<and>
       stored_of_packet p = Some rcd \<and> published_homeserver (ig_resolver G) p = Some hid)"
  using assms
  by (auto simp: resolve_unless_blacklisted_def resolve_own_record_def record_stored_def record_homeserver_def
      split: if_splits prod.splits sum.splits option.splits pkdns_record.splits)

section \<open>What ingestion keeps\<close>

text \<open>
  Whatever the lookups keep, and the writes keep for users and homeservers that are not
  blacklisted, ingestion keeps.
\<close>

locale ingest_guard =
  fixes G :: "'s ingestor" and I :: "'s \<Rightarrow> bool"
  assumes known: "I s \<Longrightarrow> I (snd (ig_known G u s))"
    and lookup: "I s \<Longrightarrow> I (snd (re_resolve (ig_resolver G) pk s))"
    and stub: "I s \<Longrightarrow> \<not> is_blacklisted (ig_blacklist G) u \<Longrightarrow> I (snd (ig_put_stub G u s))"
    and bind: "I s \<Longrightarrow> \<not> is_blacklisted (ig_blacklist G) hs \<Longrightarrow> I (snd (ig_bind G u hs r s))"
    and cursor: "I s \<Longrightarrow> \<not> is_blacklisted (ig_blacklist G) hs \<Longrightarrow> I (snd (ig_init_cursor G u hs s))"
begin

lemma resolve_keeps: "I s \<Longrightarrow> resolve_unless_blacklisted G u s = (r, s') \<Longrightarrow> I s'"
  using lookup [of s "ig_public_key G u"]
  by (auto simp: resolve_unless_blacklisted_def resolve_own_record_def
      split: if_splits prod.splits sum.splits option.splits pkdns_record.splits)

lemma persist_keeps:
  assumes "I s" "\<not> is_blacklisted (ig_blacklist G) u" "\<not> is_blacklisted (ig_blacklist G) hs"
    and "persist_ingested G u hs rcd s = (r, s')"
  shows "I s'"
proof -
  obtain r1 s1 where p1: "ig_put_stub G u s = (r1, s1)" by force
  obtain r2 s2 where p2: "ig_bind G u hs rcd s1 = (r2, s2)" by force
  obtain r3 s3 where p3: "ig_init_cursor G u hs s2 = (r3, s3)" by force
  have "I s1" using stub [OF assms(1,2)] p1 by simp
  moreover from this have "I s2" using bind [OF _ assms(3), of s1 u rcd] p2 by simp
  moreover from this have "I s3" using cursor [OF _ assms(3), of s2 u] p3 by simp
  ultimately show ?thesis
    using assms(4) p1 p2 p3 by (cases r1; cases r2; cases r3) (auto simp: persist_ingested_def)
qed

lemma ingest_keeps:
  assumes "I s" "maybe_ingest_user G u s = (r, s')"
  shows "I s'"
proof -
  obtain b s1 where b: "ig_known G u s = (b, s1)" by force
  obtain q s2 where q: "resolve_unless_blacklisted G u s1 = (q, s2)" by force
  have k: "I s1" "I s2" using known [OF assms(1), of u] b resolve_keeps [OF _ q] by simp_all
  show ?thesis
  proof (cases "b = Inr False \<and> (\<exists>x. q = Inr (Some x))")
    case True
    then obtain hs rcd where x: "q = Inr (Some (hs, rcd))" by auto
    then have "persist_ingested G u hs rcd s2 = (r, s')"
      using assms(2) b q True by (simp add: maybe_ingest_user_def)
    then show ?thesis using persist_keeps [OF k(2)] resolved_not_blacklisted [OF q [unfolded x]] by blast
  next
    case False
    then have "s' = s1 \<or> s' = s2"
      using assms(2) b q by (cases b; cases q) (auto simp: maybe_ingest_user_def split: bool.splits option.splits)
    then show ?thesis using k by blast
  qed
qed

end

section \<open>The stores of the index\<close>

text \<open>The cached profiles, the graph and the user cursors.\<close>

record ingest_kv =
  ik_details :: "string set"
  ik_graph :: user_graph
  ik_cursors :: cursor_kv

text \<open>\<open>UserDetails::get_by_id\<close>: the cache, then the graph, whose answer is cached.\<close>

definition details_known :: "string \<Rightarrow> ingest_kv world \<Rightarrow> (model_error, bool) result \<times> ingest_kv world" where
  "details_known u w =
     (case redis_call (\<lambda>k. (u \<in> ik_details k, k)) w of
        (Inl e, w1) \<Rightarrow> (Inl (KvOperationFailed e), w1)
      | (Inr True, w1) \<Rightarrow> (Inr True, w1)
      | (Inr False, w1) \<Rightarrow>
          (case graph_call (\<lambda>k. (u \<in> fst ` set (ug_users (ik_graph k)), k)) w1 of
             (Inl e, w2) \<Rightarrow> (Inl (GraphOperationFailed e), w2)
           | (Inr False, w2) \<Rightarrow> (Inr False, w2)
           | (Inr True, w2) \<Rightarrow>
               (case redis_call (\<lambda>k. ((), k\<lparr>ik_details := insert u (ik_details k)\<rparr>)) w2 of
                  (Inl e, w3) \<Rightarrow> (Inl (KvOperationFailed e), w3)
                | (Inr _, w3) \<Rightarrow> (Inr True, w3))))"

definition put_stub :: "string \<Rightarrow> ingest_kv world \<Rightarrow> (graph_error, unit) result \<times> ingest_kv world" where
  "put_stub u = graph_call (\<lambda>k. ((), k\<lparr>ik_graph := (ik_graph k)\<lparr>ug_users := AList.update u False (ug_users (ik_graph k))\<rparr>\<rparr>))"

definition bind_from_record ::
  "string \<Rightarrow> string \<Rightarrow> stored_record \<Rightarrow> ingest_kv world \<Rightarrow> (graph_error, unit) result \<times> ingest_kv world" where
  "bind_from_record u hs r w =
     graph_call (\<lambda>k. ((), k\<lparr>ik_graph := set_user_homeserver (clock w (tick w)) u hs (Some r) (ik_graph k)\<rparr>)) w"

definition seed_cursor :: "string \<Rightarrow> string \<Rightarrow> ingest_kv world \<Rightarrow> (redis_error, unit) result \<times> ingest_kv world" where
  "seed_cursor u hs =
     redis_call (\<lambda>k. case cursor_zadd_nx u hs 0 (ik_cursors k) of (x, c) \<Rightarrow> (x, k\<lparr>ik_cursors := c\<rparr>))"

definition store_ingestor ::
  "string list \<Rightarrow> ingest_kv world resolver \<Rightarrow> (string \<Rightarrow> bytes) \<Rightarrow> ingest_kv world ingestor" where
  "store_ingestor bl R pk =
     \<lparr>ig_blacklist = bl, ig_resolver = R, ig_public_key = pk, ig_known = details_known, ig_put_stub = put_stub,
      ig_bind = bind_from_record, ig_init_cursor = seed_cursor\<rparr>"

text \<open>
  No binding and no cursor leads to a blacklisted homeserver. The lookups go to the PKDNS client
  and leave the stores alone.
\<close>

definition unlisted :: "string list \<Rightarrow> ingest_kv \<Rightarrow> bool" where
  "unlisted bl k \<longleftrightarrow>
     (\<forall>u hs e. (hs, e) \<in> set (ug_hosted (ik_graph k) u) \<longrightarrow> \<not> is_blacklisted bl hs) \<and>
     (\<forall>u hs. ik_cursors k (u, hs) \<noteq> None \<longrightarrow> \<not> is_blacklisted bl hs)"

definition lookups_pure :: "'s world resolver \<Rightarrow> bool" where
  "lookups_pure R \<longleftrightarrow> (\<forall>pk w. same_schedule w (snd (re_resolve R pk w)) \<and> kv (snd (re_resolve R pk w)) = kv w)"

definition unlisted_world :: "string list \<Rightarrow> ingest_kv world resolver \<Rightarrow> ingest_kv world \<Rightarrow> bool" where
  "unlisted_world bl R w \<longleftrightarrow> (lookups_pure R \<longrightarrow> env_keeps (unlisted bl) w \<and> unlisted bl (kv w))"

lemma redis_keeps:
  assumes "redis_call f w = (r, w')" "env_keeps J w" "J (kv w)" "\<And>k. J k \<Longrightarrow> J (snd (f k))"
  shows "env_keeps J w' \<and> J (kv w')"
  using assms(1-3) by (rule redis_callE) (use assms(2,4) in \<open>auto intro: env_keeps_same [THEN iffD2]\<close>)

lemma graph_keeps:
  assumes "graph_call f w = (r, w')" "env_keeps J w" "J (kv w)" "\<And>k. J k \<Longrightarrow> J (snd (f k))"
  shows "env_keeps J w' \<and> J (kv w')"
  using assms(1-3) by (rule graph_callE) (use assms(2,4) in \<open>auto intro: env_keeps_same [THEN iffD2]\<close>)

lemma details_known_keeps:
  assumes "env_keeps (unlisted bl) w" "unlisted bl (kv w)"
  shows "env_keeps (unlisted bl) (snd (details_known u w)) \<and> unlisted bl (kv (snd (details_known u w)))"
proof -
  obtain r1 w1 where c1: "redis_call (\<lambda>k. (u \<in> ik_details k, k)) w = (r1, w1)" by force
  obtain r2 w2 where c2: "graph_call (\<lambda>k. (u \<in> fst ` set (ug_users (ik_graph k)), k)) w1 = (r2, w2)" by force
  obtain r3 w3 where c3: "redis_call (\<lambda>k. ((), k\<lparr>ik_details := insert u (ik_details k)\<rparr>)) w2 = (r3, w3)" by force
  have k1: "env_keeps (unlisted bl) w1 \<and> unlisted bl (kv w1)" using redis_keeps [OF c1 assms] by simp
  then have k2: "env_keeps (unlisted bl) w2 \<and> unlisted bl (kv w2)" using graph_keeps [OF c2, of "unlisted bl"] by simp
  then have k3: "env_keeps (unlisted bl) w3 \<and> unlisted bl (kv w3)"
    using redis_keeps [OF c3, of "unlisted bl"] by (simp add: unlisted_def)
  have "snd (details_known u w) \<in> {w1, w2, w3}"
    using c1 c2 c3 by (cases r1; cases r2; cases r3) (auto simp: details_known_def split: bool.splits)
  then show ?thesis using k1 k2 k3 by auto
qed

lemma unlisted_steps:
  "unlisted bl k \<Longrightarrow> unlisted bl (k\<lparr>ik_graph := (ik_graph k)\<lparr>ug_users := us\<rparr>\<rparr>)"
  "unlisted bl k \<Longrightarrow> \<not> is_blacklisted bl hs \<Longrightarrow> unlisted bl (k\<lparr>ik_graph := set_user_homeserver now u hs r (ik_graph k)\<rparr>)"
  "unlisted bl k \<Longrightarrow> \<not> is_blacklisted bl hs \<Longrightarrow> unlisted bl (k\<lparr>ik_cursors := snd (cursor_zadd_nx u hs 0 (ik_cursors k))\<rparr>)"
  by (auto simp: unlisted_def set_user_homeserver_def Let_def cursor_zadd_nx_def split: option.splits if_splits)

lemma stores_keep:
  assumes "env_keeps (unlisted bl) w" "unlisted bl (kv w)" "\<not> is_blacklisted bl hs"
  shows "env_keeps (unlisted bl) (snd (put_stub u w)) \<and> unlisted bl (kv (snd (put_stub u w)))"
    and "env_keeps (unlisted bl) (snd (bind_from_record u hs r w)) \<and> unlisted bl (kv (snd (bind_from_record u hs r w)))"
    and "env_keeps (unlisted bl) (snd (seed_cursor u hs w)) \<and> unlisted bl (kv (snd (seed_cursor u hs w)))"
proof -
  show "env_keeps (unlisted bl) (snd (put_stub u w)) \<and> unlisted bl (kv (snd (put_stub u w)))"
    unfolding put_stub_def by (rule graph_keeps [OF prod.collapse [symmetric] assms(1,2)]) (simp add: unlisted_steps)
  show "env_keeps (unlisted bl) (snd (bind_from_record u hs r w)) \<and> unlisted bl (kv (snd (bind_from_record u hs r w)))"
    unfolding bind_from_record_def
    by (rule graph_keeps [OF prod.collapse [symmetric] assms(1,2)]) (simp add: unlisted_steps assms(3))
  show "env_keeps (unlisted bl) (snd (seed_cursor u hs w)) \<and> unlisted bl (kv (snd (seed_cursor u hs w)))"
    unfolding seed_cursor_def
    by (rule redis_keeps [OF prod.collapse [symmetric] assms(1,2)])
      (use unlisted_steps(3) [OF _ assms(3)] in \<open>simp add: case_prod_beta\<close>)
qed

interpretation store_guard: ingest_guard "store_ingestor bl R pk" "unlisted_world bl R" for bl R pk
proof
  fix s u assume "unlisted_world bl R s"
  then show "unlisted_world bl R (snd (ig_known (store_ingestor bl R pk) u s))"
    using details_known_keeps by (simp add: unlisted_world_def store_ingestor_def)
next
  fix s pk' assume "unlisted_world bl R s"
  then show "unlisted_world bl R (snd (re_resolve (ig_resolver (store_ingestor bl R pk)) pk' s))"
    using env_keeps_same unfolding unlisted_world_def lookups_pure_def store_ingestor_def by fastforce
next
  fix s u assume "unlisted_world bl R s" "\<not> is_blacklisted (ig_blacklist (store_ingestor bl R pk)) u"
  then show "unlisted_world bl R (snd (ig_put_stub (store_ingestor bl R pk) u s))"
    using stores_keep(1) [of bl s u] by (simp add: unlisted_world_def store_ingestor_def)
next
  fix s hs u r assume "unlisted_world bl R s" "\<not> is_blacklisted (ig_blacklist (store_ingestor bl R pk)) hs"
  then show "unlisted_world bl R (snd (ig_bind (store_ingestor bl R pk) u hs r s))"
    using stores_keep(2) [of bl s hs u r] by (simp add: unlisted_world_def store_ingestor_def)
next
  fix s hs u assume "unlisted_world bl R s" "\<not> is_blacklisted (ig_blacklist (store_ingestor bl R pk)) hs"
  then show "unlisted_world bl R (snd (ig_init_cursor (store_ingestor bl R pk) u hs s))"
    using stores_keep(3) [of bl s hs u] by (simp add: unlisted_world_def store_ingestor_def)
qed

section \<open>Properties\<close>

text \<open>C10. Ingestion never binds a user to a blacklisted homeserver: if no user is bound to one and no
  cursor exists for one, then this still holds after the ingestion of any user, whatever the
  user's record says, whichever calls fail and whatever the other tasks do that keeps it.\<close>

theorem ingestion_respects_blacklist:
  assumes "maybe_ingest_user (store_ingestor bl R pk) u w = (r, w')" and "lookups_pure R"
    and "env_keeps (unlisted bl) w" and "unlisted bl (kv w)"
  shows "unlisted bl (kv w')"
  using store_guard.ingest_keeps [OF _ assms(1)] assms(2-4) by (simp add: unlisted_world_def)

definition demo_ingest_resolver :: "ingest_kv world resolver" where
  "demo_ingest_resolver = \<lparr>re_parse_pk = (\<lambda>_. Some demo_key), re_z32 = (\<lambda>k. if k = demo_key then ''u'' else ''hs2''),
     re_target = (\<lambda>_. Some [2]), re_resolve = (\<lambda>_ w. (Inr (Published demo_packet), w)), re_now = (\<lambda>w. (0, w)),
     re_ttl_ms = 1000, re_cut = (\<lambda>_. NotCut)\<rparr>"

definition demo_ingest_kv :: ingest_kv where
  "demo_ingest_kv = \<lparr>ik_details = {}, ik_graph = demo_graph, ik_cursors = Map.empty\<rparr>"

theorem ingestion_respects_blacklist_witness:
  "unlisted [''hs2''] (kv (snd (maybe_ingest_user (store_ingestor [''hs2''] demo_ingest_resolver (\<lambda>_. demo_key)) ''v''
     (calm_world demo_ingest_kv))))"
proof -
  obtain r w' where run: "maybe_ingest_user (store_ingestor [''hs2''] demo_ingest_resolver (\<lambda>_. demo_key)) ''v''
      (calm_world demo_ingest_kv) = (r, w')"
    by force
  have "unlisted [''hs2''] (kv w')"
    by (rule ingestion_respects_blacklist [OF run])
      (simp_all add: lookups_pure_def demo_ingest_resolver_def unlisted_def demo_ingest_kv_def demo_graph_def is_blacklisted_def)
  then show ?thesis by (simp add: run)
qed

end
