(* ===== verification/Capped_Fetch.thy ===== *)
theory Capped_Fetch
  imports Watcher_Errors
begin

text \<open>
  Responses of homeservers are read with a size limit (nexus-watcher/src/homeserver/fetch.rs). A
  response is its declared length and the chunks of its body, each of which may fail with a
  transport error, given by whether it is a timeout and its message.
\<close>

definition MAX_RESOURCE_SIZE :: nat where
  "MAX_RESOURCE_SIZE = 2 * 1024 * 1024"

definition MAX_EVENTS_BODY :: nat where
  "MAX_EVENTS_BODY = 5 * 1024 * 1024"

text \<open>The loop over the chunks; \<open>buf\<close> never grows beyond \<open>cap\<close>.\<close>

fun read_chunks :: "nat \<Rightarrow> string \<Rightarrow> nat \<Rightarrow> ('e, string) result list \<Rightarrow> ('e, string \<times> bool) result" where
  "read_chunks cap buf seen [] = Inr (buf, False)"
| "read_chunks cap buf seen (Inl e # cs) = Inl e"
| "read_chunks cap buf seen (Inr bs # cs) =
     (let seen' = seen + length bs;
          buf' = buf @ take (min (length bs) (cap - length buf)) bs
      in if cap \<le> seen' then Inr (buf', True) else read_chunks cap buf' seen' cs)"

text \<open>\<open>max + 1\<close> is an addition of \<open>usize\<close>.\<close>

definition read_stream_capped :: "u64 \<Rightarrow> ('e, string) result list \<Rightarrow> ('e, string \<times> bool) result" where
  "read_stream_capped mx cs = read_chunks (unat (mx + 1)) [] 0 cs"

definition fetch_capped ::
  "u64 option \<Rightarrow> (bool \<times> string, string) result list \<Rightarrow> u64 \<Rightarrow> (hs_error_kind, string) result" where
  "fetch_capped content_length cs mx =
     (case content_length of
        Some cl \<Rightarrow>
          if mx < cl then Inl (TooLarge (unat cl) (unat mx))
          else (case read_stream_capped mx cs of
                  Inl (t, e) \<Rightarrow> Inl (from_reqwest t e)
                | Inr (buf, exceeded) \<Rightarrow> if exceeded then Inl (TooLarge (length buf) (unat mx)) else Inr buf)
      | None \<Rightarrow>
          (case read_stream_capped mx cs of
             Inl (t, e) \<Rightarrow> Inl (from_reqwest t e)
           | Inr (buf, exceeded) \<Rightarrow> if exceeded then Inl (TooLarge (length buf) (unat mx)) else Inr buf))"

section \<open>Lemmas\<close>

definition body_of :: "('e, string) result list \<Rightarrow> string" where
  "body_of cs = concat (map projr cs)"

lemma body_of_simps [simp]: "body_of [] = []" "body_of (Inr b # cs) = b @ body_of cs"
  by (simp_all add: body_of_def)

lemma read_chunks_ok:
  "(\<forall>c\<in>set cs. \<not> isl c) \<Longrightarrow> length buf = seen \<Longrightarrow> seen < cap \<Longrightarrow>
     read_chunks cap buf seen cs =
       (if cap \<le> seen + length (body_of cs) then Inr (take cap (buf @ body_of cs), True)
        else Inr (buf @ body_of cs, False))"
proof (induction cs arbitrary: buf seen)
  case (Cons c cs)
  then obtain b where b: "c = Inr b" by (cases c) auto
  show ?case
  proof (cases "cap \<le> seen + length b")
    case True
    then show ?thesis using b Cons.prems(2,3) by (simp add: Let_def min_def take_append)
  next
    case False
    then have "read_chunks cap (buf @ b) (seen + length b) cs =
        (if cap \<le> seen + length b + length (body_of cs) then Inr (take cap ((buf @ b) @ body_of cs), True)
         else Inr ((buf @ b) @ body_of cs, False))"
      using Cons.IH [of "buf @ b" "seen + length b"] Cons.prems by simp
    then show ?thesis using b False Cons.prems(2) by (simp add: Let_def)
  qed
qed simp

lemma read_chunks_bound:
  "length buf \<le> cap \<Longrightarrow> read_chunks cap buf seen cs = Inr (out, ex) \<Longrightarrow> length out \<le> cap"
proof (induction cap buf seen cs rule: read_chunks.induct)
  case (3 cap buf seen bs cs)
  then show ?case by (fastforce simp: Let_def split: if_splits)
qed auto

section \<open>Properties\<close>

text \<open>The limit on a response is exact: with a limit below the largest \<open>usize\<close>, a response whose
  chunks all arrive is accepted, whole, exactly when neither its declared nor its real length
  exceeds the limit, and rejected as too large otherwise; and never more than one byte beyond the
  limit is kept of any response.\<close>

theorem fetch_limit_is_exact:
  assumes "mx < 2 ^ 64 - 1"
  shows "((\<forall>c\<in>set cs. \<not> isl c) \<longrightarrow>
      fetch_capped cl cs mx =
        (if (\<exists>n. cl = Some n \<and> mx < n) then Inl (TooLarge (unat (the cl)) (unat mx))
         else if unat mx < length (body_of cs) then Inl (TooLarge (unat mx + 1) (unat mx))
         else Inr (body_of cs))) \<and>
    (\<forall>buf ex. read_stream_capped mx cs = Inr (buf, ex) \<longrightarrow> length buf \<le> unat mx + 1)"
proof -
  have "mx \<noteq> -1" using assms by auto
  then have cap: "unat (mx + 1) = unat mx + 1" using unatSuc [of mx] by (simp add: add.commute add_eq_0_iff)
  have "fetch_capped cl cs mx =
        (if (\<exists>n. cl = Some n \<and> mx < n) then Inl (TooLarge (unat (the cl)) (unat mx))
         else if unat mx < length (body_of cs) then Inl (TooLarge (unat mx + 1) (unat mx))
         else Inr (body_of cs))" if "\<forall>c\<in>set cs. \<not> isl c"
  proof -
    have "read_stream_capped mx cs =
        (if unat mx + 1 \<le> length (body_of cs) then Inr (take (unat mx + 1) (body_of cs), True)
         else Inr (body_of cs, False))"
      using read_chunks_ok [OF that, of "[]" 0 "unat mx + 1"] by (simp add: read_stream_capped_def cap)
    then show ?thesis by (auto simp: fetch_capped_def min_def split: option.splits)
  qed
  moreover have "length buf \<le> unat mx + 1" if "read_stream_capped mx cs = Inr (buf, ex)" for buf ex
    using read_chunks_bound [of "[]" "unat mx + 1" 0 cs buf ex] that by (simp add: read_stream_capped_def cap)
  ultimately show ?thesis by blast
qed

theorem fetch_limit_is_exact_witness:
  "fetch_capped (Some 2) [Inr ''ab'', Inr ''cd''] 3 = Inl (TooLarge 4 3)"
  using fetch_limit_is_exact [of 3 "[Inr ''ab'', Inr ''cd'']" "Some 2"] by simp

end
