(* ===== verification/Event_Dispatch.thy ===== *)
theory Event_Dispatch
  imports Event_Parsing
begin

text \<open>
  What happens to one event (nexus-watcher/src/events/mod.rs and moderation.rs): the dispatch of a
  PUT or DEL to the handler of its resource, and the moderator's takedowns, which are remembered
  (nexus-common/src/models/takedown.rs) and checked before a record is fetched and again after it
  was written. The handlers, the client, the validation of \<open>pubky-app-specs\<close> and the event log are
  fields of \<open>handler_env\<close>. What the two checks guarantee among other tasks is proved in \<open>Takedowns\<close>.
\<close>

section \<open>Objects and handlers\<close>

record app_tag =
  at_uri :: string
  at_label :: string

text \<open>\<open>PubkyAppObject\<close>; the content of an object other than a tag is opaque here.\<close>

datatype app_object =
    UserO string | PostO string | FollowO | MuteO | BookmarkO string | TagO app_tag | FileO string | OtherO

text \<open>
  \<open>he_pubky_app\<close> is \<open>ParsedUri::try_from\<close>, which knows the pubky.app name space only. A write
  handler gets the object, the address, the user and the identifier of the resource.
\<close>

record 's handler_env =
  he_specs :: uri_specs
  he_pubky_app :: "string \<Rightarrow> (string, string \<times> uri_resource) result"
  he_is_taken_down :: "string \<Rightarrow> 's \<Rightarrow> (ep_error, bool) result \<times> 's"
  he_record_takedown :: "string \<Rightarrow> string \<Rightarrow> 's \<Rightarrow> (ep_error, unit) result \<times> 's"
  he_parse_resource :: "string \<Rightarrow> (ep_error, string) result"
  he_get_resource :: "string \<Rightarrow> 's \<Rightarrow> (ep_error, string) result \<times> 's"
  he_from_resource :: "uri_resource \<Rightarrow> string \<Rightarrow> (string, app_object) result"
  he_store_line :: "event \<Rightarrow> 's \<Rightarrow> (ep_error, unit) result \<times> 's"
  user_put :: "string \<Rightarrow> string \<Rightarrow> string \<Rightarrow> 's \<Rightarrow> (ep_error, unit) result \<times> 's"
  post_put :: "string \<Rightarrow> string \<Rightarrow> string \<Rightarrow> string \<Rightarrow> 's \<Rightarrow> (ep_error, unit) result \<times> 's"
  follow_put :: "string \<Rightarrow> string \<Rightarrow> 's \<Rightarrow> (ep_error, unit) result \<times> 's"
  bookmark_put :: "string \<Rightarrow> string \<Rightarrow> string \<Rightarrow> 's \<Rightarrow> (ep_error, unit) result \<times> 's"
  tag_put :: "app_tag \<Rightarrow> string \<Rightarrow> string \<Rightarrow> string \<Rightarrow> 's \<Rightarrow> (ep_error, unit) result \<times> 's"
  tag_put_resource :: "app_tag \<Rightarrow> string \<Rightarrow> string \<Rightarrow> string \<Rightarrow> string \<Rightarrow> 's \<Rightarrow> (ep_error, unit) result \<times> 's"
  file_put :: "string \<Rightarrow> string \<Rightarrow> string \<Rightarrow> string \<Rightarrow> 's \<Rightarrow> (ep_error, unit) result \<times> 's"
  user_del :: "string \<Rightarrow> 's \<Rightarrow> (ep_error, unit) result \<times> 's"
  post_del :: "string \<Rightarrow> string \<Rightarrow> 's \<Rightarrow> (ep_error, unit) result \<times> 's"
  follow_del :: "string \<Rightarrow> string \<Rightarrow> 's \<Rightarrow> (ep_error, unit) result \<times> 's"
  bookmark_del :: "string \<Rightarrow> string \<Rightarrow> 's \<Rightarrow> (ep_error, unit) result \<times> 's"
  tag_del :: "string \<Rightarrow> 's \<Rightarrow> (ep_error, unit) result \<times> 's"
  file_del :: "string \<Rightarrow> string \<Rightarrow> 's \<Rightarrow> (ep_error, unit) result \<times> 's"

section \<open>Moderation\<close>

record moderation =
  mod_id :: string
  mod_tags :: "string list"

definition should_delete :: "moderation \<Rightarrow> app_tag \<Rightarrow> string \<Rightarrow> bool" where
  "should_delete m tag tagger \<longleftrightarrow> tagger = mod_id m \<and> at_label tag \<in> set (mod_tags m)"

definition is_tag_storage_uri :: "'s handler_env \<Rightarrow> string \<Rightarrow> bool" where
  "is_tag_storage_uri H uri \<longleftrightarrow>
     (case try_from_uri (he_specs H) uri of
        Inr (PubkyApp _ (TagR _)) \<Rightarrow> True
      | Inr (UniversalTag _ _ (TagR _)) \<Rightarrow> True
      | _ \<Rightarrow> False)"

datatype mod_target = ModUser string | TakeDown string | Ignore

definition unsupported :: "string \<Rightarrow> ep_error" where
  "unsupported e = UnsupportedTarget (''The moderated URI is not a pubky.app URI or a universal tag: '' @ e)"

definition canonical_target :: "'s handler_env \<Rightarrow> string \<Rightarrow> (ep_error, mod_target) result" where
  "canonical_target H uri =
     (case try_from_uri (he_specs H) uri of
        Inl e \<Rightarrow> Inl (unsupported e)
      | Inr p \<Rightarrow> (case try_to_uri_str (he_specs H) p of Inl e \<Rightarrow> Inl (unsupported e) | Inr t \<Rightarrow> Inr (TakeDown t)))"

definition moderation_target :: "'s handler_env \<Rightarrow> string \<Rightarrow> (ep_error, mod_target) result" where
  "moderation_target H uri =
     (if is_tag_storage_uri H uri then canonical_target H uri
      else case he_pubky_app H uri of
        Inl e \<Rightarrow> Inl (unsupported e)
      | Inr (user, res) \<Rightarrow>
          (case res of
             UserR \<Rightarrow> Inr (ModUser user)
           | PostR _ \<Rightarrow> canonical_target H uri
           | TagR _ \<Rightarrow> canonical_target H uri
           | FileR _ \<Rightarrow> canonical_target H uri
           | _ \<Rightarrow> Inr Ignore))"

definition remove_taken_down :: "'s handler_env \<Rightarrow> string \<Rightarrow> 's \<Rightarrow> (ep_error, unit) result \<times> 's" where
  "remove_taken_down H uri s =
     (if is_tag_storage_uri H uri then tag_del H uri s
      else case he_pubky_app H uri of
        Inl e \<Rightarrow> (Inl (Generic e), s)
      | Inr (user, res) \<Rightarrow>
          (case res of
             PostR pid \<Rightarrow> post_del H user pid s
           | TagR _ \<Rightarrow> tag_del H uri s
           | FileR fid \<Rightarrow> file_del H user fid s
           | _ \<Rightarrow> (Inr (), s)))"

definition apply_moderation :: "'s handler_env \<Rightarrow> app_tag \<Rightarrow> string \<Rightarrow> 's \<Rightarrow> (ep_error, unit) result \<times> 's" where
  "apply_moderation H tag tag_uri s =
     (case moderation_target H (at_uri tag) of
        Inl e \<Rightarrow> (Inl e, s)
      | Inr (ModUser user) \<Rightarrow> user_del H user s
      | Inr Ignore \<Rightarrow> (Inr (), s)
      | Inr (TakeDown uri) \<Rightarrow>
          (case he_record_takedown H uri tag_uri s of
             (Inl e, s1) \<Rightarrow> (Inl e, s1)
           | (Inr _, s1) \<Rightarrow> remove_taken_down H uri s1))"

definition remove_if_taken_down :: "'s handler_env \<Rightarrow> string \<Rightarrow> 's \<Rightarrow> (ep_error, bool) result \<times> 's" where
  "remove_if_taken_down H uri s =
     (case he_is_taken_down H uri s of
        (Inl e, s1) \<Rightarrow> (Inl e, s1)
      | (Inr False, s1) \<Rightarrow> (Inr False, s1)
      | (Inr True, s1) \<Rightarrow>
          (case remove_taken_down H uri s1 of
             (Inr _, s2) \<Rightarrow> (Inr True, s2)
           | (Inl e, s2) \<Rightarrow> if e = SkipIndexing then (Inr True, s2) else (Inl e, s2)))"

section \<open>Dispatch\<close>

definition put_object ::
  "'s handler_env \<Rightarrow> moderation \<Rightarrow> event \<Rightarrow> app_object \<Rightarrow> 's \<Rightarrow> (ep_error, unit) result \<times> 's" where
  "put_object H m ev obj s =
     (let user = pu_user_id (ev_parsed_uri ev); uri = ev_uri ev in
      case (obj, pu_resource (ev_parsed_uri ev)) of
        (UserO u, UserR) \<Rightarrow> user_put H u uri user s
      | (PostO p, PostR pid) \<Rightarrow> post_put H p uri user pid s
      | (FollowO, FollowR followee) \<Rightarrow> follow_put H user followee s
      | (MuteO, MuteR _) \<Rightarrow> (Inr (), s)
      | (BookmarkO b, BookmarkR bid) \<Rightarrow> bookmark_put H user b bid s
      | (TagO tag, TagR tid) \<Rightarrow>
          if should_delete m tag user then apply_moderation H tag uri s
          else (case ev_parsed_uri ev of
                  UniversalTag _ app _ \<Rightarrow> tag_put_resource H tag uri user tid app s
                | PubkyApp _ _ \<Rightarrow> tag_put H tag uri user tid s)
      | (FileO f, FileR fid) \<Rightarrow> file_put H f uri user fid s
      | _ \<Rightarrow> (Inr (), s))"

definition handle_put_event :: "'s handler_env \<Rightarrow> moderation \<Rightarrow> event \<Rightarrow> 's \<Rightarrow> (ep_error, unit) result \<times> 's" where
  "handle_put_event H m ev s =
     (case remove_if_taken_down H (ev_uri ev) s of
        (Inl e, s1) \<Rightarrow> (Inl e, s1)
      | (Inr True, s1) \<Rightarrow> (Inr (), s1)
      | (Inr False, s1) \<Rightarrow>
          (case he_parse_resource H (ev_uri ev) of
             Inl e \<Rightarrow> (Inl e, s1)
           | Inr src \<Rightarrow>
               (case he_get_resource H src s1 of
                  (Inl e, s2) \<Rightarrow> (Inl e, s2)
                | (Inr blob, s2) \<Rightarrow>
                    (case he_from_resource H (pu_resource (ev_parsed_uri ev)) blob of
                       Inl e \<Rightarrow> (Inl (SpecValidation e), s2)
                     | Inr obj \<Rightarrow>
                         (case put_object H m ev obj s2 of
                            (Inl e, s3) \<Rightarrow> (Inl e, s3)
                          | (Inr _, s3) \<Rightarrow>
                              (case remove_if_taken_down H (ev_uri ev) s3 of
                                 (Inl e, s4) \<Rightarrow> (Inl e, s4)
                               | (Inr _, s4) \<Rightarrow> (Inr (), s4)))))))"

definition handle_del_event :: "'s handler_env \<Rightarrow> event \<Rightarrow> 's \<Rightarrow> (ep_error, unit) result \<times> 's" where
  "handle_del_event H ev s =
     (let user = pu_user_id (ev_parsed_uri ev) in
      case pu_resource (ev_parsed_uri ev) of
        UserR \<Rightarrow> user_del H user s
      | PostR pid \<Rightarrow> post_del H user pid s
      | FollowR followee \<Rightarrow> follow_del H user followee s
      | MuteR _ \<Rightarrow> (Inr (), s)
      | BookmarkR bid \<Rightarrow> bookmark_del H user bid s
      | TagR _ \<Rightarrow> tag_del H (ev_uri ev) s
      | FileR fid \<Rightarrow> file_del H user fid s
      | _ \<Rightarrow> (Inr (), s))"

definition default_handle :: "'s handler_env \<Rightarrow> moderation \<Rightarrow> event \<Rightarrow> 's \<Rightarrow> (ep_error, unit) result \<times> 's" where
  "default_handle H m ev s =
     (case (case ev_type ev of Put \<Rightarrow> handle_put_event H m ev s | Del \<Rightarrow> handle_del_event H ev s) of
        (Inl e, s1) \<Rightarrow> (Inl e, s1)
      | (Inr _, s1) \<Rightarrow> he_store_line H ev s1)"

section \<open>The calls of a PUT\<close>

text \<open>
  A PUT that succeeds ends with a check: either the first one, which found the record taken down
  and removed it, or the second one, after the write.
\<close>

lemma put_ends_with_check:
  assumes "handle_put_event H m ev s = (Inr (), s')"
  shows "\<exists>s1 b. remove_if_taken_down H (ev_uri ev) s1 = (Inr b, s') \<and>
    (b \<and> s1 = s \<or> (\<exists>blob obj s0 s2 src. remove_if_taken_down H (ev_uri ev) s = (Inr False, s0) \<and>
       he_get_resource H src s0 = (Inr blob, s2) \<and>
       he_from_resource H (pu_resource (ev_parsed_uri ev)) blob = Inr obj \<and>
       put_object H m ev obj s2 = (Inr (), s1)))"
proof -
  obtain r0 s0 where c0: "remove_if_taken_down H (ev_uri ev) s = (r0, s0)" by force
  show ?thesis
  proof (cases "r0 = Inr True")
    case True
    then have "s' = s0" using assms c0 by (simp add: handle_put_event_def)
    then show ?thesis using c0 True by blast
  next
    case nt: False
    then have f: "r0 = Inr False" using assms c0 by (cases r0) (auto simp: handle_put_event_def)
    obtain src where src: "he_parse_resource H (ev_uri ev) = Inr src"
      using assms c0 f by (cases "he_parse_resource H (ev_uri ev)") (auto simp: handle_put_event_def)
    obtain r2 s2 where g: "he_get_resource H src s0 = (r2, s2)" by force
    obtain blob where b: "r2 = Inr blob"
      using assms c0 f src g by (cases r2) (auto simp: handle_put_event_def)
    obtain obj where o: "he_from_resource H (pu_resource (ev_parsed_uri ev)) blob = Inr obj"
      using assms c0 f src g b
      by (cases "he_from_resource H (pu_resource (ev_parsed_uri ev)) blob") (auto simp: handle_put_event_def)
    obtain r3 s3 where w: "put_object H m ev obj s2 = (r3, s3)" by force
    have ok: "r3 = Inr ()"
      using assms c0 f src g b o w by (cases r3) (auto simp: handle_put_event_def)
    obtain r4 s4 where c4: "remove_if_taken_down H (ev_uri ev) s3 = (r4, s4)" by force
    obtain x where "r4 = Inr x" "s' = s4"
      using assms c0 f src g b o w ok c4 by (cases r4) (auto simp: handle_put_event_def)
    then show ?thesis using c0 f g b o w ok c4 by blast
  qed
qed

end
