(* ===== verification/Notification.thy ===== *)
theory Notification
  imports Redis_World
begin

text \<open>
  Notifications (nexus-common/src/models/notification/mod.rs): the sorted set of one user, whose
  members are the JSON texts of the bodies and whose scores are timestamps, the functions that add
  to it and the two that list it. serde's JSON writer and reader are the parameters \<open>json\<close> and
  \<open>unjson\<close>; a post kind, an enum of another crate, stands for itself by its wire text.
\<close>

section \<open>Bodies and types\<close>

datatype post_changed_source = SrcReply | SrcRepost | SrcBookmark | SrcReplyParent | SrcRepostEmbed | SrcTaggedPost

datatype post_changed_type = Edited | Deleted

datatype notification_body =
    Follow string
  | NewFriend string
  | LostFriend string
  | TagPost string string string string
  | TagProfile string string
  | UntagPost string string string string
  | UntagProfile string string
  | Reply string string string string
  | Repost string string string string
  | Mention string string string
  | PostDeleted post_changed_source string string string string
  | PostEdited post_changed_source string string string string

datatype notification_type =
    TFollow | TNewFriend | TLostFriend | TTagPost | TTagProfile | TUntagPost | TUntagProfile
  | TReply | TRepost | TMention | TPostDeleted | TPostEdited

fun notification_type_of :: "notification_body \<Rightarrow> notification_type" where
  "notification_type_of (Follow _) = TFollow"
| "notification_type_of (NewFriend _) = TNewFriend"
| "notification_type_of (LostFriend _) = TLostFriend"
| "notification_type_of (TagPost _ _ _ _) = TTagPost"
| "notification_type_of (TagProfile _ _) = TTagProfile"
| "notification_type_of (UntagPost _ _ _ _) = TUntagPost"
| "notification_type_of (UntagProfile _ _) = TUntagProfile"
| "notification_type_of (Reply _ _ _ _) = TReply"
| "notification_type_of (Repost _ _ _ _) = TRepost"
| "notification_type_of (Mention _ _ _) = TMention"
| "notification_type_of (PostDeleted _ _ _ _ _) = TPostDeleted"
| "notification_type_of (PostEdited _ _ _ _ _) = TPostEdited"

definition notification_type_from_str :: "string \<Rightarrow> (string, notification_type) result" where
  "notification_type_from_str s =
     (if s = ''follow'' then Inr TFollow
      else if s = ''new_friend'' then Inr TNewFriend
      else if s = ''lost_friend'' then Inr TLostFriend
      else if s = ''tag_post'' then Inr TTagPost
      else if s = ''tag_profile'' then Inr TTagProfile
      else if s = ''untag_post'' then Inr TUntagPost
      else if s = ''untag_profile'' then Inr TUntagProfile
      else if s = ''reply'' then Inr TReply
      else if s = ''repost'' then Inr TRepost
      else if s = ''mention'' then Inr TMention
      else if s = ''post_deleted'' then Inr TPostDeleted
      else if s = ''post_edited'' then Inr TPostEdited
      else Inl (''unknown notification type: '' @ s))"

record notification =
  nt_timestamp :: int
  nt_body :: notification_body

section \<open>The sorted set of a user\<close>

record notif_kv =
  nt_sets :: "string \<Rightarrow> (string \<times> int) list"

text \<open>\<open>ZADD\<close> overwrites the score of a member, \<open>ZADD NX\<close> keeps it.\<close>

definition zadd_notification :: "string \<Rightarrow> string \<Rightarrow> int \<Rightarrow> 'a notif_kv_scheme \<Rightarrow> unit \<times> 'a notif_kv_scheme" where
  "zadd_notification user member score g =
     ((), g\<lparr>nt_sets := (nt_sets g)(user := AList.update member score (nt_sets g user))\<rparr>)"

definition zadd_nx_notification :: "string \<Rightarrow> string \<Rightarrow> int \<Rightarrow> 'a notif_kv_scheme \<Rightarrow> unit \<times> 'a notif_kv_scheme" where
  "zadd_nx_notification user member score g =
     (case map_of (nt_sets g user) member of
        Some _ \<Rightarrow> ((), g)
      | None \<Rightarrow> ((), g\<lparr>nt_sets := (nt_sets g)(user := AList.update member score (nt_sets g user))\<rparr>))"

definition notification_put ::
  "(notification_body \<Rightarrow> string) \<Rightarrow> string \<Rightarrow> notification_body \<Rightarrow> 'a notif_kv_scheme world \<Rightarrow>
   (redis_error, unit) result \<times> 'a notif_kv_scheme world" where
  "notification_put json user body w =
     redis_call (zadd_notification user (json body) (f64_of_int (clock w (tick w)))) w"

definition notification_put_once ::
  "(notification_body \<Rightarrow> string) \<Rightarrow> string \<Rightarrow> notification_body \<Rightarrow> 'a notif_kv_scheme world \<Rightarrow>
   (redis_error, unit) result \<times> 'a notif_kv_scheme world" where
  "notification_put_once json user body w =
     redis_call (zadd_nx_notification user (json body) (f64_of_int (clock w (tick w)))) w"

section \<open>The functions that notify\<close>

definition new_follow where
  "new_follow json user followee new_friend w =
     notification_put json followee (if new_friend then NewFriend user else Follow user) w"

definition lost_follow where
  "lost_follow json user followee were_friends w =
     (if \<not> were_friends then (Inr (), w) else notification_put json followee (LostFriend user) w)"

definition new_post_tag where
  "new_post_tag json user author lbl post_uri kind w =
     (if user = author then (Inr (), w)
      else notification_put json author (TagPost user lbl post_uri kind) w)"

definition new_user_tag where
  "new_user_tag json tagger tagged lbl w =
     (if tagger = tagged then (Inr (), w) else notification_put json tagged (TagProfile tagger lbl) w)"

definition new_post_untag where
  "new_post_untag json user author lbl post_uri kind w =
     (if user = author then (Inr (), w)
      else notification_put json author (UntagPost user lbl post_uri kind) w)"

definition new_user_untag where
  "new_user_untag json tagger tagged lbl w =
     (if tagger = tagged then (Inr (), w) else notification_put json tagged (UntagProfile tagger lbl) w)"

definition new_post_reply where
  "new_post_reply json user parent_uri reply_uri parent_post_author kind w =
     (if user = parent_post_author then (Inr (), w)
      else notification_put_once json parent_post_author (Reply user parent_uri reply_uri kind) w)"

definition new_mention where
  "new_mention json user mentioned post_uri kind w =
     (if user = mentioned then (Inr None, w)
      else case notification_put_once json mentioned (Mention user post_uri kind) w of
        (Inl e, w1) \<Rightarrow> (Inl e, w1)
      | (Inr _, w1) \<Rightarrow> (Inr (Some mentioned), w1))"

definition new_repost where
  "new_repost json user embed_uri repost_uri embed_post_author kind w =
     (if user = embed_post_author then (Inr (), w)
      else notification_put_once json embed_post_author (Repost user embed_uri repost_uri kind) w)"

definition changed_body ::
  "post_changed_type \<Rightarrow> post_changed_source \<Rightarrow> string \<Rightarrow> string \<Rightarrow> string \<Rightarrow> string \<Rightarrow> notification_body" where
  "changed_body ty src user changed_uri linked_uri kind =
     (case ty of Deleted \<Rightarrow> PostDeleted src user changed_uri linked_uri kind
      | Edited \<Rightarrow> PostEdited src user changed_uri linked_uri kind)"

definition post_children_changed where
  "post_children_changed json user linked_uri linked_post_author changed_uri src ty kind w =
     (if user = linked_post_author then (Inr (), w)
      else notification_put json linked_post_author (changed_body ty src user changed_uri linked_uri kind) w)"

section \<open>Listing\<close>

record pagination =
  pg_skip :: "nat option"
  pg_limit :: "nat option"
  pg_start :: "int option"
  pg_end :: "int option"

text \<open>
  Descending rank order: by score, equal scores by member. The upper bound of the scores is the
  pagination's \<open>start\<close>, the lower one its \<open>end\<close>.
\<close>

definition ranked :: "(string \<times> int) list \<Rightarrow> (string \<times> int) list" where
  "ranked z = rev (sort_key (\<lambda>(m, s). (s, m)) z)"

definition in_bounds :: "int option \<Rightarrow> int option \<Rightarrow> string \<times> int \<Rightarrow> bool" where
  "in_bounds upper lower row \<longleftrightarrow>
     (case upper of None \<Rightarrow> True | Some b \<Rightarrow> snd row \<le> b) \<and> (case lower of None \<Rightarrow> True | Some a \<Rightarrow> a \<le> snd row)"

definition zrevrangebyscore_limit ::
  "string \<Rightarrow> int option \<Rightarrow> int option \<Rightarrow> nat \<Rightarrow> nat \<Rightarrow> 'a notif_kv_scheme \<Rightarrow> (string \<times> int) list \<times> 'a notif_kv_scheme" where
  "zrevrangebyscore_limit user upper lower skip cnt g =
     (take cnt (drop skip (filter (in_bounds upper lower) (ranked (nt_sets g user)))), g)"

text \<open>\<open>get_range\<close>: two calls, since the key is checked before it is read.\<close>

definition notification_range ::
  "string \<Rightarrow> int option \<Rightarrow> int option \<Rightarrow> nat \<Rightarrow> nat \<Rightarrow> 'a notif_kv_scheme world \<Rightarrow>
   (redis_error, (string \<times> int) list option) result \<times> 'a notif_kv_scheme world" where
  "notification_range user start fin skip cnt w =
     (case redis_call (\<lambda>g. (nt_sets g user \<noteq> [], g)) w of
        (Inl e, w1) \<Rightarrow> (Inl e, w1)
      | (Inr present, w1) \<Rightarrow>
          if \<not> present then (Inr None, w1)
          else (case redis_call (zrevrangebyscore_limit user start fin skip cnt) w1 of
                  (Inl e, w2) \<Rightarrow> (Inl e, w2)
                | (Inr rows, w2) \<Rightarrow> (Inr (Some rows), w2)))"

definition f64_as_i64 :: "int \<Rightarrow> int" where
  "f64_as_i64 s = max (- (2 ^ 63)) (min (2 ^ 63 - 1) s)"

definition from_row :: "(string \<Rightarrow> notification_body option) \<Rightarrow> string \<times> int \<Rightarrow> notification option" where
  "from_row unjson row =
     (case unjson (fst row) of
        Some body \<Rightarrow> Some \<lparr>nt_timestamp = f64_as_i64 (snd row), nt_body = body\<rparr>
      | None \<Rightarrow> None)"

definition unwrap_or :: "'x \<Rightarrow> 'x option \<Rightarrow> 'x" where
  "unwrap_or d v = (case v of None \<Rightarrow> d | Some x \<Rightarrow> x)"

definition notification_get_by_id ::
  "(string \<Rightarrow> notification_body option) \<Rightarrow> string \<Rightarrow> pagination \<Rightarrow> 'a notif_kv_scheme world \<Rightarrow>
   (redis_error, notification list) result \<times> 'a notif_kv_scheme world" where
  "notification_get_by_id unjson user p w =
     (case notification_range user (pg_start p) (pg_end p) (unwrap_or 0 (pg_skip p)) (unwrap_or 20 (pg_limit p)) w of
        (Inl e, w1) \<Rightarrow> (Inl e, w1)
      | (Inr rows, w1) \<Rightarrow> (Inr (List.map_filter (from_row unjson) (unwrap_or [] rows)), w1))"

definition NOTIFICATION_FILTER_CHUNK :: nat where "NOTIFICATION_FILTER_CHUNK = 500"
definition NOTIFICATION_FILTER_MAX_SCAN :: nat where "NOTIFICATION_FILTER_MAX_SCAN = 10000"

record filter_scan =
  fs_to_skip :: nat
  fs_start :: "int option"
  fs_result :: "notification list"
  fs_offset :: nat
  fs_oldest :: "int option"
  fs_exhausted :: bool

text \<open>The inner loop over one chunk: matching notifications are skipped or kept until the page is full.\<close>

fun keep_matching ::
  "nat \<Rightarrow> notification_type list \<Rightarrow> notification list \<Rightarrow> nat \<Rightarrow> notification list \<Rightarrow> nat \<times> notification list" where
  "keep_matching limit types [] to_skip result = (to_skip, result)"
| "keep_matching limit types (n # ns) to_skip result =
     (if notification_type_of (nt_body n) \<notin> set types then keep_matching limit types ns to_skip result
      else if to_skip > 0 then keep_matching limit types ns (to_skip - 1) result
      else if length (result @ [n]) = limit then (to_skip, result @ [n])
      else keep_matching limit types ns to_skip (result @ [n]))"

definition scan_chunk ::
  "(string \<Rightarrow> notification_body option) \<Rightarrow> nat \<Rightarrow> notification_type list \<Rightarrow> nat \<Rightarrow> (string \<times> int) list \<Rightarrow>
   filter_scan \<Rightarrow> filter_scan" where
  "scan_chunk unjson limit types chunk rows s =
     (case keep_matching limit types (List.map_filter (from_row unjson) rows) (fs_to_skip s) (fs_result s) of
        (to_skip, result) \<Rightarrow>
          \<lparr>fs_to_skip = to_skip,
           fs_start = (case fs_start s of
              None \<Rightarrow> (case rows of [] \<Rightarrow> None | row # _ \<Rightarrow> Some (snd row)) | Some b \<Rightarrow> Some b),
           fs_result = result,
           fs_offset = fs_offset s + length rows,
           fs_oldest = (if rows = [] then fs_oldest s else Some (snd (last rows))),
           fs_exhausted = (fs_exhausted s \<or> length rows < chunk)\<rparr>)"

function filter_loop ::
  "(string \<Rightarrow> notification_body option) \<Rightarrow> string \<Rightarrow> int option \<Rightarrow> nat \<Rightarrow> notification_type list \<Rightarrow>
   filter_scan \<Rightarrow> 'a notif_kv_scheme world \<Rightarrow> (redis_error, filter_scan) result \<times> 'a notif_kv_scheme world" where
  "filter_loop unjson user fin limit types s w =
     (if length (fs_result s) < limit \<and> fs_offset s < NOTIFICATION_FILTER_MAX_SCAN
      then let chunk = min NOTIFICATION_FILTER_CHUNK (NOTIFICATION_FILTER_MAX_SCAN - fs_offset s) in
        (case notification_range user (fs_start s) fin (fs_offset s) chunk w of
           (Inl e, w1) \<Rightarrow> (Inl e, w1)
         | (Inr rows, w1) \<Rightarrow>
             (let s1 = scan_chunk unjson limit types chunk (unwrap_or [] rows) s in
              if fs_exhausted s1 then (Inr s1, w1)
              else filter_loop unjson user fin limit types s1 w1))
      else (Inr s, w))"
  by pat_completeness auto
termination
  by (relation "measure (\<lambda>(_, _, _, _, _, s, _). NOTIFICATION_FILTER_MAX_SCAN - fs_offset s)")
    (auto simp: scan_chunk_def NOTIFICATION_FILTER_CHUNK_def split: prod.splits)

declare filter_loop.simps [simp del]

definition next_start :: "nat \<Rightarrow> filter_scan \<Rightarrow> int option" where
  "next_start limit s =
     (if length (fs_result s) < limit \<and> \<not> fs_exhausted s
      then (case fs_oldest s of Some score \<Rightarrow> Some (wrap_i64 (f64_as_i64 score - 1)) | None \<Rightarrow> None)
      else None)"

definition get_by_id_filtered ::
  "(string \<Rightarrow> notification_body option) \<Rightarrow> string \<Rightarrow> pagination \<Rightarrow> notification_type list \<Rightarrow>
   'a notif_kv_scheme world \<Rightarrow>
   (redis_error, notification list \<times> int option) result \<times> 'a notif_kv_scheme world" where
  "get_by_id_filtered unjson user p types w =
     (let limit = unwrap_or 20 (pg_limit p) in
      case filter_loop unjson user (pg_end p) limit types
          \<lparr>fs_to_skip = unwrap_or 0 (pg_skip p), fs_start = pg_start p, fs_result = [], fs_offset = 0,
           fs_oldest = None, fs_exhausted = False\<rparr> w of
        (Inl e, w1) \<Rightarrow> (Inl e, w1)
      | (Inr s, w1) \<Rightarrow> (Inr (fs_result s, next_start limit s), w1))"


section \<open>One page against the rows of one snapshot\<close>

abbreviation matching :: "notification_type list \<Rightarrow> notification \<Rightarrow> bool" where
  "matching types n \<equiv> notification_type_of (nt_body n) \<in> set types"

definition matches_of ::
  "(string \<Rightarrow> notification_body option) \<Rightarrow> notification_type list \<Rightarrow> (string \<times> int) list \<Rightarrow> notification list" where
  "matches_of unjson types rows = filter (matching types) (List.map_filter (from_row unjson) rows)"

text \<open>The specification: skip and limit count the matches among the first rows of the snapshot.\<close>

definition filtered_page ::
  "(string \<Rightarrow> notification_body option) \<Rightarrow> notification_type list \<Rightarrow> nat \<Rightarrow> nat \<Rightarrow> (string \<times> int) list \<Rightarrow>
   notification list \<times> int option" where
  "filtered_page unjson types skip limit rows =
     (let scanned = take NOTIFICATION_FILTER_MAX_SCAN rows;
          page = take limit (drop skip (matches_of unjson types scanned)) in
      (page, if length page < limit \<and> length scanned = NOTIFICATION_FILTER_MAX_SCAN
             then Some (wrap_i64 (f64_as_i64 (snd (last scanned)) - 1)) else None))"

lemma max_scan_pos [simp]: "0 < NOTIFICATION_FILTER_MAX_SCAN" "0 < NOTIFICATION_FILTER_CHUNK"
  by (simp_all add: NOTIFICATION_FILTER_MAX_SCAN_def NOTIFICATION_FILTER_CHUNK_def)

lemma map_filter_append [simp]: "List.map_filter f (xs @ ys) = List.map_filter f xs @ List.map_filter f ys"
  by (simp add: List.map_filter_def)

lemma matches_of_simps [simp]:
  "matches_of unjson types [] = []"
  "matches_of unjson types (xs @ ys) = matches_of unjson types xs @ matches_of unjson types ys"
  by (simp_all add: matches_of_def List.map_filter_def)

lemma keep_matching_spec:
  assumes "length result < limit"
  shows "snd (keep_matching limit types ns k result) =
      result @ take (limit - length result) (drop k (filter (matching types) ns))"
    and "length (snd (keep_matching limit types ns k result)) < limit \<Longrightarrow>
      fst (keep_matching limit types ns k result) = k - length (filter (matching types) ns)"
  using assms
proof (induction limit types ns k result rule: keep_matching.induct)
  case (2 limit types n ns k result)
  {
    case 1
    then show ?case using 2 by (cases k) (auto simp: Suc_diff_Suc [symmetric] take_Cons' Suc_lessI)
  next
    case 2
    then show ?case using "2.IH" "2.prems" by (cases k) (auto simp: Suc_lessI)
  }
qed auto

text \<open>What a scan holds after the first \<open>fs_offset\<close> rows.\<close>

definition scan_holds ::
  "(string \<Rightarrow> notification_body option) \<Rightarrow> notification_type list \<Rightarrow> nat \<Rightarrow> nat \<Rightarrow> (string \<times> int) list \<Rightarrow>
   filter_scan \<Rightarrow> bool" where
  "scan_holds unjson types skip limit rows s \<longleftrightarrow>
     (let ms = matches_of unjson types (take (fs_offset s) rows) in
      fs_offset s \<le> NOTIFICATION_FILTER_MAX_SCAN \<and> fs_offset s \<le> length rows \<and>
      fs_result s = take limit (drop skip ms) \<and>
      (length (fs_result s) < limit \<longrightarrow> fs_to_skip s = skip - length ms) \<and>
      fs_oldest s = (if fs_offset s = 0 then None else Some (snd (rows ! (fs_offset s - 1)))))"

lemma scan_chunk_holds:
  assumes s: "scan_holds unjson types skip limit rows s" and l: "length (fs_result s) < limit"
    and rd: "rd = take chunk (drop (fs_offset s) rows)" and c: "chunk \<le> NOTIFICATION_FILTER_MAX_SCAN - fs_offset s"
    and m: "fs_offset s < NOTIFICATION_FILTER_MAX_SCAN"
  shows "scan_holds unjson types skip limit rows (scan_chunk unjson limit types chunk rd s)"
proof -
  let ?ns = "List.map_filter (from_row unjson) rd" and ?off = "fs_offset s"
  let ?ms = "matches_of unjson types (take ?off rows)" and ?mr = "matches_of unjson types rd"
  obtain k res where km: "keep_matching limit types ?ns (fs_to_skip s) (fs_result s) = (k, res)" by force
  note spec = keep_matching_spec [OF l, of types ?ns "fs_to_skip s", unfolded km fst_conv snd_conv,
      folded matches_of_def]
  have off: "?off \<le> length rows" "fs_result s = take limit (drop skip ?ms)" "fs_to_skip s = skip - length ?ms"
    using s l by (simp_all add: scan_holds_def Let_def)
  have short: "length (drop skip ?ms) < limit" using l off(2) by auto
  have t: "take (?off + length rd) rows = take ?off rows @ rd"
    using rd off(1) by (simp add: take_add min_def)
  have res: "res = take limit (drop skip (?ms @ ?mr))"
    using spec(1) off(2,3) short by simp
  have sk: "length res < limit \<longrightarrow> k = skip - length (?ms @ ?mr)"
    using spec(2) off(3) by auto
  have bound: "?off + length rd \<le> NOTIFICATION_FILTER_MAX_SCAN" "?off + length rd \<le> length rows"
    using rd c m off(1) by auto
  have old: "snd (last rd) = snd (rows ! (?off + length rd - 1))" if "rd \<noteq> []"
  proof -
    have "length rd \<le> chunk" "length rd > 0" using that by (simp_all add: rd)
    then have "length rd - 1 < chunk" by linarith
    then have "rd ! (length rd - 1) = drop ?off rows ! (length rd - 1)" by (subst (1) rd) (rule nth_take)
    with that off(1) show ?thesis by (simp add: last_conv_nth Suc_leI)
  qed
  let ?s = "scan_chunk unjson limit types chunk rd s"
  have fields: "fs_offset ?s = ?off + length rd" "fs_result ?s = res" "fs_to_skip ?s = k"
      "fs_oldest ?s = (if rd = [] then fs_oldest s else Some (snd (last rd)))"
    by (simp_all add: scan_chunk_def km)
  have "fs_oldest ?s = (if ?off + length rd = 0 then None else Some (snd (rows ! (?off + length rd - 1))))"
    using s old fields(4) by (cases "rd = []") (simp_all add: scan_holds_def Let_def)
  then show ?thesis
    unfolding scan_holds_def Let_def fields(1-3) t matches_of_simps using res sk bound by simp
qed

lemma scan_holds_done:
  assumes "scan_holds unjson types skip limit rows s"
    and "\<not> (length (fs_result s) < limit \<and> fs_offset s < NOTIFICATION_FILTER_MAX_SCAN) \<and> \<not> fs_exhausted s
      \<or> fs_exhausted s \<and> fs_offset s = length rows \<and> length rows < NOTIFICATION_FILTER_MAX_SCAN"
  shows "(fs_result s, next_start limit s) = filtered_page unjson types skip limit rows"
proof -
  let ?M = NOTIFICATION_FILTER_MAX_SCAN and ?off = "fs_offset s"
  have off: "?off \<le> ?M" "?off \<le> length rows"
      "fs_result s = take limit (drop skip (matches_of unjson types (take ?off rows)))"
      "fs_oldest s = (if ?off = 0 then None else Some (snd (rows ! (?off - 1))))"
    using assms(1) by (simp_all add: scan_holds_def Let_def)
  consider "fs_exhausted s" "?off = length rows" "length rows < ?M"
    | "\<not> fs_exhausted s" "?off = ?M" | "\<not> fs_exhausted s" "\<not> length (fs_result s) < limit"
    using assms(2) off(1) by fastforce
  then show ?thesis
  proof cases
    case 1
    then show ?thesis using off by (simp add: filtered_page_def next_start_def Let_def)
  next
    case 2
    have "snd (last (take ?M rows)) = snd (rows ! (?M - 1))"
      using 2 off(2) max_scan_pos(1) by (subst last_conv_nth) (auto simp del: max_scan_pos)
    then show ?thesis using 2 off max_scan_pos(1) by (auto simp: filtered_page_def next_start_def Let_def)
  next
    case 3
    have "take ?M rows = take ?off rows @ take (?M - ?off) (drop ?off rows)"
      using off(1) by (metis take_add le_add_diff_inverse)
    then have "matches_of unjson types (take ?M rows) = matches_of unjson types (take ?off rows) @
        matches_of unjson types (take (?M - ?off) (drop ?off rows))" by simp
    then have "take limit (drop skip (matches_of unjson types (take ?M rows))) = fs_result s"
      using 3(2) off(3) by simp
    then show ?thesis using 3 by (simp add: filtered_page_def next_start_def Let_def del: length_take)
  qed
qed

section \<open>Reading under concurrent arrivals\<close>

text \<open>
  \<open>arrivals\<close>: the other tasks only add notifications to the set, newer than every one in it and
  newer than the upper bound of the request.
\<close>

definition newer_than :: "(string \<times> int) list \<Rightarrow> int option \<Rightarrow> (string \<times> int) list \<Rightarrow> bool" where
  "newer_than rows start new \<longleftrightarrow>
     (\<forall>r \<in> set new. (\<forall>r' \<in> set rows. snd r' < snd r) \<and> (\<forall>b. start = Some b \<longrightarrow> b < snd r))"

definition arrivals :: "string \<Rightarrow> int option \<Rightarrow> 'a notif_kv_scheme world \<Rightarrow> bool" where
  "arrivals user start w \<longleftrightarrow>
     (\<forall>n g. \<exists>new. ranked (nt_sets (env w n g) user) = new @ ranked (nt_sets g user) \<and>
        newer_than (ranked (nt_sets g user)) start new)"

definition grown :: "string \<Rightarrow> int option \<Rightarrow> (string \<times> int) list \<Rightarrow> 'a notif_kv_scheme \<Rightarrow> bool" where
  "grown user start rows g \<longleftrightarrow> (\<exists>new. ranked (nt_sets g user) = new @ rows \<and> newer_than rows start new)"

lemma grown_refl: "grown user start (ranked (nt_sets g user)) g"
  by (simp add: grown_def newer_than_def)

lemma arrivals_grown:
  fixes w :: "'a notif_kv_scheme world"
  assumes "arrivals user start w"
  shows "env_keeps (grown user start rows) w"
  unfolding env_keeps_def
proof (intro allI impI)
  fix n and g :: "'a notif_kv_scheme"
  assume "grown user start rows g"
  then obtain new where g: "ranked (nt_sets g user) = new @ rows" "newer_than rows start new"
    by (auto simp: grown_def)
  obtain new' where "ranked (nt_sets (env w n g) user) = new' @ ranked (nt_sets g user)"
      "newer_than (ranked (nt_sets g user)) start new'"
    using assms unfolding arrivals_def by blast
  with g show "grown user start rows (env w n g)"
    unfolding grown_def by (intro exI [of _ "new' @ new"]) (auto simp: newer_than_def)
qed

text \<open>A pinned upper bound: the rows up to it stay as they are.\<close>

lemma arrivals_pinned:
  fixes w :: "'a notif_kv_scheme world"
  assumes "arrivals user None w" and "row \<in> set rows"
  shows "env_keeps (grown user (Some (snd row)) rows) w"
  unfolding env_keeps_def
proof (intro allI impI)
  fix n and g :: "'a notif_kv_scheme"
  assume "grown user (Some (snd row)) rows g"
  then obtain new where g: "ranked (nt_sets g user) = new @ rows" "newer_than rows (Some (snd row)) new"
    by (auto simp: grown_def)
  obtain new' where "ranked (nt_sets (env w n g) user) = new' @ ranked (nt_sets g user)"
      "newer_than (ranked (nt_sets g user)) None new'"
    using assms(1) unfolding arrivals_def by blast
  with g assms(2) show "grown user (Some (snd row)) rows (env w n g)"
    unfolding grown_def by (intro exI [of _ "new' @ new"]) (auto simp: newer_than_def)
qed

lemma grown_same_range:
  assumes "grown user (Some b) rows g"
  shows "filter (in_bounds (Some b) fin) (ranked (nt_sets g user)) = filter (in_bounds (Some b) fin) rows"
proof -
  obtain new where "ranked (nt_sets g user) = new @ rows" "\<forall>r \<in> set new. b < snd r"
    using assms by (auto simp: grown_def newer_than_def)
  moreover from this(2) have "filter (in_bounds (Some b) fin) new = []"
    by (auto simp: filter_empty_conv in_bounds_def)
  ultimately show ?thesis by simp
qed

lemma range_reads:
  assumes "notification_range user up fin off cnt w = (r, w')" "env_keeps J w" "J (kv w)"
  shows "J (kv w') \<and> same_schedule w w' \<and>
    (\<forall>v. r = Inr v \<longrightarrow> unwrap_or [] v = take cnt (drop off (filter (in_bounds up fin) (ranked (nt_sets (kv w') user)))))"
proof -
  obtain r1 w1 where c1: "redis_call (\<lambda>g. (nt_sets g user \<noteq> [], g)) w = (r1, w1)" by force
  obtain g1 where "J g1" "same_schedule w w1" and o1: "(\<exists>e. r1 = Inl e \<and> kv w1 \<in> {g1, snd (nt_sets g1 user \<noteq> [], g1)}) \<or>
      (r1 = Inr (fst (nt_sets g1 user \<noteq> [], g1)) \<and> kv w1 = snd (nt_sets g1 user \<noteq> [], g1))"
    by (rule redis_callE [OF c1 assms(2,3)])
  moreover from o1 have "kv w1 = g1" "\<forall>v. r1 = Inr v \<longrightarrow> v = (nt_sets g1 user \<noteq> [])" by auto
  ultimately have g1: "J g1" "same_schedule w w1" "kv w1 = g1" "\<forall>v. r1 = Inr v \<longrightarrow> v = (nt_sets g1 user \<noteq> [])"
    by blast+
  obtain r2 w2 where c2: "redis_call (zrevrangebyscore_limit user up fin off cnt) w1 = (r2, w2)" by force
  have k1: "env_keeps J w1" "J (kv w1)" using g1 assms(2) by (auto intro: env_keeps_same [THEN iffD2])
  let ?z = "zrevrangebyscore_limit user up fin off cnt"
  obtain g2 where j2: "J g2" "same_schedule w1 w2"
    and o2: "(\<exists>e. r2 = Inl e \<and> kv w2 \<in> {g2, snd (?z g2)}) \<or> (r2 = Inr (fst (?z g2)) \<and> kv w2 = snd (?z g2))"
    by (rule redis_callE [OF c2 k1])
  have g2: "J (kv w2)" "same_schedule w1 w2"
      "\<forall>v. r2 = Inr v \<longrightarrow> v = take cnt (drop off (filter (in_bounds up fin) (ranked (nt_sets (kv w2) user))))"
    using j2 o2 by (auto simp: zrevrangebyscore_limit_def)
  have sch: "same_schedule w w2" using g1(2) g2(2) by (rule same_schedule_trans)
  consider e where "r1 = Inl e" | "r1 = Inr False" | "r1 = Inr True" by (cases r1) auto
  then show ?thesis
  proof cases
    case 1
    then have "r = Inl e \<and> w' = w1" using assms(1) c1 by (simp add: notification_range_def)
    then show ?thesis using g1 by simp
  next
    case 2
    then have "r = Inr None \<and> w' = w1" using assms(1) c1 by (auto simp: notification_range_def)
    moreover have "nt_sets (kv w1) user = []" using g1(3,4) 2 by auto
    ultimately show ?thesis using g1 by (simp add: unwrap_or_def ranked_def)
  next
    case 3
    then have "w' = w2 \<and> (\<forall>v. r = Inr v \<longrightarrow> r2 = Inr (unwrap_or [] v))"
      using assms(1) c1 c2 by (cases r2) (auto simp: notification_range_def unwrap_or_def)
    then show ?thesis using g2 sch by simp
  qed
qed

lemma scan_holds_init:
  "fs_offset s = 0 \<Longrightarrow> fs_result s = [] \<Longrightarrow> fs_oldest s = None \<Longrightarrow> fs_to_skip s = skip \<Longrightarrow>
   scan_holds unjson types skip limit rows s"
  by (simp add: scan_holds_def Let_def)

lemma scan_chunk_start [simp]:
  "fs_start s = Some b \<Longrightarrow> fs_start (scan_chunk unjson limit types chunk rd s) = Some b"
  "fs_exhausted (scan_chunk unjson limit types chunk rd s) \<longleftrightarrow> fs_exhausted s \<or> length rd < chunk"
  "fs_offset (scan_chunk unjson limit types chunk rd s) = fs_offset s + length rd"
  by (simp_all add: scan_chunk_def split: prod.splits)

text \<open>One round of the loop that has to read: it is exhausted at the end of the rows, or goes on.\<close>

lemma exhausted_at_end:
  assumes "scan_holds unjson types skip limit rows s" "fs_offset s < NOTIFICATION_FILTER_MAX_SCAN"
    and "rd = take chunk (drop (fs_offset s) rows)" "length rd < chunk"
    and "chunk \<le> NOTIFICATION_FILTER_MAX_SCAN - fs_offset s"
  shows "fs_offset s + length rd = length rows \<and> length rows < NOTIFICATION_FILTER_MAX_SCAN"
  using assms by (auto simp: scan_holds_def Let_def)

lemma filter_loop_stop:
  "\<not> (length (fs_result s) < limit \<and> fs_offset s < NOTIFICATION_FILTER_MAX_SCAN) \<Longrightarrow>
   filter_loop unjson user fin limit types s w = (Inr s, w)"
  by (subst filter_loop.simps) auto

lemma filter_loop_read:
  assumes "length (fs_result s) < limit" "fs_offset s < NOTIFICATION_FILTER_MAX_SCAN"
    and "notification_range user (fs_start s) fin (fs_offset s)
      (min NOTIFICATION_FILTER_CHUNK (NOTIFICATION_FILTER_MAX_SCAN - fs_offset s)) w = (r, w1)"
  shows "filter_loop unjson user fin limit types s w =
    (case r of Inl e \<Rightarrow> (Inl e, w1)
     | Inr v \<Rightarrow> let s1 = scan_chunk unjson limit types
           (min NOTIFICATION_FILTER_CHUNK (NOTIFICATION_FILTER_MAX_SCAN - fs_offset s)) (unwrap_or [] v) s in
         if fs_exhausted s1 then (Inr s1, w1) else filter_loop unjson user fin limit types s1 w1)"
  using assms by (subst filter_loop.simps) (simp add: Let_def split: sum.splits)

lemma filter_loop_pinned:
  assumes "filter_loop unjson user fin limit types s w = (Inr s', w')"
    and "fs_start s = Some b" "\<not> fs_exhausted s" "scan_holds unjson types skip limit rows s"
    and "env_keeps J w" "J (kv w)"
    and J: "\<And>g. J g \<Longrightarrow> filter (in_bounds (Some b) fin) (ranked (nt_sets g user)) = rows"
  shows "(fs_result s', next_start limit s') = filtered_page unjson types skip limit rows"
  using assms(1-6)
proof (induction "NOTIFICATION_FILTER_MAX_SCAN - fs_offset s" arbitrary: s w rule: less_induct)
  case less
  let ?M = NOTIFICATION_FILTER_MAX_SCAN
  show ?case
  proof (cases "length (fs_result s) < limit \<and> fs_offset s < ?M")
    case False
    then have "s' = s" using less.prems(1) filter_loop_stop [OF False, of unjson user fin types w] by simp
    then show ?thesis using scan_holds_done [OF less.prems(4)] False less.prems(3) by simp
  next
    case True
    define chunk where "chunk = min NOTIFICATION_FILTER_CHUNK (?M - fs_offset s)"
    have c: "0 < chunk" "chunk \<le> ?M - fs_offset s" using True by (auto simp: chunk_def)
    obtain r w1 where rng: "notification_range user (Some b) fin (fs_offset s) chunk w = (r, w1)" by force
    note rr = range_reads [OF rng less.prems(5,6)]
    note unf = filter_loop_read [of s limit user fin w r w1 unjson types, folded chunk_def,
        OF conjunct1 [OF True] conjunct2 [OF True] rng [folded less.prems(2)], unfolded less.prems(1)]
    obtain v where v: "r = Inr v" using unf by (cases r) auto
    define rd where "rd = unwrap_or [] v"
    have rd: "rd = take chunk (drop (fs_offset s) rows)" using rr v J by (simp add: rd_def)
    let ?s = "scan_chunk unjson limit types chunk rd s"
    have holds: "scan_holds unjson types skip limit rows ?s"
      by (rule scan_chunk_holds [OF less.prems(4) conjunct1 [OF True] rd c(2) conjunct2 [OF True]])
    have stp: "(Inr s', w') = (if fs_exhausted ?s then (Inr ?s, w1) else filter_loop unjson user fin limit types ?s w1)"
      using unf v by (simp add: rd_def Let_def)
    show ?thesis
    proof (cases "fs_exhausted ?s")
      case ex: True
      then have "length rd < chunk" using less.prems(3) by simp
      then have "fs_offset s + length rd = length rows \<and> length rows < ?M"
        using exhausted_at_end [OF less.prems(4) conjunct2 [OF True] rd] c by simp
      then show ?thesis using scan_holds_done [OF holds] ex stp by simp
    next
      case False
      then have "?M - fs_offset ?s < ?M - fs_offset s" using c conjunct2 [OF True] by auto
      moreover have "filter_loop unjson user fin limit types ?s w1 = (Inr s', w')" using stp False by simp
      moreover have "env_keeps J w1" using rr less.prems(5) by (auto intro: env_keeps_same [THEN iffD2])
      ultimately show ?thesis using less.hyps [of ?s w1] less.prems(2) False holds rr by simp
    qed
  qed
qed

lemma range_no_fault:
  assumes "notification_range user up fin off cnt w = (r, w')" "\<forall>n. fault w n = None"
  shows "(\<exists>v. r = Inr v) \<and> (\<forall>n. fault w' n = None)"
  using assms by (auto simp: notification_range_def redis_call_def env_step_def Let_def split: if_splits)

lemma filter_loop_no_fault:
  assumes "filter_loop unjson user fin limit types s w = (r, w')" "\<forall>n. fault w n = None"
  shows "\<exists>s'. r = Inr s'"
  using assms
proof (induction "NOTIFICATION_FILTER_MAX_SCAN - fs_offset s" arbitrary: s w rule: less_induct)
  case less
  let ?M = NOTIFICATION_FILTER_MAX_SCAN
  show ?case
  proof (cases "length (fs_result s) < limit \<and> fs_offset s < ?M")
    case False
    then show ?thesis using less.prems(1) filter_loop_stop [OF False, of unjson user fin types w] by auto
  next
    case True
    define chunk where "chunk = min NOTIFICATION_FILTER_CHUNK (?M - fs_offset s)"
    have c: "0 < chunk" using True by (auto simp: chunk_def)
    obtain r1 w1 where rng: "notification_range user (fs_start s) fin (fs_offset s) chunk w = (r1, w1)" by force
    note rr = range_no_fault [OF rng less.prems(2)]
    note unf = filter_loop_read [of s limit user fin w r1 w1 unjson types, folded chunk_def,
        OF conjunct1 [OF True] conjunct2 [OF True] rng, unfolded less.prems(1)]
    obtain v where v: "r1 = Inr v" using rr by blast
    let ?s = "scan_chunk unjson limit types chunk (unwrap_or [] v) s"
    have stp: "(r, w') = (if fs_exhausted ?s then (Inr ?s, w1) else filter_loop unjson user fin limit types ?s w1)"
      using unf v by (simp add: Let_def)
    show ?thesis
    proof (cases "fs_exhausted ?s")
      case ex: True then show ?thesis using stp by simp
    next
      case False
      then have "?M - fs_offset ?s < ?M - fs_offset s" using c conjunct2 [OF True] by auto
      then show ?thesis using less.hyps [of ?s w1] stp False rr by simp
    qed
  qed
qed

lemma ranked_desc: "sorted_wrt (\<lambda>r r'. snd r' \<le> snd r) (ranked z)"
proof -
  have "sorted (map (\<lambda>(m, s). (s, m)) (sort_key (\<lambda>(m, s). (s, m)) z))" by simp
  then have "sorted_wrt (\<lambda>r r'. snd r \<le> snd r') (sort_key (\<lambda>(m, s). (s, m)) z)"
    unfolding sorted_map by (rule sorted_wrt_mono_rel [rotated]) (auto simp: less_eq_prod_def split: prod.splits)
  then show ?thesis by (simp add: ranked_def sorted_wrt_rev)
qed

text \<open>The newest row read becomes the upper bound without cutting a row off.\<close>

lemma pin_keeps_range:
  assumes "filter (in_bounds None fin) (ranked z) = row # rest"
  shows "filter (in_bounds (Some (snd row)) fin) (ranked z) = row # rest"
proof -
  have "sorted_wrt (\<lambda>r r'. snd r' \<le> snd r) (row # rest)"
    using sorted_wrt_filter [OF ranked_desc, of "in_bounds None fin" z] assms by simp
  then have "\<forall>r \<in> set (row # rest). snd r \<le> snd row" by auto
  then have "\<forall>r \<in> set (ranked z). in_bounds None fin r \<longrightarrow> snd r \<le> snd row"
    unfolding assms [symmetric] by auto
  then have "filter (in_bounds (Some (snd row)) fin) (ranked z) = filter (in_bounds None fin) (ranked z)"
    by (intro filter_cong) (auto simp: in_bounds_def)
  then show ?thesis using assms by simp
qed

lemma snapshot_of_loop:
  assumes lp: "filter_loop unjson user fin limit types s w = (Inr s', w')" and "arrivals user (fs_start s) w"
    and s: "fs_offset s = 0" "fs_result s = []" "fs_oldest s = None" "fs_to_skip s = skip" "\<not> fs_exhausted s"
  shows "\<exists>new. newer_than (ranked (nt_sets (kv w) user)) (fs_start s) new \<and> (fs_result s', next_start limit s') =
    filtered_page unjson types skip limit (filter (in_bounds (fs_start s) fin) (new @ ranked (nt_sets (kv w) user)))"
proof (cases "fs_start s")
  case (Some b)
  let ?R = "ranked (nt_sets (kv w) user)"
  have "(fs_result s', next_start limit s') = filtered_page unjson types skip limit (filter (in_bounds (Some b) fin) ?R)"
    using filter_loop_pinned [OF lp Some s(5) scan_holds_init [OF s(1-4)] arrivals_grown grown_refl grown_same_range]
      assms(2) Some by simp
  then show ?thesis using Some by (intro exI [of _ "[]"]) (simp add: newer_than_def)
next
  case None
  let ?R = "ranked (nt_sets (kv w) user)" and ?M = NOTIFICATION_FILTER_MAX_SCAN
  show ?thesis
  proof (cases "limit = 0")
    case True
    then have "s' = s" using lp filter_loop_stop [of s limit unjson user fin types w] by simp
    then show ?thesis using True s by (intro exI [of _ "[]"]) (simp add: newer_than_def filtered_page_def next_start_def Let_def)
  next
    case False
    define chunk where "chunk = min NOTIFICATION_FILTER_CHUNK (?M - fs_offset s)"
    have c: "0 < chunk" "chunk \<le> ?M - fs_offset s" "fs_offset s < ?M" "length (fs_result s) < limit"
      using s False by (auto simp: chunk_def)
    obtain q w1 where rng: "notification_range user None fin (fs_offset s) chunk w = (q, w1)" by force
    note rr = range_reads [OF rng arrivals_grown [OF assms(2)] grown_refl]
    note unf = filter_loop_read [of s limit user fin w q w1 unjson types, folded chunk_def,
        OF c(4,3) rng [folded None], unfolded lp]
    obtain v where v: "q = Inr v" using unf by (cases q) auto
    define rd where "rd = unwrap_or [] v"
    define F where "F = filter (in_bounds None fin) (ranked (nt_sets (kv w1) user))"
    have rd: "rd = take chunk (drop (fs_offset s) F)" using rr v by (simp add: rd_def F_def)
    let ?s = "scan_chunk unjson limit types chunk rd s"
    have holds: "scan_holds unjson types skip limit F ?s"
      by (rule scan_chunk_holds [OF scan_holds_init [OF s(1-4)] c(4) rd c(2,3)])
    have stp: "(Inr s', w') = (if fs_exhausted ?s then (Inr ?s, w1) else filter_loop unjson user fin limit types ?s w1)"
      using unf v by (simp add: rd_def Let_def)
    obtain new where new: "ranked (nt_sets (kv w1) user) = new @ ?R" "newer_than ?R None new"
      using rr None by (auto simp: grown_def)
    have "(fs_result s', next_start limit s') = filtered_page unjson types skip limit F"
    proof (cases "fs_exhausted ?s")
      case ex: True
      then have "fs_offset s + length rd = length F \<and> length F < ?M"
        using exhausted_at_end [OF scan_holds_init [OF s(1-4)] c(3) rd _ c(2)] s(5) by simp
      then show ?thesis using scan_holds_done [OF holds] ex stp by simp
    next
      case False
      then have "rd \<noteq> []" using c by auto
      then obtain row rest where F: "F = row # rest" using rd s(1) by (cases F) auto
      have row: "row \<in> set (ranked (nt_sets (kv w1) user))" using F unfolding F_def by (auto dest: filter_eq_ConsD)
      have up: "fs_start ?s = Some (snd row)" using None F rd s(1) c(1)
        by (cases chunk) (auto simp: scan_chunk_def split: prod.splits)
      have "arrivals user None w1"
        using assms(2) None rr by (auto simp: arrivals_def same_schedule_def)
      note J = arrivals_pinned [OF this row] grown_refl grown_same_range
      have lp1: "filter_loop unjson user fin limit types ?s w1 = (Inr s', w')" using stp False by simp
      show ?thesis
        by (rule filter_loop_pinned [OF lp1 up False holds J(1,2)])
          (simp only: J(3) pin_keeps_range [OF F [unfolded F_def], folded F] F)
    qed
    then show ?thesis using new None by (intro exI [of _ new]) (simp add: F_def)
  qed
qed

section \<open>Property\<close>

text \<open>C19. A page of notifications filtered by type is the page of one snapshot: while other tasks
  add newer notifications, the listing returns, for the rows of the set at some moment of the
  request (those it had at the start and perhaps some newer ones), the matches after the first
  \<open>skip\<close>, at most \<open>limit\<close>, among the newest 10000 rows within the bounds; no row is repeated or
  missed between two chunks. The point to resume from is returned exactly if the page is short and
  the cap on the scan was reached. Without a failing call the listing returns a page.\<close>

theorem filtered_listing_is_a_snapshot:
  assumes "arrivals user (pg_start p) w" and "get_by_id_filtered unjson user p types w = (r, w')"
  shows "((\<forall>n. fault w n = None) \<longrightarrow> (\<exists>v. r = Inr v)) \<and>
    (\<forall>page resume. r = Inr (page, resume) \<longrightarrow>
      (\<exists>new. newer_than (ranked (nt_sets (kv w) user)) (pg_start p) new \<and>
        (page, resume) = filtered_page unjson types (unwrap_or 0 (pg_skip p)) (unwrap_or 20 (pg_limit p))
          (filter (in_bounds (pg_start p) (pg_end p)) (new @ ranked (nt_sets (kv w) user)))))"
proof -
  let ?lim = "unwrap_or 20 (pg_limit p)" and ?skip = "unwrap_or 0 (pg_skip p)" and ?R = "ranked (nt_sets (kv w) user)"
  define s where "s = \<lparr>fs_to_skip = ?skip, fs_start = pg_start p, fs_result = [], fs_offset = 0,
      fs_oldest = None, fs_exhausted = False\<rparr>"
  obtain q w1 where lp: "filter_loop unjson user (pg_end p) ?lim types s w = (q, w1)" by force
  have r: "r = (case q of Inl e \<Rightarrow> Inl e | Inr s' \<Rightarrow> Inr (fs_result s', next_start ?lim s'))"
    using assms(2) lp by (auto simp: get_by_id_filtered_def Let_def s_def split: sum.splits)
  have "\<exists>new. newer_than ?R (pg_start p) new \<and> (fs_result s', next_start ?lim s') =
      filtered_page unjson types ?skip ?lim (filter (in_bounds (pg_start p) (pg_end p)) (new @ ?R))"
    if "q = Inr s'" for s'
    using snapshot_of_loop [of unjson user "pg_end p" ?lim types s w s' w1 ?skip] lp that assms(1) by (simp add: s_def)
  moreover have "(\<forall>n. fault w n = None) \<longrightarrow> (\<exists>s'. q = Inr s')" using filter_loop_no_fault [OF lp] by blast
  ultimately show ?thesis using r by (cases q) auto
qed

definition demo_unjson :: "string \<Rightarrow> notification_body option" where
  "demo_unjson m = (if m = ''f'' then Some (Follow ''x'') else Some (Mention ''y'' ''p'' ''short''))"

definition demo_inbox :: notif_kv where
  "demo_inbox = \<lparr>nt_sets = (\<lambda>_. [(''f'', 10), (''m'', 20)])\<rparr>"

definition demo_request :: pagination where
  "demo_request = \<lparr>pg_skip = None, pg_limit = Some 1, pg_start = None, pg_end = None\<rparr>"

theorem filtered_listing_is_a_snapshot_witness:
  "\<exists>page resume new. fst (get_by_id_filtered demo_unjson ''u'' demo_request [TFollow] (calm_world demo_inbox)) =
      Inr (page, resume) \<and> newer_than (ranked (nt_sets demo_inbox ''u'')) None new \<and>
      (page, resume) = filtered_page demo_unjson [TFollow] 0 1
        (filter (in_bounds None None) (new @ ranked (nt_sets demo_inbox ''u'')))"
proof -
  let ?g = "get_by_id_filtered demo_unjson ''u'' demo_request [TFollow] (calm_world demo_inbox)"
  have "arrivals ''u'' (pg_start demo_request) (calm_world demo_inbox)"
    by (simp add: arrivals_def calm_world_def newer_than_def)
  note t = filtered_listing_is_a_snapshot [OF this prod.collapse [symmetric], of demo_unjson "[TFollow]"]
  obtain page resume where g: "fst ?g = Inr (page, resume)"
    using conjunct1 [OF t] by (auto simp: calm_world_def)
  show ?thesis
    using mp [OF spec [OF spec [OF conjunct2 [OF t]]] g] g by (auto simp: demo_request_def unwrap_or_def)
qed
end
