(* ===== verification/Keyset_Scan.thy ===== *)
theory Keyset_Scan
  imports Cursor_Store
begin

text \<open>
  The driver of every paged scan over graph rows (nexus-common/src/db/graph/pagination.rs).
  \<open>keyset_step\<close> states what a client's page function has to do: read the next rows above the
  cursor, treat each, report how many and the last cursor. Every client that does so visits every
  row, ends, and never reports a stalled scan.
\<close>

definition stalled :: "(graph_error \<Rightarrow> 'e) \<Rightarrow> string \<Rightarrow> string \<Rightarrow> 'e" where
  "stalled conv ctx detail = conv (KeysetScanStalled ctx detail)"

partial_function (option) keyset_loop ::
  "(graph_error \<Rightarrow> 'e) \<Rightarrow> ('c::linorder \<Rightarrow> string) \<Rightarrow> nat \<Rightarrow> string \<Rightarrow>
   ('c \<Rightarrow> 'w \<Rightarrow> ('e, nat \<times> 'c option) result \<times> 'w) \<Rightarrow> 'c \<Rightarrow> 'w \<Rightarrow> (('e, unit) result \<times> 'w) option" where
  "keyset_loop conv dbg batch_size ctx step cursor w =
     (case step cursor w of (r, w1) \<Rightarrow>
        (case r of
           Inl e \<Rightarrow> Some (Inl e, w1)
         | Inr (cnt, last_cursor) \<Rightarrow>
             if cnt = 0 \<or> cnt < batch_size then Some (Inr (), w1)
             else (case last_cursor of
                 None \<Rightarrow> Some (Inl (stalled conv ctx
                   (''full batch of '' @ show_nat cnt @ '' rows produced no cursor'')), w1)
               | Some nxt \<Rightarrow>
                   if nxt \<le> cursor
                   then Some (Inl (stalled conv ctx
                     (''cursor did not advance past '' @ dbg cursor @ '', got '' @ dbg nxt)), w1)
                   else keyset_loop conv dbg batch_size ctx step nxt w1)))"

text \<open>The scan of strings starts at the empty string, the composite one at the empty list.\<close>

definition keyset_scan where
  "keyset_scan conv dbg batch_size ctx step w = keyset_loop conv dbg batch_size ctx step ('''' :: string) w"

definition keyset_scan_composite where
  "keyset_scan_composite conv dbg batch_size ctx step w =
     keyset_loop conv dbg batch_size ctx step ([] :: string list) w"

section \<open>Pages of a sorted table\<close>

definition page_above :: "('r \<Rightarrow> 'c::linorder) \<Rightarrow> nat \<Rightarrow> 'c \<Rightarrow> 'r list \<Rightarrow> 'r list" where
  "page_above key batch_size cursor rows = take batch_size (filter (\<lambda>r. cursor < key r) rows)"

abbreviation strictly_sorted :: "('r \<Rightarrow> 'c::linorder) \<Rightarrow> 'r list \<Rightarrow> bool" where
  "strictly_sorted key rows \<equiv> sorted_wrt (\<lambda>a b. key a < key b) rows"

lemma sort_key_strict:
  assumes "distinct (map key rows)"
  shows "strictly_sorted key (sort_key key rows)"
proof -
  have "distinct (map key (sort_key key rows))"
    using assms mset_eq_imp_distinct_iff [of "map key (sort_key key rows)" "map key rows"] by simp
  then have "sorted_wrt (<) (map key (sort_key key rows))"
    by (simp add: strict_sorted_iff)
  then show ?thesis by (simp add: sorted_wrt_map)
qed

lemma last_greatest: "strictly_sorted key xs \<Longrightarrow> x \<in> set xs \<Longrightarrow> key x \<le> key (last xs)"
  by (induction xs) (auto intro: less_imp_le)

text \<open>What is above the last cursor of a page are the rows after the page.\<close>

lemma filter_above_last:
  assumes "strictly_sorted key xs" "0 < n" "n \<le> length xs"
  shows "filter (\<lambda>r. key (last (take n xs)) < key r) xs = drop n xs"
proof -
  have split: "xs = take n xs @ drop n xs" by simp
  have ne: "take n xs \<noteq> []" using assms by auto
  have s: "strictly_sorted key (take n xs)" "\<And>a b. a \<in> set (take n xs) \<Longrightarrow> b \<in> set (drop n xs) \<Longrightarrow> key a < key b"
    using assms(1) by (metis split sorted_wrt_append)+
  have "filter (\<lambda>r. key (last (take n xs)) < key r) (take n xs) = []"
    using last_greatest [OF s(1)] by (auto simp: filter_empty_conv not_less)
  moreover have "filter (\<lambda>r. key (last (take n xs)) < key r) (drop n xs) = drop n xs"
    using s(2) ne by (intro filter_True) auto
  ultimately show ?thesis by (metis append_Nil filter_append split)
qed

lemma page_tail:
  assumes "strictly_sorted key rows" "0 < n" "n \<le> length (filter (\<lambda>r. c < key r) rows)"
    and "nxt = key (last (take n (filter (\<lambda>r. c < key r) rows)))"
  shows "c < nxt" "filter (\<lambda>r. nxt < key r) rows = drop n (filter (\<lambda>r. c < key r) rows)"
proof -
  let ?xs = "filter (\<lambda>r. c < key r) rows"
  have "take n ?xs \<noteq> []" using assms(2,3) by auto
  then have "last (take n ?xs) \<in> set ?xs" by (meson in_set_takeD last_in_set)
  then show c: "c < nxt" using assms(4) by simp
  have "strictly_sorted key ?xs" using sorted_wrt_filter [OF assms(1)] by blast
  then have "filter (\<lambda>r. nxt < key r) ?xs = drop n ?xs"
    unfolding assms(4) by (rule filter_above_last [OF _ assms(2,3)])
  moreover have "filter (\<lambda>r. nxt < key r) ?xs = filter (\<lambda>r. nxt < key r) rows"
    using c by (simp add: conj_commute) (rule filter_cong, auto)
  ultimately show "filter (\<lambda>r. nxt < key r) rows = drop n ?xs" by simp
qed

locale keyset_step =
  fixes step :: "'c::linorder \<Rightarrow> 'w \<Rightarrow> ('e, nat \<times> 'c option) result \<times> 'w"
    and batch_size :: nat
    and key :: "'r \<Rightarrow> 'c"
    and rows :: "'w \<Rightarrow> 'r list"
    and ok :: "'w \<Rightarrow> bool"
    and seen :: "'r \<Rightarrow> 'w \<Rightarrow> bool"
  assumes batch_pos: "0 < batch_size"
    and rows_sorted: "ok w \<Longrightarrow> strictly_sorted key (rows w)"
    and step_keeps: "ok w \<Longrightarrow> step c w = (q, w') \<Longrightarrow> ok w' \<and> rows w' = rows w \<and> (\<forall>r. seen r w \<longrightarrow> seen r w')"
    and step_page: "ok w \<Longrightarrow> step c w = (Inr (n, lc), w') \<Longrightarrow>
      n = length (page_above key batch_size c (rows w)) \<and>
      (page_above key batch_size c (rows w) \<noteq> [] \<longrightarrow> lc = Some (key (last (page_above key batch_size c (rows w))))) \<and>
      (\<forall>r \<in> set (page_above key batch_size c (rows w)). seen r w')"
begin

lemma next_page:
  assumes "ok w" "step c w = (Inr (n, lc), w')" "\<not> (n = 0 \<or> n < batch_size)"
  obtains nxt where "lc = Some nxt" "c < nxt" "ok w'" "rows w' = rows w"
    "filter (\<lambda>r. nxt < key r) (rows w) = drop batch_size (filter (\<lambda>r. c < key r) (rows w))"
    "batch_size \<le> length (filter (\<lambda>r. c < key r) (rows w))"
proof -
  let ?xs = "filter (\<lambda>r. c < key r) (rows w)"
  have p: "page_above key batch_size c (rows w) = take batch_size ?xs" by (simp add: page_above_def)
  have len: "batch_size \<le> length ?xs" using step_page [OF assms(1,2)] assms(3) p by auto
  then have ne: "take batch_size ?xs \<noteq> []" using batch_pos by auto
  let ?nxt = "key (last (take batch_size ?xs))"
  have lc: "lc = Some ?nxt" using step_page [OF assms(1,2)] ne p by simp
  note tail = page_tail [OF rows_sorted [OF assms(1)] batch_pos len refl]
  from lc tail len step_keeps [OF assms(1,2)] show thesis by (intro that) auto
qed

text \<open>The scan returns; with success it has seen every row above its first cursor, and it fails only
  with an error of a step.\<close>

lemma loop_visits_all:
  assumes "ok w"
  shows "\<exists>q w'. keyset_loop conv dbg batch_size ctx step c w = Some (q, w') \<and> ok w' \<and> rows w' = rows w \<and>
    (\<forall>r. seen r w \<longrightarrow> seen r w') \<and>
    (case q of Inr _ \<Rightarrow> \<forall>r \<in> set (rows w). c < key r \<longrightarrow> seen r w'
     | Inl e \<Rightarrow> \<exists>c' v v'. ok v \<and> step c' v = (Inl e, v'))"
  using assms
proof (induction "length (filter (\<lambda>r. c < key r) (rows w))" arbitrary: c w rule: less_induct)
  case less
  let ?xs = "filter (\<lambda>r. c < key r) (rows w)"
  obtain q w1 where st: "step c w = (q, w1)" by force
  note k = step_keeps [OF less.prems st]
  show ?case
  proof (cases q)
    case (Inl e)
    then show ?thesis using k st less.prems by (subst keyset_loop.simps) auto
  next
    case (Inr nl)
    obtain n lc where nl: "q = Inr (n, lc)" using Inr by (cases nl) simp
    note st' = st [unfolded nl]
    note pg = step_page [OF less.prems st', unfolded page_above_def]
    show ?thesis
    proof (cases "n = 0 \<or> n < batch_size")
      case True
      then have "take batch_size ?xs = ?xs" using pg batch_pos by auto
      then have "\<forall>r \<in> set (rows w). c < key r \<longrightarrow> seen r w1" using pg by auto
      then show ?thesis using True k st' by (subst keyset_loop.simps) auto
    next
      case False
      obtain nxt where nx: "lc = Some nxt" "c < nxt" "ok w1" "rows w1 = rows w"
          "filter (\<lambda>r. nxt < key r) (rows w) = drop batch_size ?xs" "batch_size \<le> length ?xs"
        by (rule next_page [OF less.prems st' False])
      have "length (filter (\<lambda>r. nxt < key r) (rows w1)) < length ?xs"
        unfolding nx(4,5) using nx(6) batch_pos by simp
      from less.hyps [OF this nx(3)] obtain q2 w2 where
        ih: "keyset_loop conv dbg batch_size ctx step nxt w1 = Some (q2, w2)" "ok w2" "rows w2 = rows w"
          "\<forall>r. seen r w1 \<longrightarrow> seen r w2"
          "case q2 of Inr _ \<Rightarrow> \<forall>r \<in> set (rows w1). nxt < key r \<longrightarrow> seen r w2 | Inl e \<Rightarrow> \<exists>c' v v'. ok v \<and> step c' v = (Inl e, v')"
        using nx(4) by auto
      have eq: "keyset_loop conv dbg batch_size ctx step c w = Some (q2, w2)"
        using st' False nx(1,2) ih(1) by (subst keyset_loop.simps) auto
      have "seen r w2" if "q2 = Inr ()" "r \<in> set (rows w)" "c < key r" for r
      proof (cases "nxt < key r")
        case True then show ?thesis using ih(5) that nx(4) by simp
      next
        case nr: False
        have "r \<in> set ?xs" using that by simp
        then have "r \<in> set (take batch_size ?xs) \<or> r \<in> set (drop batch_size ?xs)"
          by (metis Un_iff append_take_drop_id set_append)
        moreover have "r \<notin> set (drop batch_size ?xs)" using nr unfolding nx(5) [symmetric] by simp
        ultimately show ?thesis using pg ih(4) by blast
      qed
      then show ?thesis using eq ih k by (intro exI [of _ q2] exI [of _ w2]) (cases q2; simp)
    qed
  qed
qed

end

end
