(* ===== verification/Trust_Filter.thy ===== *)
theory Trust_Filter
  imports Redis_World Keyset_Scan
begin

text \<open>
  The trust filter (nexus-common/src/models/post/trust_filter): the sorted sets every viewer shares
  take only posts of authors the published trust ranking admits. The gate is three Lua scripts that
  read the ranking and the switch in the same atomic step as they write; \<open>reconcile\<close> brings the
  sets in line after a new ranking or a toggled switch, and may be cut short at any call.
\<close>

section \<open>Stores\<close>

record author_post =
  ap_author :: string
  ap_id :: string
  ap_indexed_at :: int
  ap_is_reply :: bool
  ap_labels :: "string list"
  ap_engagement :: int
  ap_mentions :: int

text \<open>
  Redis keys are flags or sorted sets; an empty ranking or copy is a key that does not exist. The
  graph's posts are the last component.
\<close>

record tf_kv =
  tf_on :: bool
  tf_filtered :: bool
  tf_showing :: bool
  tf_ranking :: "string set"
  tf_applied :: "string set"
  tf_sets :: "string \<Rightarrow> string \<rightharpoonup> int"
  tf_posts :: "author_post list"

definition BATCH :: nat where "BATCH = 500"
definition POSTS_PAGE :: nat where "POSTS_PAGE = 1000"

definition author_of :: "string \<Rightarrow> string" where
  "author_of m = (if CHR '':'' \<in> set m then takeWhile (\<lambda>c. c \<noteq> CHR '':'') m else '''')"

definition admitted :: "tf_kv \<Rightarrow> string \<Rightarrow> bool" where
  "admitted g a \<longleftrightarrow> (if tf_ranking g \<noteq> {} \<and> tf_on g then a \<in> tf_ranking g else True)"

section \<open>The scripts\<close>

definition add_script :: "string \<Rightarrow> (int \<times> string) list \<Rightarrow> tf_kv \<Rightarrow> nat \<times> tf_kv" where
  "add_script key entries g =
     (let keep = filter (\<lambda>(_, m). admitted g (author_of m)) entries in
      (length keep, g\<lparr>tf_sets := (tf_sets g)(key := fold (\<lambda>(s, m) z. z(m \<mapsto> s)) keep (tf_sets g key))\<rparr>))"

definition incr_script :: "string \<Rightarrow> int \<Rightarrow> string \<Rightarrow> tf_kv \<Rightarrow> nat \<times> tf_kv" where
  "incr_script key delta m g =
     (if tf_sets g key m \<noteq> None \<or> (delta > 0 \<and> admitted g (author_of m))
      then (1, g\<lparr>tf_sets := (tf_sets g)(key :=
             (tf_sets g key)(m \<mapsto> (case tf_sets g key m of Some s \<Rightarrow> s | None \<Rightarrow> 0) + delta))\<rparr>)
      else (0, g))"

definition remove_script :: "string \<Rightarrow> string list \<Rightarrow> tf_kv \<Rightarrow> nat \<times> tf_kv" where
  "remove_script key ms g =
     (let gone = filter (\<lambda>m. \<not> admitted g (author_of m)) ms in
      (card (set gone \<inter> dom (tf_sets g key)),
       g\<lparr>tf_sets := (tf_sets g)(key := (tf_sets g key) |` (- set gone))\<rparr>))"

section \<open>The gate\<close>

fun chunks :: "nat \<Rightarrow> 'a list \<Rightarrow> 'a list list" where
  "chunks n xs = (if n = 0 \<or> xs = [] then [] else take n xs # chunks n (drop n xs))"

declare chunks.simps [simp del]

definition switch :: "bool \<Rightarrow> tf_kv world \<Rightarrow> (redis_error, unit) result \<times> tf_kv world" where
  "switch b w = redis_call (\<lambda>g. ((), if b then g\<lparr>tf_filtered := True, tf_on := True\<rparr> else g\<lparr>tf_on := False\<rparr>)) w"

definition may_hide_posts :: "tf_kv world \<Rightarrow> (redis_error, bool) result \<times> tf_kv world" where
  "may_hide_posts w = redis_call (\<lambda>g. (tf_filtered g, g)) w"

definition is_ranking_applied :: "tf_kv world \<Rightarrow> (redis_error, bool) result \<times> tf_kv world" where
  "is_ranking_applied w = redis_call (\<lambda>g. (tf_on g \<and> tf_applied g \<noteq> {}, g)) w"

fun tf_add_batches ::
  "string \<Rightarrow> (int \<times> string) list list \<Rightarrow> tf_kv world \<Rightarrow> (redis_error, unit) result \<times> tf_kv world" where
  "tf_add_batches key [] w = (Inr (), w)"
| "tf_add_batches key (b # bs) w =
     (case redis_call (add_script key b) w of
        (Inl e, w1) \<Rightarrow> (Inl e, w1)
      | (Inr _, w1) \<Rightarrow> tf_add_batches key bs w1)"

definition tf_add where
  "tf_add key entries w = tf_add_batches key (chunks BATCH entries) w"

datatype score_action = Increment int | Decrement int

definition tf_incr ::
  "string \<Rightarrow> string \<Rightarrow> score_action \<Rightarrow> tf_kv world \<Rightarrow> (redis_error, unit) result \<times> tf_kv world" where
  "tf_incr key m action w =
     (case redis_call (incr_script key (case action of Increment v \<Rightarrow> v | Decrement v \<Rightarrow> - v) m) w of
        (Inl e, w1) \<Rightarrow> (Inl e, w1) | (Inr _, w1) \<Rightarrow> (Inr (), w1))"

section \<open>The entries of a post\<close>

definition stream_entries :: "author_post \<Rightarrow> (string \<times> int) list" where
  "stream_entries p =
     (if ap_is_reply p then []
      else [(''Posts:Global:Timeline'', f64_of_int (ap_indexed_at p)),
            (''Posts:Global:TotalEngagement'', f64_of_int (ap_engagement p))])"

definition tag_entries :: "author_post \<Rightarrow> (string \<times> int) list" where
  "tag_entries p =
     concat (map (\<lambda>l. [(''Tags:Global:Post:Timeline:'' @ l, f64_of_int (ap_indexed_at p)),
                       (''Tags:Global:Post:TotalEngagement:'' @ l, f64_of_int (ap_engagement p + ap_mentions p))])
       (ap_labels p))"

definition post_member :: "author_post \<Rightarrow> string" where
  "post_member p = ap_author p @ '':'' @ ap_id p"

definition sorted_key :: "string \<Rightarrow> string" where
  "sorted_key parts = ''Sorted:'' @ parts"

definition post_entries :: "author_post \<Rightarrow> (string \<times> int) list" where
  "post_entries p = map (\<lambda>(k, s). (sorted_key k, s)) (stream_entries p @ tag_entries p)"

text \<open>The ordered map of the source: its keys in order, and under each the entries in the order of the posts.\<close>

definition shared_entries :: "author_post list \<Rightarrow> (string \<times> (int \<times> string) list) list" where
  "shared_entries posts =
     map (\<lambda>key. (key, concat (map (\<lambda>p. map (\<lambda>(_, s). (s, post_member p)) (filter (\<lambda>(k, _). k = key) (post_entries p))) posts)))
       (sort (remdups (concat (map (map fst \<circ> post_entries) posts))))"

section \<open>Reconciling\<close>

datatype tf_write = Hide | Show

definition model_redis ::
  "(tf_kv \<Rightarrow> 'x \<times> tf_kv) \<Rightarrow> tf_kv world \<Rightarrow> (model_error, 'x) result \<times> tf_kv world" where
  "model_redis f w =
     (case redis_call f w of (Inl e, w1) \<Rightarrow> (Inl (KvOperationFailed e), w1) | (Inr x, w1) \<Rightarrow> (Inr x, w1))"

definition model_graph ::
  "(tf_kv \<Rightarrow> 'x \<times> tf_kv) \<Rightarrow> tf_kv world \<Rightarrow> (model_error, 'x) result \<times> tf_kv world" where
  "model_graph f w =
     (case graph_call f w of (Inl e, w1) \<Rightarrow> (Inl (GraphOperationFailed e), w1) | (Inr x, w1) \<Rightarrow> (Inr x, w1))"

text \<open>A run either does not return or returns a result and the world after it; \<open>seq\<close> is the \<open>?\<close> of
  the source followed by the rest.\<close>

type_synonym 'x tf_run = "tf_kv world \<Rightarrow> ((model_error, 'x) result \<times> tf_kv world) option"

definition seq :: "'x tf_run \<Rightarrow> ('x \<Rightarrow> 'y tf_run) \<Rightarrow> 'y tf_run" where
  "seq m rest w =
     (case m w of
        None \<Rightarrow> None
      | Some (Inl e, w1) \<Rightarrow> Some (Inl e, w1)
      | Some (Inr x, w1) \<Rightarrow> rest x w1)"

definition give :: "'x \<Rightarrow> 'x tf_run" where "give x w = Some (Inr x, w)"
definition redis_ask :: "(tf_kv \<Rightarrow> 'x \<times> tf_kv) \<Rightarrow> 'x tf_run" where "redis_ask f w = Some (model_redis f w)"
definition graph_ask :: "(tf_kv \<Rightarrow> 'x) \<Rightarrow> 'x tf_run" where "graph_ask h w = Some (model_graph (\<lambda>g. (h g, g)) w)"

abbreviation get_kv :: "(tf_kv \<Rightarrow> 'x) \<Rightarrow> 'x tf_run" where "get_kv h \<equiv> redis_ask (\<lambda>g. (h g, g))"
abbreviation put_kv :: "(tf_kv \<Rightarrow> tf_kv) \<Rightarrow> unit tf_run" where "put_kv u \<equiv> redis_ask (\<lambda>g. ((), u g))"

definition write_call :: "tf_write \<Rightarrow> string \<Rightarrow> (int \<times> string) list \<Rightarrow> tf_kv \<Rightarrow> nat \<times> tf_kv" where
  "write_call wr key batch = (case wr of Hide \<Rightarrow> remove_script key (map snd batch) | Show \<Rightarrow> add_script key batch)"

text \<open>A pipeline runs all its calls; an error of one does not stop the others.\<close>

fun pipeline ::
  "(tf_kv \<Rightarrow> nat \<times> tf_kv) list \<Rightarrow> tf_kv world \<Rightarrow> (model_error, unit) result \<times> tf_kv world" where
  "pipeline [] w = (Inr (), w)"
| "pipeline (c # cs) w =
     (case model_redis c w of (r, w1) \<Rightarrow>
      case pipeline cs w1 of (q, w2) \<Rightarrow> (case r of Inl e \<Rightarrow> Inl e | Inr _ \<Rightarrow> q, w2))"

definition write_entries where
  "write_entries wr entries w =
     pipeline (concat (map (\<lambda>(key, es). map (write_call wr key) (chunks BATCH es)) entries)) w"

definition post_key :: "author_post \<Rightarrow> int \<times> string" where
  "post_key p = (ap_indexed_at p, ap_id p)"

definition author_post_entries :: "string \<Rightarrow> int \<times> string \<Rightarrow> nat \<Rightarrow> tf_kv \<Rightarrow> author_post list \<times> tf_kv" where
  "author_post_entries author after limit g =
     (page_above post_key limit after (sort_key post_key (filter (\<lambda>p. ap_author p = author) (tf_posts g))), g)"

definition next_page :: "author_post list \<Rightarrow> nat \<Rightarrow> (int \<times> string) option" where
  "next_page page page_size =
     (if page \<noteq> [] \<and> page_size \<le> length page then Some (Max (set (map post_key page))) else None)"

partial_function (option) write_pages ::
  "string \<Rightarrow> tf_write \<Rightarrow> nat \<Rightarrow> int \<times> string \<Rightarrow> tf_kv world \<Rightarrow> ((model_error, unit) result \<times> tf_kv world) option" where
  "write_pages author wr page_size cursor w =
     (case model_graph (author_post_entries author cursor page_size) w of (r, w1) \<Rightarrow>
        (case r of
           Inl e \<Rightarrow> Some (Inl e, w1)
         | Inr page \<Rightarrow>
             (case write_entries wr (shared_entries page) w1 of (q, w2) \<Rightarrow>
                (case q of
                   Inl e \<Rightarrow> Some (Inl e, w2)
                 | Inr _ \<Rightarrow>
                     (case next_page page page_size of
                        None \<Rightarrow> Some (Inr (), w2)
                      | Some nxt \<Rightarrow> write_pages author wr page_size nxt w2)))))"

definition first_cursor :: "int \<times> string" where
  "first_cursor = (- (2 ^ 63), '''')"

fun write_each :: "(string \<times> tf_write) list \<Rightarrow> unit tf_run" where
  "write_each [] w = Some (Inr (), w)"
| "write_each ((author, wr) # ws) w =
     (case write_pages author wr POSTS_PAGE first_cursor w of
        None \<Rightarrow> None
      | Some (Inl e, w1) \<Rightarrow> Some (Inl e, w1)
      | Some (Inr _, w1) \<Rightarrow> write_each ws w1)"

definition write_authors :: "string list \<Rightarrow> string list \<Rightarrow> unit tf_run" where
  "write_authors hide show_them = write_each (map (\<lambda>a. (a, Hide)) hide @ map (\<lambda>a. (a, Show)) show_them)"

definition authors_outside :: "string set \<Rightarrow> string list tf_run" where
  "authors_outside s =
     seq (graph_ask (\<lambda>g. remdups (map ap_author (tf_posts g)))) (\<lambda>authors.
       give (filter (\<lambda>a. a \<notin> s) authors))"

text \<open>The members of a set in the order of a \<open>BTreeSet\<close>.\<close>

definition ordered :: "string set \<Rightarrow> string list" where
  "ordered s = sorted_list_of_set s"

definition changes_after_showing :: "string set \<Rightarrow> string set \<Rightarrow> (string list \<times> string list) tf_run" where
  "changes_after_showing applied ranking =
     seq (authors_outside ranking) (\<lambda>hide. give (hide, if applied = {} then [] else ordered (ranking - applied)))"

definition rank_changes :: "string set \<Rightarrow> string set \<Rightarrow> (string list \<times> string list) tf_run" where
  "rank_changes applied ranking =
     (if applied = {} \<and> ranking = {} then give ([], [])
      else if applied = {} then seq (authors_outside ranking) (\<lambda>hide. give (hide, []))
      else if ranking \<noteq> {} then give (ordered (applied - ranking), ordered (ranking - applied))
      else seq (authors_outside applied) (\<lambda>shown. give ([], shown)))"

definition record_applied :: "string set \<Rightarrow> unit tf_run" where
  "record_applied ranking = put_kv (\<lambda>g. g\<lparr>tf_applied := ranking\<rparr>)"

definition apply_ranking :: "unit tf_run" where
  "apply_ranking =
     seq (put_kv (\<lambda>g. g\<lparr>tf_filtered := True\<rparr>)) (\<lambda>_.
     seq (get_kv tf_ranking) (\<lambda>ranking.
     seq (get_kv tf_applied) (\<lambda>applied.
     seq (get_kv tf_showing) (\<lambda>showing.
       if applied = ranking \<and> \<not> showing then give ()
       else
     seq (if showing \<and> ranking \<noteq> {} then changes_after_showing applied ranking
          else rank_changes applied ranking) (\<lambda>(hide, shown).
     seq (write_authors hide shown) (\<lambda>_.
     seq (record_applied ranking) (\<lambda>_.
       put_kv (\<lambda>g. g\<lparr>tf_showing := False\<rparr>))))))))"

definition still_admitted :: "string set \<Rightarrow> string set \<Rightarrow> string set option" where
  "still_admitted applied ranking =
     (if applied \<noteq> {} \<and> ranking \<noteq> {} then Some (applied \<inter> ranking)
      else if applied \<noteq> {} then Some applied else if ranking \<noteq> {} then Some ranking else None)"

definition show_all :: "unit tf_run" where
  "show_all =
     seq (get_kv tf_filtered) (\<lambda>filtered.
     seq (get_kv tf_applied) (\<lambda>applied.
       if \<not> filtered \<and> applied = {} then give ()
       else
     seq (put_kv (\<lambda>g. g\<lparr>tf_showing := True\<rparr>)) (\<lambda>_.
     seq (get_kv tf_ranking) (\<lambda>ranking.
     seq (case still_admitted applied ranking of Some s \<Rightarrow> authors_outside s | None \<Rightarrow> give []) (\<lambda>shown.
     seq (write_authors [] shown) (\<lambda>_.
     seq (record_applied {}) (\<lambda>_.
       put_kv (\<lambda>g. g\<lparr>tf_filtered := False, tf_showing := False\<rparr>))))))))"

definition reconcile :: "unit tf_run" where
  "reconcile = seq (get_kv tf_on) (\<lambda>b. if b then apply_ranking else show_all)"

text \<open>A new ranking (models/user/social\_graph.rs): the ids the graph ranks by trust are the parameter.\<close>

definition reindex :: "string list \<Rightarrow> unit tf_run" where
  "reindex ranked = seq (graph_ask (\<lambda>_. ranked)) (\<lambda>ids. put_kv (\<lambda>g. g\<lparr>tf_ranking := set ids\<rparr>))"

definition publish :: "string list \<Rightarrow> unit tf_run" where
  "publish ranked = seq reconcile (\<lambda>_. seq (reindex ranked) (\<lambda>_. reconcile))"

section \<open>Presence of entries\<close>

abbreviation present :: "tf_kv \<Rightarrow> string \<Rightarrow> string \<Rightarrow> bool" where
  "present g k m \<equiv> tf_sets g k m \<noteq> None"

definition entry_of :: "author_post list \<Rightarrow> string \<Rightarrow> string \<Rightarrow> bool" where
  "entry_of P k m \<longleftrightarrow> (\<exists>p \<in> set P. m = post_member p \<and> k \<in> fst ` set (post_entries p))"

definition full :: "tf_kv \<Rightarrow> string \<Rightarrow> bool" where
  "full g a \<longleftrightarrow> (\<forall>p \<in> set (tf_posts g). ap_author p = a \<longrightarrow> (\<forall>k \<in> fst ` set (post_entries p). present g k (post_member p)))"

definition absent :: "tf_kv \<Rightarrow> string \<Rightarrow> bool" where
  "absent g a \<longleftrightarrow> (\<forall>k m. author_of m = a \<longrightarrow> \<not> present g k m)"

text \<open>Well-formed: the ids of an author are distinct, authors have no colon, timestamps are \<open>i64\<close>, only posts of the
  graph have entries.\<close>

definition posts_ok :: "author_post list \<Rightarrow> bool" where
  "posts_ok P \<longleftrightarrow> distinct (map (\<lambda>p. (ap_author p, ap_id p)) P) \<and> (\<forall>p \<in> set P. CHR '':'' \<notin> set (ap_author p) \<and> first_cursor < post_key p)"

definition rooted :: "tf_kv \<Rightarrow> bool" where
  "rooted g \<longleftrightarrow> (\<forall>k m. present g k m \<longrightarrow> entry_of (tf_posts g) k m)"

lemma author_of_member: "posts_ok P \<Longrightarrow> p \<in> set P \<Longrightarrow> author_of (post_member p) = ap_author p"
  by (auto simp: posts_ok_def author_of_def post_member_def takeWhile_tail)

text \<open>
  What a gated write may do, by whomever: it keeps the entries of admitted authors, adds none of an
  author who is not admitted, and leaves everything else of the store alone. The rely condition of a run is
  that the other tasks do no more.
\<close>

definition frame :: "tf_kv \<Rightarrow> tf_kv \<Rightarrow> bool" where
  "frame g g' \<longleftrightarrow>
     tf_on g' = tf_on g \<and> tf_filtered g' = tf_filtered g \<and> tf_showing g' = tf_showing g \<and>
     tf_ranking g' = tf_ranking g \<and> tf_applied g' = tf_applied g \<and> tf_posts g' = tf_posts g \<and>
     (\<forall>k m. admitted g (author_of m) \<longrightarrow> present g k m \<longrightarrow> present g' k m) \<and>
     (\<forall>k m. \<not> admitted g (author_of m) \<longrightarrow> present g' k m \<longrightarrow> present g k m) \<and> (rooted g \<longrightarrow> rooted g')"

lemma frame_refl [simp]: "frame g g"
  by (simp add: frame_def)

lemma frame_same:
  assumes "frame g g'"
  shows "tf_on g' = tf_on g" "tf_filtered g' = tf_filtered g" "tf_showing g' = tf_showing g"
    "tf_ranking g' = tf_ranking g" "tf_applied g' = tf_applied g" "tf_posts g' = tf_posts g" "rooted g \<Longrightarrow> rooted g'"
  using assms by (simp_all add: frame_def)

lemma frame_present:
  assumes "frame g g'"
  shows "admitted g (author_of m) \<Longrightarrow> present g k m \<Longrightarrow> present g' k m"
    and "\<not> admitted g (author_of m) \<Longrightarrow> \<not> present g k m \<Longrightarrow> \<not> present g' k m"
  using assms unfolding frame_def by blast+

lemma frame_admitted: "frame g g' \<Longrightarrow> admitted g' = admitted g"
  by (auto simp: frame_def admitted_def fun_eq_iff)

lemma frame_trans: "frame g g' \<Longrightarrow> frame g' g'' \<Longrightarrow> frame g g''"
  using frame_admitted [of g g'] by (auto simp: frame_def)

lemma zadd_dom: "dom (fold (\<lambda>(s, m) z. z(m \<mapsto> s)) es z) = dom z \<union> snd ` set es"
  by (induction es arbitrary: z) (auto split: prod.splits)

lemma add_present:
  "present (snd (add_script key es g)) k m \<longleftrightarrow> present g k m \<or> k = key \<and> m \<in> snd ` set es \<and> admitted g (author_of m)"
proof -
  have "tf_sets (snd (add_script key es g)) k m \<noteq> None \<longleftrightarrow>
      m \<in> dom (if k = key then fold (\<lambda>(s, m) z. z(m \<mapsto> s)) (filter (\<lambda>(_, m). admitted g (author_of m)) es) (tf_sets g key) else tf_sets g k)"
    by (auto simp: add_script_def Let_def)
  then show ?thesis by (auto simp: zadd_dom)
qed

lemma remove_present:
  "present (snd (remove_script key ms g)) k m \<longleftrightarrow>
     present g k m \<and> \<not> (k = key \<and> m \<in> set ms \<and> \<not> admitted g (author_of m))"
  by (auto simp: remove_script_def Let_def restrict_map_def split: if_splits)

lemma add_frame: "\<forall>m \<in> snd ` set es. entry_of (tf_posts g) key m \<Longrightarrow> frame g (snd (add_script key es g))"
  unfolding frame_def rooted_def add_present by (auto simp: add_script_def Let_def)

lemma remove_frame: "frame g (snd (remove_script key ms g))"
  unfolding frame_def rooted_def remove_present by (auto simp: remove_script_def Let_def)

lemma incr_frame: "entry_of (tf_posts g) key m \<Longrightarrow> frame g (snd (incr_script key d m g))"
  by (auto simp: frame_def rooted_def incr_script_def)

section \<open>Runs among gated writers\<close>

definition gated :: "bool \<Rightarrow> tf_kv world \<Rightarrow> bool" where
  "gated clean w \<longleftrightarrow> (\<forall>n g. frame g (env w n g)) \<and> (clean \<longrightarrow> (\<forall>n. fault w n = None \<and> graph_fault w n = None))"

lemma gated_same: "same_schedule w w' \<Longrightarrow> gated clean w' = gated clean w"
  by (simp add: gated_def same_schedule_def)

lemma model_redis_step:
  assumes "model_redis f w = (r, w')" "gated clean w"
  obtains g where "frame (kv w) g" "gated clean w'" "clean \<longrightarrow> (\<exists>x. r = Inr x)"
    "(\<exists>e. r = Inl e) \<and> kv w' = g \<or> (r = Inr (fst (f g)) \<or> (\<exists>e. r = Inl e)) \<and> kv w' = snd (f g)"
proof -
  obtain q where q: "redis_call f w = (q, w')" "r = (case q of Inl e \<Rightarrow> Inl (KvOperationFailed e) | Inr x \<Rightarrow> Inr x)"
    using assms(1) by (cases "redis_call f w") (auto simp: model_redis_def split: sum.splits)
  have "frame (kv w) (kv (env_step w))" using assms(2) by (simp add: gated_def env_step_def)
  moreover have "gated clean w'" using gated_same redis_call_schedule [OF q(1)] assms(2) by blast
  ultimately show thesis
    using q assms(2) by (intro that [of "kv (env_step w)"])
      (auto simp: redis_call_def Let_def gated_def split: option.splits call_fault.splits sum.splits)
qed

lemma model_graph_read:
  assumes "model_graph (\<lambda>g. (h g, g)) w = (r, w')" "gated clean w"
  shows "frame (kv w) (kv w') \<and> gated clean w' \<and> (clean \<longrightarrow> (\<exists>x. r = Inr x)) \<and> (\<forall>x. r = Inr x \<longrightarrow> x = h (kv w'))"
proof -
  let ?f = "\<lambda>g. (h g, g)"
  obtain q where q: "graph_call ?f w = (q, w')" "r = (case q of Inl e \<Rightarrow> Inl (GraphOperationFailed e) | Inr x \<Rightarrow> Inr x)"
    using assms(1) by (cases "graph_call ?f w") (auto simp: model_graph_def split: sum.splits)
  have "frame (kv w) (kv (env_step w))" using assms(2) by (simp add: gated_def env_step_def)
  moreover have "gated clean w'" using gated_same graph_call_schedule [OF q(1)] assms(2) by blast
  ultimately show ?thesis
    using q assms(2)
    by (auto simp: graph_call_def Let_def gated_def split: option.splits call_fault.splits sum.splits)
qed

lemma model_redis_read:
  assumes "model_redis (\<lambda>g. (h g, g)) w = (r, w')" "gated clean w"
  shows "frame (kv w) (kv w') \<and> gated clean w' \<and> (clean \<longrightarrow> (\<exists>x. r = Inr x)) \<and> (\<forall>x. r = Inr x \<longrightarrow> x = h (kv w'))"
  by (rule model_redis_step [OF assms]) auto

text \<open>What a run gains stays: \<open>stable\<close> facts survive gated writes.\<close>

definition stable :: "(tf_kv \<Rightarrow> bool) \<Rightarrow> bool" where
  "stable S \<longleftrightarrow> (\<forall>g g'. frame g g' \<longrightarrow> S g \<longrightarrow> S g')"

fun treated :: "tf_write \<Rightarrow> string \<Rightarrow> string \<Rightarrow> tf_kv \<Rightarrow> bool" where
  "treated Show k m g \<longleftrightarrow> (admitted g (author_of m) \<longrightarrow> present g k m)"
| "treated Hide k m g \<longleftrightarrow> (\<not> admitted g (author_of m) \<longrightarrow> \<not> present g k m)"

lemma treated_stable: "stable (treated wr k m)"
  unfolding stable_def using frame_present by (cases wr) (simp_all add: frame_admitted del: not_None_eq)

lemma pipeline_runs:
  assumes "pipeline cs w = (r, w')" "gated clean w" "\<forall>c \<in> set cs. \<forall>g. tf_posts g = tf_posts (kv w) \<longrightarrow> frame g (snd (c g))"
  shows "frame (kv w) (kv w') \<and> gated clean w' \<and> (clean \<longrightarrow> r = Inr ()) \<and>
    (r = Inr () \<longrightarrow> (\<forall>c \<in> set cs. \<forall>S. stable S \<longrightarrow> (\<forall>g. S (snd (c g))) \<longrightarrow> S (kv w')))"
  using assms
proof (induction cs arbitrary: w r)
  case (Cons c cs)
  obtain q w1 where q: "model_redis c w = (q, w1)" by force
  obtain p w2 where p: "pipeline cs w1 = (p, w2)" by force
  have eq: "w' = w2" "r = (case q of Inl e \<Rightarrow> Inl e | Inr _ \<Rightarrow> p)"
    using Cons.prems(1) q p by (auto split: sum.splits)
  obtain g where g: "frame (kv w) g" "gated clean w1" "clean \<longrightarrow> (\<exists>x. q = Inr x)"
    "(\<exists>e. q = Inl e) \<and> kv w1 = g \<or> (q = Inr (fst (c g)) \<or> (\<exists>e. q = Inl e)) \<and> kv w1 = snd (c g)"
    by (rule model_redis_step [OF q Cons.prems(2)])
  have posts: "tf_posts g = tf_posts (kv w)" using g(1) by (simp add: frame_def)
  have f: "frame (kv w) (kv w1)" using g(1,4) Cons.prems(3) posts frame_trans by auto
  then have "tf_posts (kv w1) = tf_posts (kv w)" by (simp add: frame_def)
  then have pre: "\<forall>c \<in> set cs. \<forall>g. tf_posts g = tf_posts (kv w1) \<longrightarrow> frame g (snd (c g))"
    using Cons.prems(3) by simp
  note ih = Cons.IH [OF p [folded eq(1)] g(2) pre, unfolded eq(1)]
  have gain: "\<forall>S. stable S \<longrightarrow> (\<forall>g. S (snd (c g))) \<longrightarrow> S (kv w2)" if "q = Inr x" for x
    using that g(4) ih unfolding stable_def by auto
  have "frame (kv w) (kv w2)" using frame_trans [OF f] ih by blast
  then show ?case using eq ih g(3) gain by (cases q) auto
qed simp

section \<open>Writing the entries of an author\<close>

lemma chunks_cover: "0 < n \<Longrightarrow> x \<in> set xs \<Longrightarrow> \<exists>b \<in> set (chunks n xs). x \<in> set b"
proof (induction n xs rule: chunks.induct)
  case (1 n xs)
  have "x \<in> set (take n xs) \<or> x \<in> set (drop n xs)" using "1.prems"(2) by (metis Un_iff append_take_drop_id set_append)
  then show ?case using 1 by (subst chunks.simps) auto
qed

lemma chunks_sub: "b \<in> set (chunks n xs) \<Longrightarrow> set b \<subseteq> set xs"
proof (induction n xs rule: chunks.induct)
  case (1 n xs)
  then show ?case by (subst (asm) (2) chunks.simps) (auto split: if_splits dest: in_set_takeD in_set_dropD)
qed

lemma shared_entries_mem:
  "(key, es) \<in> set (shared_entries P) \<Longrightarrow> m \<in> snd ` set es \<Longrightarrow> entry_of P key m"
  "p \<in> set P \<Longrightarrow> k \<in> fst ` set (post_entries p) \<Longrightarrow>
     \<exists>es. (k, es) \<in> set (shared_entries P) \<and> post_member p \<in> snd ` set es"
  by (force simp: shared_entries_def entry_of_def)+

lemma write_call_frame:
  "\<forall>m \<in> snd ` set b. entry_of (tf_posts g) key m \<Longrightarrow> frame g (snd (write_call wr key b g))"
  by (cases wr) (simp_all add: write_call_def add_frame remove_frame)

lemma write_call_treats: "m \<in> snd ` set b \<Longrightarrow> treated wr key m (snd (write_call wr key b g))"
proof -
  assume m: "m \<in> snd ` set b"
  have a: "admitted (snd (add_script key b g)) = admitted g" "admitted (snd (remove_script key (map snd b) g)) = admitted g"
    by (auto simp: add_script_def remove_script_def Let_def admitted_def fun_eq_iff)
  show ?thesis using m by (cases wr) (auto simp: write_call_def a add_present remove_present simp del: not_None_eq)
qed

lemma write_entries_runs:
  assumes "write_entries wr (shared_entries page) w = (r, w')" "gated clean w" "set page \<subseteq> set (tf_posts (kv w))"
  shows "frame (kv w) (kv w') \<and> gated clean w' \<and> (clean \<longrightarrow> r = Inr ()) \<and>
    (r = Inr () \<longrightarrow> (\<forall>p \<in> set page. \<forall>k \<in> fst ` set (post_entries p). treated wr k (post_member p) (kv w')))"
proof -
  let ?cs = "concat (map (\<lambda>(key, es). map (write_call wr key) (chunks BATCH es)) (shared_entries page))"
  have sub: "entry_of page k m \<Longrightarrow> entry_of (tf_posts (kv w)) k m" for k m using assms(3) by (auto simp: entry_of_def)
  have "frame g (snd (c g))" if cs: "c \<in> set ?cs" and posts: "tf_posts g = tf_posts (kv w)" for c g
  proof -
    obtain key es b where c: "(key, es) \<in> set (shared_entries page)" "b \<in> set (chunks BATCH es)" "c = write_call wr key b"
      using cs by (force simp: set_concat)
    then have "\<forall>m \<in> snd ` set b. entry_of (tf_posts g) key m"
      using shared_entries_mem(1) [OF c(1)] chunks_sub [OF c(2)] sub posts by (metis image_mono subsetD)
    then show ?thesis unfolding c(3) by (rule write_call_frame)
  qed
  then have run: "frame (kv w) (kv w') \<and> gated clean w' \<and> (clean \<longrightarrow> r = Inr ()) \<and>
      (r = Inr () \<longrightarrow> (\<forall>c \<in> set ?cs. \<forall>S. stable S \<longrightarrow> (\<forall>g. S (snd (c g))) \<longrightarrow> S (kv w')))"
    using pipeline_runs [OF assms(1) [unfolded write_entries_def] assms(2)] by blast
  have "treated wr k (post_member p) (kv w')" if ok: "r = Inr ()" and pk: "p \<in> set page" "k \<in> fst ` set (post_entries p)" for p k
  proof -
    obtain es where es: "(k, es) \<in> set (shared_entries page)" "post_member p \<in> snd ` set es"
      using shared_entries_mem(2) [OF pk] by blast
    then obtain s where "(s, post_member p) \<in> set es" by force
    then obtain b where b: "b \<in> set (chunks BATCH es)" "post_member p \<in> snd ` set b"
      using chunks_cover [of BATCH "(s, post_member p)" es] by (force simp: BATCH_def)
    have "write_call wr k b \<in> set ?cs" using es(1) b(1) by force
    then show ?thesis using run ok treated_stable write_call_treats [OF b(2)] by blast
  qed
  then show ?thesis using run by blast
qed

section \<open>The pages of an author\<close>

definition posts_of :: "string \<Rightarrow> tf_kv \<Rightarrow> author_post list" where
  "posts_of a g = sort_key post_key (filter (\<lambda>p. ap_author p = a) (tf_posts g))"

definition treated_posts :: "tf_write \<Rightarrow> author_post list \<Rightarrow> tf_kv \<Rightarrow> bool" where
  "treated_posts wr ps g \<longleftrightarrow> (\<forall>p \<in> set ps. \<forall>k \<in> fst ` set (post_entries p). treated wr k (post_member p) g)"

lemma treated_posts_frame: "frame g g' \<Longrightarrow> treated_posts wr ps g \<Longrightarrow> treated_posts wr ps g'"
  using treated_stable unfolding treated_posts_def stable_def by blast

lemma posts_of_strict: "posts_ok (tf_posts g) \<Longrightarrow> strictly_sorted post_key (posts_of a g)"
  unfolding posts_of_def posts_ok_def
  by (rule sort_key_strict) (auto simp: distinct_map inj_on_def post_key_def)

lemma Max_keys_last: "strictly_sorted key ps \<Longrightarrow> ps \<noteq> [] \<Longrightarrow> Max (set (map key ps)) = key (last ps)"
  by (rule Max_eqI) (auto dest: last_greatest)

lemma write_pages_runs:
  assumes "gated clean w" "posts_ok (tf_posts (kv w))" "0 < n"
  shows "\<exists>r w'. write_pages a wr n c w = Some (r, w') \<and> frame (kv w) (kv w') \<and> gated clean w' \<and> (clean \<longrightarrow> r = Inr ()) \<and>
    (r = Inr () \<longrightarrow> treated_posts wr (filter (\<lambda>p. c < post_key p) (posts_of a (kv w))) (kv w'))"
  using assms
proof (induction "length (filter (\<lambda>p. c < post_key p) (posts_of a (kv w)))" arbitrary: c w rule: less_induct)
  case less
  let ?xs = "filter (\<lambda>p. c < post_key p) (posts_of a (kv w))"
  let ?page = "take n ?xs"
  obtain q w1 where q: "model_graph (author_post_entries a c n) w = (q, w1)" by force
  have read: "author_post_entries a c n = (\<lambda>g. (page_above post_key n c (posts_of a g), g))"
    by (simp add: author_post_entries_def posts_of_def fun_eq_iff)
  note rd = model_graph_read [OF q [unfolded read] less.prems(1)]
  have f1: "frame (kv w) (kv w1)" and g1: "gated clean w1" using rd by blast+
  have same: "tf_posts (kv w1) = tf_posts (kv w)" by (rule frame_same(6) [OF f1])
  have pg: "q = Inr x \<Longrightarrow> x = ?page" for x
    using rd same by (simp add: page_above_def posts_of_def)
  show ?case
  proof (cases q)
    case (Inl e)
    then show ?thesis using q rd f1 g1 by (subst write_pages.simps) auto
  next
    case (Inr x)
    obtain p w2 where p: "write_entries wr (shared_entries ?page) w1 = (p, w2)" by force
    have "set ?page \<subseteq> set (tf_posts (kv w1))" by (auto simp: same posts_of_def dest!: in_set_takeD)
    note wr = write_entries_runs [OF p g1 this]
    have f2: "frame (kv w) (kv w2)" using frame_trans [OF f1] wr by blast
    have st: "strictly_sorted post_key ?xs" using posts_of_strict [OF less.prems(2)] sorted_wrt_filter by blast
    show ?thesis
    proof (cases "next_page ?page n")
      case None
      then have "?page = ?xs" using less.prems(3) by (auto simp: next_page_def split: if_splits)
      then have "p = Inr () \<longrightarrow> treated_posts wr ?xs (kv w2)" using wr by (simp add: treated_posts_def)
      then show ?thesis using q Inr pg [OF Inr] p None wr f2 by (subst write_pages.simps) (cases p; auto)
    next
      case (Some nxt)
      then have len: "n \<le> length ?xs" and ne: "?page \<noteq> []"
        and nx: "nxt = Max (set (map post_key ?page))" by (auto simp: next_page_def split: if_splits)
      have "strictly_sorted post_key ?page" using st sorted_wrt_take by blast
      then have nxt: "nxt = post_key (last ?page)" using Max_keys_last ne nx by blast
      have rest: "filter (\<lambda>p. nxt < post_key p) (posts_of a (kv w2)) = drop n ?xs"
        using page_tail(2) [OF posts_of_strict [OF less.prems(2)] less.prems(3) len nxt] frame_same(6) [OF f2]
        by (simp add: posts_of_def)
      show ?thesis
      proof (cases p)
        case (Inl e)
        then show ?thesis using q Inr pg [OF Inr] p wr f2 by (subst write_pages.simps) auto
      next
        case pr: (Inr y)
        have "length (filter (\<lambda>p. nxt < post_key p) (posts_of a (kv w2))) < length ?xs"
          unfolding rest using less.prems(3) len by simp
        moreover have "gated clean w2" "posts_ok (tf_posts (kv w2))" using wr less.prems(2) frame_same(6) [OF f2] by auto
        ultimately obtain r w3 where ih: "write_pages a wr n nxt w2 = Some (r, w3)" "frame (kv w2) (kv w3)" "gated clean w3"
          "clean \<longrightarrow> r = Inr ()" "r = Inr () \<longrightarrow> treated_posts wr (drop n ?xs) (kv w3)"
          using less.hyps [of nxt w2] less.prems(3) unfolding rest by blast
        have "treated_posts wr ?page (kv w2)" using wr pr by (simp add: treated_posts_def)
        then have "treated_posts wr ?page (kv w3)" by (rule treated_posts_frame [OF ih(2)])
        then have "r = Inr () \<longrightarrow> treated_posts wr ?xs (kv w3)"
          using ih(5) unfolding treated_posts_def by (metis Un_iff append_take_drop_id set_append)
        moreover have "write_pages a wr n c w = Some (r, w3)"
          using q Inr pg [OF Inr] p pr Some ih(1) by (subst write_pages.simps) auto
        ultimately show ?thesis using ih frame_trans [OF f2 ih(2)] by blast
      qed
    qed
  qed
qed

lemma write_each_runs:
  assumes "gated clean w" "posts_ok (tf_posts (kv w))"
  shows "\<exists>r w'. write_each ws w = Some (r, w') \<and> frame (kv w) (kv w') \<and> gated clean w' \<and> (clean \<longrightarrow> r = Inr ()) \<and>
    (r = Inr () \<longrightarrow> (\<forall>(a, wr) \<in> set ws. treated_posts wr (posts_of a (kv w)) (kv w')))"
  using assms
proof (induction ws arbitrary: w)
  case (Cons v ws)
  obtain a wr where v: "v = (a, wr)" by force
  have above: "filter (\<lambda>p. first_cursor < post_key p) (posts_of a (kv w)) = posts_of a (kv w)"
    using Cons.prems(2) by (auto simp: posts_of_def posts_ok_def filter_id_conv)
  obtain r w1 where p: "write_pages a wr POSTS_PAGE first_cursor w = Some (r, w1)" "frame (kv w) (kv w1)" "gated clean w1"
    "clean \<longrightarrow> r = Inr ()" "r = Inr () \<longrightarrow> treated_posts wr (posts_of a (kv w)) (kv w1)"
    using write_pages_runs [OF Cons.prems, of POSTS_PAGE a wr first_cursor] unfolding above by (auto simp: POSTS_PAGE_def)
  show ?case
  proof (cases r)
    case (Inl e)
    then show ?thesis using p v by auto
  next
    case (Inr y)
    have "posts_ok (tf_posts (kv w1))" using Cons.prems(2) frame_same(6) [OF p(2)] by simp
    from Cons.IH [OF p(3) this] obtain q w2 where ih: "write_each ws w1 = Some (q, w2)" "frame (kv w1) (kv w2)" "gated clean w2"
      "clean \<longrightarrow> q = Inr ()" "q = Inr () \<longrightarrow> (\<forall>(a, wr) \<in> set ws. treated_posts wr (posts_of a (kv w1)) (kv w2))" by blast
    have "treated_posts wr (posts_of a (kv w)) (kv w2)" using treated_posts_frame [OF ih(2)] p(5) Inr by simp
    moreover have "posts_of b (kv w1) = posts_of b (kv w)" for b using frame_same(6) [OF p(2)] by (simp add: posts_of_def)
    ultimately show ?thesis using v p(1) Inr ih frame_trans [OF p(2) ih(2)] by auto
  qed
qed simp

lemma treated_full:
  assumes "treated_posts Show (posts_of a g) g'" "posts_ok (tf_posts g)" "tf_posts g' = tf_posts g" "admitted g' a"
  shows "full g' a"
  using assms author_of_member [OF assms(2)]
  by (auto simp: full_def treated_posts_def posts_of_def simp del: not_None_eq)

lemma treated_absent:
  assumes "treated_posts Hide (posts_of a g) g'" "posts_ok (tf_posts g)" "tf_posts g' = tf_posts g" "\<not> admitted g' a" "rooted g'"
  shows "absent g' a"
  unfolding absent_def
proof (intro allI impI notI)
  fix k m assume m: "author_of m = a" "present g' k m"
  then obtain p where p: "p \<in> set (tf_posts g)" "m = post_member p" "k \<in> fst ` set (post_entries p)"
    using assms(3,5) unfolding rooted_def entry_of_def by metis
  then have "p \<in> set (posts_of a g)" using m(1) author_of_member [OF assms(2)] by (simp add: posts_of_def)
  then have "treated Hide k m g'" using assms(1) p(2,3) unfolding treated_posts_def by blast
  then show False using assms(4) m by simp
qed

end
