(* ===== verification/Sorted_Index.thy ===== *)
theory Sorted_Index
  imports Notification Trust_Filter
begin

text \<open>
  Reading Redis sorted sets by score (db/kv/index/sorted\_sets.rs, \<open>get_range\<close>, and the method of \<open>RedisOps\<close>
  that calls it). A sorted set is an association list of members and integer scores; a page is a slice of the
  members in rank order within the bounds. Bounds are compared with integer scores only, so an \<open>f64\<close> bound
  is its integer part.
\<close>

datatype sort_order = Ascending | Descending

record zset_kv = notif_kv +
  z_sets :: "string \<Rightarrow> (string \<times> int) list"

text \<open>Rank order: by score, equal scores by member; descending is the exact reverse.\<close>

abbreviation rank_key :: "string \<times> int \<Rightarrow> int \<times> string" where
  "rank_key row \<equiv> (snd row, fst row)"

definition zorder :: "sort_order \<Rightarrow> (string \<times> int) list \<Rightarrow> (string \<times> int) list" where
  "zorder ord z = (case ord of Ascending \<Rightarrow> sort_key rank_key z | Descending \<Rightarrow> rev (sort_key rank_key z))"

definition zpage ::
  "int option \<Rightarrow> int option \<Rightarrow> nat option \<Rightarrow> nat option \<Rightarrow> sort_order \<Rightarrow> (string \<times> int) list \<Rightarrow> (string \<times> int) list" where
  "zpage mn mx skip limit ord z =
     take (unwrap_or 1000 limit) (drop (unwrap_or 0 skip) (filter (in_bounds mx mn) (zorder ord z)))"

text \<open>Two calls: the key is checked before it is read.\<close>

definition get_range ::
  "string \<Rightarrow> int option \<Rightarrow> int option \<Rightarrow> nat option \<Rightarrow> nat option \<Rightarrow> sort_order \<Rightarrow> 'a zset_kv_scheme world \<Rightarrow>
   (redis_error, (string \<times> int) list option) result \<times> 'a zset_kv_scheme world" where
  "get_range key mn mx skip limit ord w =
     (case redis_call (\<lambda>g. (z_sets g key \<noteq> [], g)) w of
        (Inl e, w1) \<Rightarrow> (Inl e, w1)
      | (Inr found, w1) \<Rightarrow>
          if \<not> found then (Inr None, w1)
          else (case redis_call (\<lambda>g. (zpage mn mx skip limit ord (z_sets g key), g)) w1 of
                  (Inl e, w2) \<Rightarrow> (Inl e, w2)
                | (Inr rows, w2) \<Rightarrow> (Inr (Some rows), w2)))"

definition try_from_index_sorted_set where
  "try_from_index_sorted_set key_parts start fin skip limit ord w =
     get_range (sorted_key key_parts) fin start skip limit ord w"

text \<open>Writes: \<open>ZADD\<close> sets the scores of its members in order, \<open>ZREM\<close> drops members; empty lists make no call.\<close>

definition zadd_all :: "(int \<times> string) list \<Rightarrow> (string \<times> int) list \<Rightarrow> (string \<times> int) list" where
  "zadd_all items z = fold (\<lambda>(s, m). AList.update m s) items z"

definition zset_put ::
  "string \<Rightarrow> (int \<times> string) list \<Rightarrow> 'a zset_kv_scheme world \<Rightarrow> (redis_error, unit) result \<times> 'a zset_kv_scheme world" where
  "zset_put key items w =
     (if items = [] then (Inr (), w)
      else redis_call (\<lambda>g. ((), g\<lparr>z_sets := (z_sets g)(key := zadd_all items (z_sets g key))\<rparr>)) w)"

definition zset_del ::
  "string \<Rightarrow> string list \<Rightarrow> 'a zset_kv_scheme world \<Rightarrow> (redis_error, unit) result \<times> 'a zset_kv_scheme world" where
  "zset_del key ms w =
     (if ms = [] then (Inr (), w)
      else redis_call (\<lambda>g. ((), g\<lparr>z_sets := (z_sets g)(key := fold AList.delete ms (z_sets g key))\<rparr>)) w)"

definition put_index_sorted_set where
  "put_index_sorted_set key_parts elements w = zset_put (sorted_key key_parts) elements w"

definition remove_from_index_sorted_set where
  "remove_from_index_sorted_set key_parts items w = zset_del (sorted_key key_parts) items w"

text \<open>The keys of the shared sets of posts, by engagement and by label.\<close>

definition POST_TOTAL_ENGAGEMENT_KEY :: string where "POST_TOTAL_ENGAGEMENT_KEY = ''Posts:Global:TotalEngagement''"
definition TAG_GLOBAL_POST_TIMELINE :: "string \<Rightarrow> string" where "TAG_GLOBAL_POST_TIMELINE l = ''Tags:Global:Post:Timeline:'' @ l"
definition TAG_GLOBAL_POST_ENGAGEMENT :: "string \<Rightarrow> string" where
  "TAG_GLOBAL_POST_ENGAGEMENT l = ''Tags:Global:Post:TotalEngagement:'' @ l"

section \<open>Sequencing\<close>

text \<open>The \<open>?\<close> of the sources followed by the rest, a value, and the conversion of an error.\<close>

type_synonym ('s, 'e, 'x) run = "'s world \<Rightarrow> ('e, 'x) result \<times> 's world"

definition andthen :: "('s, 'e, 'x) run \<Rightarrow> ('x \<Rightarrow> ('s, 'e, 'y) run) \<Rightarrow> ('s, 'e, 'y) run" where
  "andthen m rest w = (case m w of (Inl e, w1) \<Rightarrow> (Inl e, w1) | (Inr x, w1) \<Rightarrow> rest x w1)"

definition pass :: "'x \<Rightarrow> ('s, 'e, 'x) run" where
  "pass x w = (Inr x, w)"

definition map_err :: "('d \<Rightarrow> 'e) \<Rightarrow> ('s, 'd, 'x) run \<Rightarrow> ('s, 'e, 'x) run" where
  "map_err conv m w = (case m w of (Inl e, w1) \<Rightarrow> (Inl (conv e), w1) | (Inr x, w1) \<Rightarrow> (Inr x, w1))"

lemma andthen_Inr:
  assumes "andthen m rest w = (Inr y, w')"
  obtains x w1 where "m w = (Inr x, w1)" "rest x w1 = (Inr y, w')"
  using assms by (auto simp: andthen_def split: prod.splits sum.splits)

lemma pass_Inr [simp]: "pass x w = (Inr y, w') \<longleftrightarrow> y = x \<and> w' = w"
  by (auto simp: pass_def)

lemma map_err_Inr [simp]: "map_err conv m w = (Inr y, w') \<longleftrightarrow> m w = (Inr y, w')"
  by (auto simp: map_err_def split: prod.splits sum.splits)

section \<open>Order of a page\<close>

definition before :: "sort_order \<Rightarrow> string \<times> int \<Rightarrow> string \<times> int \<Rightarrow> bool" where
  "before ord a b = (case ord of Ascending \<Rightarrow> rank_key a < rank_key b | Descending \<Rightarrow> rank_key b < rank_key a)"

lemma before_asym: "before ord a b \<Longrightarrow> \<not> before ord b a"
  by (cases ord) (auto simp: before_def less_prod_def)

lemma before_total: "a \<noteq> b \<Longrightarrow> before ord a b \<or> before ord b a"
  by (cases ord) (auto simp: before_def less_prod_def prod_eq_iff)

lemma length_zorder [simp]: "length (zorder ord z) = length z"
  by (simp add: zorder_def split: sort_order.split)

lemma set_zorder [simp]: "set (zorder ord z) = set z"
  by (simp add: zorder_def split: sort_order.split)

lemma rank_key_inj: "inj_on rank_key A"
  by (auto simp: inj_on_def prod_eq_iff)

lemma zorder_sorted:
  assumes "distinct z"
  shows "sorted_wrt (before ord) (zorder ord z)"
proof -
  have "distinct (map rank_key z)" using assms by (simp add: distinct_map rank_key_inj)
  then have "strictly_sorted rank_key (sort_key rank_key z)" by (rule sort_key_strict)
  moreover have "before Ascending = (\<lambda>a b. rank_key a < rank_key b)" "before Descending = (\<lambda>a b. rank_key b < rank_key a)"
    by (simp_all add: before_def fun_eq_iff)
  ultimately show ?thesis by (cases ord) (simp_all only: zorder_def sort_order.case sorted_wrt_rev)
qed

text \<open>A list in strict order is determined by its elements.\<close>

lemma ordered_unique:
  assumes "\<And>a b. R a b \<Longrightarrow> \<not> R b a" "sorted_wrt R xs" "sorted_wrt R ys" "set xs = set ys"
  shows "xs = ys"
  using assms(2-4)
proof (induction xs arbitrary: ys)
  case (Cons x xs)
  obtain y zs where ys: "ys = y # zs" using Cons.prems(3) by (cases ys) auto
  have "x = y" using Cons.prems ys assms(1) by (metis list.set_intros(1) set_ConsD sorted_wrt.simps(2))
  moreover have "x \<notin> set xs" "y \<notin> set zs" using Cons.prems ys assms(1) by (metis sorted_wrt.simps(2))+
  ultimately have "set xs = set zs" using Cons.prems(3) ys by auto
  then show ?case using Cons ys \<open>x = y\<close> by simp
qed simp

lemma zorder_unique:
  "distinct z \<Longrightarrow> sorted_wrt (before ord) xs \<Longrightarrow> set xs = set z \<Longrightarrow> xs = zorder ord z"
  by (rule ordered_unique [of "before ord"]) (simp_all add: before_asym zorder_sorted)

text \<open>The first rows of a list are among the first rows of each of its parts.\<close>

lemma take_filter_same: "(\<And>x. x \<in> set (take n xs) \<Longrightarrow> P x) \<Longrightarrow> take n (filter P xs) = take n xs"
proof -
  assume "\<And>x. x \<in> set (take n xs) \<Longrightarrow> P x"
  then have "filter P (take n xs) = take n xs" by (simp add: filter_id_conv)
  then have "filter P xs = take n xs @ filter P (drop n xs)" by (metis append_take_drop_id filter_append)
  then show ?thesis by (cases "n \<le> length xs") auto
qed

lemma in_take_filter:
  assumes "x \<in> set (take n xs)" "P x"
  shows "x \<in> set (take n (filter P xs))"
proof -
  have "filter P xs = filter P (take n xs) @ filter P (drop n xs)" by (metis append_take_drop_id filter_append)
  moreover have "length (filter P (take n xs)) \<le> n" by (rule le_trans [OF length_filter_le]) simp
  ultimately have "take n (filter P xs) = filter P (take n xs) @ take (n - length (filter P (take n xs))) (filter P (drop n xs))"
    by simp
  then show ?thesis using assms by simp
qed

section \<open>Reads of a set the other tasks leave alone\<close>

lemma get_range_steady:
  fixes w :: "'a zset_kv_scheme world"
  assumes "get_range key mn mx skip limit ord w = (r, w')" "steady view w" "\<And>g. view g = view (kv w) \<Longrightarrow> z_sets g key = z"
  shows "steady view w' \<and> view (kv w') = view (kv w) \<and>
    (\<forall>x. r = Inr x \<longrightarrow> unwrap_or [] x = zpage mn mx skip limit ord z)"
proof -
  obtain q w1 where q: "redis_call (\<lambda>g. (z_sets g key \<noteq> [], g)) w = (q, w1)" by force
  have e0: "view (kv (env_step w)) = view (kv w)" using assms(2) by (simp add: env_step_def steady_def)
  have v1: "steady view w1" "view (kv w1) = view (kv w)"
    using redis_view [OF q assms(2), of "\<lambda>v. v"] by auto
  have found: "q = Inr x \<Longrightarrow> x = (z \<noteq> [])" for x
    using q assms(3) [OF e0] by (auto simp: redis_call_def Let_def split: option.splits call_fault.splits)
  show ?thesis
  proof (cases "\<exists>x. q = Inr x \<and> x")
    case False
    then show ?thesis using assms(1) q v1 found
      by (cases q) (auto simp: get_range_def zpage_def zorder_def unwrap_or_def split: sort_order.splits)
  next
    case True
    obtain p w2 where p: "redis_call (\<lambda>g. (zpage mn mx skip limit ord (z_sets g key), g)) w1 = (p, w2)" by force
    have "view (kv (env_step w1)) = view (kv w)" using v1 by (simp add: env_step_def steady_def)
    then have "p = Inr x \<Longrightarrow> x = zpage mn mx skip limit ord z" for x
      using p assms(3) by (auto simp: redis_call_def Let_def split: option.splits call_fault.splits)
    moreover have "steady view w2" "view (kv w2) = view (kv w)"
      using redis_view [OF p v1(1), of "\<lambda>v. v"] v1(2) by auto
    ultimately show ?thesis using assms(1) q p True by (cases p) (auto simp: get_range_def unwrap_or_def)
  qed
qed

lemma zset_put_steady:
  fixes w :: "'a zset_kv_scheme world"
  assumes "put_index_sorted_set key [(s, m)] w = (Inr (), w')" "steady (\<lambda>g. z_sets g (sorted_key key)) w"
  shows "steady (\<lambda>g. z_sets g (sorted_key key)) w' \<and>
    z_sets (kv w') (sorted_key key) = AList.update m s (z_sets (kv w) (sorted_key key))"
  using redis_view [OF assms(1) [unfolded put_index_sorted_set_def zset_put_def, simplified] assms(2), of "AList.update m s"]
  by (auto simp: zadd_all_def)

lemma zset_del_steady:
  fixes w :: "'a zset_kv_scheme world"
  assumes "remove_from_index_sorted_set key [m] w = (Inr (), w')" "steady (\<lambda>g. z_sets g (sorted_key key)) w"
  shows "steady (\<lambda>g. z_sets g (sorted_key key)) w' \<and>
    z_sets (kv w') (sorted_key key) = AList.delete m (z_sets (kv w) (sorted_key key))"
  using redis_view [OF assms(1) [unfolded remove_from_index_sorted_set_def zset_del_def, simplified] assms(2), of "AList.delete m"]
  by auto

end
