(* ===== verification/Run_Logic.thy ===== *)
theory Run_Logic
  imports Sorted_Index
begin

text \<open>
  A rely-guarantee logic for the runs of one task (theory \<open>Redis_World\<close>). \<open>rg clean R P m Q E\<close>: among other tasks whose
  steps satisfy the relation \<open>R\<close>, started in a store with \<open>P\<close>, the run \<open>m\<close> ends in a store with \<open>Q\<close> of its value, or
  with \<open>E\<close> of its error. If \<open>clean\<close>, no call fails, and only the errors the code itself raises remain.
\<close>

definition rely :: "bool \<Rightarrow> ('s \<Rightarrow> 's \<Rightarrow> bool) \<Rightarrow> 's world \<Rightarrow> bool" where
  "rely clean R w \<longleftrightarrow> (\<forall>n g. R g (env w n g)) \<and> (clean \<longrightarrow> fault w = (\<lambda>_. None) \<and> graph_fault w = (\<lambda>_. None))"

definition stays :: "('s \<Rightarrow> 's \<Rightarrow> bool) \<Rightarrow> ('s \<Rightarrow> bool) \<Rightarrow> bool" where
  "stays R P \<longleftrightarrow> (\<forall>g g'. R g g' \<longrightarrow> P g \<longrightarrow> P g')"

definition rg ::
  "bool \<Rightarrow> ('s \<Rightarrow> 's \<Rightarrow> bool) \<Rightarrow> ('s \<Rightarrow> bool) \<Rightarrow> ('s, 'e, 'x) run \<Rightarrow> ('x \<Rightarrow> 's \<Rightarrow> bool) \<Rightarrow> ('e \<Rightarrow> 's \<Rightarrow> bool) \<Rightarrow> bool" where
  "rg clean R P m Q E \<longleftrightarrow> (\<forall>w. rely clean R w \<longrightarrow> P (kv w) \<longrightarrow>
     (case m w of (r, w') \<Rightarrow> rely clean R w' \<and> (case r of Inr x \<Rightarrow> Q x (kv w') | Inl e \<Rightarrow> E e (kv w'))))"

lemma rely_same: "same_schedule w w' \<Longrightarrow> rely clean R w \<Longrightarrow> rely clean R w'"
  by (simp add: rely_def same_schedule_def)

lemma rgI:
  assumes "\<And>w r w'. rely clean R w \<Longrightarrow> P (kv w) \<Longrightarrow> m w = (r, w') \<Longrightarrow>
    rely clean R w' \<and> (case r of Inr x \<Rightarrow> Q x (kv w') | Inl e \<Rightarrow> E e (kv w'))"
  shows "rg clean R P m Q E"
  using assms unfolding rg_def by (auto split: prod.split)

lemma rgD:
  assumes "rg clean R P m Q E" "rely clean R w" "P (kv w)" "m w = (r, w')"
  shows "rely clean R w'" "\<And>x. r = Inr x \<Longrightarrow> Q x (kv w')" "\<And>e. r = Inl e \<Longrightarrow> E e (kv w')"
  using assms unfolding rg_def by (fastforce split: sum.splits)+

section \<open>Rules\<close>

lemma rg_weaken:
  assumes "rg clean R P' m Q' E'" "\<And>g. P g \<Longrightarrow> P' g" "\<And>x g. Q' x g \<Longrightarrow> Q x g" "\<And>e g. E' e g \<Longrightarrow> E e g"
  shows "rg clean R P m Q E"
proof (rule rgI)
  fix w r w' assume w: "rely clean R w" "P (kv w)" "m w = (r, w')"
  note d = rgD [OF assms(1) w(1) assms(2) [OF w(2)] w(3)]
  then show "rely clean R w' \<and> (case r of Inr x \<Rightarrow> Q x (kv w') | Inl e \<Rightarrow> E e (kv w'))"
    using assms(3,4) by (cases r) auto
qed

lemma rg_assume:
  assumes "\<And>g. P g \<Longrightarrow> C" "C \<Longrightarrow> rg clean R P m Q E"
  shows "rg clean R P m Q E"
proof (rule rgI)
  fix w r w' assume w: "rely clean R w" "P (kv w)" "m w = (r, w')"
  note d = rgD [OF assms(2) w, OF assms(1), OF w(2)]
  then show "rely clean R w' \<and> (case r of Inr x \<Rightarrow> Q x (kv w') | Inl e \<Rightarrow> E e (kv w'))" by (cases r) auto
qed

text \<open>A run that chooses what to run by what it knows of its world.\<close>

lemma rg_pointwise: "(\<And>w. m w = f (h w) w) \<Longrightarrow> (\<And>x. rg clean R P (f x) Q E) \<Longrightarrow> rg clean R P m Q E"
  unfolding rg_def by simp

lemma rg_pass: "(\<And>g. P g \<Longrightarrow> Q x g) \<Longrightarrow> rg clean R P (pass x) Q E"
  by (rule rgI) (auto simp: pass_def)

lemma rg_fail: "(\<And>g. P g \<Longrightarrow> E e g) \<Longrightarrow> rg clean R P (\<lambda>w. (Inl e, w)) Q E"
  by (rule rgI) auto

lemma rg_andthen:
  assumes "rg clean R P m S E" "\<And>x. rg clean R (S x) (rest x) Q E"
  shows "rg clean R P (andthen m rest) Q E"
proof (rule rgI)
  fix w r w' assume w: "rely clean R w" "P (kv w)" "andthen m rest w = (r, w')"
  obtain r1 w1 where m: "m w = (r1, w1)" by force
  note d = rgD [OF assms(1) w(1,2) m]
  show "rely clean R w' \<and> (case r of Inr x \<Rightarrow> Q x (kv w') | Inl e \<Rightarrow> E e (kv w'))"
  proof (cases r1)
    case (Inl e)
    then show ?thesis using w(3) m d by (auto simp: andthen_def)
  next
    case (Inr x)
    then have "rest x w1 = (r, w')" using w(3) m by (simp add: andthen_def)
    from rgD [OF assms(2) d(1) d(2) [OF Inr] this] show ?thesis by (cases r) auto
  qed
qed

lemma rg_map_err:
  assumes "rg clean R P m Q (\<lambda>e. E (conv e))"
  shows "rg clean R P (map_err conv m) Q E"
proof (rule rgI)
  fix w r w' assume w: "rely clean R w" "P (kv w)" "map_err conv m w = (r, w')"
  obtain r1 w1 where m: "m w = (r1, w1)" by force
  show "rely clean R w' \<and> (case r of Inr x \<Rightarrow> Q x (kv w') | Inl e \<Rightarrow> E e (kv w'))"
    using rgD [OF assms w(1,2) m] w(3) m by (cases r1) (auto simp: map_err_def)
qed

lemma rely_env_step:
  assumes "rely clean R w" "stays R P" "P (kv w)"
  shows "P (kv (env_step w))"
proof -
  have "R (kv w) (env w (tick w) (kv w))" using assms(1) by (simp add: rely_def)
  then have "P (env w (tick w) (kv w))" using assms(2,3) unfolding stays_def by blast
  then show ?thesis by (simp add: env_step_def)
qed

lemma rg_redis:
  assumes "stays R P" "\<And>g. P g \<Longrightarrow> Q (fst (f g)) (snd (f g))" "\<And>g e. \<not> clean \<Longrightarrow> P g \<Longrightarrow> E e g \<and> E e (snd (f g))"
  shows "rg clean R P (redis_call f) Q E"
proof (rule rgI)
  fix w r w' assume w: "rely clean R w" "P (kv w)" "redis_call f w = (r, w')"
  have "P (kv (env_step w))" using rely_env_step [OF w(1) assms(1)] w(2) by blast
  moreover have "rely clean R w'" using rely_same [OF redis_call_schedule [OF w(3)] w(1)] .
  ultimately show "rely clean R w' \<and> (case r of Inr x \<Rightarrow> Q x (kv w') | Inl e \<Rightarrow> E e (kv w'))"
    using w(1,3) assms(2,3) by (auto simp: redis_call_def rely_def Let_def split: option.splits call_fault.splits)
qed

lemma rg_graph:
  assumes "stays R P" "\<And>g. P g \<Longrightarrow> Q (fst (f g)) (snd (f g))" "\<And>g e. \<not> clean \<Longrightarrow> P g \<Longrightarrow> E e g \<and> E e (snd (f g))"
  shows "rg clean R P (graph_call f) Q E"
proof (rule rgI)
  fix w r w' assume w: "rely clean R w" "P (kv w)" "graph_call f w = (r, w')"
  have "P (kv (env_step w))" using rely_env_step [OF w(1) assms(1)] w(2) by blast
  moreover have "rely clean R w'" using rely_same [OF graph_call_schedule [OF w(3)] w(1)] .
  ultimately show "rely clean R w' \<and> (case r of Inr x \<Rightarrow> Q x (kv w') | Inl e \<Rightarrow> E e (kv w'))"
    using w(1,3) assms(2,3) by (auto simp: graph_call_def rely_def Let_def split: option.splits call_fault.splits)
qed

lemma rg_call_any: "rg clean R (\<lambda>_. True) (redis_call f) (\<lambda>_ _. True) (\<lambda>_ _. True)"
  by (rule rg_redis) (auto simp: stays_def)

text \<open>A step whose value is known.\<close>

lemma rg_known:
  assumes "rg clean R P m (\<lambda>x g. x = v \<and> S g) E" "rg clean R S (rest v) Q E"
  shows "rg clean R P (andthen m rest) Q E"
proof (rule rg_andthen [OF assms(1)])
  fix x show "rg clean R (\<lambda>g. x = v \<and> S g) (rest x) Q E"
    by (rule rg_assume [where C = "x = v"]) (auto intro: rg_weaken [OF assms(2)])
qed

lemma rg_map_err_const: "rg clean R P m Q (\<lambda>_. F) \<Longrightarrow> rg clean R P (map_err conv m) Q (\<lambda>_. F)"
  by (rule rg_map_err)

lemma andthen_pass [simp]: "andthen (pass x) rest = rest x"
  by (simp add: andthen_def pass_def fun_eq_iff)

text \<open>The time, as a run.\<close>

definition now :: "('s, 'e, int) run" where
  "now w = (case utc_now w of (t, w1) \<Rightarrow> (Inr t, w1))"

lemma rg_now: "stays R P \<Longrightarrow> (\<And>t g. P g \<Longrightarrow> Q t g) \<Longrightarrow> rg clean R P now Q E"
  using rely_env_step [of clean R _ P] rely_same [OF env_step_schedule, of clean R]
  by (intro rgI) (auto simp: now_def utc_now_def)

section \<open>Joins\<close>

text \<open>
  \<open>tokio::join!\<close> runs every arm to its end in an order the executor chooses; the \<open>?\<close> of the results, in the order they are
  written, then report the first error. Here an arm is not interrupted by another arm of the same join, only by other tasks.
  Every order of the arms is the order some \<open>picks\<close> give.
\<close>

definition arm_order :: "nat list \<Rightarrow> nat \<Rightarrow> nat list" where
  "arm_order picks n = remdups ([0..<n] @ filter (\<lambda>i. i < n) picks)"

fun run_arms :: "('s, 'e, unit) run list \<Rightarrow> nat list \<Rightarrow> 's world \<Rightarrow> (nat \<times> ('e, unit) result) list \<times> 's world" where
  "run_arms ms [] w = ([], w)"
| "run_arms ms (i # js) w = (case (ms ! i) w of (r, w1) \<Rightarrow> case run_arms ms js w1 of (rs, w2) \<Rightarrow> ((i, r) # rs, w2))"

fun first_left :: "(nat \<times> ('e, unit) result) list \<Rightarrow> nat list \<Rightarrow> ('e, unit) result" where
  "first_left rs [] = Inr ()"
| "first_left rs (i # js) = (case map_of rs i of Some (Inl e) \<Rightarrow> Inl e | _ \<Rightarrow> first_left rs js)"

definition join_arms :: "nat list \<Rightarrow> ('s, 'e, unit) run list \<Rightarrow> ('s, 'e, unit) run" where
  "join_arms picks ms w =
     (case run_arms ms (arm_order picks (length ms)) w of (rs, w') \<Rightarrow> (first_left rs [0..<length ms], w'))"

lemma arm_order_set [simp]: "set (arm_order picks n) = {..<n}" "distinct (arm_order picks n)"
  by (auto simp: arm_order_def)

lemma remdups_covered: "set xs \<subseteq> set ys \<Longrightarrow> remdups (xs @ ys) = remdups ys"
  by (induction xs) auto

lemma arm_order_any: "distinct js \<Longrightarrow> set js = {..<n} \<Longrightarrow> arm_order js n = js"
proof -
  assume a: "distinct js" "set js = {..<n}"
  then have "filter (\<lambda>i. i < n) js = js" by (simp add: filter_id_conv)
  then show ?thesis using remdups_covered [of "[0..<n]" js] a by (simp add: arm_order_def atLeast0LessThan)
qed

lemma first_left_Inr: "first_left rs js = Inr () \<Longrightarrow> i \<in> set js \<Longrightarrow> map_of rs i \<noteq> Some (Inl e)"
  by (induction js) (auto split: option.splits sum.splits)

lemma first_left_Inl: "first_left rs js = Inl e \<Longrightarrow> \<exists>i. (i, Inl e) \<in> set rs"
  by (induction js) (auto split: option.splits sum.splits dest: map_of_SomeD)

text \<open>
  What an arm makes true stays true while the other arms run, so all of it holds after a join without errors.
\<close>

lemma run_arms_rg:
  assumes base: "\<And>i. i < n \<Longrightarrow> rg clean R I (ms ! i) (\<lambda>_ g. I g \<and> A i g) (\<lambda>e g. F e \<and> I g)"
    and others: "\<And>i j. i < n \<Longrightarrow> j < n \<Longrightarrow> i \<noteq> j \<Longrightarrow> rg clean R (\<lambda>g. I g \<and> A j g) (ms ! i) (\<lambda>_. A j) (\<lambda>_. A j)"
  shows "distinct js \<Longrightarrow> set js \<subseteq> {..<n} \<Longrightarrow> J \<subseteq> {..<n} \<Longrightarrow> J \<inter> set js = {} \<Longrightarrow>
    rely clean R w \<Longrightarrow> I (kv w) \<Longrightarrow> \<forall>j \<in> J. A j (kv w) \<Longrightarrow> run_arms ms js w = (rs, w') \<Longrightarrow>
    rely clean R w' \<and> I (kv w') \<and> map fst rs = js \<and> (\<forall>j \<in> J. A j (kv w')) \<and>
    (\<forall>(i, r) \<in> set rs. case r of Inr _ \<Rightarrow> A i (kv w') | Inl e \<Rightarrow> F e)"
proof (induction js arbitrary: J w rs)
  case (Cons i js)
  obtain r1 w1 where m: "(ms ! i) w = (r1, w1)" by force
  obtain rs2 where ms: "run_arms ms js w1 = (rs2, w')" "rs = (i, r1) # rs2" using Cons.prems(8) m by (auto split: prod.splits)
  have i: "i < n" "i \<notin> J" using Cons.prems by auto
  note d = rgD [OF base [OF i(1)] Cons.prems(5,6) m]
  have k: "A j (kv w1)" if "j \<in> J" for j
  proof -
    have "j < n" "i \<noteq> j" using that i Cons.prems(3) by auto
    from rgD(2,3) [OF others [OF i(1) this] Cons.prems(5) _ m] show ?thesis using Cons.prems(6,7) that by (cases r1) auto
  qed
  show ?case
  proof (cases r1)
    case (Inl e)
    then show ?thesis using Cons.IH [OF _ _ _ _ d(1) _ _ ms(1), of J] Cons.prems d(3) k ms(2) by auto
  next
    case (Inr x)
    then show ?thesis using Cons.IH [OF _ _ _ _ d(1) _ _ ms(1), of "insert i J"] Cons.prems d(2) k ms(2) i by auto
  qed
qed auto

lemma rg_join_arms:
  assumes "\<And>i. i < length ms \<Longrightarrow> rg clean R I (ms ! i) (\<lambda>_ g. I g \<and> A i g) (\<lambda>e g. F e \<and> I g)"
    and "\<And>i j. i < length ms \<Longrightarrow> j < length ms \<Longrightarrow> i \<noteq> j \<Longrightarrow> rg clean R (\<lambda>g. I g \<and> A j g) (ms ! i) (\<lambda>_. A j) (\<lambda>_. A j)"
  shows "rg clean R I (join_arms picks ms) (\<lambda>_ g. I g \<and> (\<forall>i < length ms. A i g)) (\<lambda>e g. F e \<and> I g)"
proof (rule rgI)
  fix w r w' assume w: "rely clean R w" "I (kv w)" "join_arms picks ms w = (r, w')"
  obtain rs where rs: "run_arms ms (arm_order picks (length ms)) w = (rs, w')" "r = first_left rs [0..<length ms]"
    using w(3) by (auto simp: join_arms_def split: prod.splits)
  have d: "rely clean R w'" "I (kv w')" "map fst rs = arm_order picks (length ms)"
      "\<forall>(i, r) \<in> set rs. case r of Inr _ \<Rightarrow> A i (kv w') | Inl e \<Rightarrow> F e"
    using run_arms_rg [OF assms, where js = "arm_order picks (length ms)" and J = "{}" and w = w and rs = rs and w' = w'] w rs by auto
  show "rely clean R w' \<and> (case r of Inr x \<Rightarrow> I (kv w') \<and> (\<forall>i < length ms. A i (kv w')) | Inl e \<Rightarrow> F e \<and> I (kv w'))"
  proof (cases r)
    case (Inl e)
    then obtain i where "(i, Inl e) \<in> set rs" using rs(2) first_left_Inl by metis
    then show ?thesis using d Inl by auto
  next
    case (Inr x)
    have "A i (kv w')" if "i < length ms" for i
    proof -
      have "i \<in> fst ` set rs" using d(3) that by (metis arm_order_set(1) lessThan_iff list.set_map)
      then obtain q where q: "map_of rs i = Some q" by (metis map_of_eq_None_iff option.exhaust)
      then have "q \<noteq> Inl e" for e using first_left_Inr [of rs "[0..<length ms]" i] rs(2) Inr that by simp
      then show ?thesis using d(4) map_of_SomeD [OF q] by (cases q) auto
    qed
    then show ?thesis using d Inr by simp
  qed
qed

section \<open>Stability\<close>

lemma stays_view: "stays (\<lambda>g g'. view g' = view g) (\<lambda>g. P (view g))"
  by (simp add: stays_def)

lemma stays_conj: "stays R P \<Longrightarrow> stays R Q \<Longrightarrow> stays R (\<lambda>g. P g \<and> Q g)"
  by (auto simp: stays_def)

lemma stays_all: "(\<And>x. stays R (P x)) \<Longrightarrow> stays R (\<lambda>g. \<forall>x. P x g)"
  by (auto simp: stays_def)

lemma stays_const: "stays R (\<lambda>_. C)"
  by (simp add: stays_def)

section \<open>Effects on a view\<close>

text \<open>
  Among tasks that leave a view of the store alone, \<open>acts clean V m h\<close>: the run \<open>m\<close> changes the view by \<open>h\<close>, or fails
  and leaves it as it was or changed by \<open>h\<close>. A run that is \<open>quiet\<close> does not change it.
\<close>

definition same :: "('s \<Rightarrow> 'v) \<Rightarrow> 's \<Rightarrow> 's \<Rightarrow> bool" where
  "same V g g' \<longleftrightarrow> V g' = V g"

definition acts :: "bool \<Rightarrow> ('s \<Rightarrow> 'v) \<Rightarrow> ('s, 'e, 'x) run \<Rightarrow> ('v \<Rightarrow> 'v) \<Rightarrow> bool" where
  "acts clean V m h \<longleftrightarrow>
     (\<forall>s. rg clean (same V) (\<lambda>g. V g = s) m (\<lambda>_ g. V g = h s) (\<lambda>_ g. \<not> clean \<and> (V g = s \<or> V g = h s)))"

abbreviation quiet :: "bool \<Rightarrow> ('s \<Rightarrow> 'v) \<Rightarrow> ('s, 'e, 'x) run \<Rightarrow> bool" where
  "quiet clean V m \<equiv> acts clean V m (\<lambda>s. s)"

lemma stays_same: "stays (same V) (\<lambda>g. P (V g))"
  by (simp add: stays_def same_def)

lemma actsD: "acts clean V m h \<Longrightarrow> rg clean (same V) (\<lambda>g. V g = s) m (\<lambda>_ g. V g = h s) (\<lambda>_ g. \<not> clean \<and> (V g = s \<or> V g = h s))"
  by (simp add: acts_def)

lemma quietD: "quiet clean V m \<Longrightarrow> rg clean (same V) (\<lambda>g. V g = s) m (\<lambda>_ g. V g = s) (\<lambda>_ g. \<not> clean \<and> V g = s)"
  by (simp add: acts_def)

lemma acts_redis: "(\<And>g. V (snd (f g)) = h (V g)) \<Longrightarrow> acts clean V (redis_call f) h"
  unfolding acts_def by (intro allI rg_redis stays_same) auto

lemma acts_graph: "(\<And>g. V (snd (f g)) = h (V g)) \<Longrightarrow> acts clean V (graph_call f) h"
  unfolding acts_def by (intro allI rg_graph stays_same) auto

lemma acts_map_err: "acts clean V m h \<Longrightarrow> acts clean V (map_err conv m) h"
  unfolding acts_def by (blast intro: rg_map_err_const)

lemma quiet_pass: "quiet clean V (pass x)"
  unfolding acts_def by (intro allI rg_pass)

lemma quiet_andthen: "quiet clean V m \<Longrightarrow> (\<And>x. quiet clean V (rest x)) \<Longrightarrow> quiet clean V (andthen m rest)"
  unfolding acts_def by (auto intro: rg_andthen)

lemma quiet_if: "(b \<Longrightarrow> quiet clean V m) \<Longrightarrow> (\<not> b \<Longrightarrow> quiet clean V m') \<Longrightarrow> quiet clean V (if b then m else m')"
  by simp

lemma acts_join:
  fixes ms :: "('s, 'e, unit) run list" and V :: "'s \<Rightarrow> 'v"
  assumes "k < length ms" "acts clean V (ms ! k) h" "\<And>i. i < length ms \<Longrightarrow> i \<noteq> k \<Longrightarrow> quiet clean V (ms ! i)" "\<And>s. h (h s) = h s"
  shows "acts clean V (join_arms picks ms) h"
  unfolding acts_def
proof
  fix s
  let ?I = "\<lambda>g. V g = s \<or> V g = h s" and ?A = "\<lambda>i g. i = k \<longrightarrow> V g = h s"
  have k: "rg clean (same V) ?I (ms ! k) (\<lambda>_ g. V g = h s) (\<lambda>_ g. \<not> clean \<and> ?I g)"
  proof (rule rgI)
    fix w r w' assume w: "rely clean (same V) w" "?I (kv w)" "(ms ! k) w = (r, w')"
    show "rely clean (same V) w' \<and> (case r of Inr x \<Rightarrow> V (kv w') = h s | Inl e \<Rightarrow> \<not> clean \<and> ?I (kv w'))"
      using rgD [OF actsD [OF assms(2)] w(1) refl w(3)] w(2) assms(4) by (cases r) auto
  qed
  have q: "rg clean (same V) (\<lambda>g. P (V g)) (ms ! i) (\<lambda>_ g. P (V g)) (\<lambda>_ g. \<not> clean \<and> P (V g))" if "i < length ms" "i \<noteq> k" for i and P :: "'v \<Rightarrow> bool"
  proof (rule rgI)
    fix w r w' assume w: "rely clean (same V) w" "P (V (kv w))" "(ms ! i) w = (r, w')"
    show "rely clean (same V) w' \<and> (case r of Inr x \<Rightarrow> P (V (kv w')) | Inl e \<Rightarrow> \<not> clean \<and> P (V (kv w')))"
      using rgD [OF quietD [OF assms(3) [OF that]] w(1) refl w(3)] w(2) by (cases r) auto
  qed
  have "rg clean (same V) ?I (join_arms picks ms) (\<lambda>_ g. ?I g \<and> (\<forall>i < length ms. ?A i g)) (\<lambda>_ g. \<not> clean \<and> ?I g)"
  proof (rule rg_join_arms)
    fix i assume "i < length ms"
    then show "rg clean (same V) ?I (ms ! i) (\<lambda>_ g. ?I g \<and> ?A i g) (\<lambda>_ g. \<not> clean \<and> ?I g)"
      using rg_weaken [OF k] rg_weaken [OF q [of i "\<lambda>v. v = s \<or> v = h s"]] by (cases "i = k") auto
  next
    fix i j assume "i < length ms" "j < length ms" "i \<noteq> j"
    note ij = this
    show "rg clean (same V) (\<lambda>g. ?I g \<and> ?A j g) (ms ! i) (\<lambda>_. ?A j) (\<lambda>_. ?A j)"
    proof (cases "i = k")
      case True
      show ?thesis unfolding True by (rule rg_weaken [OF k]) (use ij True in auto)
    next
      case False
      show ?thesis by (rule rg_weaken [OF q [OF ij(1) False, of "\<lambda>v. j = k \<longrightarrow> v = h s"]]) auto
    qed
  qed
  then show "rg clean (same V) (\<lambda>g. V g = s) (join_arms picks ms) (\<lambda>_ g. V g = h s) (\<lambda>_ g. \<not> clean \<and> ?I g)"
    by (rule rg_weaken) (use assms(1) in auto)
qed

section \<open>Invariants\<close>

text \<open>Runs that keep a condition all tasks keep, wherever they fail.\<close>

definition keeps :: "('s \<Rightarrow> bool) \<Rightarrow> ('s, 'e, 'x) run \<Rightarrow> bool" where
  "keeps I m \<longleftrightarrow> rg False (\<lambda>g g'. I g \<longrightarrow> I g') I m (\<lambda>_. I) (\<lambda>_. I)"

lemma stays_kept: "stays (\<lambda>g g'. I g \<longrightarrow> I g') I"
  by (simp add: stays_def)

lemma keeps_redis: "(\<And>g. I g \<Longrightarrow> I (snd (f g))) \<Longrightarrow> keeps I (redis_call f)"
  unfolding keeps_def by (rule rg_redis [OF stays_kept]) auto

lemma keeps_graph: "(\<And>g. I g \<Longrightarrow> I (snd (f g))) \<Longrightarrow> keeps I (graph_call f)"
  unfolding keeps_def by (rule rg_graph [OF stays_kept]) auto

lemma keeps_andthen: "keeps I m \<Longrightarrow> (\<And>x. keeps I (rest x)) \<Longrightarrow> keeps I (andthen m rest)"
  unfolding keeps_def by (rule rg_andthen)

lemma keeps_pass: "keeps I (pass x)"
  unfolding keeps_def by (rule rg_pass)

lemma keeps_now: "keeps I now"
  unfolding keeps_def by (rule rg_now [OF stays_kept])

lemma keeps_map_err: "keeps I m \<Longrightarrow> keeps I (map_err conv m)"
  unfolding keeps_def by (rule rg_map_err_const)

lemma keeps_join:
  assumes "\<And>m. m \<in> set ms \<Longrightarrow> keeps I m"
  shows "keeps I (join_arms picks ms)"
proof -
  have k: "rg False (\<lambda>g g'. I g \<longrightarrow> I g') I (ms ! i) (\<lambda>_. I) (\<lambda>_. I)" if "i < length ms" for i
    using assms [OF nth_mem [OF that]] by (simp add: keeps_def)
  show ?thesis unfolding keeps_def
    by (rule rg_weaken [OF rg_join_arms [where A = "\<lambda>_ _. True" and F = "\<lambda>_. True"]]) (auto intro: rg_weaken [OF k])
qed

lemma keeps_run: "keeps I m \<Longrightarrow> rely False (\<lambda>g g'. I g \<longrightarrow> I g') w \<Longrightarrow> I (kv w) \<Longrightarrow>
    rely False (\<lambda>g g'. I g \<longrightarrow> I g') (snd (m w)) \<and> I (kv (snd (m w)))"
  unfolding keeps_def by (cases "m w"; cases "fst (m w)") (auto dest: rgD)

lemmas keeps_rules = keeps_andthen keeps_pass keeps_now keeps_map_err keeps_redis keeps_graph

lemma calm_rely [simp]: "(\<And>g. R g g) \<Longrightarrow> rely clean R (calm_world s)"
  by (simp add: rely_def calm_world_def)

section \<open>Conditions a run keeps among given tasks\<close>

definition kept :: "('s \<Rightarrow> 's \<Rightarrow> bool) \<Rightarrow> ('s \<Rightarrow> bool) \<Rightarrow> ('s, 'e, 'x) run \<Rightarrow> bool" where
  "kept R X m \<longleftrightarrow> rg False R X m (\<lambda>_. X) (\<lambda>_. X)"

lemma keptD: "kept R X m \<Longrightarrow> rg False R X m (\<lambda>_. X) (\<lambda>_. X)"
  by (simp add: kept_def)

lemma kept_pass: "kept R X (pass x)"
  unfolding kept_def by (rule rg_pass)

lemma kept_andthen: "kept R X m \<Longrightarrow> (\<And>x. kept R X (rest x)) \<Longrightarrow> kept R X (andthen m rest)"
  unfolding kept_def by (rule rg_andthen)

lemma kept_map_err: "kept R X m \<Longrightarrow> kept R X (map_err conv m)"
  unfolding kept_def by (rule rg_map_err_const)

lemma kept_redis: "stays R X \<Longrightarrow> (\<And>g. X g \<Longrightarrow> X (snd (f g))) \<Longrightarrow> kept R X (redis_call f)"
  unfolding kept_def by (rule rg_redis) auto

lemma kept_graph: "stays R X \<Longrightarrow> (\<And>g. X g \<Longrightarrow> X (snd (f g))) \<Longrightarrow> kept R X (graph_call f)"
  unfolding kept_def by (rule rg_graph) auto

lemma kept_now: "stays R X \<Longrightarrow> kept R X now"
  unfolding kept_def by (rule rg_now)

lemma kept_join:
  assumes "\<And>m. m \<in> set ms \<Longrightarrow> kept R X m"
  shows "kept R X (join_arms picks ms)"
proof -
  have k: "rg False R X (ms ! n) (\<lambda>_. X) (\<lambda>_. X)" if "n < length ms" for n
    using assms [OF nth_mem [OF that]] by (simp add: kept_def)
  show ?thesis unfolding kept_def
    by (rule rg_weaken [OF rg_join_arms [where A = "\<lambda>_ _. True" and F = "\<lambda>_. True"]]) (auto intro: rg_weaken [OF k])
qed

lemma kept_outcome:
  assumes "kept R X m" "\<And>w. m' w = (f (fst (m w)), snd (m w))"
  shows "kept R X m'"
  unfolding kept_def
proof (rule rgI)
  fix w r w' assume w: "rely False R w" "X (kv w)" "m' w = (r, w')"
  obtain r1 where m: "m w = (r1, w')" using w(3) assms(2) by (metis prod.collapse prod.inject)
  have "X (kv w')" using rgD [OF keptD [OF assms(1)] w(1,2) m] by (cases r1) auto
  then show "rely False R w' \<and> (case r of Inr x \<Rightarrow> X (kv w') | Inl e \<Rightarrow> X (kv w'))"
    using rgD(1) [OF keptD [OF assms(1)] w(1,2) m] by (cases r) auto
qed

end
