(* ===== verification/Follow_Handler.thy ===== *)
theory Follow_Handler
  imports Notification
begin

text \<open>
  The handler of follows (nexus-watcher/src/events/handlers/follow.rs) over the stores it writes:
  the \<open>FOLLOWS\<close> edges of the graph (queries put.rs and del.rs), the two Redis sets
  \<open>Followers\<close> and \<open>Following\<close> (nexus-common/src/models/follow) and the notifications
  (models/notification). A put writes the graph first and the sets after, a delete the sets first
  and the graph last, so that an attempt that stops half way can be repeated.
\<close>

section \<open>Stores\<close>

record follow_kv = notif_kv +
  fk_users :: "string set"
  fk_follows :: "(string \<times> string) set"
  fk_followers :: "string \<Rightarrow> string set"
  fk_following :: "string \<Rightarrow> string set"

datatype operation_outcome = Updated | CreatedOrDeleted | OpMissingDependency

definition execute_graph_operation :: "bool option \<Rightarrow> operation_outcome" where
  "execute_graph_operation flag =
     (case flag of Some True \<Rightarrow> Updated | Some False \<Rightarrow> CreatedOrDeleted | None \<Rightarrow> OpMissingDependency)"

text \<open>The two queries; no row is returned unless both users are in the graph.\<close>

definition create_follow :: "string \<Rightarrow> string \<Rightarrow> follow_kv \<Rightarrow> bool option \<times> follow_kv" where
  "create_follow follower followee g =
     (if follower \<in> fk_users g \<and> followee \<in> fk_users g
      then (Some ((follower, followee) \<in> fk_follows g), g\<lparr>fk_follows := insert (follower, followee) (fk_follows g)\<rparr>)
      else (None, g))"

definition delete_follow :: "string \<Rightarrow> string \<Rightarrow> follow_kv \<Rightarrow> bool option \<times> follow_kv" where
  "delete_follow follower followee g =
     (if follower \<in> fk_users g \<and> followee \<in> fk_users g
      then (Some ((follower, followee) \<notin> fk_follows g), g\<lparr>fk_follows := fk_follows g - {(follower, followee)}\<rparr>)
      else (None, g))"

definition sadd_follower :: "string \<Rightarrow> string \<Rightarrow> follow_kv \<Rightarrow> unit \<times> follow_kv" where
  "sadd_follower followee follower g =
     ((), g\<lparr>fk_followers := (fk_followers g)(followee := insert follower (fk_followers g followee))\<rparr>)"

definition sadd_following :: "string \<Rightarrow> string \<Rightarrow> follow_kv \<Rightarrow> unit \<times> follow_kv" where
  "sadd_following follower followee g =
     ((), g\<lparr>fk_following := (fk_following g)(follower := insert followee (fk_following g follower))\<rparr>)"

definition srem_follower :: "string \<Rightarrow> string \<Rightarrow> follow_kv \<Rightarrow> unit \<times> follow_kv" where
  "srem_follower followee follower g =
     ((), g\<lparr>fk_followers := (fk_followers g)(followee := fk_followers g followee - {follower})\<rparr>)"

definition srem_following :: "string \<Rightarrow> string \<Rightarrow> follow_kv \<Rightarrow> unit \<times> follow_kv" where
  "srem_following follower followee g =
     ((), g\<lparr>fk_following := (fk_following g)(follower := fk_following g follower - {followee})\<rparr>)"

definition check_followers :: "string \<Rightarrow> string \<Rightarrow> follow_kv \<Rightarrow> bool \<times> follow_kv" where
  "check_followers a b g = (b \<in> fk_followers g a, g)"

definition check_following :: "string \<Rightarrow> string \<Rightarrow> follow_kv \<Rightarrow> bool \<times> follow_kv" where
  "check_following a b g = (b \<in> fk_following g a, g)"

section \<open>The handler\<close>

text \<open>What the handler is given: the printers of errors, the JSON writer, the ingestor and the printer of addresses.\<close>

record follow_env =
  fe_show_graph :: "graph_error \<Rightarrow> string"
  fe_show_redis :: "redis_error \<Rightarrow> string"
  fe_json :: "notification_body \<Rightarrow> string"
  fe_ingest :: "string \<Rightarrow> follow_kv world \<Rightarrow> (model_error, unit) result \<times> follow_kv world"
  fe_user_uri :: "string \<Rightarrow> (string, string) result"

definition index_error :: "follow_env \<Rightarrow> redis_error \<Rightarrow> ep_error" where
  "index_error E e = ep_from_redis (fe_show_redis E) e"

definition fail_on_blacklisted_hs ::
  "(graph_error \<Rightarrow> string) \<Rightarrow> (redis_error \<Rightarrow> string) \<Rightarrow> (model_error, unit) result \<Rightarrow> (ep_error, unit) result" where
  "fail_on_blacklisted_hs show_g show_r r =
     (case r of
        Inl (MHsBlacklisted hid) \<Rightarrow> Inl (ep_from_model show_g show_r (MHsBlacklisted hid))
      | _ \<Rightarrow> Inr ())"

text \<open>\<open>tokio::join!\<close> awaits every call; the errors are then looked at in order.\<close>

fun first_error :: "('e, unit) result list \<Rightarrow> ('e, unit) result" where
  "first_error [] = Inr ()"
| "first_error (Inl e # rs) = Inl e"
| "first_error (Inr _ # rs) = first_error rs"

definition both_follow ::
  "string \<Rightarrow> string \<Rightarrow> follow_kv world \<Rightarrow> (redis_error, bool \<times> bool) result \<times> follow_kv world" where
  "both_follow a b w =
     (case redis_call (check_following a b) w of
        (Inl e, w1) \<Rightarrow> (Inl e, w1)
      | (Inr ab, w1) \<Rightarrow>
          (case redis_call (check_following b a) w1 of
             (Inl e, w2) \<Rightarrow> (Inl e, w2)
           | (Inr ba, w2) \<Rightarrow> (Inr (ab, ba), w2)))"

definition friends_check ::
  "string \<Rightarrow> string \<Rightarrow> follow_kv world \<Rightarrow> (redis_error, bool) result \<times> follow_kv world" where
  "friends_check a b w =
     (case both_follow a b w of (Inl e, w1) \<Rightarrow> (Inl e, w1) | (Inr (ab, ba), w1) \<Rightarrow> (Inr (ab \<and> ba), w1))"

definition is_followee_following_follower ::
  "string \<Rightarrow> string \<Rightarrow> follow_kv world \<Rightarrow> (redis_error, bool) result \<times> follow_kv world" where
  "is_followee_following_follower a b w =
     (case both_follow a b w of (Inl e, w1) \<Rightarrow> (Inl e, w1) | (Inr (ab, ba), w1) \<Rightarrow> (Inr (\<not> ab \<and> ba), w1))"

definition index_follow ::
  "string \<Rightarrow> string \<Rightarrow> follow_kv world \<Rightarrow> (redis_error, unit) result list \<times> follow_kv world" where
  "index_follow follower followee w =
     (case redis_call (sadd_follower followee follower) w of (r0, w1) \<Rightarrow>
      case redis_call (sadd_following follower followee) w1 of (r1, w2) \<Rightarrow> ([r0, r1], w2))"

definition unindex_follow ::
  "string \<Rightarrow> string \<Rightarrow> follow_kv world \<Rightarrow> (redis_error, unit) result list \<times> follow_kv world" where
  "unindex_follow follower followee w =
     (case redis_call (srem_follower followee follower) w of (r0, w1) \<Rightarrow>
      case redis_call (srem_following follower followee) w1 of (r1, w2) \<Rightarrow> ([r0, r1], w2))"

definition lift_index :: "follow_env \<Rightarrow> (redis_error, unit) result \<Rightarrow> (ep_error, unit) result" where
  "lift_index E r = (case r of Inl e \<Rightarrow> Inl (index_error E e) | Inr _ \<Rightarrow> Inr ())"

definition follow_sync_put ::
  "follow_env \<Rightarrow> string \<Rightarrow> string \<Rightarrow> follow_kv world \<Rightarrow> (ep_error, unit) result \<times> follow_kv world" where
  "follow_sync_put E follower followee w =
     (if follower = followee then (Inr (), w)
      else case graph_call (create_follow follower followee) w of
        (Inl e, w1) \<Rightarrow> (Inl (ep_from_graph (fe_show_graph E) e), w1)
      | (Inr flag, w1) \<Rightarrow>
          (case execute_graph_operation flag of
             Updated \<Rightarrow>
               (case index_follow follower followee w1 of (rs, w2) \<Rightarrow> (lift_index E (first_error rs), w2))
           | OpMissingDependency \<Rightarrow>
               (case fe_ingest E followee w1 of (r, w2) \<Rightarrow>
                  (case fail_on_blacklisted_hs (fe_show_graph E) (fe_show_redis E) r of
                     Inl e \<Rightarrow> (Inl e, w2)
                   | Inr _ \<Rightarrow>
                       (case fe_user_uri E followee of
                          Inl e \<Rightarrow> (Inl (Generic e), w2)
                        | Inr uri \<Rightarrow> (Inl (MissingDependency [uri]), w2))))
           | CreatedOrDeleted \<Rightarrow>
               (case is_followee_following_follower follower followee w1 of
                  (Inl e, w2) \<Rightarrow> (Inl (index_error E e), w2)
                | (Inr will_be_friends, w2) \<Rightarrow>
                    (case index_follow follower followee w2 of (rs, w3) \<Rightarrow>
                     case new_follow (fe_json E) follower followee will_be_friends w3 of (r2, w4) \<Rightarrow>
                       (lift_index E (first_error (rs @ [r2])), w4)))))"

definition follow_sync_del ::
  "follow_env \<Rightarrow> string \<Rightarrow> string \<Rightarrow> follow_kv world \<Rightarrow> (ep_error, unit) result \<times> follow_kv world" where
  "follow_sync_del E follower followee w =
     (case friends_check follower followee w of
        (Inl e, w1) \<Rightarrow> (Inl (index_error E e), w1)
      | (Inr were_friends, w1) \<Rightarrow>
          (case redis_call (check_followers followee follower) w1 of
             (Inl e, w2) \<Rightarrow> (Inl (index_error E e), w2)
           | (Inr still_indexed, w2) \<Rightarrow>
               (case unindex_follow follower followee w2 of (rs, w3) \<Rightarrow>
                case first_error rs of
                  Inl e \<Rightarrow> (Inl (index_error E e), w3)
                | Inr _ \<Rightarrow>
                    (case (if still_indexed then lost_follow (fe_json E) follower followee were_friends w3 else (Inr (), w3)) of
                       (Inl e, w4) \<Rightarrow> (Inl (index_error E e), w4)
                     | (Inr _, w4) \<Rightarrow>
                         (case graph_call (delete_follow follower followee) w4 of
                            (Inl e, w5) \<Rightarrow> (Inl (ep_from_graph (fe_show_graph E) e), w5)
                          | (Inr _, w5) \<Rightarrow> (Inr (), w5))))))"

section \<open>The facts of one follow\<close>

text \<open>
  Of one pair: whether the edge joins the two users in the graph, and whether the members are in
  \<open>Followers\<close> and in \<open>Following\<close>. \<open>untouched\<close>: the other tasks leave the pair alone.
\<close>

definition facts :: "string \<Rightarrow> string \<Rightarrow> follow_kv \<Rightarrow> bool \<times> bool \<times> bool" where
  "facts a b g =
     (a \<in> fk_users g \<and> b \<in> fk_users g \<and> (a, b) \<in> fk_follows g, a \<in> fk_followers g b, b \<in> fk_following g a)"

abbreviation untouched :: "string \<Rightarrow> string \<Rightarrow> follow_kv world \<Rightarrow> bool" where
  "untouched a b w \<equiv> steady (facts a b) w"

lemma step_facts [simp]:
  "facts a b (snd (sadd_follower b a g)) = (case facts a b g of (e, i, j) \<Rightarrow> (e, True, j))"
  "facts a b (snd (sadd_following a b g)) = (case facts a b g of (e, i, j) \<Rightarrow> (e, i, True))"
  "facts a b (snd (srem_follower b a g)) = (case facts a b g of (e, i, j) \<Rightarrow> (e, False, j))"
  "facts a b (snd (srem_following a b g)) = (case facts a b g of (e, i, j) \<Rightarrow> (e, i, False))"
  "facts a b (snd (check_followers c d g)) = facts a b g"
  "facts a b (snd (check_following c d g)) = facts a b g"
  "facts a b (snd (zadd_notification c n t g)) = facts a b g"
  by (simp_all add: facts_def sadd_follower_def sadd_following_def srem_follower_def srem_following_def
      check_followers_def check_following_def zadd_notification_def)

text \<open>Every member is backed by the edge.\<close>

definition backed :: "bool \<times> bool \<times> bool \<Rightarrow> bool" where
  "backed F \<longleftrightarrow> (case F of (e, i, j) \<Rightarrow> i \<or> j \<longrightarrow> e)"

lemma create_facts:
  "case fst (create_follow a b g) of
     None \<Rightarrow> facts a b (snd (create_follow a b g)) = facts a b g
   | Some existed \<Rightarrow> fst (facts a b g) = existed \<and> facts a b (snd (create_follow a b g)) = (True, snd (facts a b g))"
  by (auto simp: create_follow_def facts_def)

lemma delete_facts: "facts a b (snd (delete_follow a b g)) = (False, snd (facts a b g))"
  by (auto simp: delete_follow_def facts_def)

lemma both_follow_facts:
  assumes "both_follow c d w = (r, w')" "untouched a b w"
  shows "untouched a b w' \<and> facts a b (kv w') = facts a b (kv w)"
proof -
  obtain r1 w1 where c1: "redis_call (check_following c d) w = (r1, w1)" by force
  obtain r2 w2 where c2: "redis_call (check_following d c) w1 = (r2, w2)" by force
  have f1: "untouched a b w1 \<and> facts a b (kv w1) = facts a b (kv w)"
    using redis_view [OF c1 assms(2), of "\<lambda>F. F"] by auto
  then have "untouched a b w2 \<and> facts a b (kv w2) = facts a b (kv w)"
    using redis_view [OF c2, of "facts a b" "\<lambda>F. F"] by auto
  moreover have "w' = w1 \<or> w' = w2"
    using assms(1) c1 c2 by (cases r1; cases r2) (auto simp: both_follow_def)
  ultimately show ?thesis using f1 by auto
qed

lemma friends_facts:
  "friends_check c d w = (r, w') \<Longrightarrow> untouched a b w \<Longrightarrow> untouched a b w' \<and> facts a b (kv w') = facts a b (kv w)"
  "is_followee_following_follower c d w = (r, w') \<Longrightarrow> untouched a b w \<Longrightarrow>
    untouched a b w' \<and> facts a b (kv w') = facts a b (kv w)"
  using both_follow_facts
  by (fastforce simp: friends_check_def is_followee_following_follower_def split: prod.splits sum.splits)+

lemma index_follow_facts:
  assumes "index_follow a b w = (rs, w')" "untouched a b w" "facts a b (kv w) = (e, i, j)"
  shows "untouched a b w' \<and> (\<exists>i' j'. facts a b (kv w') = (e, i', j') \<and> (first_error rs = Inr () \<longrightarrow> i' \<and> j'))"
proof -
  obtain r0 w1 where c0: "redis_call (sadd_follower b a) w = (r0, w1)" by force
  obtain r1 w2 where c1: "redis_call (sadd_following a b) w1 = (r1, w2)" by force
  have eq: "rs = [r0, r1]" "w' = w2" using assms(1) c0 c1 by (auto simp: index_follow_def)
  have "untouched a b w1 \<and> (facts a b (kv w1) = (e, True, j) \<or> (\<exists>x. r0 = Inl x) \<and> facts a b (kv w1) = (e, i, j))"
    using redis_view [OF c0 assms(2), of "\<lambda>(e, i, j). (e, True, j)"] assms(3) by simp
  then show ?thesis
    using redis_view [OF c1, of "facts a b" "\<lambda>(e, i, j). (e, i, True)"] eq by (cases r0; cases r1) auto
qed

lemma unindex_follow_facts:
  assumes "unindex_follow a b w = (rs, w')" "untouched a b w" "facts a b (kv w) = (e, i, j)"
  shows "untouched a b w' \<and> (\<exists>i' j'. facts a b (kv w') = (e, i', j') \<and> (i' \<longrightarrow> i) \<and> (j' \<longrightarrow> j) \<and>
    (first_error rs = Inr () \<longrightarrow> \<not> i' \<and> \<not> j'))"
proof -
  obtain r0 w1 where c0: "redis_call (srem_follower b a) w = (r0, w1)" by force
  obtain r1 w2 where c1: "redis_call (srem_following a b) w1 = (r1, w2)" by force
  have eq: "rs = [r0, r1]" "w' = w2" using assms(1) c0 c1 by (auto simp: unindex_follow_def)
  have "untouched a b w1 \<and> (facts a b (kv w1) = (e, False, j) \<or> (\<exists>x. r0 = Inl x) \<and> facts a b (kv w1) = (e, i, j))"
    using redis_view [OF c0 assms(2), of "\<lambda>(e, i, j). (e, False, j)"] assms(3) by simp
  then obtain i' where f1: "untouched a b w1" "facts a b (kv w1) = (e, i', j)" "i' \<longrightarrow> i \<and> (\<exists>x. r0 = Inl x)"
    by (cases "facts a b (kv w1) = (e, False, j)") auto
  have "untouched a b w2 \<and> (facts a b (kv w2) = (e, i', False) \<or> (\<exists>x. r1 = Inl x) \<and> facts a b (kv w2) = (e, i', j))"
    using redis_view [OF c1 f1(1), of "\<lambda>(e, i, j). (e, i, False)"] f1(2) by simp
  then show ?thesis using eq f1(3) by (cases r0; cases r1) auto
qed

lemma notify_facts:
  "new_follow j c d f w = (r, w') \<Longrightarrow> untouched a b w \<Longrightarrow> untouched a b w' \<and> facts a b (kv w') = facts a b (kv w)"
  "lost_follow j c d f w = (r, w') \<Longrightarrow> untouched a b w \<Longrightarrow> untouched a b w' \<and> facts a b (kv w') = facts a b (kv w)"
  using redis_view [where view = "facts a b" and \<phi> = "\<lambda>F. F"] by (fastforce simp: new_follow_def lost_follow_def notification_put_def split: if_splits)+

lemma first_error_append: "first_error (rs @ qs) = Inr () \<Longrightarrow> first_error rs = Inr ()"
  by (induction rs rule: first_error.induct) auto

text \<open>The ingestion of a user leaves the pair alone.\<close>

definition ingest_apart :: "follow_env \<Rightarrow> string \<Rightarrow> string \<Rightarrow> bool" where
  "ingest_apart E a b \<longleftrightarrow>
     (\<forall>u w r w'. fe_ingest E u w = (r, w') \<longrightarrow> untouched a b w \<longrightarrow>
        untouched a b w' \<and> facts a b (kv w') = facts a b (kv w))"

lemma follow_put_facts:
  assumes "follow_sync_put E a b w = (r, w')" "a \<noteq> b" "untouched a b w" "ingest_apart E a b"
    and "facts a b (kv w) = (e, i, j)"
  shows "(\<exists>i' j'. facts a b (kv w') = (True, i', j') \<and> (r = Inr () \<longrightarrow> i' \<and> j')) \<or>
    facts a b (kv w') = (e, i, j) \<and> r \<noteq> Inr ()"
proof -
  obtain r1 w1 where c: "graph_call (create_follow a b) w = (r1, w1)" by force
  have f1: "untouched a b w1" "(\<exists>x. r1 = Inr (Some x)) \<and> facts a b (kv w1) = (True, i, j) \<or>
      r1 = Inr None \<and> facts a b (kv w1) = (e, i, j) \<or>
      (\<exists>x. r1 = Inl x) \<and> (facts a b (kv w1) = (e, i, j) \<or> facts a b (kv w1) = (True, i, j))"
    using graph_view [OF c assms(3), of "\<lambda>x F F'. case x of None \<Rightarrow> F' = F | Some ex \<Rightarrow> fst F = ex \<and> F' = (True, snd F)"]
      create_facts assms(5) by (auto split: option.splits)
  show ?thesis
  proof (cases r1)
    case (Inl x)
    then have "w' = w1" "r \<noteq> Inr ()" using assms(1,2) c by (auto simp: follow_sync_put_def)
    then show ?thesis using f1 Inl by auto
  next
    case (Inr flag)
    show ?thesis
    proof (cases flag)
      case None
      obtain q w2 where g: "fe_ingest E b w1 = (q, w2)" by force
      have "w' = w2 \<and> r \<noteq> Inr ()"
        using assms(1,2) c Inr None g
        by (auto simp: follow_sync_put_def execute_graph_operation_def split: sum.splits)
      then show ?thesis using assms(4) g f1 Inr None unfolding ingest_apart_def by auto
    next
      case (Some ex)
      have f1': "facts a b (kv w1) = (True, i, j)" using f1(2) Inr Some by auto
      show ?thesis
      proof (cases ex)
        case True
        obtain rs w2 where ix: "index_follow a b w1 = (rs, w2)" by force
        have "w' = w2" "r = lift_index E (first_error rs)"
          using assms(1,2) c Inr Some True ix by (simp_all add: follow_sync_put_def execute_graph_operation_def)
        then show ?thesis
          using index_follow_facts [OF ix f1(1) f1'] by (auto simp: lift_index_def split: sum.splits)
      next
        case False
        obtain q w2 where bf: "is_followee_following_follower a b w1 = (q, w2)" by force
        note f2 = friends_facts(2) [OF bf f1(1)]
        have f2': "facts a b (kv w2) = (True, i, j)" using f2 f1' by simp
        show ?thesis
        proof (cases q)
          case (Inl x)
          then have "w' = w2" "r \<noteq> Inr ()"
            using assms(1,2) c Inr Some False bf by (auto simp: follow_sync_put_def execute_graph_operation_def)
          then show ?thesis using f2' by simp
        next
          case ab: (Inr ab)
          obtain rs w3 where ix: "index_follow a b w2 = (rs, w3)" by force
          obtain r2 w4 where nf: "new_follow (fe_json E) a b ab w3 = (r2, w4)" by force
          note f3 = index_follow_facts [OF ix conjunct1 [OF f2] f2']
          have "facts a b (kv w4) = facts a b (kv w3)" using notify_facts(1) [OF nf] f3 by blast
          moreover have "w' = w4 \<and> r = lift_index E (first_error (rs @ [r2]))"
            using assms(1,2) c Inr Some False bf ab ix nf
            by (simp add: follow_sync_put_def execute_graph_operation_def)
          moreover have "first_error rs = Inr ()" if "lift_index E (first_error (rs @ [r2])) = Inr ()"
            using that first_error_append [of rs "[r2]"] by (auto simp: lift_index_def split: sum.splits)
          ultimately show ?thesis using f3 by auto
        qed
      qed
    qed
  qed
qed

lemma follow_del_facts:
  assumes "follow_sync_del E a b w = (r, w')" "untouched a b w" "facts a b (kv w) = (e, i, j)"
  shows "(\<exists>i' j'. facts a b (kv w') = (e, i', j') \<and> (i' \<longrightarrow> i) \<and> (j' \<longrightarrow> j) \<and> r \<noteq> Inr ()) \<or>
    facts a b (kv w') = (False, False, False)"
proof -
  obtain q w1 where bf: "friends_check a b w = (q, w1)" by force
  note f1 = friends_facts(1) [OF bf assms(2)]
  obtain q2 w2 where ck: "redis_call (check_followers b a) w1 = (q2, w2)" by force
  have f2: "untouched a b w2 \<and> facts a b (kv w2) = (e, i, j)"
    using redis_view [OF ck, of "facts a b" "\<lambda>F. F"] f1 assms(3) by auto
  obtain rs w3 where un: "unindex_follow a b w2 = (rs, w3)" by force
  note f3 = unindex_follow_facts [OF un conjunct1 [OF f2] conjunct2 [OF f2]]
  show ?thesis
  proof (cases "\<exists>ab still. q = Inr ab \<and> q2 = Inr still \<and> first_error rs = Inr ()")
    case False
    then have "(w' = w1 \<or> w' = w2 \<or> w' = w3) \<and> r \<noteq> Inr ()"
      using assms(1) bf ck un by (cases q; cases q2; cases "first_error rs") (auto simp: follow_sync_del_def)
    then show ?thesis using f1 f2 f3 assms(3) by auto
  next
    case True
    then obtain ab still where ok: "q = Inr ab" "q2 = Inr still" "first_error rs = Inr ()" by blast
    obtain q4 w4 where nt: "(if still then lost_follow (fe_json E) a b ab w3 else (Inr (), w3)) = (q4, w4)" by force
    have f4: "untouched a b w4 \<and> facts a b (kv w4) = (e, False, False)"
      using nt notify_facts(2) [of "fe_json E" a b ab w3 q4 w4] f3 ok(3) by (auto split: if_splits)
    obtain q5 w5 where dl: "graph_call (delete_follow a b) w4 = (q5, w5)" by force
    have f5: "facts a b (kv w5) = (False, False, False) \<or> (\<exists>x. q5 = Inl x) \<and> facts a b (kv w5) = (e, False, False)"
      using graph_view [OF dl, of "facts a b" "\<lambda>_ F F'. F' = (False, snd F)"] f4 delete_facts by auto
    have "w' = w4 \<and> r \<noteq> Inr () \<or> w' = w5 \<and> (r = Inr () \<longrightarrow> (\<exists>x. q5 = Inr x))"
      using assms(1) bf ck un ok nt dl
      by (cases q4; cases q5) (auto simp: follow_sync_del_def split: if_splits)
    then show ?thesis using f4 f5 by auto
  qed
qed

section \<open>Properties\<close>

text \<open>C12. The follow indexes never claim a follow the graph does not have: if every member of the two
  sets is backed by its edge, then this still holds after any put or delete of the follow, whatever
  failed on the way; a put that succeeds leaves the edge and both members, a delete that succeeds
  none of them. So an attempt that stopped half way is completed by the next one.\<close>

theorem follow_indexes_backed_by_graph:
  assumes "untouched a b w" and "ingest_apart E a b" and "a \<noteq> b" and "backed (facts a b (kv w))"
  shows "(case follow_sync_put E a b w of (r, w') \<Rightarrow>
        backed (facts a b (kv w')) \<and> (r = Inr () \<longrightarrow> facts a b (kv w') = (True, True, True)))
    \<and> (case follow_sync_del E a b w of (r, w') \<Rightarrow>
        backed (facts a b (kv w')) \<and> (r = Inr () \<longrightarrow> facts a b (kv w') = (False, False, False)))"
proof -
  obtain e i j where F: "facts a b (kv w) = (e, i, j)" by (cases "facts a b (kv w)")
  have "backed (facts a b (kv w')) \<and> (r = Inr () \<longrightarrow> facts a b (kv w') = (True, True, True))"
    if "follow_sync_put E a b w = (r, w')" for r w'
    using follow_put_facts [OF that assms(3,1,2) F] assms(4) F by (auto simp: backed_def)
  moreover have "backed (facts a b (kv w')) \<and> (r = Inr () \<longrightarrow> facts a b (kv w') = (False, False, False))"
    if "follow_sync_del E a b w = (r, w')" for r w'
    using follow_del_facts [OF that assms(1) F] assms(4) F by (auto simp: backed_def)
  ultimately show ?thesis by (auto split: prod.splits)
qed


definition demo_follow_env :: follow_env where
  "demo_follow_env = \<lparr>fe_show_graph = (\<lambda>_. ''graph''), fe_show_redis = (\<lambda>_. ''redis''), fe_json = (\<lambda>_. ''{}''),
     fe_ingest = (\<lambda>_ w. (Inr (), w)), fe_user_uri = (\<lambda>u. Inr (''pubky://'' @ u))\<rparr>"

definition demo_follow_kv :: follow_kv where
  "demo_follow_kv = \<lparr>nt_sets = (\<lambda>_. []), fk_users = {''a'', ''b''}, fk_follows = {}, fk_followers = (\<lambda>_. {}), fk_following = (\<lambda>_. {})\<rparr>"

theorem follow_indexes_backed_by_graph_witness:
  "facts ''a'' ''b'' (kv (snd (follow_sync_put demo_follow_env ''a'' ''b'' (calm_world demo_follow_kv)))) = (True, True, True)"
proof -
  let ?p = "follow_sync_put demo_follow_env ''a'' ''b'' (calm_world demo_follow_kv)"
  have "untouched ''a'' ''b'' (calm_world demo_follow_kv)" by simp
  moreover have "ingest_apart demo_follow_env ''a'' ''b''" by (auto simp: ingest_apart_def demo_follow_env_def)
  moreover have "backed (facts ''a'' ''b'' (kv (calm_world demo_follow_kv)))"
    by (simp add: backed_def facts_def demo_follow_kv_def)
  ultimately have "fst ?p = Inr () \<longrightarrow> facts ''a'' ''b'' (kv (snd ?p)) = (True, True, True)"
    using follow_indexes_backed_by_graph [of "''a''" "''b''" "calm_world demo_follow_kv" demo_follow_env]
    by (simp add: case_prod_unfold)
  moreover have "fst ?p = Inr ()"
    by (simp add: follow_sync_put_def graph_call_def redis_call_def Let_def calm_world_def env_step_def
        demo_follow_kv_def create_follow_def execute_graph_operation_def is_followee_following_follower_def both_follow_def index_follow_def
        check_following_def sadd_follower_def sadd_following_def new_follow_def notification_put_def
        zadd_notification_def lift_index_def)
  ultimately show ?thesis by blast
qed

end
