(* ===== verification/User_Handler.thy ===== *)
theory User_Handler
  imports Run_Logic Follow_Handler
begin

text \<open>
  Users: the handler of profiles (nexus-watcher/src/events/handlers/user.rs), the cached details with their read-through
  (models/user/details.rs, models/traits.rs), the search sets of names, ids and profile labels (models/user/search.rs), and the
  script that derives a score from a set (db/kv/index/sorted\_sets.rs).
\<close>

section \<open>Stores\<close>

datatype epoch = V0 | V1

record user_details =
  ud_name :: string
  ud_bio :: "string option"
  ud_id :: string
  ud_links :: "(string \<times> string) list option"
  ud_status :: "string option"
  ud_image :: "string option"
  ud_indexed_at :: int
  ud_deleted :: bool
  ud_epoch :: epoch

text \<open>
  A \<open>TAGGED\<close> relationship leads from a user to a user, to a post of an author, or to a resource.
\<close>

datatype tag_node = UserN string | PostN string string | ResourceN string

record tag_edge =
  te_tagger :: string
  te_target :: tag_node
  te_label :: string
  te_app :: "string option"
  te_id :: string
  te_uri :: string
  te_indexed_at :: int

text \<open>
  The nodes of users with the stored address, the \<open>TAGGED\<close> relationships, the ends of the others, the cached details, and the
  sets of taggers by user and label.
\<close>

record user_kv = zset_kv +
  uk_nodes :: "string \<Rightarrow> (user_details \<times> string option) option"
  uk_tagged :: "tag_edge list"
  uk_rels :: "(string \<times> string) set"
  uk_cache :: "string \<Rightarrow> user_details option"
  uk_taggers :: "string \<Rightarrow> string \<Rightarrow> string set"

record user_profile =
  pr_name :: string
  pr_bio :: "string option"
  pr_image :: "string option"
  pr_links :: "(string \<times> string) list option"
  pr_status :: "string option"

definition from_homeserver :: "user_profile \<Rightarrow> string \<Rightarrow> int \<Rightarrow> user_details" where
  "from_homeserver p user t =
     \<lparr>ud_name = pr_name p, ud_bio = pr_bio p, ud_id = user, ud_links = pr_links p, ud_status = pr_status p, ud_image = pr_image p,
      ud_indexed_at = t, ud_deleted = False, ud_epoch = V0\<rparr>"

definition tombstone :: "string \<Rightarrow> int \<Rightarrow> user_details" where
  "tombstone user t =
     \<lparr>ud_name = [], ud_bio = None, ud_id = user, ud_links = None, ud_status = None, ud_image = None,
      ud_indexed_at = t, ud_deleted = True, ud_epoch = V0\<rparr>"

text \<open>The write keeps the epoch of a stored node, and its address unless a new one is given.\<close>

definition create_user :: "user_details \<Rightarrow> string option \<Rightarrow> 'a user_kv_scheme \<Rightarrow> unit \<times> 'a user_kv_scheme" where
  "create_user d uri g =
     ((), g\<lparr>uk_nodes := (uk_nodes g)(ud_id d \<mapsto>
        (case uk_nodes g (ud_id d) of
           None \<Rightarrow> (d\<lparr>ud_epoch := V0\<rparr>, uri)
         | Some (old, old_uri) \<Rightarrow> (d\<lparr>ud_epoch := ud_epoch old\<rparr>, case uri of Some u \<Rightarrow> Some u | None \<Rightarrow> old_uri)))\<rparr>)"

definition ends_in :: "string \<Rightarrow> tag_edge \<Rightarrow> bool" where
  "ends_in user e \<longleftrightarrow> te_tagger e = user \<or> te_target e = UserN user"

definition related :: "string \<Rightarrow> 'a user_kv_scheme \<Rightarrow> bool" where
  "related user g \<longleftrightarrow> (\<exists>(a, b) \<in> uk_rels g. a = user \<or> b = user) \<or> (\<exists>e \<in> set (uk_tagged g). ends_in user e)"

definition user_is_safe_to_delete :: "string \<Rightarrow> 'a user_kv_scheme \<Rightarrow> bool option \<times> 'a user_kv_scheme" where
  "user_is_safe_to_delete user g = (case uk_nodes g user of None \<Rightarrow> None | Some _ \<Rightarrow> Some (related user g), g)"

definition delete_user :: "string \<Rightarrow> 'a user_kv_scheme \<Rightarrow> unit \<times> 'a user_kv_scheme" where
  "delete_user user g =
     ((), g\<lparr>uk_nodes := (uk_nodes g)(user := None), uk_tagged := filter (\<lambda>e. \<not> ends_in user e) (uk_tagged g), uk_rels := {(a, b) \<in> uk_rels g. a \<noteq> user \<and> b \<noteq> user}\<rparr>)"

definition get_users_details_by_ids :: "string list \<Rightarrow> 'a user_kv_scheme \<Rightarrow> user_details option list \<times> 'a user_kv_scheme" where
  "get_users_details_by_ids users g = (map (\<lambda>u. map_option fst (uk_nodes g u)) users, g)"

section \<open>Names and ids\<close>

definition USER_NAME_KEY :: string where "USER_NAME_KEY = ''Users:Name''"
definition USER_ID_KEY :: string where "USER_ID_KEY = ''Users:ID''"

definition name_member :: "(string \<Rightarrow> string) \<Rightarrow> string \<Rightarrow> string \<Rightarrow> string" where
  "name_member lower name user = lower name @ '':'' @ user"

definition details_get_from_index ::
  "string list \<Rightarrow> ('a user_kv_scheme, redis_error, user_details option list) run" where
  "details_get_from_index users = (if users = [] then pass [] else redis_call (\<lambda>g. (map (uk_cache g) users, g)))"

definition cached_name :: "user_details list \<Rightarrow> string \<Rightarrow> string option" where
  "cached_name cached user = map_option ud_name (List.find (\<lambda>d. ud_id d = user) cached)"

definition delete_existing_records ::
  "(string \<Rightarrow> string) \<Rightarrow> string list \<Rightarrow> ('a user_kv_scheme, redis_error, string list) run" where
  "delete_existing_records lower users =
     (if users = [] then pass []
      else andthen (details_get_from_index users) (\<lambda>found.
        let cached = List.map_filter (\<lambda>d. d) found;
            records = List.map_filter (\<lambda>u. map_option (\<lambda>n. name_member lower n u) (cached_name cached u)) users;
            unresolved = filter (\<lambda>u. cached_name cached u = None) users
        in andthen (remove_from_index_sorted_set USER_NAME_KEY records) (\<lambda>_.
           andthen (remove_from_index_sorted_set USER_ID_KEY users) (\<lambda>_. pass unresolved))))"

definition search_put_to_index ::
  "(string \<Rightarrow> string) \<Rightarrow> user_details list \<Rightarrow> ('a user_kv_scheme, redis_error, unit) run" where
  "search_put_to_index lower ds =
     andthen (delete_existing_records lower (map ud_id ds)) (\<lambda>_.
       let live = filter (\<lambda>d. \<not> ud_deleted d) ds in
       andthen (put_index_sorted_set USER_NAME_KEY (map (\<lambda>d. (0, name_member lower (ud_name d) (ud_id d))) live)) (\<lambda>_.
         put_index_sorted_set USER_ID_KEY (map (\<lambda>d. (0, ud_id d)) live)))"

definition search_delete :: "(string \<Rightarrow> string) \<Rightarrow> string \<Rightarrow> ('a user_kv_scheme, redis_error, unit) run" where
  "search_delete lower user = andthen (delete_existing_records lower [user]) (\<lambda>_. pass ())"

section \<open>Cached details\<close>

text \<open>The pipeline of \<open>JSON.SET\<close>s: a failure leaves the commands before it done.\<close>

fun put_multiple_json :: "(string \<times> user_details) list \<Rightarrow> ('a user_kv_scheme, redis_error, unit) run" where
  "put_multiple_json [] = pass ()"
| "put_multiple_json ((u, d) # ds) =
     andthen (redis_call (\<lambda>g. ((), g\<lparr>uk_cache := (uk_cache g)(u \<mapsto> d)\<rparr>))) (\<lambda>_. put_multiple_json ds)"

definition details_put_to_index ::
  "(string \<Rightarrow> string) \<Rightarrow> string list \<Rightarrow> user_details option list \<Rightarrow> ('a user_kv_scheme, redis_error, unit) run" where
  "details_put_to_index lower users records =
     andthen (put_multiple_json (List.map_filter (\<lambda>(u, r). map_option (\<lambda>d. (u, d)) r) (zip users records))) (\<lambda>_.
       search_put_to_index lower (List.map_filter (\<lambda>r. r) records))"

text \<open>The misses are filled in order.\<close>

fun fill :: "'d option list \<Rightarrow> 'd option list \<Rightarrow> 'd option list" where
  "fill (None # c) (r # rs) = r # fill c rs"
| "fill (x # c) rs = x # fill c rs"
| "fill [] rs = []"

definition get_by_ids ::
  "(string \<Rightarrow> string) \<Rightarrow> string list \<Rightarrow> ('a user_kv_scheme, model_error, user_details option list) run" where
  "get_by_ids lower users =
     andthen (map_err KvOperationFailed (details_get_from_index users)) (\<lambda>found.
       let missing = map fst (filter (\<lambda>(u, d). d = None) (zip users found)) in
       if missing = [] then pass found
       else andthen (map_err GraphOperationFailed (graph_call (get_users_details_by_ids missing))) (\<lambda>fetched.
         if fetched = [] then pass found
         else andthen (map_err KvOperationFailed (details_put_to_index lower missing fetched)) (\<lambda>_. pass (fill found fetched))))"

section \<open>Users by label\<close>

definition TAG_GLOBAL_USER_TAGGERS :: "string \<Rightarrow> string" where
  "TAG_GLOBAL_USER_TAGGERS lbl = ''Tags:Global:User:Taggers:'' @ lbl"

definition USER_TAGS_KEY :: "string \<Rightarrow> string" where
  "USER_TAGS_KEY user = ''Users:Tag:'' @ user"

definition EVICT_PAGE_SIZE :: nat where "EVICT_PAGE_SIZE = 500"

text \<open>The script: the score is the number of taggers; no taggers, or a cached tombstone, and the member goes.\<close>

definition cardinality_script :: "string \<Rightarrow> string \<Rightarrow> 'a user_kv_scheme \<Rightarrow> unit \<times> 'a user_kv_scheme" where
  "cardinality_script user lbl g =
     (let key = sorted_key (TAG_GLOBAL_USER_TAGGERS lbl);
          gone = (case uk_cache g user of Some d \<Rightarrow> ud_deleted d | None \<Rightarrow> False)
      in ((), g\<lparr>z_sets := (z_sets g)(key :=
           (if gone \<or> uk_taggers g user lbl = {} then AList.delete user (z_sets g key)
            else AList.update user (int (card (uk_taggers g user lbl))) (z_sets g key)))\<rparr>))"

definition sync_index_score :: "string \<Rightarrow> string \<Rightarrow> ('a user_kv_scheme, redis_error, unit) run" where
  "sync_index_score user lbl = redis_call (cardinality_script user lbl)"

fun sync_page :: "string \<Rightarrow> string list \<Rightarrow> ('a user_kv_scheme, redis_error, unit) run" where
  "sync_page user [] = pass ()"
| "sync_page user (lbl # lbls) = andthen (sync_index_score user lbl) (\<lambda>_. sync_page user lbls)"

partial_function (option) sync_labels_loop ::
  "string \<Rightarrow> nat \<Rightarrow> 'a user_kv_scheme world \<Rightarrow> ((redis_error, unit) result \<times> 'a user_kv_scheme world) option" where
  "sync_labels_loop user skip w =
     (case try_from_index_sorted_set (USER_TAGS_KEY user) None None (Some skip) (Some EVICT_PAGE_SIZE) Descending w of
        (Inl e, w1) \<Rightarrow> Some (Inl e, w1)
      | (Inr None, w1) \<Rightarrow> Some (Inr (), w1)
      | (Inr (Some page), w1) \<Rightarrow>
          if page = [] then Some (Inr (), w1)
          else (case sync_page user (map fst page) w1 of
                  (Inl e, w2) \<Rightarrow> Some (Inl e, w2)
                | (Inr _, w2) \<Rightarrow>
                    if length page < EVICT_PAGE_SIZE then Some (Inr (), w2)
                    else sync_labels_loop user (skip + length page) w2))"

definition sync_user_labels ::
  "string \<Rightarrow> 'a user_kv_scheme world \<Rightarrow> ((redis_error, unit) result \<times> 'a user_kv_scheme world) option" where
  "sync_user_labels user w = sync_labels_loop user 0 w"

section \<open>The handler\<close>

record user_env =
  ux_lower :: "string \<Rightarrow> string"
  ux_show_graph :: "graph_error \<Rightarrow> string"
  ux_show_redis :: "redis_error \<Rightarrow> string"

definition ux_graph :: "user_env \<Rightarrow> ('s, graph_error, 'x) run \<Rightarrow> ('s, ep_error, 'x) run" where
  "ux_graph E m = map_err (ep_from_graph (ux_show_graph E)) m"

definition ux_redis :: "user_env \<Rightarrow> ('s, redis_error, 'x) run \<Rightarrow> ('s, ep_error, 'x) run" where
  "ux_redis E m = map_err (ep_from_redis (ux_show_redis E)) m"

text \<open>What the handler does before the labels, and the labels after it.\<close>

definition then_labels ::
  "user_env \<Rightarrow> string \<Rightarrow> ('a user_kv_scheme, ep_error, bool) run \<Rightarrow> 'a user_kv_scheme world \<Rightarrow>
   ((ep_error, unit) result \<times> 'a user_kv_scheme world) option" where
  "then_labels E user m w =
     (case m w of
        (Inl e, w1) \<Rightarrow> Some (Inl e, w1)
      | (Inr False, w1) \<Rightarrow> Some (Inr (), w1)
      | (Inr True, w1) \<Rightarrow>
          (case sync_user_labels user w1 of
             None \<Rightarrow> None
           | Some (Inl e, w2) \<Rightarrow> Some (Inl (ep_from_redis (ux_show_redis E) e), w2)
           | Some (Inr _, w2) \<Rightarrow> Some (Inr (), w2)))"

definition user_put_profile :: "user_env \<Rightarrow> user_profile \<Rightarrow> string \<Rightarrow> string \<Rightarrow> ('a user_kv_scheme, ep_error, bool) run" where
  "user_put_profile E profile uri user =
     andthen now (\<lambda>t.
       let d = from_homeserver profile user t in
       andthen (ux_graph E (graph_call (create_user d (Some uri)))) (\<lambda>_.
       andthen (ux_redis E (search_put_to_index (ux_lower E) [d])) (\<lambda>_.
       andthen (ux_redis E (details_put_to_index (ux_lower E) [user] [Some d])) (\<lambda>_. pass True))))"

definition user_sync_put where
  "user_sync_put E profile uri user w = then_labels E user (user_put_profile E profile uri user) w"

definition user_remove :: "user_env \<Rightarrow> string \<Rightarrow> ('a user_kv_scheme, ep_error, bool) run" where
  "user_remove E user =
     andthen (ux_graph E (graph_call (user_is_safe_to_delete user))) (\<lambda>flag.
       case execute_graph_operation flag of
         CreatedOrDeleted \<Rightarrow>
           andthen (ux_redis E (search_delete (ux_lower E) user)) (\<lambda>_.
           andthen (ux_redis E (redis_call (\<lambda>g. ((), g\<lparr>uk_cache := (uk_cache g)(user := None)\<rparr>)))) (\<lambda>_.
           andthen (ux_graph E (graph_call (delete_user user))) (\<lambda>_. pass False)))
       | Updated \<Rightarrow>
           andthen (ux_redis E (search_delete (ux_lower E) user)) (\<lambda>_.
           andthen now (\<lambda>t.
           andthen (ux_graph E (graph_call (create_user (tombstone user t) None))) (\<lambda>_.
           andthen (ux_redis E (details_put_to_index (ux_lower E) [user] [Some (tombstone user t)])) (\<lambda>_. pass True))))
       | OpMissingDependency \<Rightarrow> (\<lambda>w. (Inl SkipIndexing, w)))"

definition user_del where
  "user_del E user w = then_labels E user (user_remove E user) w"

section \<open>Every label of a user is visited\<close>

text \<open>
  \<open>label_sync\<close>: what the other tasks keep (\<open>R\<close>), an invariant \<open>I\<close> under which the labels of the user stay the same, and
  what the script makes true of a label (\<open>A\<close>) and of no other label false. Then the pages cover every label.
\<close>

lemma range_rg:
  fixes z :: "(string \<times> int) list"
  assumes "stays R I" "\<And>g. I g \<Longrightarrow> z_sets g (sorted_key key) = z"
  shows "rg clean R I (try_from_index_sorted_set key None None (Some skip) (Some n) ord)
    (\<lambda>x g. I g \<and> (x = None \<and> z = [] \<or> x = Some (take n (drop skip (zorder ord z))))) (\<lambda>_ g. \<not> clean \<and> I g)"
proof (rule rgI)
  fix w r w' assume w: "rely clean R w" "I (kv w)" "try_from_index_sorted_set key None None (Some skip) (Some n) ord w = (r, w')"
  obtain r1 w1 where c1: "redis_call (\<lambda>g. (z_sets g (sorted_key key) \<noteq> [], g)) w = (r1, w1)" by force
  have "rg clean R I (redis_call (\<lambda>g. (z_sets g (sorted_key key) \<noteq> [], g))) (\<lambda>x g. I g \<and> x = (z \<noteq> [])) (\<lambda>_ g. \<not> clean \<and> I g)"
    by (rule rg_redis [OF assms(1)]) (simp_all add: assms(2))
  note d1 = rgD [OF this w(1,2) c1]
  let ?pg = "\<lambda>g. (zpage None None (Some skip) (Some n) ord (z_sets g (sorted_key key)), g)"
  obtain r2 w2 where c2: "redis_call ?pg w1 = (r2, w2)" by force
  have "rg clean R I (redis_call ?pg) (\<lambda>x g. I g \<and> x = take n (drop skip (zorder ord z))) (\<lambda>_ g. \<not> clean \<and> I g)"
    by (rule rg_redis [OF assms(1)]) (simp_all add: assms(2) zpage_def in_bounds_def unwrap_or_def)
  note d2 = rgD [OF this d1(1) _ c2]
  show "rely clean R w' \<and> (case r of Inr x \<Rightarrow> I (kv w') \<and> (x = None \<and> z = [] \<or> x = Some (take n (drop skip (zorder ord z)))) | Inl e \<Rightarrow> \<not> clean \<and> I (kv w'))"
    using w(3) c1 c2 d1 d2 by (cases r1; cases r2) (auto simp: try_from_index_sorted_set_def get_range_def split: if_splits)
qed

locale label_sync =
  fixes u :: string
    and R :: "'a user_kv_scheme \<Rightarrow> 'a user_kv_scheme \<Rightarrow> bool"
    and I :: "'a user_kv_scheme \<Rightarrow> bool"
    and A :: "string \<Rightarrow> 'a user_kv_scheme \<Rightarrow> bool"
    and z :: "(string \<times> int) list"
  assumes labels_fixed: "I g \<Longrightarrow> z_sets g (sorted_key (USER_TAGS_KEY u)) = z"
    and stays_I: "stays R I"
    and stays_A: "stays R (\<lambda>g. I g \<and> A l g)"
    and script_I: "I g \<Longrightarrow> I (snd (cardinality_script u l g))"
    and script_A: "I g \<Longrightarrow> A l (snd (cardinality_script u l g))"
    and script_other: "I g \<Longrightarrow> A l' g \<Longrightarrow> A l' (snd (cardinality_script u l g))"
begin

abbreviation synced :: "string set \<Rightarrow> 'a user_kv_scheme \<Rightarrow> bool" where
  "synced L g \<equiv> I g \<and> (\<forall>l \<in> L. A l g)"

lemma stays_synced: "stays R (synced L)"
  using stays_I stays_A unfolding stays_def by blast

lemma sync_page_rg:
  "rg clean R (synced L) (sync_page u ls) (\<lambda>_. synced (L \<union> set ls)) (\<lambda>_ g. \<not> clean \<and> I g)"
proof (induction ls arbitrary: L)
  case Nil then show ?case by (auto intro: rg_pass)
next
  case (Cons l ls)
  have "rg clean R (synced L) (sync_index_score u l) (\<lambda>_. synced (insert l L)) (\<lambda>_ g. \<not> clean \<and> I g)"
    unfolding sync_index_score_def using script_I script_A script_other by (intro rg_redis [OF stays_synced]) auto
  then show ?case using Cons.IH [of "insert l L"] by (auto intro: rg_andthen)
qed

lemma loop_visits_labels:
  assumes "rely clean R w" "synced (set (map fst (take skip (zorder Descending z)))) (kv w)"
  shows "\<exists>r w'. sync_labels_loop u skip w = Some (r, w') \<and> rely clean R w' \<and> I (kv w') \<and>
    (r = Inr () \<longrightarrow> synced (fst ` set z) (kv w')) \<and> (clean \<longrightarrow> r = Inr ())"
  using assms
proof (induction "length z - skip" arbitrary: skip w rule: less_induct)
  case less
  let ?page = "take EVICT_PAGE_SIZE (drop skip (zorder Descending z))"
  obtain q w1 where rd: "try_from_index_sorted_set (USER_TAGS_KEY u) None None (Some skip) (Some EVICT_PAGE_SIZE) Descending w = (q, w1)"
    by force
  let ?L = "set (map fst (take skip (zorder Descending z)))"
  have "rg clean R (synced ?L) (try_from_index_sorted_set (USER_TAGS_KEY u) None None (Some skip) (Some EVICT_PAGE_SIZE) Descending)
      (\<lambda>x g. synced ?L g \<and> (x = None \<and> z = [] \<or> x = Some ?page)) (\<lambda>_ g. \<not> clean \<and> synced ?L g)"
    by (rule range_rg [OF stays_synced]) (simp add: labels_fixed)
  note d1 = rgD [OF this less.prems rd]
  show ?case
  proof (cases q)
    case (Inl e)
    then show ?thesis using rd d1 by (subst sync_labels_loop.simps) auto
  next
    case (Inr x)
    note i1 = d1(2) [OF Inr]
    show ?thesis
    proof (cases "x = None \<or> ?page = []")
      case True
      have "set z \<subseteq> set (take skip (zorder Descending z))"
      proof (cases "?page = []")
        case p: True
        then have "drop skip (zorder Descending z) = []" by (simp add: EVICT_PAGE_SIZE_def)
        then show ?thesis by simp
      next
        case False then show ?thesis using True i1 by auto
      qed
      then have "synced (fst ` set z) (kv w1)" using i1 by auto
      moreover have "sync_labels_loop u skip w = Some (Inr (), w1)"
        using rd Inr True i1 by (subst sync_labels_loop.simps) (auto split: option.splits)
      ultimately show ?thesis using d1(1) by auto
    next
      case False
      then have x: "x = Some ?page" "?page \<noteq> []" using i1 by auto
      obtain q2 w2 where sy: "sync_page u (map fst ?page) w1 = (q2, w2)" by force
      note d2 = rgD [OF sync_page_rg d1(1) conjunct1 [OF i1] sy]
      let ?next = "skip + length ?page"
      have upto: "take ?next (zorder Descending z) = take skip (zorder Descending z) @ ?page"
        by (simp add: take_add min_def)
      show ?thesis
      proof (cases q2)
        case (Inl e)
        then show ?thesis using rd Inr x sy d2 by (subst sync_labels_loop.simps) auto
      next
        case ok: (Inr y)
        have i2: "synced (set (map fst (take ?next (zorder Descending z)))) (kv w2)"
          unfolding upto map_append set_append by (rule d2(2) [OF ok])
        show ?thesis
        proof (cases "length ?page < EVICT_PAGE_SIZE")
          case True
          then have "length (zorder Descending z) \<le> ?next" by auto
          then have "synced (fst ` set z) (kv w2)" using i2 by simp
          moreover have "sync_labels_loop u skip w = Some (Inr (), w2)"
            using rd Inr x sy ok True by (subst sync_labels_loop.simps) auto
          ultimately show ?thesis using d2(1) by auto
        next
          case more: False
          then have "length z - ?next < length z - skip" using x(2) by (simp add: EVICT_PAGE_SIZE_def)
          from less.hyps [OF this d2(1) i2] obtain r w' where
            ih: "sync_labels_loop u ?next w2 = Some (r, w')" "rely clean R w' \<and> I (kv w') \<and>
              (r = Inr () \<longrightarrow> synced (fst ` set z) (kv w')) \<and> (clean \<longrightarrow> r = Inr ())" by blast
          have "sync_labels_loop u skip w = Some (r, w')"
            using rd Inr x sy ok more ih(1) by (subst sync_labels_loop.simps) (auto simp del: length_take length_drop)
          then show ?thesis using ih(2) by blast
        qed
      qed
    qed
  qed
qed

lemma labels_synced:
  assumes "rely clean R w" "I (kv w)"
  shows "\<exists>r w'. sync_user_labels u w = Some (r, w') \<and> rely clean R w' \<and> I (kv w') \<and>
    (r = Inr () \<longrightarrow> synced (fst ` set z) (kv w')) \<and> (clean \<longrightarrow> r = Inr ())"
  using loop_visits_labels [OF assms(1), of 0] assms(2) by (simp add: sync_user_labels_def)

end

section \<open>The entries of one user\<close>

text \<open>Cached details, node, labels, members of the set of names that end with the id, and whether the id is listed.\<close>

type_synonym user_state =
  "user_details option \<times> (user_details \<times> string option) option \<times> (string \<times> int) list \<times> string set \<times> bool"

definition names_of :: "string \<Rightarrow> 'a user_kv_scheme \<Rightarrow> string set" where
  "names_of u g = {m \<in> fst ` set (z_sets g (sorted_key USER_NAME_KEY)). \<exists>n. m = n @ '':'' @ u}"

definition user_state :: "string \<Rightarrow> 'a user_kv_scheme \<Rightarrow> user_state" where
  "user_state u g = (uk_cache g u, uk_nodes g u, z_sets g (sorted_key (USER_TAGS_KEY u)), names_of u g,
     u \<in> fst ` set (z_sets g (sorted_key USER_ID_KEY)))"

definition cached_names :: "(string \<Rightarrow> string) \<Rightarrow> string \<Rightarrow> user_details option \<Rightarrow> string set" where
  "cached_names lower u c = (case c of None \<Rightarrow> {} | Some d \<Rightarrow> {name_member lower (ud_name d) u})"

definition own_details :: "string \<Rightarrow> user_details option \<Rightarrow> bool" where
  "own_details u c \<longleftrightarrow> (\<forall>d. c = Some d \<longrightarrow> ud_id d = u)"

lemma user_keys_differ [simp]:
  "sorted_key USER_NAME_KEY \<noteq> sorted_key USER_ID_KEY" "sorted_key USER_ID_KEY \<noteq> sorted_key USER_NAME_KEY"
  "sorted_key (USER_TAGS_KEY u) \<noteq> sorted_key USER_NAME_KEY" "sorted_key (USER_TAGS_KEY u) \<noteq> sorted_key USER_ID_KEY"
  "sorted_key (TAG_GLOBAL_USER_TAGGERS l) \<noteq> sorted_key USER_NAME_KEY" "sorted_key (TAG_GLOBAL_USER_TAGGERS l) \<noteq> sorted_key USER_ID_KEY"
  "sorted_key (TAG_GLOBAL_USER_TAGGERS l) \<noteq> sorted_key (USER_TAGS_KEY u)"
  "sorted_key USER_NAME_KEY \<noteq> sorted_key (USER_TAGS_KEY u)" "sorted_key USER_ID_KEY \<noteq> sorted_key (USER_TAGS_KEY u)"
  "sorted_key USER_NAME_KEY \<noteq> sorted_key (TAG_GLOBAL_USER_TAGGERS l)" "sorted_key USER_ID_KEY \<noteq> sorted_key (TAG_GLOBAL_USER_TAGGERS l)"
  "sorted_key (USER_TAGS_KEY u) \<noteq> sorted_key (TAG_GLOBAL_USER_TAGGERS l)"
  "sorted_key (TAG_GLOBAL_USER_TAGGERS l) = sorted_key (TAG_GLOBAL_USER_TAGGERS l') \<longleftrightarrow> l = l'"
  by (simp_all add: sorted_key_def USER_NAME_KEY_def USER_ID_KEY_def USER_TAGS_KEY_def TAG_GLOBAL_USER_TAGGERS_def)

lemma keys_update [simp]: "fst ` set (AList.update k v xs) = insert k (fst ` set xs)"
  by (simp add: dom_update)

lemma keys_delete [simp]: "fst ` set (AList.delete k xs) = fst ` set xs - {k}"
  by (metis delete_keys list.set_map set_removeAll)

lemma ends_with_id [simp]: "\<exists>n'. name_member lower n u = n' @ CHR '':'' # u"
  by (simp add: name_member_def)

lemma state_steps [simp]:
  "user_state u (g\<lparr>z_sets := (z_sets g)(sorted_key USER_NAME_KEY := AList.update (name_member lower n u) s (z_sets g (sorted_key USER_NAME_KEY)))\<rparr>) =
     (case user_state u g of (c, k, z, N, i) \<Rightarrow> (c, k, z, insert (name_member lower n u) N, i))"
  "user_state u (g\<lparr>z_sets := (z_sets g)(sorted_key USER_NAME_KEY := AList.delete m (z_sets g (sorted_key USER_NAME_KEY)))\<rparr>) =
     (case user_state u g of (c, k, z, N, i) \<Rightarrow> (c, k, z, N - {m}, i))"
  "user_state u (g\<lparr>z_sets := (z_sets g)(sorted_key USER_ID_KEY := AList.update u s (z_sets g (sorted_key USER_ID_KEY)))\<rparr>) =
     (case user_state u g of (c, k, z, N, i) \<Rightarrow> (c, k, z, N, True))"
  "user_state u (g\<lparr>z_sets := (z_sets g)(sorted_key USER_ID_KEY := AList.delete u (z_sets g (sorted_key USER_ID_KEY)))\<rparr>) =
     (case user_state u g of (c, k, z, N, i) \<Rightarrow> (c, k, z, N, False))"
  "user_state u (g\<lparr>uk_cache := (uk_cache g)(u := d)\<rparr>) = (case user_state u g of (c, k, z, N, i) \<Rightarrow> (d, k, z, N, i))"
  "user_state u (snd (cardinality_script v l g)) = user_state u g"
  by (auto simp: user_state_def names_of_def cardinality_script_def Let_def)

text \<open>Entering the search sets: the cached name goes, the new one comes unless the details are a tombstone.\<close>

definition listed_as :: "string \<Rightarrow> (string \<Rightarrow> string) \<Rightarrow> user_details \<Rightarrow> string set \<Rightarrow> string set" where
  "listed_as u lower d N = (if ud_deleted d then N else insert (name_member lower (ud_name d) u) N)"

text \<open>Storing a node.\<close>

definition stored :: "user_details \<Rightarrow> string option \<Rightarrow> (user_details \<times> string option) option \<Rightarrow> user_details \<times> string option" where
  "stored d uri k = (case k of None \<Rightarrow> (d\<lparr>ud_epoch := V0\<rparr>, uri)
     | Some (old, old_uri) \<Rightarrow> (d\<lparr>ud_epoch := ud_epoch old\<rparr>, case uri of Some x \<Rightarrow> Some x | None \<Rightarrow> old_uri))"

text \<open>Every name a user is listed under is the one in the cache.\<close>

definition names_ok :: "string \<Rightarrow> (string \<Rightarrow> string) \<Rightarrow> user_state \<Rightarrow> bool" where
  "names_ok u lower s \<longleftrightarrow> (case s of (c, k, z, N, i) \<Rightarrow> N \<subseteq> cached_names lower u c \<and> own_details u c)"

lemma state_parts:
  "user_state u g = (c, k, z, N, i) \<Longrightarrow> uk_cache g u = c" "user_state u g = (c, k, z, N, i) \<Longrightarrow> uk_nodes g u = k"
  by (simp_all add: user_state_def)

lemma create_user_state:
  "ud_id d = u \<Longrightarrow> user_state u (snd (create_user d uri g)) = (case user_state u g of (c, k, z, N, i) \<Rightarrow>
     (c, Some (case k of None \<Rightarrow> (d\<lparr>ud_epoch := V0\<rparr>, uri)
       | Some (old, old_uri) \<Rightarrow> (d\<lparr>ud_epoch := ud_epoch old\<rparr>, case uri of Some x \<Rightarrow> Some x | None \<Rightarrow> old_uri)), z, N, i))"
  by (simp add: user_state_def names_of_def create_user_def)

lemma delete_user_state:
  "user_state u (snd (delete_user u g)) = (case user_state u g of (c, k, z, N, i) \<Rightarrow> (c, None, z, N, i))"
  by (simp add: user_state_def names_of_def delete_user_def)

lemma index_write_one:
  "put_index_sorted_set key [] = pass ()" "remove_from_index_sorted_set key [] = pass ()"
  "put_index_sorted_set key [(sc, m)] = redis_call (\<lambda>g. ((), g\<lparr>z_sets := (z_sets g)(sorted_key key := AList.update m sc (z_sets g (sorted_key key)))\<rparr>))"
  "remove_from_index_sorted_set key [m] = redis_call (\<lambda>g. ((), g\<lparr>z_sets := (z_sets g)(sorted_key key := AList.delete m (z_sets g (sorted_key key)))\<rparr>))"
  by (simp_all add: fun_eq_iff put_index_sorted_set_def remove_from_index_sorted_set_def zset_put_def zset_del_def pass_def zadd_all_def)

text \<open>The other tasks leave these entries alone; every call then has its own effect, or none if it fails.\<close>

locale user_tasks =
  fixes u :: string and R :: "'a user_kv_scheme \<Rightarrow> 'a user_kv_scheme \<Rightarrow> bool"
  assumes R_state: "R g g' \<Longrightarrow> user_state u g' = user_state u g"
begin

abbreviation holds :: "user_state \<Rightarrow> 'a user_kv_scheme \<Rightarrow> bool" where
  "holds s g \<equiv> user_state u g = s"

lemma stays_holds: "stays R (holds s)"
  using R_state by (simp add: stays_def)

lemma redis_to:
  assumes "\<And>g. holds s g \<Longrightarrow> holds s' (snd (f g)) \<and> Q (fst (f g))" "\<not> clean \<Longrightarrow> {s, s'} \<subseteq> B"
  shows "rg clean R (holds s) (redis_call f) (\<lambda>x g. Q x \<and> holds s' g) (\<lambda>_ g. user_state u g \<in> B)"
  using assms by (intro rg_redis [OF stays_holds]) auto

lemma graph_to:
  assumes "\<And>g. holds s g \<Longrightarrow> holds s' (snd (f g)) \<and> Q (fst (f g))" "\<not> clean \<Longrightarrow> {s, s'} \<subseteq> B"
  shows "rg clean R (holds s) (graph_call f) (\<lambda>x g. Q x \<and> holds s' g) (\<lambda>_ g. user_state u g \<in> B)"
  using assms by (intro rg_graph [OF stays_holds]) auto

lemmas redis_put_to = redis_to [where Q = "\<lambda>_. True", simplified]
lemmas graph_put_to = graph_to [where Q = "\<lambda>_. True", simplified]

lemma delete_rg:
  assumes "own_details u c"
    and "\<not> clean \<Longrightarrow> {(c, k, z, N, i), (c, k, z, N - cached_names lower u c, i), (c, k, z, N - cached_names lower u c, False)} \<subseteq> B"
  shows "rg clean R (holds (c, k, z, N, i)) (delete_existing_records lower [u])
    (\<lambda>_. holds (c, k, z, N - cached_names lower u c, False)) (\<lambda>_ g. user_state u g \<in> B)"
proof -
  let ?N = "N - cached_names lower u c"
  have read: "rg clean R (holds (c, k, z, N, i)) (details_get_from_index [u]) (\<lambda>x g. x = [c] \<and> holds (c, k, z, N, i) g) (\<lambda>_ g. user_state u g \<in> B)"
    unfolding details_get_from_index_def if_not_P [OF not_Cons_self2 [of u "[]"]]
    using assms(2) by (intro redis_to) (auto simp: state_parts(1))
  have ids: "rg clean R (holds (c, k, z, ?N, i)) (remove_from_index_sorted_set USER_ID_KEY [u]) (\<lambda>_. holds (c, k, z, ?N, False)) (\<lambda>_ g. user_state u g \<in> B)"
    unfolding index_write_one using assms(2) by (intro redis_put_to) auto
  have names: "rg clean R (holds (c, k, z, N, i)) (remove_from_index_sorted_set USER_NAME_KEY
      (List.map_filter (\<lambda>v. map_option (\<lambda>n. name_member lower n v) (cached_name (List.map_filter (\<lambda>d. d) [c]) v)) [u]))
      (\<lambda>_. holds (c, k, z, ?N, i)) (\<lambda>_ g. user_state u g \<in> B)"
  proof (cases c)
    case None
    then show ?thesis by (auto simp: List.map_filter_simps cached_name_def cached_names_def index_write_one intro: rg_pass)
  next
    case (Some d)
    then have "ud_id d = u" using assms(1) by (simp add: own_details_def)
    then have "remove_from_index_sorted_set USER_NAME_KEY
        (List.map_filter (\<lambda>v. map_option (\<lambda>n. name_member lower n v) (cached_name (List.map_filter (\<lambda>d. d) [c]) v)) [u]) =
        (remove_from_index_sorted_set USER_NAME_KEY [name_member lower (ud_name d) u] :: ('a user_kv_scheme, redis_error, unit) run)"
      using Some by (simp add: List.map_filter_simps cached_name_def)
    moreover have "rg clean R (holds (c, k, z, N, i)) (remove_from_index_sorted_set USER_NAME_KEY [name_member lower (ud_name d) u])
      (\<lambda>_. holds (c, k, z, ?N, i)) (\<lambda>_ g. user_state u g \<in> B)"
      unfolding index_write_one using assms(2) Some by (intro redis_put_to) (auto simp: cached_names_def)
    ultimately show ?thesis by simp
  qed
  show ?thesis
    unfolding delete_existing_records_def Let_def if_not_P [OF not_Cons_self2 [of u "[]"]]
    by (rule rg_known [OF read], rule rg_andthen [OF names], rule rg_andthen [OF ids], rule rg_pass)
qed

lemma search_put_rg:
  assumes "own_details u c" "ud_id d = u"
    and "\<not> clean \<Longrightarrow> \<forall>j. \<forall>M \<in> {N, N - cached_names lower u c, listed_as u lower d (N - cached_names lower u c)}. (c, k, z, M, j) \<in> B"
  shows "rg clean R (holds (c, k, z, N, i)) (search_put_to_index lower [d])
    (\<lambda>_. holds (c, k, z, listed_as u lower d (N - cached_names lower u c), \<not> ud_deleted d)) (\<lambda>_ g. user_state u g \<in> B)"
proof -
  let ?N = "N - cached_names lower u c"
  have del: "rg clean R (holds (c, k, z, N, i)) (delete_existing_records lower [u]) (\<lambda>_. holds (c, k, z, ?N, False)) (\<lambda>_ g. user_state u g \<in> B)"
    using assms by (intro delete_rg) auto
  have name: "rg clean R (holds (c, k, z, ?N, False)) (put_index_sorted_set USER_NAME_KEY [(0, name_member lower (ud_name d) u)])
      (\<lambda>_. holds (c, k, z, listed_as u lower d ?N, False)) (\<lambda>_ g. user_state u g \<in> B)" if "\<not> ud_deleted d"
    unfolding index_write_one using assms(3) that by (intro redis_put_to) (auto simp: listed_as_def)
  have ident: "rg clean R (holds (c, k, z, listed_as u lower d ?N, False)) (put_index_sorted_set USER_ID_KEY [(0, u)])
      (\<lambda>_. holds (c, k, z, listed_as u lower d ?N, True)) (\<lambda>_ g. user_state u g \<in> B)" if "\<not> ud_deleted d"
    unfolding index_write_one using assms(3) by (intro redis_put_to) auto
  show ?thesis
  proof (cases "ud_deleted d")
    case True
    then show ?thesis
      using rg_andthen [OF del, OF rg_pass [where x = "()" and Q = "\<lambda>_. holds (c, k, z, ?N, False)"]] assms(2)
      by (simp add: search_put_to_index_def index_write_one listed_as_def)
  next
    case False
    then show ?thesis
      using rg_andthen [OF del rg_andthen [OF name ident]] assms(2) by (simp add: search_put_to_index_def)
  qed
qed

lemma details_put_rg:
  assumes "ud_id d = u"
    and "\<not> clean \<Longrightarrow> \<forall>j. {(c, k, z, N, j), (Some d, k, z, N, j)} \<subseteq> B \<and>
      (\<forall>M \<in> {N - {name_member lower (ud_name d) u}, listed_as u lower d (N - {name_member lower (ud_name d) u})}. (Some d, k, z, M, j) \<in> B)"
  shows "rg clean R (holds (c, k, z, N, i)) (details_put_to_index lower [u] [Some d])
    (\<lambda>_. holds (Some d, k, z, listed_as u lower d (N - {name_member lower (ud_name d) u}), \<not> ud_deleted d)) (\<lambda>_ g. user_state u g \<in> B)"
proof -
  have cn: "cached_names lower u (Some d) = {name_member lower (ud_name d) u}" by (simp add: cached_names_def)
  have "rg clean R (holds (c, k, z, N, i)) (redis_call (\<lambda>g. ((), g\<lparr>uk_cache := (uk_cache g)(u \<mapsto> d)\<rparr>)))
      (\<lambda>_. holds (Some d, k, z, N, i)) (\<lambda>_ g. user_state u g \<in> B)"
    using assms(2) by (intro redis_put_to) auto
  moreover have "rg clean R (holds (Some d, k, z, N, i)) (search_put_to_index lower [d])
      (\<lambda>_. holds (Some d, k, z, listed_as u lower d (N - {name_member lower (ud_name d) u}), \<not> ud_deleted d)) (\<lambda>_ g. user_state u g \<in> B)"
    using search_put_rg [of "Some d" d clean N lower k z B i] assms unfolding cn by (simp add: own_details_def)
  moreover have "details_put_to_index lower [u] [Some d] =
      (andthen (redis_call (\<lambda>g. ((), g\<lparr>uk_cache := (uk_cache g)(u \<mapsto> d)\<rparr>))) (\<lambda>_. search_put_to_index lower [d]) :: ('a user_kv_scheme, redis_error, unit) run)"
    by (simp add: details_put_to_index_def List.map_filter_simps andthen_def pass_def fun_eq_iff split: prod.split sum.split)
  ultimately show ?thesis using rg_andthen by simp
qed

lemma create_rg:
  assumes "ud_id d = u" "\<not> clean \<Longrightarrow> {(c, k, z, N, i), (c, Some (stored d uri k), z, N, i)} \<subseteq> B"
  shows "rg clean R (holds (c, k, z, N, i)) (graph_call (create_user d uri)) (\<lambda>_. holds (c, Some (stored d uri k), z, N, i))
    (\<lambda>_ g. user_state u g \<in> B)"
  using assms(2) by (intro graph_put_to) (auto simp: create_user_state [OF assms(1)] stored_def)

lemma put_profile_rg:
  assumes "own_details u c"
  shows "rg clean R (holds (c, k, z, N, i)) (user_put_profile E p uri u)
    (\<lambda>x g. x \<and> (\<exists>t. let d = from_homeserver p u t in
       holds (Some d, Some (stored d (Some uri) k), z, insert (name_member (ux_lower E) (pr_name p) u) (N - cached_names (ux_lower E) u c), True) g))
    (\<lambda>_ _. \<not> clean)"
proof -
  let ?B = "if clean then {} else UNIV"
  let ?N = "N - cached_names (ux_lower E) u c"
  let ?m = "name_member (ux_lower E) (pr_name p) u"
  have run: "rg clean R (holds (c, k, z, N, i))
      (andthen (ux_graph E (graph_call (create_user d (Some uri)))) (\<lambda>_.
       andthen (ux_redis E (search_put_to_index (ux_lower E) [d])) (\<lambda>_.
       andthen (ux_redis E (details_put_to_index (ux_lower E) [u] [Some d])) (\<lambda>_. pass True))))
      (\<lambda>x g. x \<and> holds (Some d, Some (stored d (Some uri) k), z, insert ?m ?N, True) g) (\<lambda>_ _. \<not> clean)"
    if d: "d = from_homeserver p u t" for d t
  proof -
    have i: "ud_id d = u" "ud_name d = pr_name p" "\<not> ud_deleted d" by (simp_all add: d from_homeserver_def)
    let ?k = "Some (stored d (Some uri) k)"
    have "rg clean R (holds (c, k, z, N, i)) (graph_call (create_user d (Some uri))) (\<lambda>_. holds (c, ?k, z, N, i)) (\<lambda>_ g. user_state u g \<in> ?B)"
      using i by (intro create_rg) auto
    moreover have "rg clean R (holds (c, ?k, z, N, i)) (search_put_to_index (ux_lower E) [d]) (\<lambda>_. holds (c, ?k, z, insert ?m ?N, True)) (\<lambda>_ g. user_state u g \<in> ?B)"
      using search_put_rg [OF assms i(1), of clean N "ux_lower E" ?k z ?B i] i by (simp add: listed_as_def)
    moreover have "rg clean R (holds (c, ?k, z, insert ?m ?N, True)) (details_put_to_index (ux_lower E) [u] [Some d]) (\<lambda>_. holds (Some d, ?k, z, insert ?m ?N, True)) (\<lambda>_ g. user_state u g \<in> ?B)"
      using details_put_rg [OF i(1), of clean c ?k z "insert ?m ?N" ?B "ux_lower E" True] i by (simp add: listed_as_def)
    ultimately show ?thesis
      unfolding ux_graph_def ux_redis_def
      by (intro rg_andthen rg_map_err rg_pass) (auto elim!: rg_weaken split: if_splits)
  qed
  show ?thesis
    unfolding user_put_profile_def Let_def
  proof (rule rg_andthen [OF rg_now [where Q = "\<lambda>_. holds (c, k, z, N, i)", OF stays_holds]])
    fix t
    show "rg clean R (holds (c, k, z, N, i))
      (andthen (ux_graph E (graph_call (create_user (from_homeserver p u t) (Some uri)))) (\<lambda>_.
       andthen (ux_redis E (search_put_to_index (ux_lower E) [from_homeserver p u t])) (\<lambda>_.
       andthen (ux_redis E (details_put_to_index (ux_lower E) [u] [Some (from_homeserver p u t)])) (\<lambda>_. pass True))))
      (\<lambda>x g. x \<and> (\<exists>t. holds (Some (from_homeserver p u t), Some (stored (from_homeserver p u t) (Some uri) k), z, insert ?m ?N, True) g)) (\<lambda>_ _. \<not> clean)"
      by (rule rg_weaken [OF run [OF refl]]) auto
  qed simp
qed

lemma search_delete_rg:
  assumes "names_ok u lower (c, k, z, N, i)" "\<not> clean \<Longrightarrow> Collect (names_ok u lower) \<subseteq> B"
  shows "rg clean R (holds (c, k, z, N, i)) (search_delete lower u) (\<lambda>_. holds (c, k, z, {}, False)) (\<lambda>_ g. user_state u g \<in> B)"
proof -
  have n: "N - cached_names lower u c = {}" "own_details u c" using assms(1) by (auto simp: names_ok_def)
  have "rg clean R (holds (c, k, z, N, i)) (delete_existing_records lower [u]) (\<lambda>_. holds (c, k, z, {}, False)) (\<lambda>_ g. user_state u g \<in> B)"
  proof (rule delete_rg [OF n(2), of clean k z N i lower B, unfolded n(1)])
    assume "\<not> clean"
    then have "s \<in> B" if "names_ok u lower s" for s using assms(2) that by blast
    then show "{(c, k, z, N, i), (c, k, z, {}, i), (c, k, z, {}, False)} \<subseteq> B" using assms(1) n(2) by (auto simp: names_ok_def)
  qed
  then show ?thesis unfolding search_delete_def by (rule rg_andthen) (auto intro: rg_pass)
qed

lemma remove_rg:
  assumes "names_ok u (ux_lower E) (c, k, z, N, i)"
  shows "rg clean R (holds (c, k, z, N, i)) (user_remove E u)
    (\<lambda>x g. if x then \<exists>t. holds (Some (tombstone u t), Some (stored (tombstone u t) None k), z, {}, False) g else holds (None, None, z, {}, False) g)
    (\<lambda>e g. names_ok u (ux_lower E) (user_state u g) \<and> (clean \<longrightarrow> e = SkipIndexing \<and> k = None))"
    (is "rg _ _ _ _ ?Q ?E")
proof -
  let ?B = "if clean then {} else Collect (names_ok u (ux_lower E))"
  have own: "own_details u c" using assms by (simp add: names_ok_def)
  have wk: "rg clean R P m Q (\<lambda>_ g. user_state u g \<in> ?B) \<Longrightarrow> rg clean R P m Q ?E" for P m and Q :: "'x \<Rightarrow> 'a user_kv_scheme \<Rightarrow> bool"
    by (erule rg_weaken) (auto split: if_splits)
  have flag: "rg clean R (holds (c, k, z, N, i)) (graph_call (user_is_safe_to_delete u))
      (\<lambda>x g. (x = None \<longleftrightarrow> k = None) \<and> holds (c, k, z, N, i) g) (\<lambda>_ g. user_state u g \<in> ?B)"
    using assms by (intro graph_to) (auto simp: user_is_safe_to_delete_def state_parts(2) split: option.split)
  have clear: "rg clean R (holds (c, k, z, N, i)) (search_delete (ux_lower E) u) (\<lambda>_. holds (c, k, z, {}, False)) (\<lambda>_ g. user_state u g \<in> ?B)"
    by (rule search_delete_rg [OF assms]) auto
  have drop: "rg clean R (holds (c, k, z, {}, False)) (redis_call (\<lambda>g. ((), g\<lparr>uk_cache := (uk_cache g)(u := None)\<rparr>))) (\<lambda>_. holds (None, k, z, {}, False)) (\<lambda>_ g. user_state u g \<in> ?B)"
    using own by (intro redis_put_to) (auto simp: names_ok_def own_details_def)
  have unnode: "rg clean R (holds (None, k, z, {}, False)) (graph_call (delete_user u)) (\<lambda>_. holds (None, None, z, {}, False)) (\<lambda>_ g. user_state u g \<in> ?B)"
    by (intro graph_put_to) (auto simp: delete_user_state names_ok_def own_details_def)
  have tomb: "ud_id (tombstone u t) = u" "ud_deleted (tombstone u t)" for t by (simp_all add: tombstone_def)
  let ?k = "\<lambda>t. Some (stored (tombstone u t) None k)"
  have mark: "rg clean R (holds (c, k, z, {}, False)) (graph_call (create_user (tombstone u t) None)) (\<lambda>_. holds (c, ?k t, z, {}, False)) (\<lambda>_ g. user_state u g \<in> ?B)" for t
    using own by (intro create_rg tomb) (auto simp: names_ok_def)
  have cache: "rg clean R (holds (c, ?k t, z, {}, False)) (details_put_to_index (ux_lower E) [u] [Some (tombstone u t)])
      (\<lambda>_. holds (Some (tombstone u t), ?k t, z, {}, False)) (\<lambda>_ g. user_state u g \<in> ?B)" for t
    using details_put_rg [where d = "tombstone u t" and c = c and k = "?k t" and z = z and N = "{}" and B = ?B and lower = "ux_lower E" and i = False and clean = clean] own tomb
    by (auto simp: names_ok_def listed_as_def own_details_def)
  have wiped: "rg clean R (holds (c, k, z, N, i))
      (andthen (ux_redis E (search_delete (ux_lower E) u)) (\<lambda>_.
       andthen (ux_redis E (redis_call (\<lambda>g. ((), g\<lparr>uk_cache := (uk_cache g)(u := None)\<rparr>)))) (\<lambda>_.
       andthen (ux_graph E (graph_call (delete_user u))) (\<lambda>_. pass False)))) ?Q (\<lambda>_ g. user_state u g \<in> ?B)"
    unfolding ux_graph_def ux_redis_def
    by (rule rg_andthen [OF rg_map_err_const [OF clear]], rule rg_andthen [OF rg_map_err_const [OF drop]], rule rg_andthen [OF rg_map_err_const [OF unnode]], rule rg_pass) simp
  have buried: "rg clean R (holds (c, k, z, N, i))
      (andthen (ux_redis E (search_delete (ux_lower E) u)) (\<lambda>_.
       andthen now (\<lambda>t.
       andthen (ux_graph E (graph_call (create_user (tombstone u t) None))) (\<lambda>_.
       andthen (ux_redis E (details_put_to_index (ux_lower E) [u] [Some (tombstone u t)])) (\<lambda>_. pass True))))) ?Q (\<lambda>_ g. user_state u g \<in> ?B)"
    unfolding ux_graph_def ux_redis_def
    by (rule rg_andthen [OF rg_map_err_const [OF clear]], rule rg_andthen [OF rg_now [where Q = "\<lambda>_. holds (c, k, z, {}, False)", OF stays_holds]], assumption,
        rule rg_andthen [OF rg_map_err_const [OF mark]], rule rg_andthen [OF rg_map_err_const [OF cache]], rule rg_pass) auto
  show ?thesis
    unfolding user_remove_def
  proof (rule rg_andthen [OF wk [OF flag [THEN rg_map_err_const [where conv = "ep_from_graph (ux_show_graph E)", folded ux_graph_def]]]])
    fix x :: "bool option"
    show "rg clean R (\<lambda>g. (x = None \<longleftrightarrow> k = None) \<and> holds (c, k, z, N, i) g)
      (case execute_graph_operation x of
         CreatedOrDeleted \<Rightarrow>
           andthen (ux_redis E (search_delete (ux_lower E) u)) (\<lambda>_.
           andthen (ux_redis E (redis_call (\<lambda>g. ((), g\<lparr>uk_cache := (uk_cache g)(u := None)\<rparr>)))) (\<lambda>_.
           andthen (ux_graph E (graph_call (delete_user u))) (\<lambda>_. pass False)))
       | Updated \<Rightarrow>
           andthen (ux_redis E (search_delete (ux_lower E) u)) (\<lambda>_.
           andthen now (\<lambda>t.
           andthen (ux_graph E (graph_call (create_user (tombstone u t) None))) (\<lambda>_.
           andthen (ux_redis E (details_put_to_index (ux_lower E) [u] [Some (tombstone u t)])) (\<lambda>_. pass True))))
       | OpMissingDependency \<Rightarrow> (\<lambda>w. (Inl SkipIndexing, w))) ?Q ?E"
    proof (cases "execute_graph_operation x")
      case OpMissingDependency
      then have "x = None" by (auto simp: execute_graph_operation_def split: option.splits bool.splits)
      then show ?thesis using OpMissingDependency assms by (auto intro: rg_fail)
    next
      case Updated
      then show ?thesis by (simp only: operation_outcome.case) (rule rg_weaken [OF wk [OF buried]], blast+)
    next
      case CreatedOrDeleted
      then show ?thesis by (simp only: operation_outcome.case) (rule rg_weaken [OF wk [OF wiped]], blast+)
    qed
  qed
qed

end

section \<open>Other tasks\<close>

text \<open>
  While a user is removed, the other tasks leave the user's own entries alone: the details, the node, the names, the id and the
  scored set of the profile's labels. Tag events that change that set (a tag added to the profile, removed from it or scored anew) are
  excluded, for they can move labels between the pages in which the set is read. The taggers may change and the script may run for any
  label: it never puts a user with a cached tombstone back on one. While a profile is written the user's taggers and scores stay, too.
\<close>

definition on_label :: "string \<Rightarrow> string \<Rightarrow> 'a user_kv_scheme \<Rightarrow> int option" where
  "on_label l u g = map_of (z_sets g (sorted_key (TAG_GLOBAL_USER_TAGGERS l))) u"

definition tombstoned :: "string \<Rightarrow> 'a user_kv_scheme \<Rightarrow> bool" where
  "tombstoned u g \<longleftrightarrow> (\<exists>d. uk_cache g u = Some d \<and> ud_deleted d)"

definition taggers_at_work :: "string \<Rightarrow> 'a user_kv_scheme \<Rightarrow> 'a user_kv_scheme \<Rightarrow> bool" where
  "taggers_at_work u g g' \<longleftrightarrow> user_state u g' = user_state u g \<and>
     (tombstoned u g \<longrightarrow> (\<forall>l. on_label l u g = None \<longrightarrow> on_label l u g' = None))"

definition taggers_at_rest :: "string \<Rightarrow> 'a user_kv_scheme \<Rightarrow> 'a user_kv_scheme \<Rightarrow> bool" where
  "taggers_at_rest u g g' \<longleftrightarrow> user_state u g' = user_state u g \<and>
     (\<forall>l. uk_taggers g' u l = uk_taggers g u l \<and> on_label l u g' = on_label l u g)"

definition derived_score :: "string set \<Rightarrow> int option" where
  "derived_score T = (if T = {} then None else Some (int (card T)))"

lemma script_on_label:
  "on_label l' u (snd (cardinality_script u l g)) =
     (if l' = l then (if tombstoned u g then None else derived_score (uk_taggers g u l)) else on_label l' u g)"
  by (auto simp: on_label_def cardinality_script_def Let_def tombstoned_def derived_score_def map_of_delete map_of_update
      fun_upd_def split: option.splits)

lemma script_taggers [simp]: "uk_taggers (snd (cardinality_script u l g)) = uk_taggers g"
  by (simp add: cardinality_script_def Let_def)

lemma tombstoned_state: "user_state u g = (Some d, k, z, N, i) \<Longrightarrow> tombstoned u g = ud_deleted d"
  by (simp add: user_state_def tombstoned_def)

interpretation removal: user_tasks u "taggers_at_work u" for u
  by unfold_locales (simp add: taggers_at_work_def)

interpretation writing: user_tasks u "taggers_at_rest u" for u
  by unfold_locales (simp add: taggers_at_rest_def)

interpretation evicted: label_sync u "taggers_at_work u" "\<lambda>g. ud_deleted d \<and> user_state u g = (Some d, k, z, N, i)"
  "\<lambda>l g. on_label l u g = None" z
  for u d k z N i
  by unfold_locales
    (auto simp: script_on_label stays_def taggers_at_work_def dest: tombstoned_state, auto simp: user_state_def)

interpretation restored: label_sync u "taggers_at_rest u"
  "\<lambda>g. \<not> ud_deleted d \<and> user_state u g = (Some d, k, z, N, i) \<and> (\<forall>l. uk_taggers g u l = T l)"
  "\<lambda>l g. on_label l u g = derived_score (T l)" z
  for u d k z N i T
  by unfold_locales
    (auto simp: script_on_label stays_def taggers_at_rest_def dest: tombstoned_state, auto simp: user_state_def)

lemma user_put_facts:
  fixes w :: "'a user_kv_scheme world"
  assumes "rely False (taggers_at_rest u) w" "own_details u (uk_cache (kv w) u)"
  shows "\<exists>r w'. user_sync_put E p uri u w = Some (r, w') \<and>
    (fault w = (\<lambda>_. None) \<and> graph_fault w = (\<lambda>_. None) \<longrightarrow> r = Inr ()) \<and>
    (r = Inr () \<longrightarrow> names_of u (kv w') = insert (name_member (ux_lower E) (pr_name p) u) (names_of u (kv w) - cached_names (ux_lower E) u (uk_cache (kv w) u)) \<and>
      u \<in> fst ` set (z_sets (kv w') (sorted_key USER_ID_KEY)) \<and>
      (\<exists>t. uk_cache (kv w') u = Some (from_homeserver p u t) \<and>
        uk_nodes (kv w') u = Some (stored (from_homeserver p u t) (Some uri) (uk_nodes (kv w) u))) \<and>
      (\<forall>l \<in> fst ` set (z_sets (kv w') (sorted_key (USER_TAGS_KEY u))). on_label l u (kv w') = derived_score (uk_taggers (kv w') u l)))"
proof -
  define clean where "clean \<longleftrightarrow> fault w = (\<lambda>_. None) \<and> graph_fault w = (\<lambda>_. None)"
  have r: "rely clean (taggers_at_rest u) w" using assms(1) by (simp add: rely_def clean_def)
  obtain c k z N i where s: "user_state u (kv w) = (c, k, z, N, i)" by (cases "user_state u (kv w)")
  have n: "own_details u c" using assms(2) s by (simp add: user_state_def)
  obtain q w1 where m: "user_put_profile E p uri u w = (q, w1)" by force
  note d = rgD [OF writing.put_profile_rg [OF n] r s m]
  show ?thesis
  proof (cases q)
    case (Inl e)
    then show ?thesis using m d(3) by (auto simp: user_sync_put_def then_labels_def clean_def)
  next
    case (Inr x)
    then obtain t where x: "x" and t: "user_state u (kv w1) = (Some (from_homeserver p u t), Some (stored (from_homeserver p u t) (Some uri) k), z,
        insert (name_member (ux_lower E) (pr_name p) u) (N - cached_names (ux_lower E) u c), True)"
      using d(2) by (auto simp: Let_def)
    have "\<not> ud_deleted (from_homeserver p u t)" by (simp add: from_homeserver_def)
    with t restored.labels_synced [OF d(1), of "from_homeserver p u t" _ z _ _ "uk_taggers (kv w1) u"] obtain r2 w2 where
      l: "sync_user_labels u w1 = Some (r2, w2)"
        "user_state u (kv w2) = (Some (from_homeserver p u t), Some (stored (from_homeserver p u t) (Some uri) k), z,
          insert (name_member (ux_lower E) (pr_name p) u) (N - cached_names (ux_lower E) u c), True)"
        "\<forall>l. uk_taggers (kv w2) u l = uk_taggers (kv w1) u l"
        "r2 = Inr () \<longrightarrow> (\<forall>l \<in> fst ` set z. on_label l u (kv w2) = derived_score (uk_taggers (kv w1) u l))" "clean \<longrightarrow> r2 = Inr ()" by blast
    have "user_sync_put E p uri u w = Some (case r2 of Inl e \<Rightarrow> (Inl (ep_from_redis (ux_show_redis E) e), w2) | Inr _ \<Rightarrow> (Inr (), w2))"
      using m Inr x l(1) by (cases r2) (auto simp: user_sync_put_def then_labels_def)
    then show ?thesis using l(2-5) s by (cases r2) (auto simp: user_state_def clean_def)
  qed
qed

section \<open>Reading through the cache\<close>

lemma index_write_any:
  "rg clean R (\<lambda>_. True) (put_index_sorted_set key items) (\<lambda>_ _. True) (\<lambda>_ _. True)"
  "rg clean R (\<lambda>_. True) (remove_from_index_sorted_set key ms) (\<lambda>_ _. True) (\<lambda>_ _. True)"
  by (cases "items = []"; cases "ms = []";
      simp add: put_index_sorted_set_def [abs_def] remove_from_index_sorted_set_def [abs_def] zset_put_def [abs_def] zset_del_def [abs_def] rg_call_any
        rg_pass [unfolded pass_def [abs_def]])+

lemma details_put_any: "rg clean R (\<lambda>_. True) (details_put_to_index lower users records) (\<lambda>_ _. True) (\<lambda>_ _. True)"
proof -
  have json: "rg clean R (\<lambda>_. True) (put_multiple_json ds) (\<lambda>_ _. True) (\<lambda>_ _. True)" for ds :: "(string \<times> user_details) list"
    by (induction ds rule: put_multiple_json.induct) (auto intro: rg_pass rg_andthen rg_call_any)
  have "rg clean R (\<lambda>_. True) (delete_existing_records lower us) (\<lambda>_ _. True) (\<lambda>_ _. True)" for us
    unfolding delete_existing_records_def details_get_from_index_def Let_def
    by (auto intro!: rg_pass rg_andthen rg_call_any index_write_any)
  then have "rg clean R (\<lambda>_. True) (search_put_to_index lower ds) (\<lambda>_ _. True) (\<lambda>_ _. True)" for ds
    unfolding search_put_to_index_def Let_def by (auto intro!: rg_andthen index_write_any)
  then show ?thesis unfolding details_put_to_index_def using json by (auto intro: rg_andthen)
qed

lemma fill_misses:
  "fill (map c users) (map k (filter (\<lambda>u. c u = None) users)) = map (\<lambda>u. if c u = None then k u else c u) users"
  by (induction users) auto

text \<open>A page of users is read from the cache, and what the cache lacks from the graph, each in its own place.\<close>

lemma users_read_through:
  fixes w :: "'a user_kv_scheme world"
  assumes "rely clean (\<lambda>g g'. uk_cache g' = uk_cache g \<and> uk_nodes g' = uk_nodes g) w" "get_by_ids lower users w = (Inr ds, w')"
  shows "ds = map (\<lambda>u. case uk_cache (kv w) u of Some d \<Rightarrow> Some d | None \<Rightarrow> map_option fst (uk_nodes (kv w) u)) users"
proof -
  let ?R = "\<lambda>g g' :: 'a user_kv_scheme. uk_cache g' = uk_cache g \<and> uk_nodes g' = uk_nodes g"
  define c k where "c = uk_cache (kv w)" and "k = (\<lambda>u. map_option fst (uk_nodes (kv w) u))"
  let ?P = "\<lambda>g :: 'a user_kv_scheme. uk_cache g = c \<and> (\<lambda>u. map_option fst (uk_nodes g u)) = k"
  let ?goal = "map (\<lambda>u. if c u = None then k u else c u) users"
  have st: "stays ?R ?P" by (auto simp: stays_def)
  have read: "rg clean ?R ?P (map_err KvOperationFailed (details_get_from_index users)) (\<lambda>x g. x = map c users \<and> ?P g) (\<lambda>_ _. True)"
    unfolding details_get_from_index_def by (auto intro!: rg_map_err_const rg_redis [OF st] rg_pass)
  have miss: "map fst (filter (\<lambda>(u, d). d = None) (zip users (map c users))) = filter (\<lambda>u. c u = None) users"
    by (induction users) auto
  have graph: "rg clean ?R ?P (map_err GraphOperationFailed (graph_call (get_users_details_by_ids us))) (\<lambda>x g. x = map k us \<and> ?P g) (\<lambda>_ _. True)" for us
    by (intro rg_map_err_const rg_graph [OF st]) (auto simp: get_users_details_by_ids_def dest: fun_cong)
  have "rg clean ?R ?P (get_by_ids lower users) (\<lambda>x _. x = ?goal) (\<lambda>_ _. True)"
    unfolding get_by_ids_def Let_def
  proof (rule rg_known [OF read], unfold miss, cases "filter (\<lambda>u. c u = None) users = []")
    case True
    then have "map c users = ?goal" by (auto simp: filter_empty_conv)
    then show "rg clean ?R ?P (if filter (\<lambda>u. c u = None) users = [] then pass (map c users)
       else andthen (map_err GraphOperationFailed (graph_call (get_users_details_by_ids (filter (\<lambda>u. c u = None) users)))) (\<lambda>fetched.
         if fetched = [] then pass (map c users)
         else andthen (map_err KvOperationFailed (details_put_to_index lower (filter (\<lambda>u. c u = None) users) fetched)) (\<lambda>_. pass (fill (map c users) fetched))))
       (\<lambda>x _. x = ?goal) (\<lambda>_ _. True)" using True by (auto intro: rg_pass)
  next
    case False
    have "rg clean ?R ?P (andthen (map_err KvOperationFailed (details_put_to_index lower (filter (\<lambda>u. c u = None) users) (map k (filter (\<lambda>u. c u = None) users))))
        (\<lambda>_. pass (fill (map c users) (map k (filter (\<lambda>u. c u = None) users))))) (\<lambda>x _. x = ?goal) (\<lambda>_ _. True)"
      unfolding fill_misses by (rule rg_andthen [OF rg_map_err_const [OF rg_weaken [OF details_put_any]]]) (auto intro: rg_pass)
    then show "rg clean ?R ?P (if filter (\<lambda>u. c u = None) users = [] then pass (map c users)
       else andthen (map_err GraphOperationFailed (graph_call (get_users_details_by_ids (filter (\<lambda>u. c u = None) users)))) (\<lambda>fetched.
         if fetched = [] then pass (map c users)
         else andthen (map_err KvOperationFailed (details_put_to_index lower (filter (\<lambda>u. c u = None) users) fetched)) (\<lambda>_. pass (fill (map c users) fetched))))
       (\<lambda>x _. x = ?goal) (\<lambda>_ _. True)" unfolding if_not_P [OF False] using False by (intro rg_known [OF graph]) auto
  qed
  from rgD(2) [OF this assms(1) _ assms(2)] have "ds = ?goal" by (simp add: c_def k_def)
  then show ?thesis by (auto simp: c_def k_def split: option.split)
qed

section \<open>Properties\<close>

text \<open>C13. A deleted user is not found any more. Provided the name the user is listed under before is the cached one, and the other tasks
  leave the user's own entries alone (the details, the node, the names, the id and the scored set of the profile's labels, which
  every tag added to or removed from the profile meanwhile would change), removing a profile returns, and when it succeeds no search set holds
  the user's name or id, and either the node and the cached details are gone, or both are tombstones and the user is on none of the
  labels of the profile, although the taggers and the users-by-tag sets of those labels may change meanwhile. Wherever it fails, every name
  the user is still listed under is the cached one, so the next attempt finds it.\<close>

theorem deleted_user_is_not_found:
  fixes w :: "'a user_kv_scheme world"
  assumes "rely False (taggers_at_work u) w" "names_ok u (ux_lower E) (user_state u (kv w))"
  shows "\<exists>r w'. user_del E u w = Some (r, w') \<and> names_ok u (ux_lower E) (user_state u (kv w')) \<and>
    (fault w = (\<lambda>_. None) \<and> graph_fault w = (\<lambda>_. None) \<longrightarrow> r = Inr () \<or> r = Inl SkipIndexing \<and> uk_nodes (kv w) u = None) \<and>
    (r = Inr () \<longrightarrow> names_of u (kv w') = {} \<and> u \<notin> fst ` set (z_sets (kv w') (sorted_key USER_ID_KEY)) \<and>
      (uk_nodes (kv w') u = None \<and> uk_cache (kv w') u = None \<or>
       (\<exists>t. uk_cache (kv w') u = Some (tombstone u t) \<and> ud_deleted (fst (the (uk_nodes (kv w') u)))) \<and>
       (\<forall>l \<in> fst ` set (z_sets (kv w') (sorted_key (USER_TAGS_KEY u))). on_label l u (kv w') = None)))"
proof -
  define clean where "clean \<longleftrightarrow> fault w = (\<lambda>_. None) \<and> graph_fault w = (\<lambda>_. None)"
  have r: "rely clean (taggers_at_work u) w" using assms(1) by (simp add: rely_def clean_def)
  obtain c k z N i where s: "user_state u (kv w) = (c, k, z, N, i)" by (cases "user_state u (kv w)")
  obtain q w1 where m: "user_remove E u w = (q, w1)" by force
  note d = rgD [OF removal.remove_rg [OF assms(2) [unfolded s]] r s m]
  show ?thesis
  proof (cases q)
    case (Inl e)
    then show ?thesis using m d(3) s by (auto simp: user_del_def then_labels_def clean_def user_state_def)
  next
    case (Inr x)
    show ?thesis
    proof (cases x)
      case False
      then have "user_state u (kv w1) = (None, None, z, {}, False)" using d(2) Inr by simp
      then show ?thesis using m Inr False by (auto simp: user_del_def then_labels_def user_state_def names_ok_def own_details_def)
    next
      case True
      then obtain t where t: "user_state u (kv w1) = (Some (tombstone u t), Some (stored (tombstone u t) None k), z, {}, False)"
        using d(2) Inr by auto
      have "ud_deleted (tombstone u t)" by (simp add: tombstone_def)
      with t evicted.labels_synced [OF d(1), of "tombstone u t" _ z "{}" False] obtain r2 w2 where
        l: "sync_user_labels u w1 = Some (r2, w2)"
          "user_state u (kv w2) = (Some (tombstone u t), Some (stored (tombstone u t) None k), z, {}, False)"
          "r2 = Inr () \<longrightarrow> (\<forall>l \<in> fst ` set z. on_label l u (kv w2) = None)" "clean \<longrightarrow> r2 = Inr ()" by blast
      have del: "ud_deleted (fst (stored (tombstone u t) None k))" by (simp add: stored_def tombstone_def split: option.split)
      have "user_del E u w = Some (case r2 of Inl e \<Rightarrow> (Inl (ep_from_redis (ux_show_redis E) e), w2) | Inr _ \<Rightarrow> (Inr (), w2))"
        using m Inr True l(1) by (cases r2) (auto simp: user_del_def then_labels_def)
      moreover have "names_ok u (ux_lower E) (user_state u (kv w2))" using l(2) by (simp add: names_ok_def own_details_def tombstone_def)
      ultimately show ?thesis using l(2-4) del by (cases r2) (auto simp: user_state_def clean_def)
    qed
  qed
qed

definition demo_user_env :: user_env where
  "demo_user_env = \<lparr>ux_lower = (\<lambda>n. n), ux_show_graph = (\<lambda>_. ''graph''), ux_show_redis = (\<lambda>_. ''redis'')\<rparr>"

definition demo_details :: "string \<Rightarrow> user_details" where
  "demo_details name = \<lparr>ud_name = name, ud_bio = None, ud_id = ''u'', ud_links = None, ud_status = None, ud_image = None,
     ud_indexed_at = 1, ud_deleted = False, ud_epoch = V1\<rparr>"

definition demo_users :: user_kv where
  "demo_users = \<lparr>nt_sets = (\<lambda>_. []),
     z_sets = (\<lambda>_. [])(sorted_key USER_NAME_KEY := [(''A:u'', 0)], sorted_key USER_ID_KEY := [(''u'', 0)],
       sorted_key (USER_TAGS_KEY ''u'') := [(''l'', 1)], sorted_key (TAG_GLOBAL_USER_TAGGERS ''l'') := [(''u'', 1)]),
     uk_nodes = (\<lambda>_. None)(''u'' \<mapsto> (demo_details ''A'', Some ''pubky'')),
     uk_tagged = [], uk_rels = {(''t'', ''u'')},
     uk_cache = (\<lambda>_. None)(''u'' \<mapsto> demo_details ''A''),
     uk_taggers = (\<lambda>v l. if v = ''u'' \<and> l = ''l'' then {''t''} else {})\<rparr>"

lemma demo_user_state:
  "user_state ''u'' demo_users = (Some (demo_details ''A''), Some (demo_details ''A'', Some ''pubky''), [(''l'', 1)], {''A:u''}, True)"
  "names_ok ''u'' (ux_lower demo_user_env) (user_state ''u'' demo_users)"
  by (auto simp: user_state_def names_of_def demo_users_def names_ok_def cached_names_def own_details_def name_member_def
      demo_details_def demo_user_env_def)

theorem deleted_user_is_not_found_witness:
  "\<exists>w'. user_del demo_user_env ''u'' (calm_world demo_users) = Some (Inr (), w') \<and> names_of ''u'' (kv w') = {}"
proof -
  have "rely False (taggers_at_work ''u'') (calm_world demo_users)" by (simp add: taggers_at_work_def)
  moreover have "fault (calm_world demo_users) = (\<lambda>_. None) \<and> graph_fault (calm_world demo_users) = (\<lambda>_. None)"
    "uk_nodes (kv (calm_world demo_users)) ''u'' \<noteq> None"
    by (simp_all add: calm_world_def demo_users_def)
  ultimately show ?thesis
    using deleted_user_is_not_found [of "''u''" "calm_world demo_users" demo_user_env] demo_user_state(2) by auto
qed

text \<open>C26. A stored profile is found under its name: writing a profile returns, and when it succeeds the node and the cached details
  are those of the profile, the user is listed by id, and the names the user is listed under are the new one and those of before
  except the one in the cache. So it is the new one only if the cached name was the only one, and a name that another
  attempt left without caching its details stays. On every label of the profile the user has the number of its taggers as the score, and is
  not there if there are none. The other tasks leave the user's entries, taggers and scores alone.\<close>

theorem stored_profile_is_found:
  fixes w :: "'a user_kv_scheme world"
  assumes "rely False (taggers_at_rest u) w" "own_details u (uk_cache (kv w) u)"
  shows "\<exists>r w'. user_sync_put E p uri u w = Some (r, w') \<and>
    (fault w = (\<lambda>_. None) \<and> graph_fault w = (\<lambda>_. None) \<longrightarrow> r = Inr ()) \<and>
    (r = Inr () \<longrightarrow> names_of u (kv w') = insert (name_member (ux_lower E) (pr_name p) u) (names_of u (kv w) - cached_names (ux_lower E) u (uk_cache (kv w) u)) \<and>
      u \<in> fst ` set (z_sets (kv w') (sorted_key USER_ID_KEY)) \<and>
      (\<exists>t. uk_cache (kv w') u = Some (from_homeserver p u t) \<and>
        uk_nodes (kv w') u = Some (stored (from_homeserver p u t) (Some uri) (uk_nodes (kv w) u))) \<and>
      (\<forall>l \<in> fst ` set (z_sets (kv w') (sorted_key (USER_TAGS_KEY u))). on_label l u (kv w') = derived_score (uk_taggers (kv w') u l)))"
  using user_put_facts [OF assms] .

definition demo_profile :: "string \<Rightarrow> user_profile" where
  "demo_profile name = \<lparr>pr_name = name, pr_bio = None, pr_image = None, pr_links = None, pr_status = None\<rparr>"

lemma half_done:
  fixes e :: redis_error
  defines "w \<equiv> (calm_world demo_users)\<lparr>fault := (\<lambda>n. if n = 7 then Some (LostRequest e) else None)\<rparr>"
  obtains w1 where "user_put_profile demo_user_env (demo_profile ''B'') ''pubky'' ''u'' w = (Inl (ep_from_redis (\<lambda>_. ''redis'') e), w1)"
    "uk_cache (kv w1) ''u'' = Some (demo_details ''A'')" "names_of ''u'' (kv w1) = {''B:u''}"
proof -
  let ?r = "user_put_profile demo_user_env (demo_profile ''B'') ''pubky'' ''u'' w"
  have "fst ?r = Inl (ep_from_redis (\<lambda>_. ''redis'') e) \<and> uk_cache (kv (snd ?r)) ''u'' = Some (demo_details ''A'') \<and>
      z_sets (kv (snd ?r)) (sorted_key USER_NAME_KEY) = [(''B:u'', 0)]"
    by (simp add: w_def user_put_profile_def now_def utc_now_def env_step_def calm_world_def demo_users_def andthen_def pass_def
        ux_graph_def ux_redis_def map_err_def graph_call_def redis_call_def create_user_def search_put_to_index_def
        delete_existing_records_def details_get_from_index_def List.map_filter_simps cached_name_def index_write_one
        details_put_to_index_def demo_details_def from_homeserver_def demo_profile_def name_member_def demo_user_env_def Let_def)
  then show thesis by (intro that [of "snd ?r"]) (auto simp: names_of_def prod_eq_iff)
qed

text \<open>A name in between: the attempt to store the name B failed before the details were cached, then the user takes the name C.\<close>

theorem stored_profile_is_found_witness:
  "\<exists>e w1 w2. user_sync_put demo_user_env (demo_profile ''B'') ''pubky'' ''u''
       ((calm_world demo_users)\<lparr>fault := (\<lambda>n. if n = 7 then Some (LostRequest e) else None)\<rparr>) = Some (Inl (ep_from_redis (\<lambda>_. ''redis'') e), w1) \<and>
     user_sync_put demo_user_env (demo_profile ''C'') ''pubky'' ''u'' (calm_world (kv w1)) = Some (Inr (), w2) \<and>
     names_of ''u'' (kv w2) = {''B:u'', ''C:u''}"
proof -
  fix e
  obtain w1 where h: "user_put_profile demo_user_env (demo_profile ''B'') ''pubky'' ''u''
        ((calm_world demo_users)\<lparr>fault := (\<lambda>n. if n = 7 then Some (LostRequest e) else None)\<rparr>) = (Inl (ep_from_redis (\<lambda>_. ''redis'') e), w1)"
      "uk_cache (kv w1) ''u'' = Some (demo_details ''A'')" "names_of ''u'' (kv w1) = {''B:u''}"
    by (rule half_done)
  let ?w = "calm_world (kv w1)"
  have "own_details ''u'' (uk_cache (kv ?w) ''u'')" using h(2) by (simp add: own_details_def demo_details_def)
  moreover have "rely False (taggers_at_rest ''u'') ?w" by (simp add: taggers_at_rest_def)
  moreover have "fault ?w = (\<lambda>_. None) \<and> graph_fault ?w = (\<lambda>_. None)" by (simp add: calm_world_def)
  moreover have "insert (name_member (ux_lower demo_user_env) (pr_name (demo_profile ''C'')) ''u'')
      (names_of ''u'' (kv ?w) - cached_names (ux_lower demo_user_env) ''u'' (uk_cache (kv ?w) ''u'')) = {''B:u'', ''C:u''}"
    using h(2,3) by (auto simp: cached_names_def name_member_def demo_user_env_def demo_profile_def demo_details_def)
  ultimately obtain w2 where "user_sync_put demo_user_env (demo_profile ''C'') ''pubky'' ''u'' ?w = Some (Inr (), w2)"
      "names_of ''u'' (kv w2) = {''B:u'', ''C:u''}"
    using stored_profile_is_found [of "''u''" ?w demo_user_env "demo_profile ''C''" "''pubky''"] by auto
  moreover have "user_sync_put demo_user_env (demo_profile ''B'') ''pubky'' ''u''
      ((calm_world demo_users)\<lparr>fault := (\<lambda>n. if n = 7 then Some (LostRequest e) else None)\<rparr>) = Some (Inl (ep_from_redis (\<lambda>_. ''redis'') e), w1)"
    using h(1) by (simp add: user_sync_put_def then_labels_def)
  ultimately show ?thesis by blast
qed

end
