(* ===== verification/Tag_Handler.thy ===== *)
theory Tag_Handler
  imports User_Handler Event_Dispatch
begin

text \<open>
  Tags: the handler of tag events (nexus-watcher/src/events/handlers/tag.rs), the \<open>TAGGED\<close> relationships of the graph and the
  resource nodes they create and orphan, the indexes of taggers and labels (models/tag, models/post/search.rs), and the
  addresses of tagged resources (universal\_tag/normalize.rs).
\<close>

section \<open>Addresses\<close>

definition ascii_lower :: "char \<Rightarrow> char" where
  "ascii_lower c = (if 65 \<le> (of_char c :: nat) \<and> (of_char c :: nat) \<le> 90 then char_of ((of_char c :: nat) + 32) else c)"

definition is_ascii_alphabetic :: "char \<Rightarrow> bool" where
  "is_ascii_alphabetic c \<longleftrightarrow> 97 \<le> (of_char (ascii_lower c) :: nat) \<and> (of_char (ascii_lower c) :: nat) \<le> 122"

definition scheme_char :: "char \<Rightarrow> bool" where
  "scheme_char c \<longleftrightarrow> is_ascii_alphabetic c \<or> 48 \<le> (of_char c :: nat) \<and> (of_char c :: nat) \<le> 57 \<or> c \<in> set ''+-.''"

text \<open>What the url crate reads off an address.\<close>

record url_parts =
  up_scheme :: string
  up_opaque :: bool
  up_as_str :: string
  up_host :: "string option"
  up_port :: "nat option"
  up_path :: string
  up_query :: "string option"

definition normalize_parsed_url :: "(nat \<Rightarrow> string) \<Rightarrow> url_parts \<Rightarrow> string" where
  "normalize_parsed_url show_port u =
     (if up_opaque u then takeWhile (\<lambda>c. c \<noteq> CHR ''#'') (up_as_str u)
      else
        let host = map ascii_lower (unwrap_or '''' (up_host u));
            port = (if up_port u = Some 80 \<and> up_scheme u = ''http'' \<or> up_port u = Some 443 \<and> up_scheme u = ''https'' then None
                    else up_port u)
        in up_scheme u @ ''://'' @ host @ (case port of None \<Rightarrow> '''' | Some p \<Rightarrow> '':'' @ show_port p) @ up_path u @
           (case up_query u of None \<Rightarrow> '''' | Some q \<Rightarrow> ''?'' @ q))"

definition normalize_uri ::
  "(nat \<Rightarrow> string) \<Rightarrow> (string \<Rightarrow> url_parts option) \<Rightarrow> string \<Rightarrow> (string, string \<times> string) result" where
  "normalize_uri show_port parse uri =
     (case parse uri of
        Some u \<Rightarrow> Inr (normalize_parsed_url show_port u, up_scheme u)
      | None \<Rightarrow>
          if CHR '':'' \<notin> set uri then Inl (''Invalid URI: '' @ uri)
          else
            let scheme = takeWhile (\<lambda>c. c \<noteq> CHR '':'') uri; remainder = drop (length scheme + 1) uri in
            if scheme = [] \<or> \<not> is_ascii_alphabetic (hd scheme) \<or> \<not> list_all scheme_char scheme then Inl (''Invalid URI scheme: '' @ uri)
            else Inr (map ascii_lower scheme @ '':'' @ remainder, map ascii_lower scheme))"

datatype uri_category = InternalKnown | InternalUnknown | External

definition classify_uri :: "(string \<Rightarrow> (string, string \<times> uri_resource) result) \<Rightarrow> string \<Rightarrow> uri_category" where
  "classify_uri pubky_app uri =
     (if map ascii_lower (take 8 uri) = ''pubky://''
      then (case pubky_app uri of
              Inr (_, PostR _) \<Rightarrow> InternalKnown
            | Inr (_, UserR) \<Rightarrow> InternalKnown
            | _ \<Rightarrow> InternalUnknown)
      else External)"

section \<open>Stores\<close>

record post_counts =
  pc_tags :: nat
  pc_unique_tags :: nat
  pc_replies :: nat
  pc_reposts :: nat
  pc_collections :: nat

text \<open>
  The graph's posts with their stored addresses and its resources (address, scheme, time of indexing), the sets of
  taggers by post and label, the cached times and counts of posts, and the sets behind the gate of the trust filter.
\<close>

record tag_kv = user_kv +
  tk_posts :: "string \<Rightarrow> string \<Rightarrow> string option option"
  tk_resources :: "string \<Rightarrow> (string \<times> string \<times> int) option"
  tk_post_taggers :: "string \<Rightarrow> string \<Rightarrow> string \<Rightarrow> string set"
  tk_details :: "string \<Rightarrow> string \<Rightarrow> int option"
  tk_counts :: "string \<Rightarrow> string \<Rightarrow> post_counts option"
  tk_gate :: tf_kv

section \<open>Graph queries\<close>

text \<open>\<open>MERGE\<close> of a relationship with its two \<open>SET\<close> clauses, and whether it was there before.\<close>

definition merge_tagged :: "(tag_edge \<Rightarrow> bool) \<Rightarrow> tag_edge \<Rightarrow> tag_edge list \<Rightarrow> bool \<times> tag_edge list" where
  "merge_tagged p e es =
     (if list_ex p es then (True, map (\<lambda>x. if p x then x\<lparr>te_uri := te_uri e\<rparr> else x) es) else (False, es @ [e]))"

definition same_tag :: "tag_edge \<Rightarrow> tag_edge \<Rightarrow> bool" where
  "same_tag e x \<longleftrightarrow> te_tagger x = te_tagger e \<and> te_target x = te_target e \<and> te_label x = te_label e"

definition new_tag :: "string \<Rightarrow> tag_node \<Rightarrow> string \<Rightarrow> string option \<Rightarrow> string \<Rightarrow> string \<Rightarrow> int \<Rightarrow> tag_edge" where
  "new_tag tagger target lbl app tid uri t =
     \<lparr>te_tagger = tagger, te_target = target, te_label = lbl, te_app = app, te_id = tid, te_uri = uri, te_indexed_at = t\<rparr>"

definition create_user_tag ::
  "string \<Rightarrow> string \<Rightarrow> string \<Rightarrow> string \<Rightarrow> string \<Rightarrow> int \<Rightarrow> 'a tag_kv_scheme \<Rightarrow> bool option \<times> 'a tag_kv_scheme" where
  "create_user_tag tagger tagged tid uri lbl t g =
     (if uk_nodes g tagged \<noteq> None \<and> uk_nodes g tagger \<noteq> None
      then let e = new_tag tagger (UserN tagged) lbl None tid uri t;
               (found, es) = merge_tagged (same_tag e) e (uk_tagged g)
           in (Some found, g\<lparr>uk_tagged := es\<rparr>)
      else (None, g))"

definition create_post_tag ::
  "string \<Rightarrow> string \<Rightarrow> string \<Rightarrow> string \<Rightarrow> string \<Rightarrow> string \<Rightarrow> int \<Rightarrow> 'a tag_kv_scheme \<Rightarrow> bool option \<times> 'a tag_kv_scheme" where
  "create_post_tag tagger author post tid uri lbl t g =
     (if uk_nodes g tagger \<noteq> None \<and> uk_nodes g author \<noteq> None \<and> tk_posts g author post \<noteq> None
      then let e = new_tag tagger (PostN author post) lbl None tid uri t;
               (found, es) = merge_tagged (same_tag e) e (uk_tagged g)
           in (Some found, g\<lparr>uk_tagged := es\<rparr>)
      else (None, g))"

definition create_resource_tag ::
  "string \<Rightarrow> string \<Rightarrow> string \<Rightarrow> string \<Rightarrow> string \<Rightarrow> string \<Rightarrow> string \<Rightarrow> string \<Rightarrow> int \<Rightarrow> 'a tag_kv_scheme \<Rightarrow>
   bool option \<times> 'a tag_kv_scheme" where
  "create_resource_tag tagger res uri scheme app tid tag_uri lbl t g =
     (if uk_nodes g tagger \<noteq> None
      then let e = new_tag tagger (ResourceN res) lbl (Some app) tid tag_uri t;
               (found, es) = merge_tagged (\<lambda>x. same_tag e x \<and> te_app x = Some app) e (uk_tagged g)
           in (Some found, g\<lparr>uk_tagged := es,
                 tk_resources := (case tk_resources g res of
                    None \<Rightarrow> (tk_resources g)(res \<mapsto> (uri, scheme, t)) | Some _ \<Rightarrow> tk_resources g)\<rparr>)
      else (None, g))"

definition tag_file :: "string \<Rightarrow> string \<Rightarrow> string option \<Rightarrow> tag_edge \<Rightarrow> bool" where
  "tag_file user tid app e \<longleftrightarrow> te_tagger e = user \<and> te_id e = tid \<and> te_app e = app"

text \<open>The row of a tag: the relationship and, for a post, its stored address.\<close>

definition get_tag_target ::
  "string \<Rightarrow> string \<Rightarrow> string option \<Rightarrow> 'a tag_kv_scheme \<Rightarrow> (tag_edge \<times> string option) option \<times> 'a tag_kv_scheme" where
  "get_tag_target user tid app g =
     (map_option (\<lambda>e. (e, case te_target e of PostN a p \<Rightarrow> unwrap_or None (tk_posts g a p) | _ \<Rightarrow> None))
        (List.find (tag_file user tid app) (uk_tagged g)), g)"

text \<open>The resources the deleted relationships led to go when no other relationship leads to them.\<close>

definition delete_tag :: "string \<Rightarrow> string \<Rightarrow> string option \<Rightarrow> 'a tag_kv_scheme \<Rightarrow> unit \<times> 'a tag_kv_scheme" where
  "delete_tag user tid app g =
     (let gone = filter (tag_file user tid app) (uk_tagged g);
          left = filter (\<lambda>e. \<not> tag_file user tid app e) (uk_tagged g)
      in ((), g\<lparr>uk_tagged := left,
            tk_resources := (\<lambda>r. if list_ex (\<lambda>e. te_target e = ResourceN r) gone \<and> \<not> list_ex (\<lambda>e. te_target e = ResourceN r) left
                                 then None else tk_resources g r)\<rparr>))"

section \<open>Indexes\<close>

definition POST_TAGS_KEY :: "string \<Rightarrow> string \<Rightarrow> string" where
  "POST_TAGS_KEY author post = ''Posts:Tag:'' @ author @ '':'' @ post"

definition TAGS_LABEL :: string where "TAGS_LABEL = ''Tags:Label''"

definition delta_of :: "score_action \<Rightarrow> int" where
  "delta_of a = (case a of Increment v \<Rightarrow> v | Decrement v \<Rightarrow> - v)"

definition put_score :: "string \<Rightarrow> string \<Rightarrow> score_action \<Rightarrow> ('a zset_kv_scheme, redis_error, unit) run" where
  "put_score key m a =
     redis_call (\<lambda>g. ((), g\<lparr>z_sets := (z_sets g)(key := AList.update m (unwrap_or 0 (map_of (z_sets g key) m) + delta_of a) (z_sets g key))\<rparr>))"

definition tag_score_key :: "string \<Rightarrow> string option \<Rightarrow> string" where
  "tag_score_key author extra = (case extra of Some post \<Rightarrow> POST_TAGS_KEY author post | None \<Rightarrow> USER_TAGS_KEY author)"

definition update_index_score :: "string \<Rightarrow> string option \<Rightarrow> string \<Rightarrow> score_action \<Rightarrow> ('a tag_kv_scheme, redis_error, unit) run" where
  "update_index_score author extra lbl a = put_score (sorted_key (tag_score_key author extra)) lbl a"

definition index_taggers :: "string \<Rightarrow> string option \<Rightarrow> string \<Rightarrow> 'a tag_kv_scheme \<Rightarrow> string set" where
  "index_taggers author extra lbl g =
     (case extra of Some post \<Rightarrow> tk_post_taggers g author post lbl | None \<Rightarrow> uk_taggers g author lbl)"

definition set_taggers :: "string \<Rightarrow> string option \<Rightarrow> string \<Rightarrow> string set \<Rightarrow> 'a tag_kv_scheme \<Rightarrow> 'a tag_kv_scheme" where
  "set_taggers author extra lbl s g =
     (case extra of
        Some post \<Rightarrow> g\<lparr>tk_post_taggers := (tk_post_taggers g)(author := (tk_post_taggers g author)(post := (tk_post_taggers g author post)(lbl := s)))\<rparr>
      | None \<Rightarrow> g\<lparr>uk_taggers := (uk_taggers g)(author := (uk_taggers g author)(lbl := s))\<rparr>)"

definition add_tagger_to_index :: "string \<Rightarrow> string option \<Rightarrow> string \<Rightarrow> string \<Rightarrow> ('a tag_kv_scheme, redis_error, unit) run" where
  "add_tagger_to_index author extra tagger lbl =
     redis_call (\<lambda>g. ((), set_taggers author extra lbl (insert tagger (index_taggers author extra lbl g)) g))"

definition taggers_del_from_index :: "string \<Rightarrow> string \<Rightarrow> string option \<Rightarrow> string \<Rightarrow> ('a tag_kv_scheme, redis_error, unit) run" where
  "taggers_del_from_index tagger author extra lbl =
     redis_call (\<lambda>g. ((), set_taggers author extra lbl (index_taggers author extra lbl g - {tagger}) g))"

text \<open>Two calls: the set is checked before its member.\<close>

definition check_tagger :: "string \<Rightarrow> string option \<Rightarrow> string \<Rightarrow> string \<Rightarrow> ('a tag_kv_scheme, redis_error, bool) run" where
  "check_tagger author extra lbl tagger =
     andthen (redis_call (\<lambda>g. (index_taggers author extra lbl g \<noteq> {}, g))) (\<lambda>found.
       if found then redis_call (\<lambda>g. (tagger \<in> index_taggers author extra lbl g, g)) else pass False)"

definition tag_search_put :: "string \<Rightarrow> ('a tag_kv_scheme, redis_error, unit) run" where
  "tag_search_put lbl = put_index_sorted_set TAGS_LABEL [(0, lbl)]"

definition tag_search_del :: "string \<Rightarrow> ('a tag_kv_scheme, redis_error, unit) run" where
  "tag_search_del lbl = remove_from_index_sorted_set TAGS_LABEL [lbl]"

definition counts_invalidate :: "string \<Rightarrow> string \<Rightarrow> ('a tag_kv_scheme, redis_error, unit) run" where
  "counts_invalidate author post =
     redis_call (\<lambda>g. ((), g\<lparr>tk_counts := (tk_counts g)(author := (tk_counts g author)(post := None))\<rparr>))"

section \<open>Posts by label\<close>

definition via_gate :: "(tf_kv \<Rightarrow> 'x \<times> tf_kv) \<Rightarrow> 'a tag_kv_scheme \<Rightarrow> unit \<times> 'a tag_kv_scheme" where
  "via_gate f g = ((), g\<lparr>tk_gate := snd (f (tk_gate g))\<rparr>)"

definition tagged_post :: "string \<Rightarrow> string \<Rightarrow> string" where
  "tagged_post author post = author @ '':'' @ post"

definition label_engagement :: "string \<Rightarrow> string \<Rightarrow> string \<Rightarrow> score_action \<Rightarrow> ('a tag_kv_scheme, redis_error, unit) run" where
  "label_engagement author post lbl a =
     redis_call (via_gate (incr_script (sorted_key (TAG_GLOBAL_POST_ENGAGEMENT lbl)) (delta_of a) (tagged_post author post)))"

definition stream_engagement :: "string \<Rightarrow> string \<Rightarrow> score_action \<Rightarrow> ('a tag_kv_scheme, redis_error, unit) run" where
  "stream_engagement author post a =
     redis_call (via_gate (incr_script (sorted_key POST_TOTAL_ENGAGEMENT_KEY) (delta_of a) (tagged_post author post)))"

definition label_set :: "string \<Rightarrow> 'a tag_kv_scheme \<Rightarrow> (string \<rightharpoonup> int)" where
  "label_set lbl g = tf_sets (tk_gate g) (sorted_key (TAG_GLOBAL_POST_TIMELINE lbl))"

definition posts_by_tag_put :: "string \<Rightarrow> string \<Rightarrow> string \<Rightarrow> ('a tag_kv_scheme, redis_error, unit) run" where
  "posts_by_tag_put author post lbl =
     andthen (redis_call (\<lambda>g. (label_set lbl g (tagged_post author post), g))) (\<lambda>member.
       if member \<noteq> None then pass ()
       else andthen (redis_call (\<lambda>g. (tk_details g author post, g))) (\<lambda>details.
         case details of
           None \<Rightarrow> pass ()
         | Some t \<Rightarrow> redis_call (via_gate (add_script (sorted_key (TAG_GLOBAL_POST_TIMELINE lbl)) [(f64_of_int t, tagged_post author post)]))))"

text \<open>The scan of the taggers stops at the first page; only whether it found one matters.\<close>

definition posts_by_tag_del :: "string \<Rightarrow> string \<Rightarrow> string \<Rightarrow> ('a tag_kv_scheme, redis_error, unit) run" where
  "posts_by_tag_del author post lbl =
     andthen (redis_call (\<lambda>g. (index_taggers author (Some post) lbl g = {}, g))) (\<lambda>none_left.
       if \<not> none_left then pass ()
       else redis_call (via_gate (\<lambda>t. ((), t\<lparr>tf_sets := (tf_sets t)(sorted_key (TAG_GLOBAL_POST_TIMELINE lbl) :=
              (tf_sets t (sorted_key (TAG_GLOBAL_POST_TIMELINE lbl)))(tagged_post author post := None))\<rparr>))))"

definition posts_by_tag_found :: "string \<Rightarrow> ('a tag_kv_scheme, redis_error, bool) run" where
  "posts_by_tag_found lbl =
     andthen (redis_call (\<lambda>g. (dom (label_set lbl g) \<noteq> {}, g))) (\<lambda>found.
       if found then redis_call (\<lambda>g. (dom (label_set lbl g) \<noteq> {}, g)) else pass False)"

section \<open>The handler\<close>

text \<open>
  What the handler is given: lower-casing and the printers of errors, the writer of notifications, the grammar of
  addresses, the url crate, the hash of an address, the ingestor, the printer of a user's address, the reads of a post's
  kind and of whether it is a reply, and the order in which the executor runs the arms of a join.
\<close>

record 's tag_env =
  tx_users :: user_env
  tx_json :: "notification_body \<Rightarrow> string"
  tx_specs :: uri_specs
  tx_pubky_app :: "string \<Rightarrow> (string, string \<times> uri_resource) result"
  tx_url_parse :: "string \<Rightarrow> url_parts option"
  tx_show_port :: "nat \<Rightarrow> string"
  tx_resource_id :: "string \<Rightarrow> string"
  tx_ingest :: "string \<Rightarrow> 's world \<Rightarrow> (model_error, unit) result \<times> 's world"
  tx_user_uri :: "string \<Rightarrow> (string, string) result"
  tx_is_reply :: "string \<Rightarrow> string \<Rightarrow> ('s, ep_error, bool) run"
  tx_post_kind :: "string \<Rightarrow> string \<Rightarrow> ('s, ep_error, string) run"
  tx_picks :: "nat list"

definition tx_graph :: "'s tag_env \<Rightarrow> ('s, graph_error, 'x) run \<Rightarrow> ('s, ep_error, 'x) run" where
  "tx_graph E m = ux_graph (tx_users E) m"

definition tx_redis :: "'s tag_env \<Rightarrow> ('s, redis_error, 'x) run \<Rightarrow> ('s, ep_error, 'x) run" where
  "tx_redis E m = ux_redis (tx_users E) m"

definition fail :: "'e \<Rightarrow> ('s, 'e, 'x) run" where
  "fail e w = (Inl e, w)"

text \<open>An ingestion that only counts if it was refused for a blacklisted homeserver.\<close>

definition tx_ingest_or_drop :: "'s tag_env \<Rightarrow> string \<Rightarrow> ('s, ep_error, unit) run" where
  "tx_ingest_or_drop E user w =
     (case tx_ingest E user w of (r, w1) \<Rightarrow>
        (fail_on_blacklisted_hs (ux_show_graph (tx_users E)) (ux_show_redis (tx_users E)) r, w1))"

datatype tag_target = TargetPost string string | TargetUser string

definition tag_target_of :: "'s tag_env \<Rightarrow> string \<Rightarrow> (ep_error, tag_target) result" where
  "tag_target_of E uri =
     (case tx_pubky_app E uri of
        Inl e \<Rightarrow> Inl (UnsupportedTarget (''The tagged URI is not a pubky.app URI: '' @ e))
      | Inr (user, PostR post) \<Rightarrow> Inr (TargetPost user post)
      | Inr (user, UserR) \<Rightarrow> Inr (TargetUser user)
      | Inr _ \<Rightarrow> Inl (UnsupportedTarget ''The tagged resource is not Post or User''))"

definition put_sync_resource ::
  "'a tag_kv_scheme tag_env \<Rightarrow> string \<Rightarrow> string \<Rightarrow> string \<Rightarrow> string \<Rightarrow> string \<Rightarrow> string \<Rightarrow> string \<Rightarrow> string \<Rightarrow> int \<Rightarrow>
   ('a tag_kv_scheme, ep_error, unit) run" where
  "put_sync_resource E tagger res uri scheme app tid tag_uri lbl t =
     andthen (tx_graph E (graph_call (create_resource_tag tagger res uri scheme app tid tag_uri lbl t))) (\<lambda>flag.
       case execute_graph_operation flag of
         OpMissingDependency \<Rightarrow> fail (MissingDependency [tagger])
       | _ \<Rightarrow> tx_redis E (tag_search_put lbl))"

definition put_sync_post ::
  "'a tag_kv_scheme tag_env \<Rightarrow> string \<Rightarrow> string \<Rightarrow> string \<Rightarrow> string \<Rightarrow> string \<Rightarrow> string \<Rightarrow> string \<Rightarrow> int \<Rightarrow>
   ('a tag_kv_scheme, ep_error, unit) run" where
  "put_sync_post E tagger author post tid tag_uri lbl post_uri t =
     andthen (tx_graph E (graph_call (create_post_tag tagger author post tid tag_uri lbl t))) (\<lambda>flag.
       case execute_graph_operation flag of
         Updated \<Rightarrow>
           join_arms (tx_picks E)
             [tx_redis E (add_tagger_to_index author (Some post) tagger lbl),
              tx_redis E (posts_by_tag_put author post lbl),
              tx_redis E (tag_search_put lbl),
              tx_redis E (counts_invalidate author post)]
       | OpMissingDependency \<Rightarrow>
           andthen (case tx_pubky_app E post_uri of Inr (user, _) \<Rightarrow> tx_ingest_or_drop E user | Inl _ \<Rightarrow> pass ()) (\<lambda>_.
             fail (MissingDependency [post_uri]))
       | CreatedOrDeleted \<Rightarrow>
           join_arms (tx_picks E)
             [tx_redis E (counts_invalidate author post),
              tx_redis E (update_index_score author (Some post) lbl (Increment 1)),
              tx_redis E (add_tagger_to_index author (Some post) tagger lbl),
              tx_redis E (label_engagement author post lbl (Increment 1)),
              andthen (tx_is_reply E author post) (\<lambda>reply.
                if \<not> reply then tx_redis E (stream_engagement author post (Increment 1)) else pass ()),
              tx_redis E (posts_by_tag_put author post lbl),
              andthen (tx_post_kind E author post) (\<lambda>kind. tx_redis E (new_post_tag (tx_json E) tagger author lbl post_uri kind)),
              tx_redis E (tag_search_put lbl)])"

definition put_sync_user ::
  "'a tag_kv_scheme tag_env \<Rightarrow> string \<Rightarrow> string \<Rightarrow> string \<Rightarrow> string \<Rightarrow> string \<Rightarrow> int \<Rightarrow> ('a tag_kv_scheme, ep_error, unit) run" where
  "put_sync_user E tagger tagged tid tag_uri lbl t =
     andthen (tx_graph E (graph_call (create_user_tag tagger tagged tid tag_uri lbl t))) (\<lambda>flag.
       case execute_graph_operation flag of
         Updated \<Rightarrow>
           andthen (join_arms (tx_picks E)
             [tx_redis E (add_tagger_to_index tagged None tagger lbl),
              tx_redis E (tag_search_put lbl)]) (\<lambda>_.
           tx_redis E (sync_index_score tagged lbl))
       | OpMissingDependency \<Rightarrow>
           andthen (tx_ingest_or_drop E tagged) (\<lambda>_.
             case tx_user_uri E tagged of Inl e \<Rightarrow> fail (Generic e) | Inr uri \<Rightarrow> fail (MissingDependency [uri]))
       | CreatedOrDeleted \<Rightarrow>
           andthen (join_arms (tx_picks E)
             [tx_redis E (update_index_score tagged None lbl (Increment 1)),
              tx_redis E (add_tagger_to_index tagged None tagger lbl),
              tx_redis E (new_user_tag (tx_json E) tagger tagged lbl),
              tx_redis E (tag_search_put lbl)]) (\<lambda>_.
           tx_redis E (sync_index_score tagged lbl)))"

definition tag_sync_put ::
  "'a tag_kv_scheme tag_env \<Rightarrow> app_tag \<Rightarrow> string \<Rightarrow> string \<Rightarrow> string \<Rightarrow> ('a tag_kv_scheme, ep_error, unit) run" where
  "tag_sync_put E tag event_uri tagger tid =
     (case tag_target_of E (at_uri tag) of
        Inl e \<Rightarrow> fail e
      | Inr target \<Rightarrow>
          andthen now (\<lambda>t.
            case target of
              TargetPost author post \<Rightarrow> put_sync_post E tagger author post tid event_uri (at_label tag) (at_uri tag) t
            | TargetUser user \<Rightarrow> put_sync_user E tagger user tid event_uri (at_label tag) t))"

definition tag_sync_put_resource ::
  "'a tag_kv_scheme tag_env \<Rightarrow> app_tag \<Rightarrow> string \<Rightarrow> string \<Rightarrow> string \<Rightarrow> string \<Rightarrow> ('a tag_kv_scheme, ep_error, unit) run" where
  "tag_sync_put_resource E tag event_uri tagger tid app =
     (if classify_uri (tx_pubky_app E) (at_uri tag) = InternalKnown then tag_sync_put E tag event_uri tagger tid
      else case normalize_uri (tx_show_port E) (tx_url_parse E) (at_uri tag) of
        Inl e \<Rightarrow> fail (Generic e)
      | Inr (normalized, scheme) \<Rightarrow>
          andthen now (\<lambda>t.
            put_sync_resource E tagger (tx_resource_id E normalized) normalized scheme app tid event_uri (at_label tag) t))"

section \<open>Removal\<close>

record tag_storage_uri =
  ts_user_id :: string
  ts_tag_id :: string
  ts_app :: "string option"

definition parse_tag_storage_uri :: "uri_specs \<Rightarrow> string \<Rightarrow> (ep_error, tag_storage_uri) result" where
  "parse_tag_storage_uri sp uri =
     (case try_from_uri sp uri of
        Inl e \<Rightarrow> Inl (Generic e)
      | Inr (PubkyApp user (TagR tid)) \<Rightarrow> Inr \<lparr>ts_user_id = user, ts_tag_id = tid, ts_app = None\<rparr>
      | Inr (UniversalTag user app (TagR tid)) \<Rightarrow> Inr \<lparr>ts_user_id = user, ts_tag_id = tid, ts_app = Some app\<rparr>
      | Inr _ \<Rightarrow> Inl (Generic ''Expected tag URI''))"

definition del_sync_user ::
  "'a tag_kv_scheme tag_env \<Rightarrow> string \<Rightarrow> string \<Rightarrow> string \<Rightarrow> bool \<Rightarrow> ('a tag_kv_scheme, ep_error, unit) run" where
  "del_sync_user E tagger tagged lbl indexed =
     andthen (join_arms (tx_picks E)
       [if indexed then tx_redis E (update_index_score tagged None lbl (Decrement 1)) else pass (),
        tx_redis E (taggers_del_from_index tagger tagged None lbl),
        if indexed then tx_redis E (new_user_untag (tx_json E) tagger tagged lbl) else pass ()]) (\<lambda>_.
     tx_redis E (sync_index_score tagged lbl))"

definition del_sync_post ::
  "'a tag_kv_scheme tag_env \<Rightarrow> string \<Rightarrow> string \<Rightarrow> string \<Rightarrow> string \<Rightarrow> string \<Rightarrow> bool \<Rightarrow> ('a tag_kv_scheme, ep_error, unit) run" where
  "del_sync_post E tagger post author post_uri lbl indexed =
     andthen (join_arms (tx_picks E)
       [if indexed then tx_redis E (update_index_score author (Some post) lbl (Decrement 1)) else pass (),
        if indexed then tx_redis E (label_engagement author post lbl (Decrement 1)) else pass (),
        if indexed then andthen (tx_is_reply E author post) (\<lambda>reply.
          if \<not> reply then tx_redis E (stream_engagement author post (Decrement 1)) else pass ()) else pass (),
        if indexed then andthen (tx_post_kind E author post) (\<lambda>kind.
          tx_redis E (new_post_untag (tx_json E) tagger author lbl post_uri kind)) else pass (),
        tx_redis E (taggers_del_from_index tagger author (Some post) lbl)]) (\<lambda>_.
     andthen (tx_redis E (posts_by_tag_del author post lbl)) (\<lambda>_.
     andthen (tx_redis E (posts_by_tag_found lbl)) (\<lambda>found.
       if found then pass () else tx_redis E (tag_search_del lbl))))"

text \<open>The row of the tag to remove, if any: a tag of an application on a known post or user has no application of its own.\<close>

definition find_tag_row ::
  "'a tag_kv_scheme tag_env \<Rightarrow> tag_storage_uri \<Rightarrow> ('a tag_kv_scheme, ep_error, (tag_edge \<times> string option) option) run" where
  "find_tag_row E ts =
     andthen (tx_graph E (graph_call (get_tag_target (ts_user_id ts) (ts_tag_id ts) (ts_app ts)))) (\<lambda>row.
       if row \<noteq> None \<or> ts_app ts = None then pass row
       else andthen (tx_graph E (graph_call (get_tag_target (ts_user_id ts) (ts_tag_id ts) None))) (\<lambda>row.
         case row of
           Some (e, _) \<Rightarrow> (case te_target e of ResourceN _ \<Rightarrow> pass None | _ \<Rightarrow> pass row)
         | None \<Rightarrow> pass None))"

definition unindex_tag ::
  "'a tag_kv_scheme tag_env \<Rightarrow> string \<Rightarrow> tag_edge \<Rightarrow> string option \<Rightarrow> ('a tag_kv_scheme, ep_error, unit) run" where
  "unindex_tag E tagger e post_uri =
     (case te_target e of
        UserN user \<Rightarrow>
          andthen (tx_redis E (check_tagger user None (te_label e) tagger)) (\<lambda>indexed.
            del_sync_user E tagger user (te_label e) indexed)
      | PostN author post \<Rightarrow>
          andthen (tx_redis E (check_tagger author (Some post) (te_label e) tagger)) (\<lambda>indexed.
            case post_uri of
              None \<Rightarrow> fail (Generic ''Post has no stored uri'')
            | Some uri \<Rightarrow> del_sync_post E tagger post author uri (te_label e) indexed)
      | ResourceN _ \<Rightarrow> pass ())"

definition tag_sync_del :: "'a tag_kv_scheme tag_env \<Rightarrow> string \<Rightarrow> ('a tag_kv_scheme, ep_error, unit) run" where
  "tag_sync_del E tag_uri =
     (case parse_tag_storage_uri (tx_specs E) tag_uri of
        Inl e \<Rightarrow> fail e
      | Inr ts \<Rightarrow>
          andthen (find_tag_row E ts) (\<lambda>row.
            case row of
              None \<Rightarrow> pass ()
            | Some (e, post_uri) \<Rightarrow>
                andthen (unindex_tag E (ts_user_id ts) e post_uri) (\<lambda>_.
                andthen (tx_graph E (graph_call (delete_tag (ts_user_id ts) (ts_tag_id ts) (te_app e)))) (\<lambda>_.
                  case te_target e of
                    PostN author post \<Rightarrow> tx_redis E (counts_invalidate author post)
                  | _ \<Rightarrow> pass ()))))"

section \<open>What the handler does to a view of the stores\<close>

definition node_of :: "string \<Rightarrow> string option \<Rightarrow> tag_node" where
  "node_of author extra = (case extra of Some post \<Rightarrow> PostN author post | None \<Rightarrow> UserN author)"

definition tag_env_apart :: "bool \<Rightarrow> ('s \<Rightarrow> 'v) \<Rightarrow> 's tag_env \<Rightarrow> bool" where
  "tag_env_apart clean V E \<longleftrightarrow> (\<forall>u s. rg clean (same V) (\<lambda>g. V g = s) (tx_ingest E u) (\<lambda>_ g. V g = s) (\<lambda>_ g. V g = s)) \<and>
     (\<forall>a p. quiet clean V (tx_is_reply E a p) \<and> quiet clean V (tx_post_kind E a p))"

text \<open>
  \<open>tag_effects\<close>: a view of the stores that the counts, scores, labels and notifications are no part of, with its
  relationships of one tagger and the effects on it of writing a relationship, of adding and removing the tagger, of
  deriving a score and of deleting a relationship. The handler's effect on the view is composed of these.
\<close>

lemma tag_notes:
  "new_user_tag json a b l = (if a = b then pass () else notification_put json b (TagProfile a l))"
  "new_user_untag json a b l = (if a = b then pass () else notification_put json b (UntagProfile a l))"
  "new_post_tag json a b l u k = (if a = b then pass () else notification_put json b (TagPost a l u k))"
  "new_post_untag json a b l u k = (if a = b then pass () else notification_put json b (UntagPost a l u k))"
  by (simp_all add: fun_eq_iff new_user_tag_def new_user_untag_def new_post_tag_def new_post_untag_def pass_def)

lemma rg_note:
  "(\<And>c. rg clean R P (redis_call (zadd_notification u (json b) c)) Q E) \<Longrightarrow> rg clean R P (notification_put json u b) Q E"
  by (rule rg_pointwise [where f = "\<lambda>c. redis_call (zadd_notification u (json b) (f64_of_int c))" and h = "\<lambda>w. clock w (tick w)"])
    (auto simp: notification_put_def)

locale tag_effects =
  fixes V :: "'a tag_kv_scheme \<Rightarrow> 'v"
    and t :: string
    and edges :: "'v \<Rightarrow> tag_edge list"
    and link :: "(tag_edge \<Rightarrow> bool) \<Rightarrow> tag_edge \<Rightarrow> 'v \<Rightarrow> 'v"
    and on_set :: "tag_node \<Rightarrow> string \<Rightarrow> 'v \<Rightarrow> 'v"
    and off_set :: "tag_node \<Rightarrow> string \<Rightarrow> 'v \<Rightarrow> 'v"
    and score :: "string \<Rightarrow> string \<Rightarrow> 'v \<Rightarrow> 'v"
    and cut :: "string \<Rightarrow> string option \<Rightarrow> 'v \<Rightarrow> 'v"
  assumes V_notes: "V (g\<lparr>nt_sets := n\<rparr>) = V g"
    and V_scores: "V (g\<lparr>z_sets := (z_sets g)(sorted_key (tag_score_key a x) := z)\<rparr>) = V g"
    and V_labels: "V (g\<lparr>z_sets := (z_sets g)(sorted_key TAGS_LABEL := z)\<rparr>) = V g"
    and V_counts: "V (g\<lparr>tk_counts := c\<rparr>) = V g"
    and V_gate: "V (g\<lparr>tk_gate := f\<rparr>) = V g"
    and V_edges: "edges (V g) = filter (\<lambda>e. te_tagger e = t) (uk_tagged g)"
    and V_link: "te_tagger e = t \<Longrightarrow> (\<And>y. p y \<Longrightarrow> te_tagger y = t) \<Longrightarrow>
      V (g\<lparr>uk_tagged := snd (merge_tagged p e (uk_tagged g))\<rparr>) = link p e (V g)"
    and V_resources: "V (g\<lparr>tk_resources := rs\<rparr>) = V g"
    and V_add: "V (set_taggers a x l (insert t (index_taggers a x l g)) g) = on_set (node_of a x) l (V g)"
    and V_del: "V (set_taggers a x l (index_taggers a x l g - {t}) g) = off_set (node_of a x) l (V g)"
    and V_sync: "V (snd (cardinality_script u l g)) = score u l (V g)"
    and V_cut: "V (g\<lparr>uk_tagged := filter (\<lambda>e. \<not> tag_file t i app e) (uk_tagged g)\<rparr>) = cut i app (V g)"
    and on_twice: "on_set k l (on_set k l s) = on_set k l s"
    and off_twice: "off_set k l (off_set k l s) = off_set k l s"
begin

lemma quiet_redis: "quiet clean V m \<Longrightarrow> quiet clean V (tx_redis E m)"
  unfolding tx_redis_def ux_redis_def by (rule acts_map_err)

lemma quiet_note: "quiet clean V (notification_put json u b)"
  unfolding acts_def by (intro allI rg_note rg_redis stays_same) (auto simp: zadd_notification_def V_notes)

lemma quiet_notes:
  "quiet clean V (new_user_tag json a b l)" "quiet clean V (new_user_untag json a b l)"
  "quiet clean V (new_post_tag json a b l u k)" "quiet clean V (new_post_untag json a b l u k)"
  unfolding tag_notes by (simp_all add: quiet_note quiet_pass)

lemma quiet_index:
  "quiet clean V (update_index_score a x l c)" "quiet clean V (counts_invalidate a p)"
  "quiet clean V (label_engagement a p l c)" "quiet clean V (stream_engagement a p c)"
  "quiet clean V (tag_search_put l)" "quiet clean V (tag_search_del l)"
  unfolding update_index_score_def put_score_def counts_invalidate_def label_engagement_def stream_engagement_def
    tag_search_put_def tag_search_del_def put_index_sorted_set_def remove_from_index_sorted_set_def zset_put_def zset_del_def
  by (auto intro!: acts_redis simp: V_scores V_counts V_gate V_labels via_gate_def)

lemma quiet_posts:
  "quiet clean V (posts_by_tag_put a p l)" "quiet clean V (posts_by_tag_del a p l)" "quiet clean V (posts_by_tag_found l)"
  "quiet clean V (check_tagger a x l y)"
  unfolding posts_by_tag_put_def posts_by_tag_del_def posts_by_tag_found_def check_tagger_def
  by (auto intro!: quiet_andthen acts_redis quiet_pass simp: via_gate_def V_gate split: option.split)

lemma add_acts: "acts clean V (tx_redis E (add_tagger_to_index a x t l)) (on_set (node_of a x) l)"
  unfolding tx_redis_def ux_redis_def add_tagger_to_index_def by (intro acts_map_err acts_redis) (simp add: V_add)

lemma del_acts: "acts clean V (tx_redis E (taggers_del_from_index t a x l)) (off_set (node_of a x) l)"
  unfolding tx_redis_def ux_redis_def taggers_del_from_index_def by (intro acts_map_err acts_redis) (simp add: V_del)

lemma sync_acts: "acts clean V (tx_redis E (sync_index_score u l)) (score u l)"
  unfolding tx_redis_def ux_redis_def sync_index_score_def by (intro acts_map_err acts_redis) (simp add: V_sync)

lemmas quiet_calls = quiet_redis quiet_notes quiet_index quiet_posts quiet_pass quiet_andthen

text \<open>The relationship is written first.\<close>

lemma create_link:
  "V (snd (create_user_tag t u i uri l c g)) =
     (if fst (create_user_tag t u i uri l c g) = None then V g else link (same_tag (new_tag t (UserN u) l None i uri c)) (new_tag t (UserN u) l None i uri c) (V g))"
  "V (snd (create_post_tag t a p i uri l c g)) =
     (if fst (create_post_tag t a p i uri l c g) = None then V g else link (same_tag (new_tag t (PostN a p) l None i uri c)) (new_tag t (PostN a p) l None i uri c) (V g))"
  "V (snd (create_resource_tag t r ru sc app i uri l c g)) =
     (if fst (create_resource_tag t r ru sc app i uri l c g) = None then V g
      else link (\<lambda>y. same_tag (new_tag t (ResourceN r) l (Some app) i uri c) y \<and> te_app y = Some app) (new_tag t (ResourceN r) l (Some app) i uri c) (V g))"
  using V_link [of "new_tag t (UserN u) l None i uri c" "same_tag (new_tag t (UserN u) l None i uri c)" g]
    V_link [of "new_tag t (PostN a p) l None i uri c" "same_tag (new_tag t (PostN a p) l None i uri c)" g]
    V_link [of "new_tag t (ResourceN r) l (Some app) i uri c" "\<lambda>y. same_tag (new_tag t (ResourceN r) l (Some app) i uri c) y \<and> te_app y = Some app" g]
    V_resources
  by (auto simp: create_user_tag_def create_post_tag_def create_resource_tag_def Let_def merge_tagged_def same_tag_def new_tag_def)

lemma create_rg:
  assumes "\<And>g. V (snd (f g)) = (if fst (f g) = None then V g else h (V g))"
  shows "rg clean (same V) (\<lambda>g. V g = s) (tx_graph E (graph_call f)) (\<lambda>x g. V g = (if x = None then s else h s)) (\<lambda>_ g. \<not> clean \<and> (V g = s \<or> V g = h s))"
  unfolding tx_graph_def ux_graph_def by (intro rg_map_err_const rg_graph stays_same) (auto simp: assms)

lemma ingest_rg:
  assumes "tag_env_apart clean V E"
  shows "rg clean (same V) (\<lambda>g. V g = s) (tx_ingest_or_drop E u) (\<lambda>_ g. V g = s) (\<lambda>_ g. V g = s)"
proof (rule rgI)
  fix w r w' assume w: "rely clean (same V) w" "V (kv w) = s" "tx_ingest_or_drop E u w = (r, w')"
  obtain q w1 where q: "tx_ingest E u w = (q, w1)" by force
  have i: "rg clean (same V) (\<lambda>g. V g = s) (tx_ingest E u) (\<lambda>_ g. V g = s) (\<lambda>_ g. V g = s)" using assms by (simp add: tag_env_apart_def)
  show "rely clean (same V) w' \<and> (case r of Inr x \<Rightarrow> V (kv w') = s | Inl e \<Rightarrow> V (kv w') = s)"
    using rgD [OF i w(1,2) q] w(3) q by (cases q; cases r) (auto simp: tx_ingest_or_drop_def)
qed

lemma rg_failing: "(\<And>g. P g \<Longrightarrow> F e g) \<Longrightarrow> rg clean (same V) P (fail e) Q F"
  unfolding fail_def by (rule rg_fail)

lemma put_user_rg:
  fixes s :: 'v and u l i uri :: string and c :: int
  defines "s1 \<equiv> link (same_tag (new_tag t (UserN u) l None i uri c)) (new_tag t (UserN u) l None i uri c) s"
  defines "s2 \<equiv> on_set (UserN u) l s1"
  assumes "tag_env_apart clean V E"
  shows "rg clean (same V) (\<lambda>g. V g = s) (put_sync_user E t u i uri l c) (\<lambda>_ g. V g = score u l s2)
    (\<lambda>_ g. V g = s \<or> \<not> clean \<and> V g \<in> {s1, s2, score u l s2})"
  unfolding put_sync_user_def
proof (rule rg_andthen)
  let ?E = "\<lambda>_ g. V g = s \<or> \<not> clean \<and> V g \<in> {s1, s2, score u l s2}"
  show "rg clean (same V) (\<lambda>g. V g = s) (tx_graph E (graph_call (create_user_tag t u i uri l c))) (\<lambda>x g. V g = (if x = None then s else s1)) ?E"
    by (rule rg_weaken [OF create_rg [OF create_link(1)]]) (auto simp: s1_def)
  fix flag
  have join: "acts clean V (join_arms (tx_picks E)
             [tx_redis E (update_index_score u None l (Increment 1)), tx_redis E (add_tagger_to_index u None t l),
              tx_redis E (new_user_tag (tx_json E) t u l), tx_redis E (tag_search_put l)]) (on_set (UserN u) l)"
    by (rule acts_join [where k = 1])
      (use add_acts [of clean E u None l] in \<open>auto simp: less_Suc_eq nth_Cons' node_of_def on_twice intro!: quiet_calls\<close>)
  have again: "acts clean V (join_arms (tx_picks E) [tx_redis E (add_tagger_to_index u None t l), tx_redis E (tag_search_put l)])
      (on_set (UserN u) l)"
    by (rule acts_join [where k = 0])
      (use add_acts [of clean E u None l] in \<open>auto simp: less_Suc_eq nth_Cons' node_of_def on_twice intro!: quiet_calls\<close>)
  have rest: "rg clean (same V) (\<lambda>g. V g = s1) (andthen m (\<lambda>_. tx_redis E (sync_index_score u l))) (\<lambda>_ g. V g = score u l s2) ?E"
    if m: "acts clean V m (on_set (UserN u) l)" for m :: "('a tag_kv_scheme, ep_error, unit) run"
    by (rule rg_andthen [OF rg_weaken [OF actsD [OF m]] rg_weaken [OF actsD [OF sync_acts]]]) (auto simp: s2_def)
  show "rg clean (same V) (\<lambda>g. V g = (if flag = None then s else s1))
     (case execute_graph_operation flag of
         Updated \<Rightarrow>
           andthen (join_arms (tx_picks E)
             [tx_redis E (add_tagger_to_index u None t l), tx_redis E (tag_search_put l)]) (\<lambda>_. tx_redis E (sync_index_score u l))
       | CreatedOrDeleted \<Rightarrow>
           andthen (join_arms (tx_picks E)
             [tx_redis E (update_index_score u None l (Increment 1)), tx_redis E (add_tagger_to_index u None t l),
              tx_redis E (new_user_tag (tx_json E) t u l), tx_redis E (tag_search_put l)]) (\<lambda>_. tx_redis E (sync_index_score u l))
       | OpMissingDependency \<Rightarrow>
           andthen (tx_ingest_or_drop E u) (\<lambda>_.
             case tx_user_uri E u of Inl e \<Rightarrow> fail (Generic e) | Inr uri \<Rightarrow> fail (MissingDependency [uri])))
     (\<lambda>_ g. V g = score u l s2) ?E"
  proof (cases flag)
    case None
    show ?thesis unfolding None execute_graph_operation_def option.case operation_outcome.case simp_thms if_True
      by (rule rg_andthen [where S = "\<lambda>_ g. V g = s", OF rg_weaken [OF ingest_rg [OF assms(3)]]]) (auto intro!: rg_failing split: sum.split)
  next
    case (Some b)
    then show ?thesis using rest [OF join] rest [OF again] by (cases b) (simp_all add: execute_graph_operation_def)
  qed
qed

lemma put_post_rg:
  fixes s :: 'v and a p l i uri :: string and c :: int
  defines "s1 \<equiv> link (same_tag (new_tag t (PostN a p) l None i uri c)) (new_tag t (PostN a p) l None i uri c) s"
  assumes "tag_env_apart clean V E"
  shows "rg clean (same V) (\<lambda>g. V g = s) (put_sync_post E t a p i uri l post_uri c) (\<lambda>_ g. V g = on_set (PostN a p) l s1)
    (\<lambda>_ g. V g = s \<or> \<not> clean \<and> V g \<in> {s1, on_set (PostN a p) l s1})"
  unfolding put_sync_post_def
proof (rule rg_andthen)
  let ?E = "\<lambda>_ g. V g = s \<or> \<not> clean \<and> V g \<in> {s1, on_set (PostN a p) l s1}"
  show "rg clean (same V) (\<lambda>g. V g = s) (tx_graph E (graph_call (create_post_tag t a p i uri l c))) (\<lambda>x g. V g = (if x = None then s else s1)) ?E"
    by (rule rg_weaken [OF create_rg [OF create_link(2)]]) (auto simp: s1_def)
  fix flag
  let ?again = "[tx_redis E (add_tagger_to_index a (Some p) t l), tx_redis E (posts_by_tag_put a p l),
              tx_redis E (tag_search_put l), tx_redis E (counts_invalidate a p)]"
  let ?join = "[tx_redis E (counts_invalidate a p), tx_redis E (update_index_score a (Some p) l (Increment 1)),
              tx_redis E (add_tagger_to_index a (Some p) t l), tx_redis E (label_engagement a p l (Increment 1)),
              andthen (tx_is_reply E a p) (\<lambda>reply. if \<not> reply then tx_redis E (stream_engagement a p (Increment 1)) else pass ()),
              tx_redis E (posts_by_tag_put a p l),
              andthen (tx_post_kind E a p) (\<lambda>kind. tx_redis E (new_post_tag (tx_json E) t a l post_uri kind)),
              tx_redis E (tag_search_put l)]"
  have q: "quiet clean V (tx_is_reply E a p)" "quiet clean V (tx_post_kind E a p)" using assms(2) by (simp_all add: tag_env_apart_def)
  have again: "acts clean V (join_arms (tx_picks E) ?again) (on_set (PostN a p) l)"
    by (rule acts_join [where k = 0])
      (use add_acts [of clean E a "Some p" l] in \<open>auto simp: less_Suc_eq nth_Cons' node_of_def on_twice intro!: quiet_calls\<close>)
  have join: "acts clean V (join_arms (tx_picks E) ?join) (on_set (PostN a p) l)"
    by (rule acts_join [where k = 2])
      (use add_acts [of clean E a "Some p" l] in \<open>auto simp: less_Suc_eq nth_Cons' node_of_def on_twice intro!: quiet_calls q\<close>)
  have done_by: "rg clean (same V) (\<lambda>g. V g = s1) m (\<lambda>_ g. V g = on_set (PostN a p) l s1) ?E"
    if m: "acts clean V m (on_set (PostN a p) l)" for m :: "('a tag_kv_scheme, ep_error, unit) run"
    by (rule rg_weaken [OF actsD [OF m]]) auto
  show "rg clean (same V) (\<lambda>g. V g = (if flag = None then s else s1))
     (case execute_graph_operation flag of
         Updated \<Rightarrow> join_arms (tx_picks E) ?again
       | CreatedOrDeleted \<Rightarrow> join_arms (tx_picks E) ?join
       | OpMissingDependency \<Rightarrow>
           andthen (case tx_pubky_app E post_uri of Inl _ \<Rightarrow> pass () | Inr (user, _) \<Rightarrow> tx_ingest_or_drop E user) (\<lambda>_.
             fail (MissingDependency [post_uri])))
     (\<lambda>_ g. V g = on_set (PostN a p) l s1) ?E"
  proof (cases flag)
    case None
    have "rg clean (same V) (\<lambda>g. V g = s) (case tx_pubky_app E post_uri of Inl _ \<Rightarrow> pass () | Inr (user, _) \<Rightarrow> tx_ingest_or_drop E user)
        (\<lambda>_ g. V g = s) (\<lambda>_ g. V g = s)"
      using ingest_rg [OF assms(2)] by (auto intro: rg_pass split: sum.split)
    from rg_weaken [OF this] show ?thesis unfolding None execute_graph_operation_def option.case operation_outcome.case simp_thms if_True
      by (intro rg_andthen [where S = "\<lambda>_ g. V g = s"]) (auto intro!: rg_failing)
  next
    case (Some b)
    then show ?thesis using done_by [OF join] done_by [OF again] by (cases b) (simp_all add: execute_graph_operation_def)
  qed
qed

lemma put_resource_rg:
  fixes s :: 'v and r l i uri app :: string and c :: int
  defines "e \<equiv> new_tag t (ResourceN r) l (Some app) i uri c"
  shows "rg clean (same V) (\<lambda>g. V g = s) (put_sync_resource E t r ru sc app i uri l c)
    (\<lambda>_ g. V g = link (\<lambda>y. same_tag e y \<and> te_app y = Some app) e s)
    (\<lambda>_ g. V g = s \<or> \<not> clean \<and> V g = link (\<lambda>y. same_tag e y \<and> te_app y = Some app) e s)"
  unfolding put_sync_resource_def
proof (rule rg_andthen)
  let ?s1 = "link (\<lambda>y. same_tag e y \<and> te_app y = Some app) e s"
  let ?E = "\<lambda>_ g. V g = s \<or> \<not> clean \<and> V g = ?s1"
  show "rg clean (same V) (\<lambda>g. V g = s) (tx_graph E (graph_call (create_resource_tag t r ru sc app i uri l c)))
      (\<lambda>x g. V g = (if x = None then s else ?s1)) ?E"
    by (rule rg_weaken [OF create_rg [OF create_link(3)]]) (auto simp: e_def)
  fix flag
  have q: "quiet clean V (tx_redis E (tag_search_put l))" by (intro quiet_calls)
  have "rg clean (same V) (\<lambda>g. V g = ?s1) (tx_redis E (tag_search_put l)) (\<lambda>_ g. V g = ?s1) ?E"
    by (rule rg_weaken [OF quietD [OF q]]) auto
  then show "rg clean (same V) (\<lambda>g. V g = (if flag = None then s else ?s1))
     (case execute_graph_operation flag of OpMissingDependency \<Rightarrow> fail (MissingDependency [t]) | _ \<Rightarrow> tx_redis E (tag_search_put l))
     (\<lambda>_ g. V g = ?s1) ?E"
    by (cases flag) (auto simp: execute_graph_operation_def intro!: rg_failing split: bool.split)
qed

text \<open>Removal: the indexes first, the relationship last.\<close>

lemma del_user_rg:
  fixes s :: 'v
  shows "rg clean (same V) (\<lambda>g. V g = s) (del_sync_user E t u l indexed) (\<lambda>_ g. V g = score u l (off_set (UserN u) l s))
    (\<lambda>_ g. \<not> clean \<and> V g \<in> {s, off_set (UserN u) l s, score u l (off_set (UserN u) l s)})"
proof -
  have join: "acts clean V (join_arms (tx_picks E)
       [if indexed then tx_redis E (update_index_score u None l (Decrement 1)) else pass (),
        tx_redis E (taggers_del_from_index t u None l),
        if indexed then tx_redis E (new_user_untag (tx_json E) t u l) else pass ()]) (off_set (UserN u) l)"
    by (rule acts_join [where k = 1])
      (use del_acts [of clean E u None l] in \<open>auto simp: less_Suc_eq nth_Cons' node_of_def off_twice intro!: quiet_calls\<close>)
  show ?thesis unfolding del_sync_user_def
    by (rule rg_andthen [OF rg_weaken [OF actsD [OF join]] rg_weaken [OF actsD [OF sync_acts]]]) auto
qed

lemma del_post_rg:
  fixes s :: 'v
  assumes "tag_env_apart clean V E"
  shows "rg clean (same V) (\<lambda>g. V g = s) (del_sync_post E t p a uri l indexed) (\<lambda>_ g. V g = off_set (PostN a p) l s)
    (\<lambda>_ g. \<not> clean \<and> V g \<in> {s, off_set (PostN a p) l s})"
proof -
  let ?ms = "[if indexed then tx_redis E (update_index_score a (Some p) l (Decrement 1)) else pass (),
        if indexed then tx_redis E (label_engagement a p l (Decrement 1)) else pass (),
        if indexed then andthen (tx_is_reply E a p) (\<lambda>reply.
          if \<not> reply then tx_redis E (stream_engagement a p (Decrement 1)) else pass ()) else pass (),
        if indexed then andthen (tx_post_kind E a p) (\<lambda>kind. tx_redis E (new_post_untag (tx_json E) t a l uri kind)) else pass (),
        tx_redis E (taggers_del_from_index t a (Some p) l)]"
  have q: "quiet clean V (tx_is_reply E a p)" "quiet clean V (tx_post_kind E a p)" using assms by (simp_all add: tag_env_apart_def)
  have join: "acts clean V (join_arms (tx_picks E) ?ms) (off_set (PostN a p) l)"
    by (rule acts_join [where k = 4])
      (use del_acts [of clean E a "Some p" l] in \<open>auto simp: less_Suc_eq nth_Cons' node_of_def off_twice intro!: quiet_calls q\<close>)
  have rest: "quiet clean V (andthen (tx_redis E (posts_by_tag_del a p l)) (\<lambda>_.
     andthen (tx_redis E (posts_by_tag_found l)) (\<lambda>found. if found then pass () else tx_redis E (tag_search_del l))))"
    by (auto intro!: quiet_calls)
  show ?thesis unfolding del_sync_post_def
    by (rule rg_andthen [OF rg_weaken [OF actsD [OF join]] rg_weaken [OF quietD [OF rest]]]) auto
qed

definition unindexed :: "tag_edge \<Rightarrow> 'v \<Rightarrow> 'v" where
  "unindexed e s =
     (case te_target e of
        UserN u \<Rightarrow> score u (te_label e) (off_set (UserN u) (te_label e) s)
      | PostN a p \<Rightarrow> off_set (PostN a p) (te_label e) s
      | ResourceN _ \<Rightarrow> s)"

definition half_unindexed :: "tag_edge \<Rightarrow> 'v \<Rightarrow> 'v set" where
  "half_unindexed e s = {s, off_set (te_target e) (te_label e) s, unindexed e s}"

lemma unindex_rg:
  assumes "tag_env_apart clean V E"
  shows "rg clean (same V) (\<lambda>g. V g = s) (unindex_tag E t e post_uri) (\<lambda>_ g. V g = unindexed e s)
    (\<lambda>_ g. V g = s \<or> \<not> clean \<and> V g \<in> half_unindexed e s)"
proof (cases "te_target e")
  case (UserN u)
  have q: "quiet clean V (tx_redis E (check_tagger u None (te_label e) t))" by (intro quiet_calls)
  show ?thesis unfolding unindex_tag_def UserN tag_node.case
    by (rule rg_andthen [OF rg_weaken [OF quietD [OF q]] rg_weaken [OF del_user_rg]]) (auto simp: unindexed_def half_unindexed_def UserN)
next
  case (PostN a p)
  have q: "quiet clean V (tx_redis E (check_tagger a (Some p) (te_label e) t))" by (intro quiet_calls)
  show ?thesis unfolding unindex_tag_def PostN tag_node.case
  proof (rule rg_andthen [where S = "\<lambda>_ g. V g = s"])
    show "rg clean (same V) (\<lambda>g. V g = s) (tx_redis E (check_tagger a (Some p) (te_label e) t)) (\<lambda>_ g. V g = s)
        (\<lambda>_ g. V g = s \<or> \<not> clean \<and> V g \<in> half_unindexed e s)" by (rule rg_weaken [OF quietD [OF q]]) auto
    fix indexed
    have d: "rg clean (same V) (\<lambda>g. V g = s) (del_sync_post E t p a uri (te_label e) indexed) (\<lambda>_ g. V g = unindexed e s)
        (\<lambda>_ g. V g = s \<or> \<not> clean \<and> V g \<in> half_unindexed e s)" for uri
      by (rule rg_weaken [OF del_post_rg [OF assms]]) (auto simp: unindexed_def half_unindexed_def PostN)
    show "rg clean (same V) (\<lambda>g. V g = s)
        (case post_uri of None \<Rightarrow> fail (Generic ''Post has no stored uri'') | Some uri \<Rightarrow> del_sync_post E t p a uri (te_label e) indexed)
        (\<lambda>_ g. V g = unindexed e s) (\<lambda>_ g. V g = s \<or> \<not> clean \<and> V g \<in> half_unindexed e s)"
      by (cases post_uri) (auto intro: rg_failing d)
  qed
next
  case (ResourceN r)
  then show ?thesis unfolding unindex_tag_def by (auto intro!: rg_pass simp: unindexed_def)
qed

lemma target_rg:
  "rg clean (same V) (\<lambda>g. V g = s) (tx_graph E (graph_call (get_tag_target t i app)))
     (\<lambda>row g. V g = s \<and> (case row of Some (e, _) \<Rightarrow> e \<in> set (edges s) \<and> te_id e = i \<and> te_app e = app
        | None \<Rightarrow> \<forall>e \<in> set (edges s). \<not> (te_id e = i \<and> te_app e = app)))
     (\<lambda>_ g. \<not> clean \<and> V g = s)"
  unfolding tx_graph_def ux_graph_def
  by (intro rg_map_err_const rg_graph stays_same)
    (auto simp: get_tag_target_def tag_file_def V_edges find_Some_iff find_None_iff split: option.split)

definition row_of :: "tag_storage_uri \<Rightarrow> 'v \<Rightarrow> (tag_edge \<times> string option) option \<Rightarrow> bool" where
  "row_of ts s row \<longleftrightarrow>
     (case row of
        Some (e, _) \<Rightarrow> e \<in> set (edges s) \<and> te_id e = ts_tag_id ts \<and> (te_app e = ts_app ts \<or> te_app e = None)
      | None \<Rightarrow> \<forall>e \<in> set (edges s). te_id e = ts_tag_id ts \<longrightarrow> te_app e \<noteq> ts_app ts \<and>
          (te_app e = None \<longrightarrow> (\<exists>e' \<in> set (edges s). te_id e' = ts_tag_id ts \<and> te_app e' = None \<and> (\<exists>r. te_target e' = ResourceN r))))"

lemma find_row_rg:
  assumes "ts_user_id ts = t"
  shows "rg clean (same V) (\<lambda>g. V g = s) (find_tag_row E ts) (\<lambda>row g. V g = s \<and> row_of ts s row) (\<lambda>_ g. \<not> clean \<and> V g = s)"
  unfolding find_tag_row_def assms
proof (rule rg_andthen [OF target_rg])
  let ?P = "\<lambda>i app s row. case row of Some (e, _) \<Rightarrow> e \<in> set (edges s) \<and> te_id e = i \<and> te_app e = app
        | None \<Rightarrow> \<forall>e \<in> set (edges s). \<not> (te_id e = i \<and> te_app e = app)"
  fix row
  show "rg clean (same V) (\<lambda>g. V g = s \<and> ?P (ts_tag_id ts) (ts_app ts) s row)
     (if row \<noteq> None \<or> ts_app ts = None then pass row
       else andthen (tx_graph E (graph_call (get_tag_target t (ts_tag_id ts) None))) (\<lambda>row.
         case row of None \<Rightarrow> pass None | Some (e, _) \<Rightarrow> (case te_target e of ResourceN _ \<Rightarrow> pass None | _ \<Rightarrow> pass row)))
     (\<lambda>row g. V g = s \<and> row_of ts s row) (\<lambda>_ g. \<not> clean \<and> V g = s)"
  proof (cases "row \<noteq> None \<or> ts_app ts = None")
    case True
    then show ?thesis by (cases row) (auto 0 4 intro!: rg_pass simp: row_of_def)
  next
    case False
    then have none: "row = None" by blast
    have "rg clean (same V) (\<lambda>g. V g = s \<and> ?P (ts_tag_id ts) (ts_app ts) s row) (andthen (tx_graph E (graph_call (get_tag_target t (ts_tag_id ts) None))) (\<lambda>row.
         case row of None \<Rightarrow> pass None | Some (e, _) \<Rightarrow> (case te_target e of ResourceN _ \<Rightarrow> pass None | _ \<Rightarrow> pass row)))
       (\<lambda>row g. V g = s \<and> row_of ts s row) (\<lambda>_ g. \<not> clean \<and> V g = s)"
    proof (rule rg_assume [where C = "?P (ts_tag_id ts) (ts_app ts) s row"], blast)
      assume c: "?P (ts_tag_id ts) (ts_app ts) s row"
      show ?thesis
      proof (rule rg_andthen [where S = "\<lambda>row g. V g = s \<and> ?P (ts_tag_id ts) None s row"])
        show "rg clean (same V) (\<lambda>g. V g = s \<and> ?P (ts_tag_id ts) (ts_app ts) s row) (tx_graph E (graph_call (get_tag_target t (ts_tag_id ts) None)))
            (\<lambda>row g. V g = s \<and> ?P (ts_tag_id ts) None s row) (\<lambda>_ g. \<not> clean \<and> V g = s)"
          by (rule rg_weaken [OF target_rg]) auto
        fix row2
        show "rg clean (same V) (\<lambda>g. V g = s \<and> ?P (ts_tag_id ts) None s row2)
           (case row2 of None \<Rightarrow> pass None | Some (e, _) \<Rightarrow> (case te_target e of ResourceN _ \<Rightarrow> pass None | _ \<Rightarrow> pass row2))
           (\<lambda>row g. V g = s \<and> row_of ts s row) (\<lambda>_ g. \<not> clean \<and> V g = s)"
          using c none by (cases row2) (auto 0 4 intro!: rg_pass simp: row_of_def split: tag_node.split)
      qed
    qed
    then show ?thesis unfolding if_not_P [OF False] .
  qed
qed

text \<open>Nothing to remove, or the row was removed from the indexes and then from the graph.\<close>

definition removed :: "tag_storage_uri \<Rightarrow> 'v \<Rightarrow> 'v \<Rightarrow> bool" where
  "removed ts s s' \<longleftrightarrow> row_of ts s None \<and> s' = s \<or>
     (\<exists>e uri. row_of ts s (Some (e, uri)) \<and> s' = cut (ts_tag_id ts) (te_app e) (unindexed e s))"

definition half_removed :: "tag_storage_uri \<Rightarrow> 'v \<Rightarrow> 'v \<Rightarrow> bool" where
  "half_removed ts s s' \<longleftrightarrow> s' = s \<or> (\<exists>e uri. row_of ts s (Some (e, uri)) \<and>
     (s' \<in> half_unindexed e s \<or> s' = cut (ts_tag_id ts) (te_app e) (unindexed e s)))"

lemma del_rg:
  assumes "tag_env_apart clean V E" "parse_tag_storage_uri (tx_specs E) tag_uri = Inr ts" "ts_user_id ts = t"
  shows "rg clean (same V) (\<lambda>g. V g = s) (tag_sync_del E tag_uri) (\<lambda>_ g. removed ts s (V g)) (\<lambda>_ g. half_removed ts s (V g))"
  unfolding tag_sync_del_def assms(2) sum.case assms(3)
proof (rule rg_andthen [where S = "\<lambda>row g. V g = s \<and> row_of ts s row"])
  show "rg clean (same V) (\<lambda>g. V g = s) (find_tag_row E ts) (\<lambda>row g. V g = s \<and> row_of ts s row) (\<lambda>_ g. half_removed ts s (V g))"
    by (rule rg_weaken [OF find_row_rg [OF assms(3)]]) (auto simp: half_removed_def)
  fix row
  show "rg clean (same V) (\<lambda>g. V g = s \<and> row_of ts s row)
     (case row of None \<Rightarrow> pass () | Some (e, post_uri) \<Rightarrow>
        andthen (unindex_tag E t e post_uri) (\<lambda>_.
        andthen (tx_graph E (graph_call (delete_tag t (ts_tag_id ts) (te_app e)))) (\<lambda>_.
          case te_target e of PostN author post \<Rightarrow> tx_redis E (counts_invalidate author post) | _ \<Rightarrow> pass ())))
     (\<lambda>_ g. removed ts s (V g)) (\<lambda>_ g. half_removed ts s (V g))"
  proof (cases row)
    case None
    then show ?thesis by (auto intro!: rg_pass simp: removed_def)
  next
    case (Some eu)
    obtain e post_uri where eu: "eu = (e, post_uri)" by force
    let ?s1 = "unindexed e s" and ?s2 = "cut (ts_tag_id ts) (te_app e) (unindexed e s)"
    have cut: "acts clean V (tx_graph E (graph_call (delete_tag t (ts_tag_id ts) (te_app e)))) (cut (ts_tag_id ts) (te_app e))"
      unfolding tx_graph_def ux_graph_def
    proof (intro acts_map_err acts_graph)
      fix g :: "'a tag_kv_scheme"
      let ?g = "g\<lparr>uk_tagged := filter (\<lambda>e'. \<not> tag_file t (ts_tag_id ts) (te_app e) e') (uk_tagged g)\<rparr>"
      have "V (snd (delete_tag t (ts_tag_id ts) (te_app e) g)) = V ?g"
        using V_resources [where g = ?g] by (simp add: delete_tag_def Let_def)
      then show "V (snd (delete_tag t (ts_tag_id ts) (te_app e) g)) = cut (ts_tag_id ts) (te_app e) (V g)" by (simp add: V_cut)
    qed
    have last: "quiet clean V (case te_target e of PostN author post \<Rightarrow> tx_redis E (counts_invalidate author post) | _ \<Rightarrow> pass ())"
      by (auto intro!: quiet_calls split: tag_node.split)
    show ?thesis unfolding Some eu option.case prod.case
    proof (rule rg_assume [where C = "row_of ts s (Some (e, post_uri))"], blast)
      assume c: "row_of ts s (Some (e, post_uri))"
      then have ok: "removed ts s ?s2" "half_removed ts s s" "half_removed ts s ?s1" "half_removed ts s ?s2"
          "s' \<in> half_unindexed e s \<Longrightarrow> half_removed ts s s'" for s'
        by (auto simp: removed_def half_removed_def half_unindexed_def)
      show "rg clean (same V) (\<lambda>g. V g = s \<and> row_of ts s (Some (e, post_uri)))
        (andthen (unindex_tag E t e post_uri) (\<lambda>_.
        andthen (tx_graph E (graph_call (delete_tag t (ts_tag_id ts) (te_app e)))) (\<lambda>_.
          case te_target e of PostN author post \<Rightarrow> tx_redis E (counts_invalidate author post) | _ \<Rightarrow> pass ())))
        (\<lambda>_ g. removed ts s (V g)) (\<lambda>_ g. half_removed ts s (V g))"
        by (rule rg_andthen [OF rg_weaken [OF unindex_rg [OF assms(1)]]
            rg_andthen [OF rg_weaken [OF actsD [OF cut]] rg_weaken [OF quietD [OF last]]]])
          (use ok in auto)
    qed
  qed
qed

end

end
