(* ===== verification/Tag_Properties.thy ===== *)
theory Tag_Properties
  imports Tag_Handler
begin

text \<open>
  What the handler of tags promises: the indexes of a user's tags stay within the graph through any history of events, a
  tagged profile is listed with the number of its taggers, a removed tag is gone, and a resource is in the graph as long as it
  is tagged. The first three are interpretations of \<open>tag_effects\<close> on two views of the stores.
\<close>

section \<open>The tags of one user\<close>

definition taggers_of :: "tag_node \<Rightarrow> string \<Rightarrow> 'a tag_kv_scheme \<Rightarrow> string set" where
  "taggers_of k l g = (case k of UserN u \<Rightarrow> uk_taggers g u l | PostN a p \<Rightarrow> tk_post_taggers g a p l | ResourceN _ \<Rightarrow> {})"

lemma taggers_of_update [simp]:
  "taggers_of k l (g\<lparr>nt_sets := n\<rparr>) = taggers_of k l g"
  "taggers_of k l (g\<lparr>z_sets := z\<rparr>) = taggers_of k l g"
  "taggers_of k l (g\<lparr>uk_tagged := es\<rparr>) = taggers_of k l g"
  "taggers_of k l (g\<lparr>tk_counts := c\<rparr>) = taggers_of k l g"
  "taggers_of k l (g\<lparr>tk_gate := f\<rparr>) = taggers_of k l g"
  "taggers_of k l (g\<lparr>tk_resources := r\<rparr>) = taggers_of k l g"
  by (simp_all add: taggers_of_def split: tag_node.split)

type_synonym tag_state = "tag_edge list \<times> (tag_node \<times> string) set"

definition own_tags :: "string \<Rightarrow> 'a tag_kv_scheme \<Rightarrow> tag_state" where
  "own_tags t g = (filter (\<lambda>e. te_tagger e = t) (uk_tagged g), {(k, l). t \<in> taggers_of k l g})"

definition link_own :: "(tag_edge \<Rightarrow> bool) \<Rightarrow> tag_edge \<Rightarrow> tag_state \<Rightarrow> tag_state" where
  "link_own p e s = (snd (merge_tagged p e (fst s)), snd s)"

definition on_own :: "tag_node \<Rightarrow> string \<Rightarrow> tag_state \<Rightarrow> tag_state" where
  "on_own k l s = (fst s, insert (k, l) (snd s))"

definition off_own :: "tag_node \<Rightarrow> string \<Rightarrow> tag_state \<Rightarrow> tag_state" where
  "off_own k l s = (fst s, snd s - {(k, l)})"

definition cut_own :: "string \<Rightarrow> string option \<Rightarrow> tag_state \<Rightarrow> tag_state" where
  "cut_own i app s = (filter (\<lambda>e. \<not> (te_id e = i \<and> te_app e = app)) (fst s), snd s)"

lemma filter_merge:
  assumes "te_tagger e = t" "\<And>y. p y \<Longrightarrow> te_tagger y = t"
  shows "filter (\<lambda>e. te_tagger e = t) (snd (merge_tagged p e es)) = snd (merge_tagged p e (filter (\<lambda>e. te_tagger e = t) es))"
proof -
  have "filter (\<lambda>e. te_tagger e = t) (map (\<lambda>x. if p x then x\<lparr>te_uri := v\<rparr> else x) es) =
      map (\<lambda>x. if p x then x\<lparr>te_uri := v\<rparr> else x) (filter (\<lambda>e. te_tagger e = t) es)" for v
    using assms(2) by (induction es) auto
  moreover have "list_ex p (filter (\<lambda>e. te_tagger e = t) es) = list_ex p es" using assms(2) by (auto simp: list_ex_iff)
  ultimately show ?thesis using assms(1) by (simp add: merge_tagged_def)
qed

lemma taggers_of_set:
  "taggers_of k l' (set_taggers a x l T g) = (if k = node_of a x \<and> l' = l then T else taggers_of k l' g)"
  "uk_tagged (set_taggers a x l T g) = uk_tagged g"
  by (cases x; cases k; simp add: set_taggers_def node_of_def taggers_of_def)+

lemma index_taggers_of: "index_taggers a x l g = taggers_of (node_of a x) l g"
  by (cases x) (simp_all add: index_taggers_def node_of_def taggers_of_def)

lemma own_set_taggers:
  "own_tags t (set_taggers a x l (insert t (index_taggers a x l g)) g) = on_own (node_of a x) l (own_tags t g)"
  "own_tags t (set_taggers a x l (index_taggers a x l g - {t}) g) = off_own (node_of a x) l (own_tags t g)"
  by (auto simp: own_tags_def on_own_def off_own_def taggers_of_set index_taggers_of split: if_splits)

interpretation own: tag_effects "own_tags t" t fst link_own on_own off_own "\<lambda>_ _ s. s" cut_own for t
proof unfold_locales
  fix g :: "'a tag_kv_scheme" and e p i app
  show "te_tagger e = t \<Longrightarrow> (\<And>y. p y \<Longrightarrow> te_tagger y = t) \<Longrightarrow>
      own_tags t (g\<lparr>uk_tagged := snd (merge_tagged p e (uk_tagged g))\<rparr>) = link_own p e (own_tags t g)"
    by (simp add: own_tags_def link_own_def filter_merge)
  show "own_tags t (g\<lparr>uk_tagged := filter (\<lambda>e. \<not> tag_file t i app e) (uk_tagged g)\<rparr>) = cut_own i app (own_tags t g)"
    by (auto simp: own_tags_def cut_own_def tag_file_def intro: filter_cong)
qed (simp_all add: own_set_taggers, simp_all add: own_tags_def cardinality_script_def Let_def on_own_def off_own_def)

text \<open>
  What holds of the tags of a user: a member of a set of taggers has its relationship; an id names one target and label (\<open>key\<close>;
  it is a hash of both), a target and label have one relationship, and only those to resources belong to an application.
\<close>

definition skel :: "tag_edge \<Rightarrow> string \<times> string option \<times> tag_node \<times> string" where
  "skel e = (te_id e, te_app e, te_target e, te_label e)"

definition known :: "tag_node \<Rightarrow> bool" where
  "known k \<longleftrightarrow> (\<forall>r. k \<noteq> ResourceN r)"

definition tags_fit :: "(string \<Rightarrow> tag_node \<times> string) \<Rightarrow> (string \<times> string option \<times> tag_node \<times> string) set \<Rightarrow> (tag_node \<times> string) set \<Rightarrow> bool" where
  "tags_fit key K M \<longleftrightarrow>
     (\<forall>k l. (k, l) \<in> M \<longrightarrow> (\<exists>i. (i, None, k, l) \<in> K)) \<and>
     (\<forall>i k l. (i, None, k, l) \<in> K \<longrightarrow> key i = (k, l)) \<and>
     (\<forall>i j k l. (i, None, k, l) \<in> K \<and> (j, None, k, l) \<in> K \<longrightarrow> i = j) \<and>
     (\<forall>i a k l. (i, a, k, l) \<in> K \<longrightarrow> (a = None \<longleftrightarrow> known k))"

definition tags_ok :: "(string \<Rightarrow> tag_node \<times> string) \<Rightarrow> tag_state \<Rightarrow> bool" where
  "tags_ok key s \<longleftrightarrow> tags_fit key (skel ` set (fst s)) (snd s)"

lemma fit_insert:
  "tags_fit key K M \<Longrightarrow> known k \<Longrightarrow> key i = (k, l) \<Longrightarrow> (\<And>j a. (j, a, k, l) \<notin> K) \<Longrightarrow> tags_fit key (insert (i, None, k, l) K) M"
  unfolding tags_fit_def by (simp, blast)

lemma fit_resource: "tags_fit key K M \<Longrightarrow> tags_fit key (insert (i, Some app, ResourceN r, l) K) M"
  unfolding tags_fit_def by (auto simp: known_def)

lemma fit_member: "tags_fit key K M \<Longrightarrow> (i, None, k, l) \<in> K \<Longrightarrow> tags_fit key K (insert (k, l) M)"
  unfolding tags_fit_def by (simp, blast)

lemma fit_less: "tags_fit key K M \<Longrightarrow> tags_fit key K (M - X)"
  unfolding tags_fit_def by auto

lemma fit_cut:
  assumes "tags_fit key K M" "key i = (k, l)"
  shows "tags_fit key {(j, a, k, l) \<in> K. \<not> (j = i \<and> a = None)} (M - {(k, l)})"
proof -
  have "\<exists>j. (j, None, k', l') \<in> K \<and> j \<noteq> i" if m: "(k', l') \<in> M - {(k, l)}" for k' l'
  proof -
    obtain j where j: "(j, None, k', l') \<in> K" using m assms(1) unfolding tags_fit_def by blast
    then have "key j = (k', l')" using assms(1) unfolding tags_fit_def by blast
    then have "j \<noteq> i" using m assms(2) by auto
    with j show ?thesis by blast
  qed
  then show ?thesis using assms(1) unfolding tags_fit_def by (simp, metis)
qed

lemma fit_cut_app: "tags_fit key K M \<Longrightarrow> tags_fit key {(j, a, k, l) \<in> K. \<not> (j = i \<and> a = Some app)} M"
  unfolding tags_fit_def by (simp, metis)

lemma fit_row:
  assumes "tags_fit key K M" "(i, a, k, l) \<in> K"
  shows "a = None \<longleftrightarrow> known k" "a = None \<Longrightarrow> key i = (k, l)"
  using assms unfolding tags_fit_def by blast+

lemma fit_one: "tags_fit key K M \<Longrightarrow> (i, None, k, l) \<in> K \<Longrightarrow> (j, None, k, l) \<in> K \<Longrightarrow> i = j"
  unfolding tags_fit_def by blast

lemma skel_merge:
  "skel ` set (snd (merge_tagged p e es)) = (if list_ex p es then skel ` set es else insert (skel e) (skel ` set es))"
proof -
  have "skel (if p x then x\<lparr>te_uri := u\<rparr> else x) = skel x" for x u by (simp add: skel_def)
  then have "(\<lambda>x. skel (if p x then x\<lparr>te_uri := u\<rparr> else x)) ` A = skel ` A" for u A by (simp only:)
  then show ?thesis by (cases "list_ex p es") (simp_all only: merge_tagged_def if_True if_False snd_conv set_map image_image set_append
    list.set Un_insert_right Un_empty_right image_insert)
qed

lemma skel_cut: "skel ` set (fst (cut_own i app s)) = {(j, a, k, l) \<in> skel ` set (fst s). \<not> (j = i \<and> a = app)}"
  by (auto simp: cut_own_def skel_def)

lemma skel_found:
  assumes "\<forall>x \<in> set es. te_tagger x = te_tagger e"
  shows "list_ex (same_tag e) es \<longleftrightarrow> (\<exists>i a. (i, a, te_target e, te_label e) \<in> skel ` set es)"
proof
  assume "list_ex (same_tag e) es"
  then obtain x where "x \<in> set es" "same_tag e x" by (auto simp: list_ex_iff)
  then have "skel x \<in> skel ` set es" "skel x = (te_id x, te_app x, te_target e, te_label e)" by (auto simp: skel_def same_tag_def)
  then show "\<exists>i a. (i, a, te_target e, te_label e) \<in> skel ` set es" by metis
next
  assume "\<exists>i a. (i, a, te_target e, te_label e) \<in> skel ` set es"
  then obtain x where "x \<in> set es" "te_target x = te_target e" "te_label x = te_label e" by (auto simp: skel_def)
  then show "list_ex (same_tag e) es" using assms by (auto simp: list_ex_iff same_tag_def)
qed

lemma tags_ok_link:
  assumes "tags_ok key s" "\<forall>x \<in> set (fst s). te_tagger x = te_tagger e" "known (te_target e)" "te_app e = None"
    "key (te_id e) = (te_target e, te_label e)"
  shows "tags_ok key (link_own (same_tag e) e s)" "tags_ok key (on_own (te_target e) (te_label e) (link_own (same_tag e) e s))"
proof -
  let ?K = "skel ` set (fst s)"
  let ?K' = "skel ` set (fst (link_own (same_tag e) e s))"
  have e: "skel e = (te_id e, None, te_target e, te_label e)" by (simp add: skel_def assms(4))
  have "tags_fit key ?K' (snd s) \<and> (\<exists>i. (i, None, te_target e, te_label e) \<in> ?K')"
  proof (cases "list_ex (same_tag e) (fst s)")
    case True
    then obtain i a where i: "(i, a, te_target e, te_label e) \<in> ?K" using skel_found [OF assms(2)] by blast
    then have "a = None" using fit_row(1) [OF assms(1) [unfolded tags_ok_def] i] assms(3) by simp
    then show ?thesis using i True assms(1) unfolding link_own_def fst_conv skel_merge tags_ok_def by (simp only: if_True) blast
  next
    case False
    then have "(j, a, te_target e, te_label e) \<notin> ?K" for j a using skel_found [OF assms(2)] by blast
    from fit_insert [OF assms(1) [unfolded tags_ok_def] assms(3,5) this] False show ?thesis
      unfolding link_own_def fst_conv skel_merge e if_not_P [OF False] by blast
  qed
  then show "tags_ok key (link_own (same_tag e) e s)" "tags_ok key (on_own (te_target e) (te_label e) (link_own (same_tag e) e s))"
    unfolding tags_ok_def on_own_def by (auto simp: link_own_def intro: fit_member)
qed

lemma tags_ok_link_resource:
  assumes "tags_ok key s" "te_target e = ResourceN r" "te_app e = Some app"
  shows "tags_ok key (link_own p e s)"
proof -
  have e: "skel e = (te_id e, Some app, ResourceN r, te_label e)" by (simp add: skel_def assms(2,3))
  show ?thesis using assms(1) unfolding tags_ok_def link_own_def fst_conv snd_conv skel_merge e by (auto intro: fit_resource)
qed

lemma tags_ok_off: "tags_ok key s \<Longrightarrow> tags_ok key (off_own k l s)"
  by (simp add: tags_ok_def off_own_def fit_less)

lemma tags_ok_removed:
  assumes "tags_ok key s" "own.removed ts s s' \<or> own.half_removed ts s s'"
  shows "tags_ok key s'"
proof -
  have cut: "tags_ok key (cut_own (ts_tag_id ts) (te_app e) (own.unindexed e s))" if "own.row_of ts s (Some (e, uri))" for e uri
  proof -
    have e: "e \<in> set (fst s)" "te_id e = ts_tag_id ts" using that by (auto simp: own.row_of_def)
    then have K: "(ts_tag_id ts, te_app e, te_target e, te_label e) \<in> skel ` set (fst s)" by (force simp: skel_def)
    note row = fit_row [OF assms(1) [unfolded tags_ok_def] K]
    show ?thesis
    proof (cases "te_app e")
      case None
      then have u: "own.unindexed e s = off_own (te_target e) (te_label e) s"
        using row(1) by (auto simp: own.unindexed_def known_def split: tag_node.split)
      show ?thesis unfolding tags_ok_def skel_cut u None
        using fit_cut [OF assms(1) [unfolded tags_ok_def] row(2) [OF None]] by (simp add: off_own_def cut_own_def)
    next
      case (Some app)
      then obtain r where "te_target e = ResourceN r" using row(1) by (auto simp: known_def)
      then have u: "own.unindexed e s = s" by (simp add: own.unindexed_def)
      show ?thesis unfolding tags_ok_def skel_cut u Some
        using fit_cut_app [OF assms(1) [unfolded tags_ok_def]] by (simp add: cut_own_def)
    qed
  qed
  have half: "tags_ok key x" if "x \<in> own.half_unindexed e s" for x e
    using that assms(1) tags_ok_off [OF assms(1)] by (auto simp: own.half_unindexed_def own.unindexed_def split: tag_node.splits)
  show ?thesis using assms cut half unfolding own.removed_def own.half_removed_def by metis
qed

section \<open>Events\<close>

datatype tag_event = TagPut app_tag string string | TagPutResource app_tag string string string | TagDel string

fun handle_tag_event :: "'a tag_kv_scheme tag_env \<Rightarrow> string \<Rightarrow> tag_event \<Rightarrow> ('a tag_kv_scheme, ep_error, unit) run" where
  "handle_tag_event E t (TagPut tag uri i) = tag_sync_put E tag uri t i"
| "handle_tag_event E t (TagPutResource tag uri i app) = tag_sync_put_resource E tag uri t i app"
| "handle_tag_event E t (TagDel uri) = tag_sync_del E uri"

text \<open>One event after the other, whether it failed or not.\<close>

fun tag_history :: "'a tag_kv_scheme tag_env \<Rightarrow> string \<Rightarrow> tag_event list \<Rightarrow> 'a tag_kv_scheme world \<Rightarrow> 'a tag_kv_scheme world" where
  "tag_history E t [] w = w"
| "tag_history E t (ev # evs) w = tag_history E t evs (snd (handle_tag_event E t ev w))"

definition target_node :: "tag_target \<Rightarrow> tag_node" where
  "target_node target = (case target of TargetPost a p \<Rightarrow> PostN a p | TargetUser u \<Rightarrow> UserN u)"

definition named :: "(string \<Rightarrow> tag_node \<times> string) \<Rightarrow> 's tag_env \<Rightarrow> app_tag \<Rightarrow> string \<Rightarrow> bool" where
  "named key E tag i \<longleftrightarrow> (case tag_target_of E (at_uri tag) of Inr target \<Rightarrow> key i = (target_node target, at_label tag) | Inl _ \<Rightarrow> True)"

definition event_of :: "(string \<Rightarrow> tag_node \<times> string) \<Rightarrow> 's tag_env \<Rightarrow> string \<Rightarrow> tag_event \<Rightarrow> bool" where
  "event_of key E t ev \<longleftrightarrow>
     (case ev of
        TagPut tag _ i \<Rightarrow> named key E tag i
      | TagPutResource tag _ i _ \<Rightarrow> named key E tag i
      | TagDel uri \<Rightarrow> (case parse_tag_storage_uri (tx_specs E) uri of Inr ts \<Rightarrow> ts_user_id ts = t | Inl _ \<Rightarrow> True))"

abbreviation keeps_tags :: "(string \<Rightarrow> tag_node \<times> string) \<Rightarrow> string \<Rightarrow> ('a tag_kv_scheme, 'e, 'x) run \<Rightarrow> bool" where
  "keeps_tags key t m \<equiv> rg False (same (own_tags t)) (\<lambda>g. tags_ok key (own_tags t g)) m
     (\<lambda>_ g. tags_ok key (own_tags t g)) (\<lambda>_ g. tags_ok key (own_tags t g))"

lemma keeps_tagsI:
  assumes "\<And>s. tags_ok key s \<Longrightarrow> \<forall>x \<in> set (fst s). te_tagger x = t \<Longrightarrow>
    rg False (same (own_tags t)) (\<lambda>g. own_tags t g = s) m (\<lambda>_ g. tags_ok key (own_tags t g)) (\<lambda>_ g. tags_ok key (own_tags t g))"
  shows "keeps_tags key t m"
proof (rule rgI)
  fix w r w' assume w: "rely False (same (own_tags t)) w" "tags_ok key (own_tags t (kv w))" "m w = (r, w')"
  have "\<forall>x \<in> set (fst (own_tags t (kv w))). te_tagger x = t" by (simp add: own_tags_def)
  from rgD [OF assms [OF w(2) this] w(1) refl w(3)]
  show "rely False (same (own_tags t)) w' \<and> (case r of Inr x \<Rightarrow> tags_ok key (own_tags t (kv w')) | Inl e \<Rightarrow> tags_ok key (own_tags t (kv w')))"
    by (cases r) auto
qed

lemma keeps_fail: "keeps_tags key t (fail e)"
  unfolding fail_def by (rule rg_fail)

lemma new_tag_sel [simp]:
  "te_tagger (new_tag t k l app i uri c) = t" "te_target (new_tag t k l app i uri c) = k" "te_label (new_tag t k l app i uri c) = l"
  "te_app (new_tag t k l app i uri c) = app" "te_id (new_tag t k l app i uri c) = i"
  by (simp_all add: new_tag_def)

lemma put_keeps_tags:
  assumes "tag_env_apart False (own_tags t) E" "named key E tag i"
  shows "keeps_tags key t (tag_sync_put E tag uri t i)"
proof (cases "tag_target_of E (at_uri tag)")
  case (Inl e)
  then show ?thesis unfolding tag_sync_put_def by (auto intro: keeps_fail)
next
  case (Inr target)
  have key: "key i = (target_node target, at_label tag)" using assms(2) Inr by (simp add: named_def)
  have now: "keeps_tags key t now" by (rule rg_now [OF stays_same]) auto
  have step: "keeps_tags key t (case target of
              TargetPost author post \<Rightarrow> put_sync_post E t author post i uri (at_label tag) (at_uri tag) c
            | TargetUser user \<Rightarrow> put_sync_user E t user i uri (at_label tag) c)" for c
  proof (rule keeps_tagsI)
    fix s assume s: "tags_ok key s" "\<forall>x \<in> set (fst s). te_tagger x = t"
    let ?e = "new_tag t (target_node target) (at_label tag) None i uri c"
    have ok: "tags_ok key (link_own (same_tag ?e) ?e s)" "tags_ok key (on_own (target_node target) (at_label tag) (link_own (same_tag ?e) ?e s))"
      using tags_ok_link [OF s(1), of ?e] s(2) key by (auto simp: known_def target_node_def split: tag_target.split)
    show "rg False (same (own_tags t)) (\<lambda>g. own_tags t g = s) (case target of
              TargetPost author post \<Rightarrow> put_sync_post E t author post i uri (at_label tag) (at_uri tag) c
            | TargetUser user \<Rightarrow> put_sync_user E t user i uri (at_label tag) c)
        (\<lambda>_ g. tags_ok key (own_tags t g)) (\<lambda>_ g. tags_ok key (own_tags t g))"
    proof (cases target)
      case (TargetPost a p)
      show ?thesis unfolding TargetPost tag_target.case
        by (rule rg_weaken [OF own.put_post_rg [OF assms(1)]]) (use ok s in \<open>auto simp: TargetPost target_node_def\<close>)
    next
      case (TargetUser u)
      show ?thesis unfolding TargetUser tag_target.case
        by (rule rg_weaken [OF own.put_user_rg [OF assms(1)]]) (use ok s in \<open>auto simp: TargetUser target_node_def\<close>)
    qed
  qed
  show ?thesis unfolding tag_sync_put_def Inr sum.case by (rule rg_andthen [OF now step])
qed

lemma handled_tags_stay_ok:
  assumes "tag_env_apart False (own_tags t) E" "event_of key E t ev"
  shows "keeps_tags key t (handle_tag_event E t ev)"
proof (cases ev)
  case (TagPut tag uri i)
  then show ?thesis using put_keeps_tags [OF assms(1)] assms(2) by (simp add: event_of_def)
next
  case (TagPutResource tag uri i app)
  have now: "keeps_tags key t now" by (rule rg_now [OF stays_same]) auto
  have res: "keeps_tags key t (put_sync_resource E t r ru sc app i uri l c)" for r ru sc l c
    by (intro keeps_tagsI rg_weaken [OF own.put_resource_rg]) (auto intro!: tags_ok_link_resource [OF _ new_tag_sel(2,4)])
  have "keeps_tags key t (tag_sync_put E tag uri t i)" using put_keeps_tags [OF assms(1)] assms(2) TagPutResource by (simp add: event_of_def)
  then show ?thesis unfolding TagPutResource handle_tag_event.simps tag_sync_put_resource_def
    by (auto intro: keeps_fail rg_andthen [OF now res] split: sum.split)
next
  case (TagDel uri)
  show ?thesis
  proof (cases "parse_tag_storage_uri (tx_specs E) uri")
    case (Inl e)
    then show ?thesis unfolding TagDel handle_tag_event.simps tag_sync_del_def by (auto intro: keeps_fail)
  next
    case (Inr ts)
    then have "ts_user_id ts = t" using assms(2) TagDel by (simp add: event_of_def)
    then show ?thesis unfolding TagDel handle_tag_event.simps
      by (intro keeps_tagsI rg_weaken [OF own.del_rg [OF assms(1) Inr]]) (auto intro: tags_ok_removed)
  qed
qed

section \<open>The entry of a tagged user on a label\<close>

text \<open>Besides the tags of one user: the taggers of a profile and label, the score derived from them, and whether the profile is a tombstone.\<close>

type_synonym label_state = "tag_state \<times> string set \<times> int option \<times> bool"

definition label_view :: "string \<Rightarrow> string \<Rightarrow> string \<Rightarrow> 'a tag_kv_scheme \<Rightarrow> label_state" where
  "label_view t u l g = (own_tags t g, uk_taggers g u l, on_label l u g, tombstoned u g)"

definition lift_own :: "(tag_state \<Rightarrow> tag_state) \<Rightarrow> label_state \<Rightarrow> label_state" where
  "lift_own f s = (f (fst s), snd s)"

definition on_label_set :: "string \<Rightarrow> string \<Rightarrow> (string set \<Rightarrow> string set) \<Rightarrow> tag_node \<Rightarrow> string \<Rightarrow> label_state \<Rightarrow> label_state" where
  "on_label_set u l f k l' s = (case s of (o1, T, x, d) \<Rightarrow> (o1, if k = UserN u \<and> l' = l then f T else T, x, d))"

definition rescore :: "string \<Rightarrow> string \<Rightarrow> string \<Rightarrow> string \<Rightarrow> label_state \<Rightarrow> label_state" where
  "rescore u l u' l' s =
     (case s of (o1, T, x, d) \<Rightarrow> (o1, T, if u' = u \<and> l' = l then (if d then None else derived_score T) else x, d))"

lemma tag_keys [simp]:
  "sorted_key (TAG_GLOBAL_USER_TAGGERS l) \<noteq> sorted_key (tag_score_key a x)"
  "sorted_key (TAG_GLOBAL_USER_TAGGERS l) \<noteq> sorted_key TAGS_LABEL"
  by (simp_all add: sorted_key_def TAG_GLOBAL_USER_TAGGERS_def tag_score_key_def POST_TAGS_KEY_def USER_TAGS_KEY_def TAGS_LABEL_def split: option.split)

lemma label_parts [simp]:
  "on_label l u (g\<lparr>nt_sets := n\<rparr>) = on_label l u g" "on_label l u (g\<lparr>uk_tagged := es\<rparr>) = on_label l u g"
  "on_label l u (g\<lparr>tk_counts := c\<rparr>) = on_label l u g" "on_label l u (g\<lparr>tk_gate := f\<rparr>) = on_label l u g"
  "on_label l u (g\<lparr>tk_resources := r\<rparr>) = on_label l u g" "on_label l u (set_taggers a x l' T g) = on_label l u g"
  "tombstoned u (g\<lparr>nt_sets := n\<rparr>) = tombstoned u g" "tombstoned u (g\<lparr>uk_tagged := es\<rparr>) = tombstoned u g"
  "tombstoned u (g\<lparr>tk_counts := c\<rparr>) = tombstoned u g" "tombstoned u (g\<lparr>tk_gate := f\<rparr>) = tombstoned u g"
  "tombstoned u (g\<lparr>tk_resources := r\<rparr>) = tombstoned u g" "tombstoned u (set_taggers a x l' T g) = tombstoned u g"
  "tombstoned u (g\<lparr>z_sets := z\<rparr>) = tombstoned u g" "tombstoned u (snd (cardinality_script u' l' g)) = tombstoned u g"
  by (simp_all add: on_label_def tombstoned_def set_taggers_def cardinality_script_def Let_def split: option.split)

lemma script_other_user: "u' \<noteq> u \<Longrightarrow> on_label l u (snd (cardinality_script u' l' g)) = on_label l u g"
  by (auto simp: on_label_def cardinality_script_def Let_def map_of_delete map_of_update)

interpretation lbl: tag_effects "label_view t u l" t "\<lambda>s. fst (fst s)" "\<lambda>p e. lift_own (link_own p e)"
  "\<lambda>k l'. on_label_set u l (insert t) k l' \<circ> lift_own (on_own k l')" "\<lambda>k l'. on_label_set u l (\<lambda>T. T - {t}) k l' \<circ> lift_own (off_own k l')"
  "rescore u l" "\<lambda>i app. lift_own (cut_own i app)" for t u l
proof unfold_locales
  fix g :: "'a tag_kv_scheme" and a x l' u' z
  have "uk_taggers (set_taggers a x l' T g) u l = (if node_of a x = UserN u \<and> l' = l then T else uk_taggers g u l)" for T
    by (cases x) (auto simp: set_taggers_def node_of_def)
  moreover have "node_of a x = UserN u \<and> l' = l \<Longrightarrow> index_taggers a x l' g = uk_taggers g u l"
    by (cases x) (auto simp: node_of_def index_taggers_def)
  ultimately show
    "label_view t u l (set_taggers a x l' (insert t (index_taggers a x l' g)) g) = (on_label_set u l (insert t) (node_of a x) l' \<circ> lift_own (on_own (node_of a x) l')) (label_view t u l g)"
    "label_view t u l (set_taggers a x l' (index_taggers a x l' g - {t}) g) = (on_label_set u l (\<lambda>T. T - {t}) (node_of a x) l' \<circ> lift_own (off_own (node_of a x) l')) (label_view t u l g)"
    by (auto simp: label_view_def own_set_taggers on_label_set_def lift_own_def)
  show "label_view t u l (snd (cardinality_script u' l' g)) = rescore u l u' l' (label_view t u l g)"
    by (cases "u' = u") (auto simp: label_view_def rescore_def own.V_sync script_on_label script_other_user)
  show "label_view t u l (g\<lparr>z_sets := (z_sets g)(sorted_key (tag_score_key a x) := z)\<rparr>) = label_view t u l g"
    "label_view t u l (g\<lparr>z_sets := (z_sets g)(sorted_key TAGS_LABEL := z)\<rparr>) = label_view t u l g"
    by (simp_all add: label_view_def own.V_scores own.V_labels) (simp_all add: on_label_def)
qed (auto simp: label_view_def lift_own_def on_label_set_def on_own_def off_own_def own.V_notes own.V_counts own.V_gate own.V_edges
      own.V_link own.V_resources own.V_cut)

section \<open>Resources\<close>

definition resources_tagged :: "'a tag_kv_scheme \<Rightarrow> bool" where
  "resources_tagged g \<longleftrightarrow> (\<forall>r. tk_resources g r \<noteq> None \<longleftrightarrow> (\<exists>e \<in> set (uk_tagged g). te_target e = ResourceN r))"

definition tag_env_keeps :: "('s \<Rightarrow> bool) \<Rightarrow> 's tag_env \<Rightarrow> bool" where
  "tag_env_keeps I E \<longleftrightarrow> (\<forall>u. keeps I (tx_ingest E u)) \<and> (\<forall>a p. keeps I (tx_is_reply E a p) \<and> keeps I (tx_post_kind E a p))"

lemma target_merge: "te_target ` set (snd (merge_tagged p e es)) = (if list_ex p es then te_target ` set es else insert (te_target e) (te_target ` set es))"
proof -
  have "te_target (if p x then x\<lparr>te_uri := u\<rparr> else x) = te_target x" for x u by simp
  then have "(\<lambda>x. te_target (if p x then x\<lparr>te_uri := u\<rparr> else x)) ` A = te_target ` A" for u A by (simp only:)
  then show ?thesis by (cases "list_ex p es") (simp_all only: merge_tagged_def if_True if_False snd_conv set_map image_image set_append
    list.set Un_insert_right Un_empty_right image_insert)
qed

lemma resources_tagged_iff: "resources_tagged g \<longleftrightarrow> (\<forall>r. tk_resources g r \<noteq> None \<longleftrightarrow> ResourceN r \<in> te_target ` set (uk_tagged g))"
  unfolding resources_tagged_def image_iff by (simp only: eq_commute)

lemma queries_keep:
  assumes "resources_tagged g"
  shows "resources_tagged (snd (create_user_tag t u i uri l c g))" "resources_tagged (snd (create_post_tag t a p i uri l c g))"
    "resources_tagged (snd (create_resource_tag t r ru sc app i uri l c g))" "resources_tagged (snd (delete_tag t i app' g))"
proof -
  show "resources_tagged (snd (create_user_tag t u i uri l c g))" "resources_tagged (snd (create_post_tag t a p i uri l c g))"
    using assms unfolding resources_tagged_iff create_user_tag_def create_post_tag_def Let_def case_prod_beta by (simp_all add: target_merge)
  have found: "list_ex (\<lambda>y. same_tag e y \<and> q y) es \<Longrightarrow> te_target e \<in> te_target ` set es" for e q es
  proof -
    assume "list_ex (\<lambda>y. same_tag e y \<and> q y) es"
    then obtain y where "y \<in> set es" "te_target y = te_target e" by (auto simp: list_ex_iff same_tag_def)
    then show ?thesis by (metis imageI)
  qed
  show "resources_tagged (snd (create_resource_tag t r ru sc app i uri l c g))"
    using assms found [of "new_tag t (ResourceN r) l (Some app) i uri c" _ "uk_tagged g"]
    unfolding resources_tagged_iff create_resource_tag_def Let_def case_prod_beta
    by (auto simp: target_merge split: option.split)
  show "resources_tagged (snd (delete_tag t i app' g))"
    using assms unfolding resources_tagged_def delete_tag_def Let_def by (auto simp: list_ex_iff)
qed

lemma resources_tagged_update [simp]:
  "resources_tagged (g\<lparr>nt_sets := n\<rparr>) = resources_tagged g" "resources_tagged (g\<lparr>z_sets := z\<rparr>) = resources_tagged g"
  "resources_tagged (g\<lparr>tk_counts := c\<rparr>) = resources_tagged g" "resources_tagged (g\<lparr>tk_gate := f\<rparr>) = resources_tagged g"
  "resources_tagged (set_taggers a x l T g) = resources_tagged g"
  by (simp_all add: resources_tagged_def set_taggers_def split: option.split)

abbreviation resources_kept :: "('a tag_kv_scheme, 'e, 'x) run \<Rightarrow> bool" where
  "resources_kept m \<equiv> keeps resources_tagged m"

lemma fail_kept: "keeps I (fail e)"
  unfolding keeps_def fail_def by (rule rg_fail)

lemma note_kept: "resources_kept (notification_put json u b)"
  unfolding keeps_def by (intro rg_note rg_redis stays_kept) (auto simp: zadd_notification_def)

lemma notes_kept:
  "resources_kept (new_user_tag json a b l)" "resources_kept (new_user_untag json a b l)"
  "resources_kept (new_post_tag json a b l u k)" "resources_kept (new_post_untag json a b l u k)"
  unfolding tag_notes by (simp_all add: note_kept keeps_pass)

lemma index_kept:
  "resources_kept (update_index_score a x l c)" "resources_kept (counts_invalidate a p)"
  "resources_kept (label_engagement a p l c)" "resources_kept (stream_engagement a p c)"
  "resources_kept (tag_search_put l)" "resources_kept (tag_search_del l)"
  "resources_kept (posts_by_tag_put a p l)" "resources_kept (posts_by_tag_del a p l)" "resources_kept (posts_by_tag_found l)"
  "resources_kept (check_tagger a x l y)" "resources_kept (add_tagger_to_index a x y l)" "resources_kept (taggers_del_from_index y a x l)"
  "resources_kept (sync_index_score u l)"
  unfolding update_index_score_def put_score_def counts_invalidate_def label_engagement_def stream_engagement_def
    tag_search_put_def tag_search_del_def put_index_sorted_set_def remove_from_index_sorted_set_def zset_put_def zset_del_def
    posts_by_tag_put_def posts_by_tag_del_def posts_by_tag_found_def check_tagger_def add_tagger_to_index_def taggers_del_from_index_def
    sync_index_score_def cardinality_script_def
  by (auto intro!: keeps_rules simp: via_gate_def Let_def split: option.split)

lemma ingest_kept: "tag_env_keeps I E \<Longrightarrow> keeps I (tx_ingest_or_drop E u)"
  unfolding tag_env_keeps_def keeps_def rg_def tx_ingest_or_drop_def by (auto split: prod.splits sum.splits)

lemma handlers_keep_resources:
  fixes E :: "'a tag_kv_scheme tag_env"
  assumes "tag_env_keeps resources_tagged E"
  shows "resources_kept (handle_tag_event E t ev)"
proof -
  have parts: "resources_kept (tx_is_reply E a p)" "resources_kept (tx_post_kind E a p)" "resources_kept (tx_ingest_or_drop E u)" for a p u
    using assms ingest_kept by (auto simp: tag_env_keeps_def)
  have calls: "resources_kept m \<Longrightarrow> resources_kept (tx_redis E m)" "resources_kept n \<Longrightarrow> resources_kept (tx_graph E n)" for m :: "('a tag_kv_scheme, redis_error, 'x) run" and n :: "('a tag_kv_scheme, graph_error, 'x) run"
    by (auto simp: tx_redis_def ux_redis_def tx_graph_def ux_graph_def intro: keeps_map_err)
  note rules = keeps_rules keeps_join fail_kept parts calls notes_kept index_kept queries_keep
  have put: "resources_kept (tag_sync_put E tag uri t i)" for tag uri i
    unfolding tag_sync_put_def put_sync_post_def put_sync_user_def
    by (auto intro!: rules split: sum.split tag_target.split operation_outcome.split)
  show ?thesis
  proof (cases ev)
    case (TagPut tag uri i)
    then show ?thesis using put by simp
  next
    case (TagPutResource tag uri i app)
    have "resources_kept (put_sync_resource E t r ru sc app i uri l c)" for r ru sc l c
      unfolding put_sync_resource_def by (auto intro!: rules split: operation_outcome.split)
    then show ?thesis unfolding TagPutResource handle_tag_event.simps tag_sync_put_resource_def
      using put by (auto intro!: rules split: sum.split)
  next
    case (TagDel uri)
    have u: "resources_kept (unindex_tag E t e pu)" for t e pu
      unfolding unindex_tag_def del_sync_user_def del_sync_post_def by (auto intro!: rules split: tag_node.split option.split)
    have f: "resources_kept (find_tag_row E ts)" for ts
      unfolding find_tag_row_def by (auto intro!: rules simp: get_tag_target_def split: option.split tag_node.split)
    show ?thesis unfolding TagDel handle_tag_event.simps tag_sync_del_def
      by (auto intro!: rules u f split: sum.split option.split tag_node.split)
  qed
qed

section \<open>The labels of a profile\<close>

lemma kept_fail: "kept R X (fail e)"
  unfolding kept_def fail_def by (rule rg_fail)

lemma kept_tx: "kept R X m \<Longrightarrow> kept R X (tx_redis E m)" "kept R X m' \<Longrightarrow> kept R X (tx_graph E m')"
  unfolding tx_redis_def tx_graph_def ux_redis_def ux_graph_def by (simp_all add: kept_map_err)

text \<open>The scored set of a profile's labels, and whether the tagger's relationship with the label is there.\<close>

definition count_view :: "string \<Rightarrow> string \<Rightarrow> string \<Rightarrow> 'a tag_kv_scheme \<Rightarrow> (string \<times> int) list \<times> bool" where
  "count_view t u l g = (z_sets g (sorted_key (USER_TAGS_KEY u)),
     list_ex (\<lambda>e. te_tagger e = t \<and> te_target e = UserN u \<and> te_label e = l) (uk_tagged g))"

lemma label_keys_differ [simp]:
  "sorted_key TAGS_LABEL \<noteq> sorted_key (USER_TAGS_KEY u)" "sorted_key (USER_TAGS_KEY u) \<noteq> sorted_key TAGS_LABEL"
  by (simp_all add: sorted_key_def TAGS_LABEL_def USER_TAGS_KEY_def)

lemma count_view_update:
  "count_view t u l (set_taggers a x l' T g) = count_view t u l g" "count_view t u l (snd (cardinality_script u' l' g)) = count_view t u l g"
  "count_view t u l (g\<lparr>z_sets := (z_sets g)(sorted_key TAGS_LABEL := z)\<rparr>) = count_view t u l g"
  by (simp_all add: count_view_def set_taggers_def cardinality_script_def Let_def split: option.split)

lemma written_again:
  assumes "count_view t u l g = (z, True)"
  shows "fst (create_user_tag t u i uri l c g) \<noteq> Some False \<and> count_view t u l (snd (create_user_tag t u i uri l c g)) = (z, True)"
proof -
  let ?p = "\<lambda>e. te_tagger e = t \<and> te_target e = UserN u \<and> te_label e = l"
  have p: "same_tag (new_tag t (UserN u) l None i uri c) = ?p" by (auto simp: same_tag_def new_tag_def fun_eq_iff)
  have found: "list_ex ?p (uk_tagged g)" using assms by (simp add: count_view_def)
  have again: "list_ex ?p (map (\<lambda>x. if ?p x then x\<lparr>te_uri := v\<rparr> else x) (uk_tagged g))" for v
  proof -
    have same_key: "?p (if ?p x then x\<lparr>te_uri := v\<rparr> else x) = ?p x" for x by simp
    show ?thesis using found unfolding list_ex_iff set_map bex_simps(7) same_key .
  qed
  then show ?thesis
    using found assms by (simp add: create_user_tag_def merge_tagged_def Let_def p count_view_def again)
qed

lemma repeated_put_kept:
  assumes "\<And>v. kept (same (count_view t u l)) (\<lambda>g. count_view t u l g = (z, True)) (tx_ingest E v)"
  shows "kept (same (count_view t u l)) (\<lambda>g. count_view t u l g = (z, True)) (put_sync_user E t u i uri l c)"
    (is "kept ?R ?X _")
proof -
  have st: "stays ?R ?X" by (rule stays_same)
  have calls: "kept ?R ?X (tx_redis E (add_tagger_to_index u None t l))" "kept ?R ?X (tx_redis E (tag_search_put l))"
      "kept ?R ?X (tx_redis E (sync_index_score u l))"
    unfolding add_tagger_to_index_def tag_search_put_def put_index_sorted_set_def zset_put_def sync_index_score_def
    by (auto intro!: kept_tx kept_redis [OF st] simp: count_view_update)
  have drop: "kept ?R ?X (tx_ingest_or_drop E u)"
    by (rule kept_outcome [OF assms [of u], where f = "fail_on_blacklisted_hs (ux_show_graph (tx_users E)) (ux_show_redis (tx_users E))"])
      (simp_all add: tx_ingest_or_drop_def case_prod_beta)
  have created: "rg False ?R ?X (tx_graph E (graph_call (create_user_tag t u i uri l c))) (\<lambda>x g. x \<noteq> Some False \<and> ?X g) (\<lambda>_. ?X)"
    unfolding tx_graph_def ux_graph_def by (intro rg_map_err_const rg_graph [OF st]) (auto dest: written_again)
  show ?thesis unfolding kept_def put_sync_user_def
  proof (rule rg_andthen [OF created])
    fix flag
    show "rg False ?R (\<lambda>g. flag \<noteq> Some False \<and> ?X g)
     (case execute_graph_operation flag of
         Updated \<Rightarrow>
           andthen (join_arms (tx_picks E)
             [tx_redis E (add_tagger_to_index u None t l), tx_redis E (tag_search_put l)]) (\<lambda>_. tx_redis E (sync_index_score u l))
       | CreatedOrDeleted \<Rightarrow>
           andthen (join_arms (tx_picks E)
             [tx_redis E (update_index_score u None l (Increment 1)), tx_redis E (add_tagger_to_index u None t l),
              tx_redis E (new_user_tag (tx_json E) t u l), tx_redis E (tag_search_put l)]) (\<lambda>_. tx_redis E (sync_index_score u l))
       | OpMissingDependency \<Rightarrow>
           andthen (tx_ingest_or_drop E u) (\<lambda>_.
             case tx_user_uri E u of Inl e \<Rightarrow> fail (Generic e) | Inr uri \<Rightarrow> fail (MissingDependency [uri]))) (\<lambda>_. ?X) (\<lambda>_. ?X)"
    proof (rule rg_assume [where C = "flag \<noteq> Some False"])
      assume "flag \<noteq> Some False"
      then have "execute_graph_operation flag \<in> {Updated, OpMissingDependency}"
        by (auto simp: execute_graph_operation_def split: option.split bool.split)
      moreover have "kept ?R ?X (andthen (join_arms (tx_picks E)
             [tx_redis E (add_tagger_to_index u None t l), tx_redis E (tag_search_put l)]) (\<lambda>_. tx_redis E (sync_index_score u l)))"
        by (intro kept_andthen kept_join calls) (auto intro: calls)
      moreover have "kept ?R ?X (andthen (tx_ingest_or_drop E u) (\<lambda>_.
             case tx_user_uri E u of Inl e \<Rightarrow> fail (Generic e) | Inr uri \<Rightarrow> fail (MissingDependency [uri])))"
        by (intro kept_andthen drop) (auto intro: kept_fail split: sum.split)
      ultimately show ?thesis by (auto simp: kept_def intro: rg_weaken)
    qed auto
  qed
qed

section \<open>Properties\<close>

lemma history_rg:
  assumes "tag_env_apart False (own_tags t) E" "\<forall>ev \<in> set evs. event_of key E t ev"
    "rely False (same (own_tags t)) w" "tags_ok key (own_tags t (kv w))"
  shows "tags_ok key (own_tags t (kv (tag_history E t evs w)))"
  using assms(2-4)
proof (induction evs arbitrary: w)
  case (Cons ev evs)
  obtain r w1 where h: "handle_tag_event E t ev w = (r, w1)" by force
  have "event_of key E t ev" using Cons.prems(1) by simp
  note d = rgD [OF handled_tags_stay_ok [OF assms(1) this] Cons.prems(2,3) h]
  have "tags_ok key (own_tags t (kv w1))" using d by (cases r) auto
  then show ?case using Cons.IH [OF _ d(1)] Cons.prems(1) h by simp
qed simp

text \<open>C14. The indexes of tags stay within the graph: whatever tag events of a user are handled, one after the other, wherever each
  of them failed, a post's or user's set of taggers for a label holds the user only if the graph has the relationship with that label,
  provided an id names one target and label, and the other tasks leave the tags of this user alone.\<close>

theorem tag_index_within_graph:
  fixes w :: "'a tag_kv_scheme world"
  assumes "rely False (same (own_tags t)) w" "tag_env_apart False (own_tags t) E" "\<forall>ev \<in> set evs. event_of key E t ev"
    "tags_ok key (own_tags t (kv w))"
  defines "g \<equiv> kv (tag_history E t evs w)"
  shows "(\<forall>k l. t \<in> taggers_of k l g \<longrightarrow> (\<exists>e \<in> set (uk_tagged g). te_tagger e = t \<and> te_target e = k \<and> te_label e = l)) \<and>
    tags_ok key (own_tags t g)"
proof -
  have ok: "tags_ok key (own_tags t g)" unfolding g_def by (rule history_rg [OF assms(2,3,1,4)])
  have "\<exists>e \<in> set (uk_tagged g). te_tagger e = t \<and> te_target e = k \<and> te_label e = l" if "t \<in> taggers_of k l g" for k l
  proof -
    have "(k, l) \<in> snd (own_tags t g)" using that by (simp add: own_tags_def)
    then obtain i where "(i, None, k, l) \<in> skel ` set (fst (own_tags t g))" using ok unfolding tags_ok_def tags_fit_def by blast
    then show ?thesis by (auto simp: own_tags_def skel_def)
  qed
  then show ?thesis using ok by blast
qed

text \<open>C15. A tagged user is listed: when a tag on a profile was handled, first or again, the graph has the relationship, the tagger is in the
  profile's set for the label, and the profile is listed under the label with the number of its taggers as the score, or not at all
  if the profile was deleted. If no call fails, an error means that nothing was written.\<close>

theorem tagged_user_is_listed:
  fixes w :: "'a tag_kv_scheme world"
  assumes "rely False (same (label_view t u l)) w" "\<And>clean. tag_env_apart clean (label_view t u l) E"
    "tag_target_of E (at_uri tag) = Inr (TargetUser u)" "at_label tag = l" "tag_sync_put E tag uri t i w = (r, w')"
  shows "(r = Inr () \<longrightarrow> t \<in> uk_taggers (kv w') u l \<and>
      (\<exists>e \<in> set (uk_tagged (kv w')). te_tagger e = t \<and> te_target e = UserN u \<and> te_label e = l) \<and>
      on_label l u (kv w') = (if tombstoned u (kv w') then None else Some (int (card (uk_taggers (kv w') u l))))) \<and>
    (fault w = (\<lambda>_. None) \<and> graph_fault w = (\<lambda>_. None) \<and> r \<noteq> Inr () \<longrightarrow> label_view t u l (kv w') = label_view t u l (kv w))"
proof -
  define clean where "clean \<longleftrightarrow> fault w = (\<lambda>_. None) \<and> graph_fault w = (\<lambda>_. None)"
  have rl: "rely clean (same (label_view t u l)) w" using assms(1) by (simp add: rely_def clean_def)
  define s where "s = label_view t u l (kv w)"
  obtain c where c: "rely clean (same (label_view t u l)) c" "label_view t u l (kv c) = s"
      "put_sync_user E t u i uri l (clock w (tick w)) c = (r, w')"
  proof
    show "rely clean (same (label_view t u l)) (env_step w)" by (rule rely_same [OF env_step_schedule rl])
    show "label_view t u l (kv (env_step w)) = s"
      using rely_env_step [OF rl stays_same [of "label_view t u l" "\<lambda>v. v = s"]] by (simp add: s_def)
    show "put_sync_user E t u i uri l (clock w (tick w)) (env_step w) = (r, w')"
      using assms(3-5) by (simp add: tag_sync_put_def andthen_def now_def utc_now_def)
  qed
  note d = rgD [OF lbl.put_user_rg [OF assms(2)] c]
  let ?e = "new_tag t (UserN u) l None i uri (clock w (tick w))"
  obtain es M T x dd where s: "s = ((es, M), T, x, dd)" by (metis prod.exhaust)
  have mem: "\<exists>e \<in> set (snd (merge_tagged (same_tag ?e) ?e es)). te_target e = UserN u \<and> te_label e = l"
  proof (cases "list_ex (same_tag ?e) es")
    case True
    then obtain y where "y \<in> set es" "same_tag ?e y" by (auto simp: list_ex_iff)
    then have "y\<lparr>te_uri := uri\<rparr> \<in> set (snd (merge_tagged (same_tag ?e) ?e es))" "te_target y = UserN u \<and> te_label y = l"
      using True by (auto simp: merge_tagged_def same_tag_def new_tag_def)
    then show ?thesis by (intro bexI [of _ "y\<lparr>te_uri := uri\<rparr>"]) auto
  qed (auto simp: merge_tagged_def)
  show ?thesis
  proof (cases r)
    case (Inl e)
    then show ?thesis using d(3) by (auto simp: s_def clean_def)
  next
    case (Inr z)
    then have "label_view t u l (kv w') = ((snd (merge_tagged (same_tag ?e) ?e es), insert (UserN u, l) M), insert t T,
        if dd then None else derived_score (insert t T), dd)"
      using d(2) s by (simp add: lift_own_def link_own_def on_own_def on_label_set_def rescore_def)
    then have v: "filter (\<lambda>e. te_tagger e = t) (uk_tagged (kv w')) = snd (merge_tagged (same_tag ?e) ?e es)"
        "uk_taggers (kv w') u l = insert t T" "on_label l u (kv w') = (if dd then None else derived_score (insert t T))" "tombstoned u (kv w') = dd"
      by (simp_all add: label_view_def own_tags_def)
    have "\<exists>e \<in> set (uk_tagged (kv w')). te_tagger e = t \<and> te_target e = UserN u \<and> te_label e = l"
      using mem unfolding v(1) [symmetric] by auto
    then show ?thesis using v(2-4) Inr by (simp add: derived_score_def)
  qed
qed

text \<open>C27. A removed tag is gone: when the removal of a tag on a profile was handled, the graph has no relationship of the user to
  the profile with that label, the user is not in the profile's set for the label, and the profile is listed under the label with the
  number of the remaining taggers as the score, or not at all if there are none or the profile was deleted.\<close>

theorem removed_tag_is_gone:
  fixes w :: "'a tag_kv_scheme world"
  assumes "rely False (same (label_view t u l)) w" "tag_env_apart False (label_view t u l) E"
    "parse_tag_storage_uri (tx_specs E) uri = Inr ts" "ts_user_id ts = t" "tags_ok key (own_tags t (kv w))"
    "e \<in> set (uk_tagged (kv w))" "te_tagger e = t" "te_id e = ts_tag_id ts" "te_target e = UserN u" "te_label e = l"
    "\<forall>x \<in> set (uk_tagged (kv w)). te_tagger x = t \<and> te_id x = ts_tag_id ts \<and> te_app x = ts_app ts \<longrightarrow> te_app x = None"
    "tag_sync_del E uri w = (Inr (), w')"
  shows "\<not> (\<exists>x \<in> set (uk_tagged (kv w')). te_tagger x = t \<and> te_target x = UserN u \<and> te_label x = l) \<and> t \<notin> uk_taggers (kv w') u l \<and>
    on_label l u (kv w') = (if tombstoned u (kv w') then None else derived_score (uk_taggers (kv w') u l))"
proof -
  obtain es M T x d where s: "label_view t u l (kv w) = ((es, M), T, x, d)" by (metis prod.exhaust)
  have es: "es = filter (\<lambda>e. te_tagger e = t) (uk_tagged (kv w))" and own: "own_tags t (kv w) = (es, M)" using s by (auto simp: label_view_def own_tags_def)
  note fit = assms(5) [unfolded own tags_ok_def fst_conv snd_conv]
  have in_es: "y \<in> set es \<Longrightarrow> (te_id y, te_app y, te_target y, te_label y) \<in> skel ` set es" for y by (metis imageI skel_def)
  have e1: "e \<in> set es" using assms(6,7) by (simp add: es)
  then have e: "e \<in> set es" "te_app e = None" using fit_row(1) [OF fit in_es [OF e1]] assms(9) by (simp_all add: known_def)
  have key: "key (ts_tag_id ts) = (UserN u, l)" using fit_row(2) [OF fit in_es [OF e(1)] e(2)] assms(8-10) by simp
  have "lbl.removed u l t ts ((es, M), T, x, d) (label_view t u l (kv w'))"
    using rgD(2) [OF lbl.del_rg [OF assms(2-4)] assms(1) s assms(12)] by simp
  moreover have "\<not> lbl.row_of ts ((es, M), T, x, d) None"
  proof
    assume n: "lbl.row_of ts ((es, M), T, x, d) None"
    have "\<exists>y \<in> set es. te_app y = None \<and> (\<exists>r. te_target y = ResourceN r)"
      using bspec [OF n [unfolded lbl.row_of_def option.case fst_conv], OF e(1)] e(2) assms(8) by blast
    then obtain y r where y: "y \<in> set es" "te_app y = None" "te_target y = ResourceN r" by blast
    then show False using fit_row(1) [OF fit in_es [OF y(1)]] by (simp add: known_def)
  qed
  ultimately obtain y yu where y: "lbl.row_of ts ((es, M), T, x, d) (Some (y, yu))"
      "label_view t u l (kv w') = lift_own (cut_own (ts_tag_id ts) (te_app y)) (lbl.unindexed u l t y ((es, M), T, x, d))"
    unfolding lbl.removed_def by blast
  have yes: "y \<in> set es" "te_id y = ts_tag_id ts" "te_app y = ts_app ts \<or> te_app y = None" using y(1) by (simp_all add: lbl.row_of_def)
  then have yes: "y \<in> set es" "te_id y = ts_tag_id ts" "te_app y = None" using assms(11) by (auto simp: es)
  then have "te_target y = UserN u" "te_label y = l" using fit_row(2) [OF fit in_es [OF yes(1)]] key by auto
  then have v: "label_view t u l (kv w') = ((filter (\<lambda>e. \<not> (te_id e = ts_tag_id ts \<and> te_app e = None)) es, M - {(UserN u, l)}), T - {t},
      if d then None else derived_score (T - {t}), d)"
    using y(2) yes by (simp add: lbl.unindexed_def lift_own_def cut_own_def off_own_def on_label_set_def rescore_def)
  have fin: "filter (\<lambda>e. te_tagger e = t) (uk_tagged (kv w')) = filter (\<lambda>e. \<not> (te_id e = ts_tag_id ts \<and> te_app e = None)) es"
      "uk_taggers (kv w') u l = T - {t}" "on_label l u (kv w') = (if d then None else derived_score (T - {t}))" "tombstoned u (kv w') = d"
    using v by (simp_all add: label_view_def own_tags_def)
  have "\<not> (\<exists>x \<in> set (uk_tagged (kv w')). te_tagger x = t \<and> te_target x = UserN u \<and> te_label x = l)"
  proof
    assume "\<exists>x \<in> set (uk_tagged (kv w')). te_tagger x = t \<and> te_target x = UserN u \<and> te_label x = l"
    then obtain z where "z \<in> set (filter (\<lambda>e. te_tagger e = t) (uk_tagged (kv w')))" "te_target z = UserN u" "te_label z = l" by auto
    then have z: "z \<in> set es" "\<not> (te_id z = ts_tag_id ts \<and> te_app z = None)" "te_target z = UserN u" "te_label z = l"
      unfolding fin(1) by auto
    then have "te_app z = None" using fit_row(1) [OF fit in_es [OF z(1)]] by (simp add: known_def)
    moreover have "te_id z = te_id e"
      using fit_one [OF fit, of "te_id z" "UserN u" l "te_id e"] in_es [OF z(1)] in_es [OF e(1)] e(2) z(3,4) assms(9,10) \<open>te_app z = None\<close>
      by simp
    ultimately show False using z(2) assms(8) by simp
  qed
  then show ?thesis unfolding fin(2-4) by simp
qed

text \<open>C29. A resource is in the graph exactly as long as it is tagged, whatever tag events are handled and wherever they fail: the first
  tag creates it, and the last removal, of whichever application, deletes it.\<close>

theorem resources_are_tagged:
  fixes w :: "'a tag_kv_scheme world"
  assumes "rely False (\<lambda>g g'. resources_tagged g \<longrightarrow> resources_tagged g') w" "tag_env_keeps resources_tagged E" "resources_tagged (kv w)"
  shows "tk_resources (kv (tag_history E t evs w)) r \<noteq> None \<longleftrightarrow>
    (\<exists>e \<in> set (uk_tagged (kv (tag_history E t evs w))). te_target e = ResourceN r)"
proof -
  have "resources_tagged (kv (tag_history E t evs w))" using assms(1,3)
  proof (induction evs arbitrary: w)
    case (Cons ev evs)
    then show ?case using keeps_run [OF handlers_keep_resources [OF assms(2), of t ev] Cons.prems] by simp
  qed simp
  then show ?thesis by (simp add: resources_tagged_def)
qed

section \<open>An example\<close>

definition demo_tag_env :: "tag_kv tag_env" where
  "demo_tag_env =
     \<lparr>tx_users = demo_user_env, tx_json = (\<lambda>_. ''note''),
      tx_specs = \<lparr>try_from_uri = (\<lambda>u. if u = ''file'' then Inr (PubkyApp ''t'' (TagR ''i'')) else Inl ''bad''), try_to_uri_str = (\<lambda>_. Inl ''bad'')\<rparr>,
      tx_pubky_app = (\<lambda>u. if u = ''profile'' then Inr (''u'', UserR) else Inl ''bad''),
      tx_url_parse = (\<lambda>_. None), tx_show_port = (\<lambda>_. ''80''), tx_resource_id = (\<lambda>u. u), tx_ingest = (\<lambda>_ w. (Inr (), w)),
      tx_user_uri = (\<lambda>_. Inr ''profile''), tx_is_reply = (\<lambda>_ _. pass False), tx_post_kind = (\<lambda>_ _. pass ''short''), tx_picks = []\<rparr>"

definition demo_tag_gate :: tf_kv where
  "demo_tag_gate = \<lparr>tf_on = False, tf_filtered = False, tf_showing = False, tf_ranking = {}, tf_applied = {}, tf_sets = (\<lambda>_. Map.empty), tf_posts = []\<rparr>"

definition demo_tags :: tag_kv where
  "demo_tags = \<lparr>nt_sets = (\<lambda>_. []), z_sets = (\<lambda>_. []),
     uk_nodes = (\<lambda>_. None)(''u'' \<mapsto> (demo_details ''A'', None), ''t'' \<mapsto> (demo_details ''T'', None)),
     uk_tagged = [], uk_rels = {}, uk_cache = (\<lambda>_. None)(''u'' \<mapsto> demo_details ''A''), uk_taggers = (\<lambda>_ _. {}),
     tk_posts = (\<lambda>_ _. None), tk_resources = (\<lambda>_. None), tk_post_taggers = (\<lambda>_ _ _. {}), tk_details = (\<lambda>_ _. None),
     tk_counts = (\<lambda>_ _. None), tk_gate = demo_tag_gate\<rparr>"

definition demo_tag :: app_tag where
  "demo_tag = \<lparr>at_uri = ''profile'', at_label = ''l''\<rparr>"

definition demo_tag_key :: "string \<Rightarrow> tag_node \<times> string" where
  "demo_tag_key i = (UserN ''u'', ''l'')"

lemma demo_tag_apart: "tag_env_apart clean V demo_tag_env"
  by (auto simp: tag_env_apart_def demo_tag_env_def intro: quiet_pass rgI)

lemma demo_tag_target: "tag_target_of demo_tag_env (at_uri demo_tag) = Inr (TargetUser ''u'')" "at_label demo_tag = ''l''"
  "parse_tag_storage_uri (tx_specs demo_tag_env) ''file'' = Inr \<lparr>ts_user_id = ''t'', ts_tag_id = ''i'', ts_app = None\<rparr>"
  by (simp_all add: tag_target_of_def demo_tag_env_def demo_tag_def parse_tag_storage_uri_def)

lemma demo_tag_own: "tags_ok demo_tag_key (own_tags ''t'' demo_tags)"
  by (auto simp: tags_ok_def tags_fit_def own_tags_def demo_tags_def taggers_of_def split: tag_node.splits)

lemma calm_parts [simp]: "kv (calm_world s) = s" "fault (calm_world s) = (\<lambda>_. None)" "graph_fault (calm_world s) = (\<lambda>_. None)"
  by (simp_all add: calm_world_def)

theorem tag_index_within_graph_witness:
  "tags_ok demo_tag_key (own_tags ''t'' (kv (tag_history demo_tag_env ''t'' [TagPut demo_tag ''file'' ''i'', TagDel ''file''] (calm_world demo_tags))))"
proof -
  have "\<forall>ev \<in> set [TagPut demo_tag ''file'' ''i'', TagDel ''file'']. event_of demo_tag_key demo_tag_env ''t'' ev"
    by (simp add: event_of_def named_def demo_tag_target demo_tag_key_def target_node_def)
  moreover have "rely False (same (own_tags ''t'')) (calm_world demo_tags)" by (simp add: same_def)
  moreover have "tags_ok demo_tag_key (own_tags ''t'' (kv (calm_world demo_tags)))" by (simp add: demo_tag_own)
  ultimately show ?thesis using tag_index_within_graph demo_tag_apart by blast
qed

text \<open>The run of the example, by evaluation.\<close>

lemmas tag_run_defs = tag_sync_put_def put_sync_user_def andthen_def now_def utc_now_def env_step_def calm_world_def tx_graph_def ux_graph_def
  tx_redis_def ux_redis_def map_err_def graph_call_def redis_call_def create_user_tag_def merge_tagged_def same_tag_def new_tag_def
  execute_graph_operation_def join_arms_def arm_order_def update_index_score_def put_score_def add_tagger_to_index_def
  new_user_tag_def notification_put_def zadd_notification_def tag_search_put_def put_index_sorted_set_def zset_put_def zadd_all_def
  sync_index_score_def cardinality_script_def set_taggers_def index_taggers_def unwrap_or_def delta_of_def

lemmas demo_tag_defs = demo_tag_env_def demo_tags_def demo_tag_def demo_user_env_def tag_target_of_def

definition demo_tagged :: "int \<Rightarrow> tag_edge" where
  "demo_tagged c = \<lparr>te_tagger = ''t'', te_target = UserN ''u'', te_label = ''l'', te_app = None, te_id = ''i'', te_uri = ''file'', te_indexed_at = c\<rparr>"

lemma demo_tag_first:
  obtains w1 where "tag_sync_put demo_tag_env demo_tag ''file'' ''t'' ''i'' (calm_world demo_tags) = (Inr (), w1)"
    "uk_tagged (kv w1) = [demo_tagged 1000]" "uk_cache (kv w1) ''u'' = Some (demo_details ''A'')"
proof -
  let ?r = "tag_sync_put demo_tag_env demo_tag ''file'' ''t'' ''i'' (calm_world demo_tags)"
  have "fst ?r = Inr () \<and> uk_tagged (kv (snd ?r)) = [demo_tagged 1000] \<and> uk_cache (kv (snd ?r)) ''u'' = Some (demo_details ''A'')"
    by (simp add: tag_run_defs demo_tag_defs Let_def demo_tagged_def)
  then show thesis by (metis prod.collapse that)
qed

theorem tagged_user_is_listed_witness:
  "\<exists>w1. tag_sync_put demo_tag_env demo_tag ''file'' ''t'' ''i'' (calm_world demo_tags) = (Inr (), w1) \<and> ''t'' \<in> uk_taggers (kv w1) ''u'' ''l'' \<and>
     on_label ''l'' ''u'' (kv w1) = Some (int (card (uk_taggers (kv w1) ''u'' ''l'')))"
proof -
  obtain w1 where w1: "tag_sync_put demo_tag_env demo_tag ''file'' ''t'' ''i'' (calm_world demo_tags) = (Inr (), w1)"
    "uk_cache (kv w1) ''u'' = Some (demo_details ''A'')" using demo_tag_first by metis
  have "\<not> tombstoned ''u'' (kv w1)" using w1(2) by (simp add: tombstoned_def demo_details_def)
  moreover have "rely False (same (label_view ''t'' ''u'' ''l'')) (calm_world demo_tags)" by (simp add: same_def)
  ultimately show ?thesis using tagged_user_is_listed [OF _ demo_tag_apart demo_tag_target(1,2) w1(1)] w1(1) by auto
qed

definition demo_tagged_kv :: tag_kv where
  "demo_tagged_kv = demo_tags\<lparr>uk_tagged := [demo_tagged 1000], uk_taggers := (\<lambda>_ _. {})(''u'' := (\<lambda>_. {})(''l'' := {''t''}))\<rparr>"

lemmas untag_run_defs = tag_sync_del_def find_tag_row_def get_tag_target_def tag_file_def unindex_tag_def check_tagger_def del_sync_user_def
  taggers_del_from_index_def new_user_untag_def delete_tag_def parse_tag_storage_uri_def pass_def

lemma demo_tag_removed: "fst (tag_sync_del demo_tag_env ''file'' (calm_world demo_tagged_kv)) = Inr ()"
  by (simp add: untag_run_defs tag_run_defs demo_tag_defs demo_tagged_kv_def demo_tagged_def Let_def)

lemma demo_tagged_own: "tags_ok demo_tag_key (own_tags ''t'' demo_tagged_kv)"
  by (auto simp: tags_ok_def tags_fit_def own_tags_def demo_tagged_kv_def demo_tagged_def demo_tags_def taggers_of_def skel_def demo_tag_key_def known_def
      split: tag_node.splits if_splits)

theorem removed_tag_is_gone_witness:
  "\<exists>w1. tag_sync_del demo_tag_env ''file'' (calm_world demo_tagged_kv) = (Inr (), w1) \<and> ''t'' \<notin> uk_taggers (kv w1) ''u'' ''l''"
proof -
  obtain w1 where w1: "tag_sync_del demo_tag_env ''file'' (calm_world demo_tagged_kv) = (Inr (), w1)" using demo_tag_removed by (metis prod.collapse)
  have "rely False (same (label_view ''t'' ''u'' ''l'')) (calm_world demo_tagged_kv)" by (simp add: same_def)
  moreover have "tags_ok demo_tag_key (own_tags ''t'' (kv (calm_world demo_tagged_kv)))" by (simp add: demo_tagged_own)
  moreover have "demo_tagged 1000 \<in> set (uk_tagged (kv (calm_world demo_tagged_kv)))" by (simp add: demo_tagged_kv_def)
  ultimately show ?thesis
    using removed_tag_is_gone [OF _ demo_tag_apart demo_tag_target(3) _ _ _ _ _ _ _ _ w1, of "''t''" "''u''" "''l''" demo_tag_key "demo_tagged 1000"] w1
    by (auto simp: demo_tagged_def demo_tagged_kv_def)
qed

theorem resources_are_tagged_witness:
  "tk_resources (kv (tag_history demo_tag_env ''t'' [TagPutResource \<lparr>at_uri = ''x:y'', at_label = ''l''\<rparr> ''file'' ''i'' ''app''] (calm_world demo_tags))) ''x:y'' \<noteq> None \<longleftrightarrow>
    (\<exists>e \<in> set (uk_tagged (kv (tag_history demo_tag_env ''t'' [TagPutResource \<lparr>at_uri = ''x:y'', at_label = ''l''\<rparr> ''file'' ''i'' ''app''] (calm_world demo_tags)))).
       te_target e = ResourceN ''x:y'')"
proof (rule resources_are_tagged)
  show "rely False (\<lambda>g g'. resources_tagged g \<longrightarrow> resources_tagged g') (calm_world demo_tags)" by simp
  show "tag_env_keeps resources_tagged demo_tag_env" by (auto simp: tag_env_keeps_def demo_tag_env_def keeps_def intro: rg_pass rgI)
  show "resources_tagged (kv (calm_world demo_tags))" by (simp add: resources_tagged_def demo_tags_def)
qed

text \<open>A first attempt whose count is lost, and the attempt that follows it.\<close>

lemma half_done_tag:
  fixes e :: redis_error
  defines "w \<equiv> (calm_world demo_tags)\<lparr>fault := (\<lambda>n. if n = 2 then Some (LostRequest e) else None)\<rparr>"
  obtains w1 where "tag_sync_put demo_tag_env demo_tag ''file'' ''t'' ''i'' w = (Inl (ep_from_redis (\<lambda>_. ''redis'') e), w1)"
    "kv w1 = demo_tags\<lparr>nt_sets := (\<lambda>_. [])(''u'' := [(''note'', f64_of_int 1004)]), z_sets := (\<lambda>_. [])(sorted_key TAGS_LABEL := [(''l'', 0)]),
       uk_tagged := [demo_tagged 1000], uk_taggers := (\<lambda>_ _. {})(''u'' := (\<lambda>_. {})(''l'' := {''t''}))\<rparr>"
proof -
  let ?r = "tag_sync_put demo_tag_env demo_tag ''file'' ''t'' ''i'' w"
  have "fst ?r = Inl (ep_from_redis (\<lambda>_. ''redis'') e) \<and>
      kv (snd ?r) = demo_tags\<lparr>nt_sets := (\<lambda>_. [])(''u'' := [(''note'', f64_of_int 1004)]), z_sets := (\<lambda>_. [])(sorted_key TAGS_LABEL := [(''l'', 0)]),
       uk_tagged := [demo_tagged 1000], uk_taggers := (\<lambda>_ _. {})(''u'' := (\<lambda>_. {})(''l'' := {''t''}))\<rparr>"
    by (simp add: w_def tag_run_defs demo_tag_defs Let_def demo_tagged_def)
  then show thesis by (metis prod.collapse that)
qed

definition demo_half :: tag_kv where
  "demo_half = demo_tags\<lparr>nt_sets := (\<lambda>_. [])(''u'' := [(''note'', f64_of_int 1004)]), z_sets := (\<lambda>_. [])(sorted_key TAGS_LABEL := [(''l'', 0)]),
       uk_tagged := [demo_tagged 1000], uk_taggers := (\<lambda>_ _. {})(''u'' := (\<lambda>_. {})(''l'' := {''t''}))\<rparr>"

definition demo_again :: tag_kv where
  "demo_again = demo_half\<lparr>z_sets := (z_sets demo_half)(sorted_key (TAG_GLOBAL_USER_TAGGERS ''l'') := [(''u'', 1)])\<rparr>"

lemma half_done_again:
  obtains w2 where "tag_sync_put demo_tag_env demo_tag ''file'' ''t'' ''i'' (calm_world demo_half) = (Inr (), w2)" "kv w2 = demo_again"
proof -
  let ?r = "tag_sync_put demo_tag_env demo_tag ''file'' ''t'' ''i'' (calm_world demo_half)"
  have "fst ?r = Inr () \<and> kv (snd ?r) = demo_again"
    by (simp add: tag_run_defs demo_tag_defs Let_def demo_tagged_def demo_half_def demo_again_def demo_details_def)
  then show thesis by (metis prod.collapse that)
qed

text \<open>C38. A tag of a profile is counted once: handling it when its relationship with the label is already in the graph, as on every
  repetition and on a retry, leaves the scored set of the profile's labels (\<open>Users:Tag:<user>\<close>) exactly as it was, wherever a call fails,
  while the other tasks leave that set and the relationship alone. So a count that the first attempt lost after writing the relationship
  is not made up for by the retry.\<close>

theorem repeated_tag_counts_once:
  fixes w :: "'a tag_kv_scheme world"
  assumes "rely False (same (count_view t u l)) w"
    and "\<And>v. kept (same (count_view t u l)) (\<lambda>g. count_view t u l g = count_view t u l (kv w)) (tx_ingest E v)"
    and "tag_target_of E (at_uri tag) = Inr (TargetUser u)" and "at_label tag = l"
    and "e \<in> set (uk_tagged (kv w))" "te_tagger e = t" "te_target e = UserN u" "te_label e = l"
    and "tag_sync_put E tag uri t i w = (r, w')"
  shows "z_sets (kv w') (sorted_key (USER_TAGS_KEY u)) = z_sets (kv w) (sorted_key (USER_TAGS_KEY u))"
proof -
  let ?z = "z_sets (kv w) (sorted_key (USER_TAGS_KEY u))"
  let ?X = "\<lambda>g :: 'a tag_kv_scheme. count_view t u l g = (?z, True)"
  have X: "count_view t u l (kv w) = (?z, True)" using assms(5-8) by (auto simp: count_view_def list_ex_iff)
  have "kept (same (count_view t u l)) ?X (tag_sync_put E tag uri t i)"
    unfolding tag_sync_put_def assms(3,4) sum.case tag_target.case
    by (intro kept_andthen kept_now stays_same repeated_put_kept assms(2) [unfolded X])
  from rgD [OF keptD [OF this] assms(1) X assms(9)] have "count_view t u l (kv w') = (?z, True)" by (cases r) auto
  then show ?thesis by (simp add: count_view_def)
qed

theorem repeated_tag_counts_once_witness:
  "\<exists>w'. tag_sync_put demo_tag_env demo_tag ''file'' ''t'' ''i'' (calm_world demo_half) = (Inr (), w') \<and>
     z_sets (kv w') (sorted_key (USER_TAGS_KEY ''u'')) = []"
proof -
  obtain w' where w': "tag_sync_put demo_tag_env demo_tag ''file'' ''t'' ''i'' (calm_world demo_half) = (Inr (), w')"
    by (rule half_done_again)
  have "rely False (same (count_view ''t'' ''u'' ''l'')) (calm_world demo_half)" by (simp add: same_def)
  moreover have "kept (same (count_view ''t'' ''u'' ''l'')) X (tx_ingest demo_tag_env v)" for X :: "tag_kv \<Rightarrow> bool" and v
    by (auto simp: demo_tag_env_def kept_def intro: rgI)
  moreover have "demo_tagged 1000 \<in> set (uk_tagged (kv (calm_world demo_half)))" by (simp add: demo_half_def)
  ultimately have "z_sets (kv w') (sorted_key (USER_TAGS_KEY ''u'')) = z_sets demo_half (sorted_key (USER_TAGS_KEY ''u''))"
    using repeated_tag_counts_once [OF _ _ demo_tag_target(1,2) _ _ _ _ w', of "demo_tagged 1000"] by (simp add: demo_tagged_def)
  then show ?thesis using w' by (simp add: demo_half_def)
qed

end
