(* ===== verification/Takedowns.thy ===== *)
theory Takedowns
  imports Event_Dispatch Tag_Properties
begin

text \<open>
  Takedowns (nexus-common/src/models/takedown.rs) on the stores of the tag handlers, and what the checks of a PUT and
  the order of a moderator's takedown guarantee among other tasks. The dispatch is the one of \<open>Event_Dispatch\<close>, the
  handlers of tags those of \<open>Tag_Handler\<close>. A takedown is one node of the graph, written and looked up by one query each.
\<close>

section \<open>Runs that report what they did\<close>

text \<open>A run that keeps a condition and never reports that there was nothing to do.\<close>

definition firm :: "('s \<Rightarrow> 's \<Rightarrow> bool) \<Rightarrow> ('s \<Rightarrow> bool) \<Rightarrow> ('s, ep_error, 'x) run \<Rightarrow> bool" where
  "firm R X m \<longleftrightarrow> rg False R X m (\<lambda>_. X) (\<lambda>e g. e \<noteq> SkipIndexing \<and> X g)"

lemma firmD: "firm R X m \<Longrightarrow> rg False R X m (\<lambda>_. X) (\<lambda>e g. e \<noteq> SkipIndexing \<and> X g)"
  by (simp add: firm_def)

lemma firm_kept: "firm R X m \<Longrightarrow> kept R X m"
  unfolding firm_def kept_def by (erule rg_weaken) simp_all

lemma firm_pass: "firm R X (pass x)"
  unfolding firm_def by (rule rg_pass)

lemma firm_fail: "e \<noteq> SkipIndexing \<Longrightarrow> firm R X (fail e)"
  unfolding firm_def fail_def by (rule rg_fail) simp

lemma firm_andthen: "firm R X m \<Longrightarrow> (\<And>x. firm R X (rest x)) \<Longrightarrow> firm R X (andthen m rest)"
  unfolding firm_def by (rule rg_andthen)

lemma firm_tx: "kept R X m \<Longrightarrow> firm R X (tx_redis E m)" "kept R X m' \<Longrightarrow> firm R X (tx_graph E m')"
  unfolding tx_redis_def tx_graph_def ux_redis_def ux_graph_def firm_def kept_def
  by (rule rg_map_err, erule rg_weaken, auto simp: ep_from_redis_def ep_from_graph_def split: graph_error.splits)+

lemma firm_join:
  assumes "\<And>m. m \<in> set ms \<Longrightarrow> firm R X m"
  shows "firm R X (join_arms picks ms)"
proof -
  have k: "rg False R X (ms ! n) (\<lambda>_. X) (\<lambda>e g. e \<noteq> SkipIndexing \<and> X g)" if "n < length ms" for n
    using assms [OF nth_mem [OF that]] by (simp add: firm_def)
  show ?thesis unfolding firm_def
    by (rule rg_weaken [OF rg_join_arms [where A = "\<lambda>_ _. True" and F = "\<lambda>e. e \<noteq> SkipIndexing"]]) (auto intro: rg_weaken [OF k])
qed

section \<open>The takedowns of the graph\<close>

record td_kv = tag_kv +
  td_takedowns :: "string \<Rightarrow> string option"

text \<open>\<open>MERGE\<close> with \<open>ON CREATE SET\<close>: the first moderator tag is kept.\<close>

definition record_takedown_query :: "string \<Rightarrow> string \<Rightarrow> 'a td_kv_scheme \<Rightarrow> unit \<times> 'a td_kv_scheme" where
  "record_takedown_query uri tag_uri g =
     ((), g\<lparr>td_takedowns := (case td_takedowns g uri of
              None \<Rightarrow> (td_takedowns g)(uri \<mapsto> tag_uri) | Some _ \<Rightarrow> td_takedowns g)\<rparr>)"

definition is_taken_down_query :: "string \<Rightarrow> 'a td_kv_scheme \<Rightarrow> bool \<times> 'a td_kv_scheme" where
  "is_taken_down_query uri g = (td_takedowns g uri \<noteq> None, g)"

definition record_takedown :: "'a td_kv_scheme tag_env \<Rightarrow> string \<Rightarrow> string \<Rightarrow> ('a td_kv_scheme, ep_error, unit) run" where
  "record_takedown E uri tag_uri = tx_graph E (graph_call (record_takedown_query uri tag_uri))"

definition is_taken_down :: "'a td_kv_scheme tag_env \<Rightarrow> string \<Rightarrow> ('a td_kv_scheme, ep_error, bool) run" where
  "is_taken_down E uri = tx_graph E (graph_call (is_taken_down_query uri))"

text \<open>The environment of the dispatch with the takedowns and the handlers of tags put in.\<close>

definition tag_dispatch ::
  "'a td_kv_scheme tag_env \<Rightarrow> 'a td_kv_scheme world handler_env \<Rightarrow> 'a td_kv_scheme world handler_env" where
  "tag_dispatch E H = H\<lparr>he_specs := tx_specs E, he_pubky_app := tx_pubky_app E,
     he_is_taken_down := is_taken_down E, he_record_takedown := record_takedown E,
     tag_put := tag_sync_put E, tag_put_resource := tag_sync_put_resource E, tag_del := tag_sync_del E\<rparr>"

definition down :: "string \<Rightarrow> 'a td_kv_scheme \<Rightarrow> bool" where
  "down uri g \<longleftrightarrow> td_takedowns g uri \<noteq> None"

section \<open>The calls of the dispatch as runs\<close>

lemma remove_if_taken_down_run:
  "remove_if_taken_down H uri = andthen (he_is_taken_down H uri) (\<lambda>b.
     if \<not> b then pass False
     else (\<lambda>w. case remove_taken_down H uri w of
       (Inr _, w1) \<Rightarrow> (Inr True, w1)
     | (Inl e, w1) \<Rightarrow> if e = SkipIndexing then (Inr True, w1) else (Inl e, w1)))"
  by (auto simp: remove_if_taken_down_def andthen_def pass_def fun_eq_iff split: prod.splits sum.splits bool.splits)

lemma handle_put_event_run:
  "handle_put_event H m ev = andthen (remove_if_taken_down H (ev_uri ev)) (\<lambda>b.
     if b then pass ()
     else case he_parse_resource H (ev_uri ev) of
       Inl e \<Rightarrow> fail e
     | Inr src \<Rightarrow> andthen (he_get_resource H src) (\<lambda>blob.
         case he_from_resource H (pu_resource (ev_parsed_uri ev)) blob of
           Inl e \<Rightarrow> fail (SpecValidation e)
         | Inr obj \<Rightarrow> andthen (put_object H m ev obj) (\<lambda>_.
             andthen (remove_if_taken_down H (ev_uri ev)) (\<lambda>_. pass ()))))"
  by (auto simp: handle_put_event_def andthen_def pass_def fail_def fun_eq_iff split: prod.splits sum.splits bool.splits)

lemma apply_moderation_run:
  assumes "moderation_target H (at_uri tag) = Inr (TakeDown uri)"
  shows "apply_moderation H tag tag_uri = andthen (he_record_takedown H uri tag_uri) (\<lambda>_. remove_taken_down H uri)"
  using assms by (auto simp: apply_moderation_def andthen_def fun_eq_iff split: prod.splits sum.splits)

section \<open>The two checks\<close>

text \<open>
  \<open>removes R uri G H\<close>: a removal that starts when the address is taken down ends with \<open>G\<close>, if it succeeds or finds
  nothing to remove. Then so does every check that finds the address taken down, every PUT that succeeds while it is
  taken down, and every takedown that succeeds.
\<close>

definition removes ::
  "('a td_kv_scheme \<Rightarrow> 'a td_kv_scheme \<Rightarrow> bool) \<Rightarrow> string \<Rightarrow> ('a td_kv_scheme \<Rightarrow> bool) \<Rightarrow> 'a td_kv_scheme world handler_env \<Rightarrow> bool" where
  "removes R uri G H \<longleftrightarrow> stays R (down uri) \<and>
     rg False R (down uri) (remove_taken_down H uri) (\<lambda>_ g. down uri g \<and> G g) (\<lambda>e g. e = SkipIndexing \<longrightarrow> down uri g \<and> G g)"

lemma is_taken_down_rg:
  assumes "stays R (down uri)"
  shows "rg False R (\<lambda>_. True) (is_taken_down E uri) (\<lambda>b g. b = down uri g) (\<lambda>_ _. True)"
  unfolding is_taken_down_def tx_graph_def ux_graph_def
  by (intro rg_map_err rg_graph) (auto simp: is_taken_down_query_def down_def stays_def)

lemma check_rg:
  assumes "removes R uri G H" "he_is_taken_down H = is_taken_down E"
  shows "rg False R (\<lambda>_. True) (remove_if_taken_down H uri) (\<lambda>_ g. down uri g \<longrightarrow> G g) (\<lambda>_ _. True)"
  unfolding remove_if_taken_down_run assms(2)
proof (rule rg_andthen [OF is_taken_down_rg])
  show "stays R (down uri)" using assms(1) by (simp add: removes_def)
  fix b
  have rem: "rg False R (down uri) (remove_taken_down H uri) (\<lambda>_ g. down uri g \<and> G g) (\<lambda>e g. e = SkipIndexing \<longrightarrow> down uri g \<and> G g)"
    using assms(1) by (simp add: removes_def)
  show "rg False R (\<lambda>g. b = down uri g)
     (if \<not> b then pass False
      else (\<lambda>w. case remove_taken_down H uri w of
         (Inr _, w1) \<Rightarrow> (Inr True, w1)
       | (Inl e, w1) \<Rightarrow> if e = SkipIndexing then (Inr True, w1) else (Inl e, w1)))
     (\<lambda>_ g. down uri g \<longrightarrow> G g) (\<lambda>_ _. True)"
  proof (cases b)
    case False
    then show ?thesis by (auto intro: rg_pass)
  next
    case True
    show ?thesis
    proof (rule rgI)
      fix w r w'
      assume w: "rely False R w" "b = down uri (kv w)"
        "(if \<not> b then pass False
          else (\<lambda>w. case remove_taken_down H uri w of
             (Inr _, w1) \<Rightarrow> (Inr True, w1)
           | (Inl e, w1) \<Rightarrow> if e = SkipIndexing then (Inr True, w1) else (Inl e, w1))) w = (r, w')"
      obtain r1 w1 where c: "remove_taken_down H uri w = (r1, w1)" by force
      have "down uri (kv w)" using w(2) True by simp
      note d = rgD [OF rem w(1) this c]
      show "rely False R w' \<and> (case r of Inr x \<Rightarrow> down uri (kv w') \<longrightarrow> G (kv w') | Inl e \<Rightarrow> True)"
        using w(3) c d True by (cases r1) (auto split: if_splits)
    qed
  qed
qed

lemma put_rg:
  assumes "removes R (ev_uri ev) G H" "he_is_taken_down H = is_taken_down E"
    and "\<And>src. kept R (\<lambda>_. True) (he_get_resource H src)" "\<And>obj. kept R (\<lambda>_. True) (put_object H m ev obj)"
  shows "rg False R (\<lambda>_. True) (handle_put_event H m ev) (\<lambda>_ g. down (ev_uri ev) g \<longrightarrow> G g) (\<lambda>_ _. True)"
proof -
  let ?safe = "\<lambda>g. down (ev_uri ev) g \<longrightarrow> G g"
  note check = check_rg [OF assms(1,2)]
  have second: "rg False R (\<lambda>_. True) (andthen (remove_if_taken_down H (ev_uri ev)) (\<lambda>_. pass ())) (\<lambda>_. ?safe) (\<lambda>_ _. True)"
    by (rule rg_andthen [OF check]) (rule rg_pass)
  have failing: "rg False R (\<lambda>_. True) (fail e) (\<lambda>_. ?safe) (\<lambda>_ _. True)" for e
    unfolding fail_def by (rule rg_fail) simp
  have rest: "rg False R (\<lambda>_. True) (case he_parse_resource H (ev_uri ev) of
       Inl e \<Rightarrow> fail e
     | Inr src \<Rightarrow> andthen (he_get_resource H src) (\<lambda>blob.
         case he_from_resource H (pu_resource (ev_parsed_uri ev)) blob of
           Inl e \<Rightarrow> fail (SpecValidation e)
         | Inr obj \<Rightarrow> andthen (put_object H m ev obj) (\<lambda>_.
             andthen (remove_if_taken_down H (ev_uri ev)) (\<lambda>_. pass ())))) (\<lambda>_. ?safe) (\<lambda>_ _. True)"
    by (auto split: sum.split intro!: failing rg_andthen [OF keptD [OF assms(3)]]
        rg_andthen [OF keptD [OF assms(4)]] second)
  show ?thesis unfolding handle_put_event_run
  proof (rule rg_andthen [OF check])
    fix b
    show "rg False R ?safe (if b then pass () else case he_parse_resource H (ev_uri ev) of
       Inl e \<Rightarrow> fail e
     | Inr src \<Rightarrow> andthen (he_get_resource H src) (\<lambda>blob.
         case he_from_resource H (pu_resource (ev_parsed_uri ev)) blob of
           Inl e \<Rightarrow> fail (SpecValidation e)
         | Inr obj \<Rightarrow> andthen (put_object H m ev obj) (\<lambda>_.
             andthen (remove_if_taken_down H (ev_uri ev)) (\<lambda>_. pass ())))) (\<lambda>_. ?safe) (\<lambda>_ _. True)"
      using rg_weaken [OF rest] by (cases b) (auto intro: rg_pass)
  qed
qed

lemma moderation_rg:
  assumes "removes R uri G H" "he_record_takedown H = record_takedown E"
    and "moderation_target H (at_uri tag) = Inr (TakeDown uri)"
  shows "rg False R (\<lambda>_. True) (apply_moderation H tag tag_uri) (\<lambda>_ g. down uri g \<and> G g) (\<lambda>e g. e = SkipIndexing \<longrightarrow> down uri g \<and> G g)"
  unfolding apply_moderation_run [OF assms(3)] assms(2)
proof (rule rg_andthen)
  show "rg False R (\<lambda>_. True) (record_takedown E uri tag_uri) (\<lambda>_. down uri) (\<lambda>e g. e = SkipIndexing \<longrightarrow> down uri g \<and> G g)"
    unfolding record_takedown_def tx_graph_def ux_graph_def
    by (intro rg_map_err rg_graph)
      (auto simp: record_takedown_query_def down_def stays_def ep_from_graph_def split: option.splits graph_error.splits)
  show "rg False R (down uri) (remove_taken_down H uri) (\<lambda>_ g. down uri g \<and> G g) (\<lambda>e g. e = SkipIndexing \<longrightarrow> down uri g \<and> G g)"
    using assms(1) by (simp add: removes_def)
qed

section \<open>What the handlers of tags keep\<close>

text \<open>
  A condition the other tasks keep and that the counts, scores, sets of taggers and notifications are no part of: the
  steps of the handlers beside the relationships of the graph keep it too.
\<close>

locale beside_index =
  fixes R :: "'a tag_kv_scheme \<Rightarrow> 'a tag_kv_scheme \<Rightarrow> bool" and X :: "'a tag_kv_scheme \<Rightarrow> bool"
  assumes keeps: "stays R X"
    and index_update: "X (g\<lparr>nt_sets := n\<rparr>) = X g" "X (g\<lparr>z_sets := z\<rparr>) = X g" "X (g\<lparr>tk_counts := c\<rparr>) = X g"
      "X (g\<lparr>tk_gate := f\<rparr>) = X g" "X (g\<lparr>tk_post_taggers := pt\<rparr>) = X g" "X (g\<lparr>uk_taggers := ut\<rparr>) = X g"
begin

lemma call_kept: "(\<And>g. X g \<Longrightarrow> X (snd (f g))) \<Longrightarrow> kept R X (redis_call f)"
  by (rule kept_redis [OF keeps])

lemma query_kept: "(\<And>g. X g \<Longrightarrow> X (snd (f g))) \<Longrightarrow> kept R X (graph_call f)"
  by (rule kept_graph [OF keeps])

lemma taggers_update: "X (set_taggers a x l T g) = X g"
  by (simp add: set_taggers_def index_update split: option.split)

lemma note_beside: "kept R X (notification_put json u b)"
  unfolding kept_def
  by (intro rg_note keptD call_kept) (auto simp: zadd_notification_def index_update)

lemma notes_beside:
  "kept R X (new_user_tag json a b l)" "kept R X (new_user_untag json a b l)"
  "kept R X (new_post_tag json a b l u k)" "kept R X (new_post_untag json a b l u k)"
  unfolding tag_notes by (simp_all add: note_beside kept_pass)

lemma index_beside:
  "kept R X (update_index_score a x l c)" "kept R X (counts_invalidate a p)"
  "kept R X (label_engagement a p l c)" "kept R X (stream_engagement a p c)"
  "kept R X (tag_search_put l)" "kept R X (tag_search_del l)"
  "kept R X (posts_by_tag_put a p l)" "kept R X (posts_by_tag_del a p l)" "kept R X (posts_by_tag_found l)"
  "kept R X (check_tagger a x l y)" "kept R X (add_tagger_to_index a x y l)" "kept R X (taggers_del_from_index y a x l)"
  "kept R X (sync_index_score u l)"
  unfolding update_index_score_def put_score_def counts_invalidate_def label_engagement_def stream_engagement_def
    tag_search_put_def tag_search_del_def put_index_sorted_set_def remove_from_index_sorted_set_def zset_put_def zset_del_def
    posts_by_tag_put_def posts_by_tag_del_def posts_by_tag_found_def check_tagger_def add_tagger_to_index_def taggers_del_from_index_def
    sync_index_score_def cardinality_script_def
  by (auto intro!: kept_andthen kept_pass call_kept simp: via_gate_def Let_def index_update taggers_update split: option.split)

lemma ingest_or_drop_kept: "kept R X (tx_ingest E u) \<Longrightarrow> kept R X (tx_ingest_or_drop E u)"
  by (rule kept_outcome [where f = "fail_on_blacklisted_hs (ux_show_graph (tx_users E)) (ux_show_redis (tx_users E))"])
    (simp_all add: tx_ingest_or_drop_def case_prod_beta)

lemmas run_rules = kept_andthen kept_pass kept_now kept_join kept_fail kept_tx keeps notes_beside index_beside

lemmas firm_rules = firm_andthen firm_pass firm_join firm_fail firm_tx notes_beside index_beside

lemma unindex_firm:
  assumes "\<And>a p. firm R X (tx_is_reply E a p)" "\<And>a p. firm R X (tx_post_kind E a p)"
  shows "firm R X (unindex_tag E t e pu)"
  unfolding unindex_tag_def del_sync_user_def del_sync_post_def
  by (auto intro!: firm_rules assms split: tag_node.split option.split)

lemma put_kept:
  assumes "\<And>u. kept R X (tx_ingest E u)" "\<And>a p. kept R X (tx_is_reply E a p)" "\<And>a p. kept R X (tx_post_kind E a p)"
    and "\<And>t u i uri l c g. X g \<Longrightarrow> X (snd (create_user_tag t u i uri l c g))"
    and "\<And>t a p i uri l c g. X g \<Longrightarrow> X (snd (create_post_tag t a p i uri l c g))"
  shows "kept R X (tag_sync_put E tag uri t i)"
  unfolding tag_sync_put_def put_sync_post_def put_sync_user_def
  by (auto intro!: run_rules ingest_or_drop_kept query_kept assms split: sum.split tag_target.split operation_outcome.split)

end

interpretation anyone: beside_index R "\<lambda>_. True" for R
  by unfold_locales (auto simp: stays_def)

lemma down_update [simp]:
  "down uri (g\<lparr>nt_sets := n\<rparr>) = down uri g" "down uri (g\<lparr>z_sets := z\<rparr>) = down uri g" "down uri (g\<lparr>tk_counts := c\<rparr>) = down uri g"
  "down uri (g\<lparr>tk_gate := f\<rparr>) = down uri g" "down uri (g\<lparr>tk_post_taggers := pt\<rparr>) = down uri g"
  "down uri (g\<lparr>uk_taggers := ut\<rparr>) = down uri g" "down uri (g\<lparr>uk_tagged := es\<rparr>) = down uri g"
  "down uri (g\<lparr>tk_resources := rs\<rparr>) = down uri g"
  by (simp_all add: down_def)

section \<open>A tag that was taken down\<close>

definition untagged :: "string \<Rightarrow> string \<Rightarrow> 'a tag_kv_scheme \<Rightarrow> bool" where
  "untagged user tid g \<longleftrightarrow> \<not> list_ex (tag_file user tid None) (uk_tagged g)"

lemma untagged_update [simp]:
  "untagged u i (g\<lparr>nt_sets := n\<rparr>) = untagged u i g" "untagged u i (g\<lparr>z_sets := z\<rparr>) = untagged u i g"
  "untagged u i (g\<lparr>tk_counts := c\<rparr>) = untagged u i g" "untagged u i (g\<lparr>tk_gate := f\<rparr>) = untagged u i g"
  "untagged u i (g\<lparr>tk_post_taggers := pt\<rparr>) = untagged u i g" "untagged u i (g\<lparr>uk_taggers := ut\<rparr>) = untagged u i g"
  by (simp_all add: untagged_def)

text \<open>
  The other tasks at the address \<open>uri\<close> of the tag \<open>tid\<close> of \<open>user\<close>: no takedown is lifted, and a tag that is taken down
  and has no relationship is not written by another task (no other PUT of it is on its way). Everything else they do
  is free: they may record the takedown, remove the relationship or write other tags at any time.
\<close>

definition others_at :: "string \<Rightarrow> string \<Rightarrow> string \<Rightarrow> 'a td_kv_scheme \<Rightarrow> 'a td_kv_scheme \<Rightarrow> bool" where
  "others_at uri user tid g g' \<longleftrightarrow>
     (down uri g \<longrightarrow> down uri g') \<and> (down uri g \<and> untagged user tid g \<longrightarrow> untagged user tid g')"

lemma others_stay:
  "stays (others_at uri u i) (down uri)" "stays (others_at uri u i) (\<lambda>g. down uri g \<and> untagged u i g)"
  by (auto simp: stays_def others_at_def)

interpretation marked: beside_index "others_at uri u i" "down uri" for uri u i
  by unfold_locales (auto simp: others_stay)

interpretation unmade: beside_index "others_at uri u i" "\<lambda>g. down uri g \<and> untagged u i g" for uri u i
  by unfold_locales (auto simp: others_stay)

text \<open>The parts of the handler that are given to it: they change neither takedowns nor this tag, nor report it missing.\<close>

definition side_runs :: "string \<Rightarrow> string \<Rightarrow> string \<Rightarrow> 'a td_kv_scheme tag_env \<Rightarrow> bool" where
  "side_runs uri u i E \<longleftrightarrow>
     (\<forall>v. kept (others_at uri u i) (\<lambda>_. True) (tx_ingest E v)) \<and>
     (\<forall>X \<in> {\<lambda>_. True, down uri}. \<forall>a p. firm (others_at uri u i) X (tx_is_reply E a p) \<and> firm (others_at uri u i) X (tx_post_kind E a p))"

lemma side_runsD:
  assumes "side_runs uri u i E"
  shows "kept (others_at uri u i) (\<lambda>_. True) (tx_ingest E v)"
    and "X \<in> {\<lambda>_. True, down uri} \<Longrightarrow> firm (others_at uri u i) X (tx_is_reply E a p)"
    and "X \<in> {\<lambda>_. True, down uri} \<Longrightarrow> firm (others_at uri u i) X (tx_post_kind E a p)"
  using assms by (auto simp: side_runs_def)

lemma delete_untags: "untagged u i (snd (delete_tag u i None g))"
  by (auto simp: untagged_def delete_tag_def Let_def list_ex_iff)

lemma found_or_untagged:
  "fst (get_tag_target u i None g) = None \<longleftrightarrow> untagged u i g" "fst (get_tag_target u i None g) = Some (e, pu) \<Longrightarrow> te_app e = None"
  by (auto simp: get_tag_target_def untagged_def list_ex_iff find_None_iff find_Some_iff tag_file_def)

lemma get_tag_target_kv: "snd (get_tag_target u i app g) = g"
  by (simp add: get_tag_target_def)

lemma tag_removal_rg:
  fixes E :: "'a td_kv_scheme tag_env"
  assumes "side_runs uri u i E"
    and "parse_tag_storage_uri (tx_specs E) uri = Inr \<lparr>ts_user_id = u, ts_tag_id = i, ts_app = None\<rparr>"
  shows "rg False (others_at uri u i) (down uri) (tag_sync_del E uri)
    (\<lambda>_ g. down uri g \<and> untagged u i g) (\<lambda>e g. e \<noteq> SkipIndexing)"
proof -
  let ?R = "others_at uri u i :: 'a td_kv_scheme \<Rightarrow> 'a td_kv_scheme \<Rightarrow> bool"
  let ?X = "down uri :: 'a td_kv_scheme \<Rightarrow> bool"
  let ?U = "\<lambda>g :: 'a td_kv_scheme. ?X g \<and> untagged u i g"
  let ?F = "\<lambda>(e :: ep_error) (g :: 'a td_kv_scheme). e \<noteq> SkipIndexing"
  let ?S = "\<lambda>row g. ?X g \<and> (row = None \<longrightarrow> untagged u i g) \<and> (\<forall>e pu. row = Some (e, pu) \<longrightarrow> te_app e = None)"
  have query: "rg False ?R ?X (tx_graph E (graph_call (get_tag_target u i None))) ?S ?F"
    unfolding tx_graph_def ux_graph_def
    by (intro rg_map_err rg_graph others_stay)
      (use found_or_untagged in \<open>auto simp: ep_from_graph_def get_tag_target_kv split: graph_error.splits\<close>)
  have find_row: "rg False ?R ?X (find_tag_row E \<lparr>ts_user_id = u, ts_tag_id = i, ts_app = None\<rparr>) ?S ?F"
    unfolding find_tag_row_def tag_storage_uri.select_convs
    by (rule rg_andthen [OF query]) (auto intro: rg_pass)
  have del: "rg False ?R ?X (tx_graph E (graph_call (delete_tag u i None))) (\<lambda>_. ?U) ?F"
    unfolding tx_graph_def ux_graph_def
    by (intro rg_map_err rg_graph others_stay)
      (auto simp: delete_untags ep_from_graph_def split: graph_error.splits, simp_all add: delete_tag_def Let_def)
  have last_call: "rg False ?R ?U (case te_target e of PostN a p \<Rightarrow> tx_redis E (counts_invalidate a p) | _ \<Rightarrow> pass ()) (\<lambda>_. ?U) ?F" for e
  proof -
    have "rg False ?R ?U (tx_redis E (counts_invalidate a p)) (\<lambda>_. ?U) ?F" for a p
      by (rule rg_weaken [OF firmD [OF firm_tx(1) [OF unmade.index_beside(2)]]]) simp_all
    then show ?thesis by (auto split: tag_node.split intro: rg_pass)
  qed
  have un: "rg False ?R ?X (unindex_tag E u e pu) (\<lambda>_. ?X) ?F" for e pu
    by (rule rg_weaken [OF firmD [OF marked.unindex_firm]]) (auto intro: side_runsD [OF assms(1)])
  show ?thesis unfolding tag_sync_del_def assms(2) sum.case
  proof (rule rg_andthen [OF find_row])
    fix row
    show "rg False ?R (?S row) (case row of None \<Rightarrow> pass () | Some (e, post_uri) \<Rightarrow>
       andthen (unindex_tag E (ts_user_id \<lparr>ts_user_id = u, ts_tag_id = i, ts_app = None\<rparr>) e post_uri) (\<lambda>_.
       andthen (tx_graph E (graph_call (delete_tag (ts_user_id \<lparr>ts_user_id = u, ts_tag_id = i, ts_app = None\<rparr>)
         (ts_tag_id \<lparr>ts_user_id = u, ts_tag_id = i, ts_app = None\<rparr>) (te_app e)))) (\<lambda>_.
         case te_target e of PostN author post \<Rightarrow> tx_redis E (counts_invalidate author post) | _ \<Rightarrow> pass ()))) (\<lambda>_. ?U) ?F"
    proof (cases row)
      case None
      then show ?thesis by (auto intro: rg_pass)
    next
      case (Some ep)
      obtain e pu where ep: "ep = (e, pu)" by force
      show ?thesis
      proof (rule rg_assume [where C = "te_app e = None"])
        assume app: "te_app e = None"
        have run: "rg False ?R ?X (andthen (unindex_tag E u e pu) (\<lambda>_. andthen (tx_graph E (graph_call (delete_tag u i None))) (\<lambda>_.
           case te_target e of PostN author post \<Rightarrow> tx_redis E (counts_invalidate author post) | _ \<Rightarrow> pass ()))) (\<lambda>_. ?U) ?F"
          by (intro rg_andthen [OF un] rg_andthen [OF del] last_call)
        show ?thesis unfolding Some ep option.case prod.case tag_storage_uri.select_convs app
          by (rule rg_weaken [OF run]) auto
      qed (simp add: Some ep)
    qed
  qed
qed

section \<open>Properties\<close>

lemma tag_address:
  assumes "try_from_uri (tx_specs E) uri = Inr (PubkyApp u (TagR i))"
  shows "parse_tag_storage_uri (tx_specs E) uri = Inr \<lparr>ts_user_id = u, ts_tag_id = i, ts_app = None\<rparr>"
    and "remove_taken_down (tag_dispatch E H) uri = tag_sync_del E uri"
  using assms by (simp_all add: parse_tag_storage_uri_def remove_taken_down_def is_tag_storage_uri_def tag_dispatch_def fun_eq_iff)

lemma tag_removes:
  assumes "side_runs uri u i E" "try_from_uri (tx_specs E) uri = Inr (PubkyApp u (TagR i))"
  shows "removes (others_at uri u i) uri (untagged u i) (tag_dispatch E H)"
  unfolding removes_def tag_address(2) [OF assms(2)]
  by (auto simp: others_stay intro: rg_weaken [OF tag_removal_rg [OF assms(1) tag_address(1) [OF assms(2)]]])

lemma tag_put_kept:
  assumes "side_runs uri u i E" "ev_parsed_uri ev = PubkyApp u (TagR i)" "mod_id m \<noteq> u"
  shows "kept (others_at uri u i) (\<lambda>_. True) (put_object (tag_dispatch E H) m ev obj)"
proof -
  have "kept (others_at uri u i) (\<lambda>_. True) (tag_sync_put E tag uri' u i)" for tag uri'
    using side_runsD [OF assms(1)] by (intro anyone.put_kept) (auto intro: firm_kept)
  moreover have "put_object (tag_dispatch E H) m ev obj =
      (case obj of TagO tag \<Rightarrow> tag_sync_put E tag (ev_uri ev) u i | _ \<Rightarrow> pass ())"
    using assms(2,3) by (cases obj) (auto simp: put_object_def tag_dispatch_def should_delete_def pass_def fun_eq_iff)
  ultimately show ?thesis by (auto intro: kept_pass split: app_object.split)
qed

text \<open>C6. A tag the moderator took down stays down, whatever order the events arrive in and however the loops interleave. Let
  \<open>uri\<close> be the address of a tag of a user who is not the moderator. A PUT of it that succeeds leaves no relationship of the
  tag in the graph if the address is taken down at its end, also if the takedown was recorded by another loop while the tag was
  being fetched or written; and a moderator's takedown of it that succeeds leaves the address recorded and no relationship. The
  queries may fail or lose their reply, and the other tasks may do anything at any time but lift the takedown or run another PUT
  that writes this tag when it is down and gone. Attempts that fail are left to the retries.\<close>

theorem takedown_stays_down:
  fixes w :: "'a td_kv_scheme world"
  assumes "rely False (others_at uri user tid) w" and "side_runs uri user tid E"
    and "try_from_uri (tx_specs E) uri = Inr (PubkyApp user (TagR tid))" and "mod_id m \<noteq> user"
    and "\<And>src. kept (others_at uri user tid) (\<lambda>_. True) (he_get_resource H src)"
  shows "(\<forall>ev w'. ev_uri ev = uri \<and> ev_parsed_uri ev = PubkyApp user (TagR tid) \<and>
      handle_put_event (tag_dispatch E H) m ev w = (Inr (), w') \<longrightarrow> down uri (kv w') \<longrightarrow> untagged user tid (kv w')) \<and>
    (\<forall>tag tag_uri w'. moderation_target (tag_dispatch E H) (at_uri tag) = Inr (TakeDown uri) \<and>
      apply_moderation (tag_dispatch E H) tag tag_uri w = (Inr (), w') \<longrightarrow> down uri (kv w') \<and> untagged user tid (kv w'))"
proof (intro conjI allI impI; elim conjE)
  let ?H = "tag_dispatch E H"
  have sel: "he_is_taken_down ?H = is_taken_down E" "he_record_takedown ?H = record_takedown E"
      "he_get_resource ?H = he_get_resource H"
    by (simp_all add: tag_dispatch_def)
  note rem = tag_removes [OF assms(2,3), of H]
  {
    fix ev w'
    assume ev: "ev_uri ev = uri" "ev_parsed_uri ev = PubkyApp user (TagR tid)"
      and run: "handle_put_event ?H m ev w = (Inr (), w')" and d: "down uri (kv w')"
    have "rg False (others_at uri user tid) (\<lambda>_. True) (handle_put_event ?H m ev) (\<lambda>_ g. down uri g \<longrightarrow> untagged user tid g) (\<lambda>_ _. True)"
      using put_rg [of _ ev, OF _ sel(1)] rem assms(5) tag_put_kept [OF assms(2) ev(2) assms(4)] by (simp add: ev(1) sel(3))
    from rgD(2) [OF this assms(1) TrueI run refl] d show "untagged user tid (kv w')" by simp
  next
    fix tag tag_uri w'
    assume t: "moderation_target ?H (at_uri tag) = Inr (TakeDown uri)" and run: "apply_moderation ?H tag tag_uri w = (Inr (), w')"
    from rgD(2) [OF moderation_rg [OF rem sel(2) t] assms(1) TrueI run refl]
    show "down uri (kv w')" "untagged user tid (kv w')" by simp_all
  }
qed

section \<open>An example\<close>

definition demo_td_env :: "td_kv tag_env" where
  "demo_td_env =
     \<lparr>tx_users = demo_user_env, tx_json = (\<lambda>_. ''note''),
      tx_specs = \<lparr>try_from_uri = (\<lambda>u. if u = ''file'' then Inr (PubkyApp ''t'' (TagR ''i'')) else Inl ''bad''), try_to_uri_str = (\<lambda>_. Inl ''bad'')\<rparr>,
      tx_pubky_app = (\<lambda>u. if u = ''profile'' then Inr (''u'', UserR) else Inl ''bad''),
      tx_url_parse = (\<lambda>_. None), tx_show_port = (\<lambda>_. ''80''), tx_resource_id = (\<lambda>u. u), tx_ingest = (\<lambda>_ w. (Inr (), w)),
      tx_user_uri = (\<lambda>_. Inr ''profile''), tx_is_reply = (\<lambda>_ _. pass False), tx_post_kind = (\<lambda>_ _. pass ''short''), tx_picks = []\<rparr>"

text \<open>The homeserver serves the tag of \<open>demo_tag\<close>; no other handler is reached.\<close>

definition demo_dispatch :: "td_kv world handler_env" where
  "demo_dispatch = tag_dispatch demo_td_env
     \<lparr>he_specs = tx_specs demo_td_env, he_pubky_app = tx_pubky_app demo_td_env, he_is_taken_down = (\<lambda>_. pass False),
      he_record_takedown = (\<lambda>_ _. pass ()), he_parse_resource = Inr, he_get_resource = pass,
      he_from_resource = (\<lambda>_ _. Inr (TagO demo_tag)), he_store_line = (\<lambda>_. pass ()), user_put = (\<lambda>_ _ _. pass ()),
      post_put = (\<lambda>_ _ _ _. pass ()), follow_put = (\<lambda>_ _. pass ()), bookmark_put = (\<lambda>_ _ _. pass ()), tag_put = (\<lambda>_ _ _ _. pass ()),
      tag_put_resource = (\<lambda>_ _ _ _ _. pass ()), file_put = (\<lambda>_ _ _ _. pass ()), user_del = (\<lambda>_. pass ()), post_del = (\<lambda>_ _. pass ()),
      follow_del = (\<lambda>_ _. pass ()), bookmark_del = (\<lambda>_ _. pass ()), tag_del = (\<lambda>_. pass ()), file_del = (\<lambda>_ _. pass ())\<rparr>"

definition demo_tag_event :: event where
  "demo_tag_event = \<lparr>ev_uri = ''file'', ev_type = Put, ev_parsed_uri = PubkyApp ''t'' (TagR ''i''), ev_line = ''PUT file''\<rparr>"

text \<open>The moderator's loop records the takedown while the tag is being written: before call 5 of the PUT.\<close>

definition demo_late_takedown :: "td_kv world" where
  "demo_late_takedown = (calm_world (tag_kv.extend demo_tags \<lparr>td_takedowns = (\<lambda>_. None)\<rparr>))
     \<lparr>env := (\<lambda>n g. if n = 5 then snd (record_takedown_query ''file'' ''modtag'' g) else g)\<rparr>"

lemmas demo_td_defs = demo_td_env_def demo_dispatch_def demo_tag_event_def demo_late_takedown_def demo_user_env_def demo_tags_def
  demo_tag_def tag_target_of_def tag_dispatch_def tag_kv.extend_def

lemmas td_run_defs = handle_put_event_def remove_if_taken_down_def remove_taken_down_def is_tag_storage_uri_def is_taken_down_def
  put_object_def is_taken_down_query_def record_takedown_query_def should_delete_def

lemma demo_late_run:
  "\<exists>w'. handle_put_event demo_dispatch \<lparr>mod_id = ''m'', mod_tags = []\<rparr> demo_tag_event demo_late_takedown = (Inr (), w') \<and>
     down ''file'' (kv w')"
  by (simp add: td_run_defs demo_td_defs tag_run_defs untag_run_defs down_def Let_def)

lemma demo_td_side: "side_runs uri u i demo_td_env"
  by (auto simp: side_runs_def demo_td_env_def kept_def intro: firm_pass rgI)

lemma demo_td_rely: "rely False (others_at ''file'' ''t'' ''i'') demo_late_takedown"
  by (auto simp: rely_def demo_late_takedown_def calm_world_def others_at_def record_takedown_query_def down_def untagged_def
      split: option.splits)

theorem takedown_stays_down_witness:
  "\<exists>w'. handle_put_event demo_dispatch \<lparr>mod_id = ''m'', mod_tags = []\<rparr> demo_tag_event demo_late_takedown = (Inr (), w') \<and>
     down ''file'' (kv w') \<and> untagged ''t'' ''i'' (kv w')"
proof -
  obtain H where H: "demo_dispatch = tag_dispatch demo_td_env H" "he_get_resource H = pass" unfolding demo_dispatch_def by fastforce
  have "try_from_uri (tx_specs demo_td_env) ''file'' = Inr (PubkyApp ''t'' (TagR ''i''))" by (simp add: demo_td_env_def)
  moreover have "kept (others_at ''file'' ''t'' ''i'') (\<lambda>_. True) (he_get_resource H src)" for src by (simp add: H(2) kept_pass)
  moreover have "ev_uri demo_tag_event = ''file''" "ev_parsed_uri demo_tag_event = PubkyApp ''t'' (TagR ''i'')"
    by (simp_all add: demo_tag_event_def)
  ultimately show ?thesis
    using takedown_stays_down [OF demo_td_rely demo_td_side, of "\<lparr>mod_id = ''m'', mod_tags = []\<rparr>" H] demo_late_run
    unfolding H(1) by (simp del: not_None_eq) blast
qed

end
