(* ===== verification/Notification_Fanout.thy ===== *)
theory Notification_Fanout
  imports Keyset_Scan Notification
begin

text \<open>
  The notifications of an edited or deleted post (\<open>Notification::changed_post\<close>): everyone who
  replied to it, tagged, bookmarked or reposted it is told, page by page over four graph queries.
  The rows the graph holds for a post are a component of the store; the builder of bookmark
  addresses and the printer of cursors are parameters.
\<close>

record fan_row =
  fr_cursor :: "string list"
  fr_user :: "string option"
  fr_link :: "string option"

record fan_kv = notif_kv +
  fan_rows :: "post_changed_source \<Rightarrow> string \<Rightarrow> string \<Rightarrow> fan_row list"

definition NOTIFICATION_FANOUT_PAGE_SIZE :: nat where "NOTIFICATION_FANOUT_PAGE_SIZE = 1000"

text \<open>The four queries have one shape: the rows above the cursor, in its order, up to the limit.\<close>

definition post_children_query ::
  "post_changed_source \<Rightarrow> string \<Rightarrow> string \<Rightarrow> string list \<Rightarrow> nat \<Rightarrow> fan_kv \<Rightarrow> fan_row list \<times> fan_kv" where
  "post_children_query src author post cursor limit g =
     (page_above fr_cursor limit cursor (sort_key fr_cursor (fan_rows g src author post)), g)"

definition extract_row :: "(string \<Rightarrow> string \<Rightarrow> string) \<Rightarrow> post_changed_source \<Rightarrow> fan_row \<Rightarrow> string \<times> string" where
  "extract_row bookmark_uri src row =
     (let user = unwrap_or '''' (fr_user row); link = unwrap_or '''' (fr_link row) in
      (user, if src = SrcBookmark then bookmark_uri user link else link))"

record fan_request =
  rq_json :: "notification_body \<Rightarrow> string"
  rq_bookmark_uri :: "string \<Rightarrow> string \<Rightarrow> string"
  rq_author :: string
  rq_post :: string
  rq_changed_uri :: string
  rq_type :: post_changed_type
  rq_kind :: string

definition row_body :: "fan_request \<Rightarrow> post_changed_source \<Rightarrow> string \<Rightarrow> notification_body" where
  "row_body R src linked_uri = changed_body (rq_type R) src (rq_author R) (rq_changed_uri R) linked_uri (rq_kind R)"

fun notify_rows ::
  "fan_request \<Rightarrow> post_changed_source \<Rightarrow> fan_row list \<Rightarrow> fan_kv world \<Rightarrow> (model_error, unit) result \<times> fan_kv world" where
  "notify_rows R src [] w = (Inr (), w)"
| "notify_rows R src (row # rows) w =
     (case extract_row (rq_bookmark_uri R) src row of (user, linked_uri) \<Rightarrow>
        if rq_author R = user then notify_rows R src rows w
        else (case notification_put (rq_json R) user (row_body R src linked_uri) w of
                (Inl e, w1) \<Rightarrow> (Inl (KvOperationFailed e), w1)
              | (Inr _, w1) \<Rightarrow> notify_rows R src rows w1))"

definition fan_step ::
  "fan_request \<Rightarrow> post_changed_source \<Rightarrow> string list \<Rightarrow> fan_kv world \<Rightarrow>
   (model_error, nat \<times> string list option) result \<times> fan_kv world" where
  "fan_step R src cursor w =
     (case graph_call (post_children_query src (rq_author R) (rq_post R) cursor NOTIFICATION_FANOUT_PAGE_SIZE) w of
        (Inl e, w1) \<Rightarrow> (Inl (GraphOperationFailed e), w1)
      | (Inr rows, w1) \<Rightarrow>
          (case notify_rows R src rows w1 of
             (Inl e, w2) \<Rightarrow> (Inl e, w2)
           | (Inr _, w2) \<Rightarrow> (Inr (length rows, if rows = [] then None else Some (fr_cursor (last rows))), w2)))"

definition notification_types :: "(string \<times> post_changed_source) list" where
  "notification_types =
     [(''get_post_replies'', SrcReplyParent), (''get_post_tags'', SrcTaggedPost),
      (''get_post_bookmarks'', SrcBookmark), (''get_post_reposts'', SrcRepostEmbed)]"

fun fan_out ::
  "(string list \<Rightarrow> string) \<Rightarrow> fan_request \<Rightarrow> (string \<times> post_changed_source) list \<Rightarrow> fan_kv world \<Rightarrow>
   ((model_error, unit) result \<times> fan_kv world) option" where
  "fan_out dbg R [] w = Some (Inr (), w)"
| "fan_out dbg R ((lbl, src) # rest) w =
     (case keyset_scan_composite GraphOperationFailed dbg NOTIFICATION_FANOUT_PAGE_SIZE lbl (fan_step R src) w of
        None \<Rightarrow> None
      | Some (Inl e, w1) \<Rightarrow> Some (Inl e, w1)
      | Some (Inr _, w1) \<Rightarrow> fan_out dbg R rest w1)"

definition changed_post where
  "changed_post dbg R w = fan_out dbg R notification_types w"

section \<open>What the calls keep\<close>

definition notified :: "string \<Rightarrow> string \<Rightarrow> fan_kv \<Rightarrow> bool" where
  "notified user member g \<longleftrightarrow> member \<in> fst ` set (nt_sets g user)"

text \<open>
  The other tasks neither change the rows of posts nor remove notifications; if \<open>clean\<close>, no call fails.
\<close>

definition fan_env_ok :: "bool \<Rightarrow> fan_kv world \<Rightarrow> bool" where
  "fan_env_ok clean w \<longleftrightarrow>
     (\<forall>n g. fan_rows (env w n g) = fan_rows g \<and> (\<forall>u m. notified u m g \<longrightarrow> notified u m (env w n g))) \<and>
     (clean \<longrightarrow> (\<forall>n. fault w n = None \<and> graph_fault w n = None))"

definition fan_ok :: "bool \<Rightarrow> fan_request \<Rightarrow> fan_kv world \<Rightarrow> bool" where
  "fan_ok clean R w \<longleftrightarrow> fan_env_ok clean w \<and>
     (\<forall>src. distinct (map fr_cursor (fan_rows (kv w) src (rq_author R) (rq_post R))))"

definition fan_later :: "fan_kv world \<Rightarrow> fan_kv world \<Rightarrow> bool" where
  "fan_later w w' \<longleftrightarrow> same_schedule w w' \<and> fan_rows (kv w') = fan_rows (kv w) \<and>
     (\<forall>u m. notified u m (kv w) \<longrightarrow> notified u m (kv w'))"

lemma fan_later_refl [simp]: "fan_later w w"
  by (simp add: fan_later_def)

lemma fan_later_trans: "fan_later w w' \<Longrightarrow> fan_later w' w'' \<Longrightarrow> fan_later w w''"
  by (auto simp: fan_later_def intro: same_schedule_trans)

lemma fan_later_ok: "fan_later w w' \<Longrightarrow> fan_env_ok clean w' = fan_env_ok clean w"
  "fan_later w w' \<Longrightarrow> fan_ok clean R w' = fan_ok clean R w"
  by (simp_all add: fan_later_def fan_env_ok_def fan_ok_def same_schedule_def)

lemma zadd_later:
  "fan_rows (snd (zadd_notification u m s g)) = fan_rows g"
  "notified v n g \<Longrightarrow> notified v n (snd (zadd_notification u m s g))"
  "notified u m (snd (zadd_notification u m s g))"
  by (auto simp: zadd_notification_def notified_def dom_update simp flip: dom_map_of_conv_image_fst)

lemma env_step_later: "fan_env_ok clean w \<Longrightarrow> fan_later w (env_step w)"
  by (auto simp: fan_later_def fan_env_ok_def env_step_def same_schedule_def)

lemma put_later:
  assumes "notification_put json u b w = (r, w')" "fan_env_ok clean w"
  shows "fan_later w w' \<and> (r = Inr () \<longrightarrow> notified u (json b) (kv w')) \<and> (clean \<longrightarrow> r = Inr ())"
proof -
  let ?z = "zadd_notification u (json b) (f64_of_int (clock w (tick w)))"
  have "(kv w' = kv (env_step w) \<and> (\<exists>e. r = Inl e) \<or> kv w' = snd (?z (kv (env_step w)))) \<and> (clean \<longrightarrow> r = Inr ())
      \<and> same_schedule w w'"
    using assms redis_call_schedule [of ?z w r w']
    by (auto simp: notification_put_def redis_call_def Let_def fan_env_ok_def zadd_notification_def
        split: option.splits call_fault.splits)
  then show ?thesis
    using env_step_later [OF assms(2)] zadd_later [where g = "kv (env_step w)"] by (auto simp: fan_later_def)
qed

definition row_seen :: "fan_request \<Rightarrow> post_changed_source \<Rightarrow> fan_row \<Rightarrow> fan_kv world \<Rightarrow> bool" where
  "row_seen R src row w \<longleftrightarrow>
     (case extract_row (rq_bookmark_uri R) src row of (user, linked_uri) \<Rightarrow>
        user = rq_author R \<or> notified user (rq_json R (row_body R src linked_uri)) (kv w))"

lemma row_seen_later: "fan_later w w' \<Longrightarrow> row_seen R src row w \<Longrightarrow> row_seen R src row w'"
  by (auto simp: row_seen_def fan_later_def split: prod.splits)

lemma notify_rows_later:
  "notify_rows R src rows w = (r, w') \<Longrightarrow> fan_env_ok clean w \<Longrightarrow>
   fan_later w w' \<and> (r = Inr () \<longrightarrow> (\<forall>row \<in> set rows. row_seen R src row w')) \<and> (clean \<longrightarrow> r = Inr ())"
proof (induction R src rows w rule: notify_rows.induct)
  case (2 R src row rows w)
  obtain user uri where ex: "extract_row (rq_bookmark_uri R) src row = (user, uri)" by force
  show ?case
  proof (cases "rq_author R = user")
    case True
    have "notify_rows R src rows w = (r, w')" using "2.prems"(1) ex True by simp
    from "2.IH"(1) [OF ex [symmetric] True this "2.prems"(2)] show ?thesis using ex True by (simp add: row_seen_def)
  next
    case False
    obtain q w1 where pt: "notification_put (rq_json R) user (row_body R src uri) w = (q, w1)" by force
    note p = put_later [OF pt "2.prems"(2)]
    show ?thesis
    proof (cases q)
      case (Inl e)
      then have "r = Inl (KvOperationFailed e)" "w' = w1" using "2.prems"(1) ex False pt by simp_all
      then show ?thesis using p Inl by simp
    next
      case (Inr x)
      have rec: "notify_rows R src rows w1 = (r, w')" using "2.prems"(1) ex False pt Inr by simp
      have "fan_env_ok clean w1" using p "2.prems"(2) fan_later_ok(1) by blast
      from "2.IH"(2) [OF ex [symmetric] False pt [symmetric] Inr rec this]
      have ih: "fan_later w1 w' \<and> (r = Inr () \<longrightarrow> (\<forall>row \<in> set rows. row_seen R src row w')) \<and> (clean \<longrightarrow> r = Inr ())" .
      have "row_seen R src row w1" using p Inr ex by (simp add: row_seen_def)
      then have "row_seen R src row w'" using ih row_seen_later by blast
      moreover have "fan_later w w'" using p ih fan_later_trans by blast
      ultimately show ?thesis using ih by simp
    qed
  qed
qed simp

lemma query_later:
  assumes "graph_call (post_children_query src a p c n) w = (r, w')" "fan_env_ok clean w"
  shows "fan_later w w' \<and> (clean \<longrightarrow> (\<exists>rows. r = Inr rows)) \<and>
    (\<forall>rows. r = Inr rows \<longrightarrow> rows = page_above fr_cursor n c (sort_key fr_cursor (fan_rows (kv w) src a p)))"
proof -
  note e = env_step_later [OF assms(2)]
  have "kv w' = kv (env_step w)" "same_schedule w w'" "clean \<longrightarrow> (\<exists>rows. r = Inr rows)"
      "\<forall>rows. r = Inr rows \<longrightarrow> rows = page_above fr_cursor n c (sort_key fr_cursor (fan_rows (kv (env_step w)) src a p))"
    using assms graph_call_schedule [OF assms(1)]
    by (auto simp: graph_call_def Let_def fan_env_ok_def post_children_query_def split: option.splits call_fault.splits)
  then show ?thesis using e by (auto simp: fan_later_def)
qed

lemma fan_step_facts:
  assumes "fan_step R src c w = (q, w')" "fan_ok clean R w"
  shows "fan_later w w' \<and> (clean \<longrightarrow> (\<exists>v. q = Inr v)) \<and>
    (\<forall>n lc. q = Inr (n, lc) \<longrightarrow> (\<exists>page. page = page_above fr_cursor NOTIFICATION_FANOUT_PAGE_SIZE c
        (sort_key fr_cursor (fan_rows (kv w) src (rq_author R) (rq_post R))) \<and>
      n = length page \<and> (page \<noteq> [] \<longrightarrow> lc = Some (fr_cursor (last page))) \<and> (\<forall>row \<in> set page. row_seen R src row w')))"
proof -
  have ok: "fan_env_ok clean w" using assms(2) by (simp add: fan_ok_def)
  obtain r w1 where g: "graph_call (post_children_query src (rq_author R) (rq_post R) c NOTIFICATION_FANOUT_PAGE_SIZE) w = (r, w1)"
    by force
  note f1 = query_later [OF g ok]
  show ?thesis
  proof (cases r)
    case (Inl e)
    then show ?thesis using assms(1) g f1 by (auto simp: fan_step_def)
  next
    case (Inr rows)
    obtain r2 w2 where n: "notify_rows R src rows w1 = (r2, w2)" by force
    have "fan_env_ok clean w1" using f1 ok fan_later_ok(1) by blast
    note f2 = notify_rows_later [OF n this]
    have "q = (case r2 of Inl e \<Rightarrow> Inl e | Inr _ \<Rightarrow> Inr (length rows, if rows = [] then None else Some (fr_cursor (last rows)))) \<and> w' = w2"
      using assms(1) g Inr n by (cases r2) (auto simp: fan_step_def)
    then show ?thesis using f1 f2 Inr fan_later_trans by (cases r2) auto
  qed
qed

text \<open>The page function of each source keeps the contract, from any state \<open>w0\<close> on.\<close>

abbreviation fan_table :: "fan_request \<Rightarrow> post_changed_source \<Rightarrow> fan_kv world \<Rightarrow> fan_row list" where
  "fan_table R src w \<equiv> sort_key fr_cursor (fan_rows (kv w) src (rq_author R) (rq_post R))"

interpretation fan: keyset_step "fan_step R src" NOTIFICATION_FANOUT_PAGE_SIZE fr_cursor "fan_table R src"
  "\<lambda>w. fan_ok clean R w \<and> fan_later w0 w" "row_seen R src"
  for R src clean w0
proof unfold_locales
  show "0 < NOTIFICATION_FANOUT_PAGE_SIZE" by (simp add: NOTIFICATION_FANOUT_PAGE_SIZE_def)
next
  fix w
  assume "fan_ok clean R w \<and> fan_later w0 w"
  then show "strictly_sorted fr_cursor (fan_table R src w)" by (intro sort_key_strict) (simp add: fan_ok_def)
next
  fix w w' c q
  assume ok: "fan_ok clean R w \<and> fan_later w0 w" and st: "fan_step R src c w = (q, w')"
  have l: "fan_later w w'" using fan_step_facts [OF st conjunct1 [OF ok]] by blast
  then have "fan_ok clean R w'" "fan_later w0 w'" using ok fan_later_ok(2) fan_later_trans by blast+
  moreover have "fan_table R src w' = fan_table R src w" using l by (simp add: fan_later_def)
  ultimately show "(fan_ok clean R w' \<and> fan_later w0 w') \<and> fan_table R src w' = fan_table R src w \<and>
      (\<forall>r. row_seen R src r w \<longrightarrow> row_seen R src r w')"
    using row_seen_later [OF l] by blast
next
  fix w w' c n lc
  assume "fan_ok clean R w \<and> fan_later w0 w" "fan_step R src c w = (Inr (n, lc), w')"
  then show "n = length (page_above fr_cursor NOTIFICATION_FANOUT_PAGE_SIZE c (fan_table R src w)) \<and>
      (page_above fr_cursor NOTIFICATION_FANOUT_PAGE_SIZE c (fan_table R src w) \<noteq> [] \<longrightarrow>
        lc = Some (fr_cursor (last (page_above fr_cursor NOTIFICATION_FANOUT_PAGE_SIZE c (fan_table R src w))))) \<and>
      (\<forall>r \<in> set (page_above fr_cursor NOTIFICATION_FANOUT_PAGE_SIZE c (fan_table R src w)). row_seen R src r w')"
    using fan_step_facts by blast
qed

lemma scan_notifies:
  assumes "fan_ok clean R w"
  obtains q w' where
    "keyset_scan_composite GraphOperationFailed dbg NOTIFICATION_FANOUT_PAGE_SIZE lbl (fan_step R src) w = Some (q, w')"
    "fan_later w w'" "clean \<longrightarrow> q = Inr ()"
    "q = Inr () \<longrightarrow> (\<forall>row \<in> set (fan_rows (kv w) src (rq_author R) (rq_post R)). fr_cursor row \<noteq> [] \<longrightarrow> row_seen R src row w')"
proof -
  have "fan_ok clean R w \<and> fan_later w w" using assms by simp
  from fan.loop_visits_all [OF this, of GraphOperationFailed dbg lbl src "[]"] obtain q w' where
    lp: "keyset_loop GraphOperationFailed dbg NOTIFICATION_FANOUT_PAGE_SIZE lbl (fan_step R src) [] w = Some (q, w')"
      "fan_later w w'"
    and q: "case q of Inr _ \<Rightarrow> \<forall>r \<in> set (fan_table R src w). [] < fr_cursor r \<longrightarrow> row_seen R src r w'
      | Inl e \<Rightarrow> \<exists>c v v'. (fan_ok clean R v \<and> fan_later w v) \<and> fan_step R src c v = (Inl e, v')" by blast
  have "clean \<longrightarrow> q = Inr ()"
  proof (cases q)
    case (Inl e)
    then obtain c v v' where "fan_ok clean R v" "fan_step R src c v = (Inl e, v')" using q by auto
    then show ?thesis using fan_step_facts by blast
  qed simp
  moreover have "q = Inr () \<longrightarrow> (\<forall>row \<in> set (fan_rows (kv w) src (rq_author R) (rq_post R)).
      fr_cursor row \<noteq> [] \<longrightarrow> row_seen R src row w')"
  proof (intro impI ballI)
    fix row assume "q = Inr ()" "row \<in> set (fan_rows (kv w) src (rq_author R) (rq_post R))" "fr_cursor row \<noteq> []"
    moreover from this(3) have "[] < fr_cursor row" by (cases "fr_cursor row") simp_all
    ultimately show "row_seen R src row w'" using q by simp
  qed
  ultimately show thesis using lp that by (simp add: keyset_scan_composite_def)
qed

lemma fan_out_notifies:
  assumes "fan_ok clean R w"
  shows "\<exists>q w'. fan_out dbg R srcs w = Some (q, w') \<and> fan_later w w' \<and> (clean \<longrightarrow> q = Inr ()) \<and>
    (q = Inr () \<longrightarrow> (\<forall>src \<in> snd ` set srcs. \<forall>row \<in> set (fan_rows (kv w) src (rq_author R) (rq_post R)).
      fr_cursor row \<noteq> [] \<longrightarrow> row_seen R src row w'))"
  using assms
proof (induction srcs arbitrary: w)
  case (Cons s srcs)
  obtain lbl src where s: "s = (lbl, src)" by force
  obtain q w1 where sc: "keyset_scan_composite GraphOperationFailed dbg NOTIFICATION_FANOUT_PAGE_SIZE lbl (fan_step R src) w = Some (q, w1)"
    "fan_later w w1" "clean \<longrightarrow> q = Inr ()"
    "q = Inr () \<longrightarrow> (\<forall>row \<in> set (fan_rows (kv w) src (rq_author R) (rq_post R)). fr_cursor row \<noteq> [] \<longrightarrow> row_seen R src row w1)"
    by (rule scan_notifies [OF Cons.prems])
  show ?case
  proof (cases q)
    case (Inl e)
    then have "fan_out dbg R (s # srcs) w = Some (Inl e, w1)" using sc(1) s by simp
    then show ?thesis using sc(2,3) Inl by simp
  next
    case (Inr x)
    then have f: "fan_out dbg R (s # srcs) w = fan_out dbg R srcs w1" using sc(1) s by simp
    have "fan_ok clean R w1" using sc(2) Cons.prems fan_later_ok(2) by blast
    from Cons.IH [OF this] obtain q2 w2 where ih: "fan_out dbg R srcs w1 = Some (q2, w2)" "fan_later w1 w2"
      "clean \<longrightarrow> q2 = Inr ()" "q2 = Inr () \<longrightarrow> (\<forall>src \<in> snd ` set srcs. \<forall>row \<in> set (fan_rows (kv w1) src (rq_author R) (rq_post R)).
        fr_cursor row \<noteq> [] \<longrightarrow> row_seen R src row w2)" by blast
    have "fan_rows (kv w1) = fan_rows (kv w)" "fan_later w w2"
      using sc(2) ih(2) fan_later_trans by (auto simp: fan_later_def)
    moreover have "\<forall>row \<in> set (fan_rows (kv w) src (rq_author R) (rq_post R)). fr_cursor row \<noteq> [] \<longrightarrow> row_seen R src row w2"
      using sc(4) Inr row_seen_later [OF ih(2)] by simp
    ultimately show ?thesis using f ih s by auto
  qed
qed simp

text \<open>C18. An edited or deleted post is announced to everyone who interacted with it: while the rows of
  the post stay as they are and have distinct cursors, the announcement returns, and when it returns
  successfully every user with a reply, tag, bookmark or repost of the post (except its author) has
  the notification of that interaction, however many pages there are. It fails only if a call
  fails: a scan is never reported as stalled.\<close>

theorem post_change_reaches_everyone:
  assumes "fan_ok False R w"
  shows "\<exists>q w'. changed_post dbg R w = Some (q, w') \<and>
    (q = Inr () \<longrightarrow> (\<forall>src \<in> {SrcReplyParent, SrcTaggedPost, SrcBookmark, SrcRepostEmbed}.
       \<forall>row \<in> set (fan_rows (kv w) src (rq_author R) (rq_post R)). fr_cursor row \<noteq> [] \<longrightarrow> row_seen R src row w')) \<and>
    ((\<forall>n. fault w n = None \<and> graph_fault w n = None) \<longrightarrow> q = Inr ())"
proof -
  define clean where "clean = (\<forall>n. fault w n = None \<and> graph_fault w n = None)"
  have "fan_ok clean R w" using assms by (simp add: fan_ok_def fan_env_ok_def clean_def)
  from fan_out_notifies [OF this, of dbg notification_types, folded changed_post_def]
  obtain q w' where "changed_post dbg R w = Some (q, w')" "clean \<longrightarrow> q = Inr ()"
    "q = Inr () \<longrightarrow> (\<forall>src \<in> snd ` set notification_types. \<forall>row \<in> set (fan_rows (kv w) src (rq_author R) (rq_post R)).
      fr_cursor row \<noteq> [] \<longrightarrow> row_seen R src row w')" by blast
  then show ?thesis
    unfolding clean_def by (intro exI [of _ q] exI [of _ w'] conjI) (simp_all add: notification_types_def)
qed

definition demo_fan :: fan_kv where
  "demo_fan = \<lparr>nt_sets = (\<lambda>_. []), fan_rows = (\<lambda>src a p. if src = SrcTaggedPost
     then [\<lparr>fr_cursor = [''z'', ''t2''], fr_user = Some ''z'', fr_link = Some ''uri2''\<rparr>,
           \<lparr>fr_cursor = [''b'', ''t1''], fr_user = Some ''b'', fr_link = Some ''uri1''\<rparr>] else [])\<rparr>"

definition demo_fan_request :: fan_request where
  "demo_fan_request = \<lparr>rq_json = (\<lambda>b. case b of PostDeleted _ _ _ l _ \<Rightarrow> l | _ \<Rightarrow> ''''), rq_bookmark_uri = (\<lambda>u b. u @ b),
     rq_author = ''a'', rq_post = ''p'', rq_changed_uri = ''c'', rq_type = Deleted, rq_kind = ''short''\<rparr>"

theorem post_change_reaches_everyone_witness:
  "\<exists>w'. changed_post (\<lambda>_. '''') demo_fan_request (calm_world demo_fan) = Some (Inr (), w') \<and> notified ''z'' ''uri2'' (kv w')"
proof -
  have "fan_ok False demo_fan_request (calm_world demo_fan)"
    by (simp add: fan_ok_def fan_env_ok_def calm_world_def demo_fan_def)
  from post_change_reaches_everyone [OF this, of "\<lambda>_. ''''"] obtain w' where
    "changed_post (\<lambda>_. '''') demo_fan_request (calm_world demo_fan) = Some (Inr (), w')"
    "\<forall>row \<in> set (fan_rows demo_fan SrcTaggedPost ''a'' ''p''). fr_cursor row \<noteq> [] \<longrightarrow> row_seen demo_fan_request SrcTaggedPost row w'"
    by (auto simp: calm_world_def demo_fan_request_def)
  then show ?thesis
    by (auto simp: demo_fan_def demo_fan_request_def row_seen_def extract_row_def row_body_def changed_body_def unwrap_or_def)
qed

end
