(* ===== verification/Migrations.thy ===== *)
theory Migrations
  imports Redis_World
begin

text \<open>
  The migration manager (nexusd/src/migrations/manager.rs): the phases of a migration, the nodes that
  record them in the graph, the run that executes one phase of every registered migration, and the
  check that predicts what a run would do. The phases' own code is a parameter of a migration.
\<close>

section \<open>Phases and nodes\<close>

datatype migration_phase = DualWrite | Backfill | Cutover | Cleanup | Done

fun next_phase :: "migration_phase \<Rightarrow> migration_phase option" where
  "next_phase DualWrite = Some Backfill"
| "next_phase Backfill = Some Cutover"
| "next_phase Cutover = Some Cleanup"
| "next_phase Cleanup = Some Done"
| "next_phase Done = None"

fun phase_to_string :: "migration_phase \<Rightarrow> string" where
  "phase_to_string DualWrite = ''dual_write''"
| "phase_to_string Backfill = ''backfill''"
| "phase_to_string Cutover = ''cutover''"
| "phase_to_string Cleanup = ''cleanup''"
| "phase_to_string Done = ''done''"

text \<open>A node that \<open>update_migration_phase\<close> had to create has no creation time and cannot be read back.\<close>

record migration_node =
  mn_id :: string
  mn_phase :: migration_phase
  mn_created_at :: "int option"
  mn_updated_at :: int

record 'd mig_kv =
  mg_nodes :: "migration_node list"
  mg_data :: 'd

record 'd migration =
  mi_id :: string
  mi_multi :: bool
  mi_backfill :: "'d mig_kv world \<Rightarrow> (string, unit) result \<times> 'd mig_kv world"
  mi_cutover :: "'d mig_kv world \<Rightarrow> (string, unit) result \<times> 'd mig_kv world"
  mi_cleanup :: "'d mig_kv world \<Rightarrow> (string, unit) result \<times> 'd mig_kv world"

section \<open>Queries\<close>

definition get_migrations ::
  "(graph_error \<Rightarrow> string) \<Rightarrow> 'd mig_kv world \<Rightarrow> (string, migration_node list) result \<times> 'd mig_kv world" where
  "get_migrations show_e w =
     (case graph_call (\<lambda>g. (mg_nodes g, g)) w of
        (Inl e, w1) \<Rightarrow> (Inl (show_e e), w1)
      | (Inr ns, w1) \<Rightarrow> if list_ex (\<lambda>n. mn_created_at n = None) ns then (Inl ''GET ROW ERROR'', w1) else (Inr ns, w1))"

definition store_query :: "string \<Rightarrow> migration_phase \<Rightarrow> int \<Rightarrow> 'd mig_kv \<Rightarrow> unit \<times> 'd mig_kv" where
  "store_query mid ph now g =
     (let n = \<lparr>mn_id = mid, mn_phase = ph, mn_created_at = Some now, mn_updated_at = 0\<rparr> in
      ((), if n \<in> set (mg_nodes g) then g else g\<lparr>mg_nodes := mg_nodes g @ [n]\<rparr>))"

definition update_query :: "string \<Rightarrow> migration_phase \<Rightarrow> int \<Rightarrow> 'd mig_kv \<Rightarrow> unit \<times> 'd mig_kv" where
  "update_query mid ph now g =
     ((), if list_ex (\<lambda>n. mn_id n = mid) (mg_nodes g)
          then g\<lparr>mg_nodes := map (\<lambda>n. if mn_id n = mid then n\<lparr>mn_phase := ph, mn_updated_at := now\<rparr> else n) (mg_nodes g)\<rparr>
          else g\<lparr>mg_nodes := mg_nodes g @ [\<lparr>mn_id = mid, mn_phase = ph, mn_created_at = None, mn_updated_at = now\<rparr>]\<rparr>)"

definition run_query ::
  "(graph_error \<Rightarrow> string) \<Rightarrow> ('d mig_kv \<Rightarrow> unit \<times> 'd mig_kv) \<Rightarrow> 'd mig_kv world \<Rightarrow>
   (string, unit) result \<times> 'd mig_kv world" where
  "run_query show_e q w = (case graph_call q w of (Inl e, w1) \<Rightarrow> (Inl (show_e e), w1) | (Inr _, w1) \<Rightarrow> (Inr (), w1))"

definition store_new_migration where
  "store_new_migration show_e mid multi w =
     run_query show_e (store_query mid (if multi then DualWrite else Backfill) (clock w (tick w))) w"

definition update_migration_phase where
  "update_migration_phase show_e mid ph w = run_query show_e (update_query mid ph (clock w (tick w))) w"

section \<open>The run and the check\<close>

fun mark_ready ::
  "(graph_error \<Rightarrow> string) \<Rightarrow> string list \<Rightarrow> migration_node list \<Rightarrow> 'd mig_kv world \<Rightarrow>
   (string, unit) result \<times> 'd mig_kv world" where
  "mark_ready show_e ready [] w = (Inr (), w)"
| "mark_ready show_e ready (n # ns) w =
     (if mn_id n \<in> set ready
      then (case update_migration_phase show_e (mn_id n) Backfill w of
              (Inl e, w1) \<Rightarrow> (Inl e, w1)
            | (Inr _, w1) \<Rightarrow> mark_ready show_e ready ns w1)
      else mark_ready show_e ready ns w)"

definition phase_action ::
  "'d migration \<Rightarrow> migration_phase \<Rightarrow> 'd mig_kv world \<Rightarrow> (string, unit) result \<times> 'd mig_kv world" where
  "phase_action m ph w =
     (case ph of Backfill \<Rightarrow> mi_backfill m w | Cutover \<Rightarrow> mi_cutover m w | Cleanup \<Rightarrow> mi_cleanup m w | _ \<Rightarrow> (Inr (), w))"

definition run_phase ::
  "(graph_error \<Rightarrow> string) \<Rightarrow> 'd migration \<Rightarrow> migration_phase \<Rightarrow> 'd mig_kv world \<Rightarrow>
   (string, unit) result \<times> 'd mig_kv world" where
  "run_phase show_e m ph w =
     (if ph = Done \<or> ph = DualWrite then (Inr (), w)
      else case phase_action m ph w of
        (Inl e, w1) \<Rightarrow> (Inl e, w1)
      | (Inr _, w1) \<Rightarrow>
          (case (if mi_multi m then next_phase ph else Some Done) of
             None \<Rightarrow> (Inr (), w1)
           | Some p \<Rightarrow> update_migration_phase show_e (mi_id m) p w1))"

definition migrate_one ::
  "(graph_error \<Rightarrow> string) \<Rightarrow> migration_node list \<Rightarrow> 'd migration \<Rightarrow> 'd mig_kv world \<Rightarrow>
   (string, unit) result \<times> 'd mig_kv world" where
  "migrate_one show_e stored m w =
     (case find (\<lambda>n. mn_id n = mi_id m) stored of
        Some n \<Rightarrow> run_phase show_e m (mn_phase n) w
      | None \<Rightarrow>
          (case store_new_migration show_e (mi_id m) (mi_multi m) w of
             (Inl e, w1) \<Rightarrow> (Inl e, w1)
           | (Inr _, w1) \<Rightarrow> if mi_multi m then (Inr (), w1) else run_phase show_e m Backfill w1))"

fun migrate_all ::
  "(graph_error \<Rightarrow> string) \<Rightarrow> migration_node list \<Rightarrow> 'd migration list \<Rightarrow> 'd mig_kv world \<Rightarrow>
   (string, unit) result \<times> 'd mig_kv world" where
  "migrate_all show_e stored [] w = (Inr (), w)"
| "migrate_all show_e stored (m # ms) w =
     (case migrate_one show_e stored m w of
        (Inl e, w1) \<Rightarrow> (Inl e, w1)
      | (Inr _, w1) \<Rightarrow> migrate_all show_e stored ms w1)"

definition migrations_run ::
  "(graph_error \<Rightarrow> string) \<Rightarrow> 'd migration list \<Rightarrow> string list \<Rightarrow> 'd mig_kv world \<Rightarrow>
   (string, unit) result \<times> 'd mig_kv world" where
  "migrations_run show_e ms ready w =
     (case get_migrations show_e w of
        (Inl e, w1) \<Rightarrow> (Inl e, w1)
      | (Inr ns, w1) \<Rightarrow>
          (case mark_ready show_e ready ns w1 of
             (Inl e, w2) \<Rightarrow> (Inl e, w2)
           | (Inr _, w2) \<Rightarrow>
               (case get_migrations show_e w2 of
                  (Inl e, w3) \<Rightarrow> (Inl e, w3)
                | (Inr stored, w3) \<Rightarrow> migrate_all show_e stored ms w3)))"

definition is_pending :: "migration_phase option \<Rightarrow> bool \<Rightarrow> bool" where
  "is_pending stored backfill_ready =
     (case stored of None \<Rightarrow> True | Some Done \<Rightarrow> False | Some DualWrite \<Rightarrow> backfill_ready | Some _ \<Rightarrow> True)"

definition stored_phase :: "migration_node list \<Rightarrow> string \<Rightarrow> migration_phase option" where
  "stored_phase ns mid = map_option mn_phase (find (\<lambda>n. mn_id n = mid) ns)"

definition migrations_check ::
  "(graph_error \<Rightarrow> string) \<Rightarrow> 'd migration list \<Rightarrow> string list \<Rightarrow> 'd mig_kv world \<Rightarrow>
   (string, (string \<times> string) list) result \<times> 'd mig_kv world" where
  "migrations_check show_e ms ready w =
     (case get_migrations show_e w of
        (Inl e, w1) \<Rightarrow> (Inl e, w1)
      | (Inr ns, w1) \<Rightarrow>
          (Inr (map (\<lambda>m. (mi_id m, case stored_phase ns (mi_id m) of Some p \<Rightarrow> phase_to_string p | None \<Rightarrow> ''new''))
             (filter (\<lambda>m. is_pending (stored_phase ns (mi_id m)) (mi_id m \<in> set ready)) ms)), w1))"

section \<open>Runs no other process disturbs\<close>

definition quiet :: "'d mig_kv world \<Rightarrow> bool" where
  "quiet w \<longleftrightarrow> (\<forall>n. graph_fault w n = None) \<and> (\<forall>n g. env w n g = g)"

abbreviation phases :: "'d mig_kv world \<Rightarrow> string \<Rightarrow> migration_phase option" where
  "phases w \<equiv> stored_phase (mg_nodes (kv w))"

definition readable :: "'d mig_kv world \<Rightarrow> bool" where
  "readable w \<longleftrightarrow> (\<forall>n \<in> set (mg_nodes (kv w)). mn_created_at n \<noteq> None)"

lemma quiet_call:
  assumes "quiet w"
  obtains w' where "graph_call f w = (Inr (fst (f (kv w))), w')" "kv w' = snd (f (kv w))" "quiet w'"
  using assms by (simp add: graph_call_def env_step_def quiet_def)

lemma quiet_get:
  assumes "quiet w" "readable w"
  obtains w' where "get_migrations show_e w = (Inr (mg_nodes (kv w)), w')" "kv w' = kv w" "quiet w'"
proof -
  obtain w' where w': "graph_call (\<lambda>g. (mg_nodes g, g)) w = (Inr (mg_nodes (kv w)), w')" "kv w' = kv w" "quiet w'"
    using quiet_call [OF assms(1), of "\<lambda>g. (mg_nodes g, g)"] by auto
  moreover have "\<not> list_ex (\<lambda>n. mn_created_at n = None) (mg_nodes (kv w))"
    using assms(2) by (auto simp: readable_def list_ex_iff)
  ultimately show thesis by (intro that) (simp_all add: get_migrations_def)
qed

lemma stored_phase_set:
  "stored_phase (map (\<lambda>n. if mn_id n = mid then n\<lparr>mn_phase := p, mn_updated_at := t\<rparr> else n) ns) x =
     (if x = mid \<and> stored_phase ns mid \<noteq> None then Some p else stored_phase ns x)"
  by (induction ns) (auto simp: stored_phase_def)

lemma stored_phase_single [simp]: "stored_phase [n] x = (if mn_id n = x then Some (mn_phase n) else None)"
  by (simp add: stored_phase_def)

lemma stored_phase_append:
  "stored_phase (ns @ ms) x = (case stored_phase ns x of None \<Rightarrow> stored_phase ms x | Some p \<Rightarrow> Some p)"
  by (induction ns) (auto simp: stored_phase_def)

lemma stored_phase_none: "stored_phase ns mid = None \<longleftrightarrow> (\<forall>n \<in> set ns. mn_id n \<noteq> mid)"
  by (auto simp: stored_phase_def find_None_iff)

lemma quiet_update:
  assumes "quiet w" "readable w" "phases w mid \<noteq> None"
  obtains w' where "update_migration_phase show_e mid p w = (Inr (), w')" "quiet w'" "readable w'"
    "phases w' = (phases w)(mid \<mapsto> p)" "mg_data (kv w') = mg_data (kv w)"
proof -
  let ?q = "update_query mid p (clock w (tick w))"
  obtain w' where w': "graph_call ?q w = (Inr (), w')" "kv w' = snd (?q (kv w))" "quiet w'"
    using quiet_call [OF assms(1), of ?q] by auto
  have ex: "list_ex (\<lambda>n. mn_id n = mid) (mg_nodes (kv w))"
    using assms(3) by (auto simp: stored_phase_none list_ex_iff)
  then have ns: "mg_nodes (kv w') = map (\<lambda>n. if mn_id n = mid then n\<lparr>mn_phase := p, mn_updated_at := clock w (tick w)\<rparr> else n) (mg_nodes (kv w))"
      "mg_data (kv w') = mg_data (kv w)"
    by (simp_all add: w'(2) update_query_def)
  have "phases w' = (phases w)(mid \<mapsto> p)"
    using assms(3) by (intro ext) (simp add: ns(1) stored_phase_set)
  moreover have "readable w'" using assms(2) ns(1) by (auto simp: readable_def)
  ultimately show thesis using w' ns(2) by (intro that [of w']) (auto simp: update_migration_phase_def run_query_def)
qed

lemma quiet_store:
  assumes "quiet w" "readable w" "phases w mid = None"
  obtains w' where "store_new_migration show_e mid multi w = (Inr (), w')" "quiet w'" "readable w'"
    "phases w' = (phases w)(mid \<mapsto> (if multi then DualWrite else Backfill))" "mg_data (kv w') = mg_data (kv w)"
proof -
  let ?p = "if multi then DualWrite else Backfill"
  let ?q = "store_query mid ?p (clock w (tick w))"
  obtain w' where w': "graph_call ?q w = (Inr (), w')" "kv w' = snd (?q (kv w))" "quiet w'"
    using quiet_call [OF assms(1), of ?q] by auto
  let ?n = "\<lparr>mn_id = mid, mn_phase = ?p, mn_created_at = Some (clock w (tick w)), mn_updated_at = 0\<rparr>"
  have "?n \<notin> set (mg_nodes (kv w))" using assms(3) by (force simp: stored_phase_none)
  then have ns: "mg_nodes (kv w') = mg_nodes (kv w) @ [?n]" "mg_data (kv w') = mg_data (kv w)"
    by (simp_all add: w'(2) store_query_def Let_def)
  have "phases w' = (phases w)(mid \<mapsto> ?p)"
    using assms(3) by (intro ext) (auto simp: ns(1) stored_phase_append split: option.splits)
  moreover have "readable w'" using assms(2) ns(1) by (auto simp: readable_def)
  ultimately show thesis using w' ns(2) by (intro that [of w']) (auto simp: store_new_migration_def run_query_def)
qed

section \<open>What a run does\<close>

text \<open>The phase a run executes of a migration and the phase it leaves when that succeeds, given the stored one.\<close>

fun executes :: "bool \<Rightarrow> migration_phase option \<Rightarrow> migration_phase option" where
  "executes multi None = (if multi then None else Some Backfill)"
| "executes multi (Some ph) = (if ph = Done \<or> ph = DualWrite then None else Some ph)"

definition leaves :: "bool \<Rightarrow> migration_phase option \<Rightarrow> migration_phase" where
  "leaves multi stored =
     (case executes multi stored of
        Some ph \<Rightarrow> if multi then the (next_phase ph) else Done
      | None \<Rightarrow> (case stored of None \<Rightarrow> DualWrite | Some ph \<Rightarrow> ph))"

definition reset :: "string list \<Rightarrow> string \<Rightarrow> migration_phase option \<Rightarrow> migration_phase option" where
  "reset ready mid stored = (if mid \<in> set ready then map_option (\<lambda>_. Backfill) stored else stored)"

definition due :: "'d migration \<Rightarrow> migration_phase option \<Rightarrow> (string \<times> migration_phase) list" where
  "due m stored = (case executes (mi_multi m) stored of Some p \<Rightarrow> [(mi_id m, p)] | None \<Rightarrow> [])"

text \<open>
  The phases themselves are not the manager's code: \<open>F\<close> is what each of them does to the data and how
  it ends, and \<open>behaves_as F m\<close> says that the code of \<open>m\<close> does this and leaves the nodes of the manager alone.
  \<open>perform F\<close> executes phases one after the other up to the first that fails.
\<close>

type_synonym 'd phase_work = "string \<times> migration_phase \<Rightarrow> 'd \<Rightarrow> (string, unit) result \<times> 'd"

definition behaves_as :: "'d phase_work \<Rightarrow> 'd migration \<Rightarrow> bool" where
  "behaves_as F m \<longleftrightarrow> (\<forall>ph w. ph \<noteq> Done \<and> ph \<noteq> DualWrite \<and> quiet w \<longrightarrow>
     (case phase_action m ph w of (r, w') \<Rightarrow>
        quiet w' \<and> mg_nodes (kv w') = mg_nodes (kv w) \<and> F (mi_id m, ph) (mg_data (kv w)) = (r, mg_data (kv w'))))"

fun perform :: "'d phase_work \<Rightarrow> (string \<times> migration_phase) list \<Rightarrow> 'd \<Rightarrow> (string, unit) result \<times> 'd" where
  "perform F [] d = (Inr (), d)"
| "perform F (x # xs) d = (case F x d of (Inl e, d') \<Rightarrow> (Inl e, d') | (Inr _, d') \<Rightarrow> perform F xs d')"

lemma perform_append:
  "perform F (xs @ ys) d = (case perform F xs d of (Inl e, d') \<Rightarrow> (Inl e, d') | (Inr _, d') \<Rightarrow> perform F ys d')"
  by (induction xs arbitrary: d) (auto split: prod.splits sum.splits)

lemma quiet_mark:
  assumes "quiet w" "readable w" "\<forall>n \<in> set ns. phases w (mn_id n) \<noteq> None"
  obtains w' where "mark_ready show_e ready ns w = (Inr (), w')" "quiet w'" "readable w'"
    "\<And>mid. phases w' mid = (if mid \<in> set ready \<and> mid \<in> mn_id ` set ns then Some Backfill else phases w mid)"
    "mg_data (kv w') = mg_data (kv w)"
  using assms
proof (induction ns arbitrary: w thesis)
  case (Cons n ns)
  show ?case
  proof (cases "mn_id n \<in> set ready")
    case True
    obtain w1 where w1: "update_migration_phase show_e (mn_id n) Backfill w = (Inr (), w1)" "quiet w1" "readable w1"
        "phases w1 = (phases w)(mn_id n \<mapsto> Backfill)" "mg_data (kv w1) = mg_data (kv w)"
      using quiet_update [OF Cons.prems(2,3)] Cons.prems(4) by (metis list.set_intros(1))
    have "\<forall>n \<in> set ns. phases w1 (mn_id n) \<noteq> None" using Cons.prems(4) by (simp add: w1(4))
    from Cons.IH [OF _ w1(2,3) this] obtain w2 where w2: "mark_ready show_e ready ns w1 = (Inr (), w2)" "quiet w2" "readable w2"
        "\<And>mid. phases w2 mid = (if mid \<in> set ready \<and> mid \<in> mn_id ` set ns then Some Backfill else phases w1 mid)"
        "mg_data (kv w2) = mg_data (kv w1)" by blast
    show ?thesis by (rule Cons.prems(1) [of w2]) (use True w1 w2 in auto)
  next
    case False
    have "\<forall>n \<in> set ns. phases w (mn_id n) \<noteq> None" using Cons.prems(4) by simp
    from Cons.IH [OF _ Cons.prems(2,3) this] obtain w2 where w2: "mark_ready show_e ready ns w = (Inr (), w2)" "quiet w2" "readable w2"
        "\<And>mid. phases w2 mid = (if mid \<in> set ready \<and> mid \<in> mn_id ` set ns then Some Backfill else phases w mid)"
        "mg_data (kv w2) = mg_data (kv w)" by blast
    show ?thesis by (rule Cons.prems(1) [of w2]) (use False w2 in auto)
  qed
qed (simp add: quiet_def)

lemma quiet_run_phase:
  assumes "behaves_as F m" "quiet w" "readable w" "phases w (mi_id m) \<noteq> None" "ph \<noteq> Done" "ph \<noteq> DualWrite"
  obtains r w' where "run_phase show_e m ph w = (r, w')" "quiet w'" "readable w'"
    "F (mi_id m, ph) (mg_data (kv w)) = (r, mg_data (kv w'))"
    "phases w' = (if r = Inr () then (phases w)(mi_id m \<mapsto> leaves (mi_multi m) (Some ph)) else phases w)"
proof -
  obtain r w1 where w1: "phase_action m ph w = (r, w1)" by force
  then have f1: "quiet w1" "mg_nodes (kv w1) = mg_nodes (kv w)" "F (mi_id m, ph) (mg_data (kv w)) = (r, mg_data (kv w1))"
    using assms(1,2,5,6) by (force simp: behaves_as_def)+
  then have "readable w1" using assms(3) by (simp add: readable_def)
  show thesis
  proof (cases r)
    case (Inl e)
    then have "run_phase show_e m ph w = (r, w1)" using w1 assms(5,6) by (simp add: run_phase_def)
    then show thesis using f1 \<open>readable w1\<close> Inl by (intro that [of r w1]) simp_all
  next
    case (Inr x)
    have nx: "(if mi_multi m then next_phase ph else Some Done) = Some (leaves (mi_multi m) (Some ph))"
      using assms(5,6) by (cases ph) (simp_all add: leaves_def)
    obtain w2 where w2: "update_migration_phase show_e (mi_id m) (leaves (mi_multi m) (Some ph)) w1 = (Inr (), w2)"
        "quiet w2" "readable w2" "phases w2 = (phases w1)(mi_id m \<mapsto> leaves (mi_multi m) (Some ph))" "mg_data (kv w2) = mg_data (kv w1)"
      using quiet_update [OF f1(1) \<open>readable w1\<close>] assms(4) f1(2) by metis
    have "run_phase show_e m ph w = (r, w2)"
      using assms(5,6) w1 w2(1) nx Inr by (simp add: run_phase_def)
    then show thesis using w2 f1 Inr by (intro that [of r w2]) simp_all
  qed
qed

lemma quiet_migrate_one:
  assumes "behaves_as F m" "quiet w" "readable w" "stored_phase ns (mi_id m) = phases w (mi_id m)"
  obtains r w' where "migrate_one show_e ns m w = (r, w')" "quiet w'" "readable w'"
    "perform F (due m (phases w (mi_id m))) (mg_data (kv w)) = (r, mg_data (kv w'))"
    "r = Inr () \<Longrightarrow> phases w' = (phases w)(mi_id m \<mapsto> leaves (mi_multi m) (phases w (mi_id m)))"
    "r \<noteq> Inr () \<Longrightarrow> \<exists>ph. executes (mi_multi m) (phases w (mi_id m)) = Some ph \<and> phases w' = (phases w)(mi_id m \<mapsto> ph)"
proof (cases "phases w (mi_id m)")
  case None
  have f: "find (\<lambda>n. mn_id n = mi_id m) ns = None" using assms(4) None by (simp add: stored_phase_def)
  obtain w1 where w1: "store_new_migration show_e (mi_id m) (mi_multi m) w = (Inr (), w1)" "quiet w1" "readable w1"
      "phases w1 = (phases w)(mi_id m \<mapsto> (if mi_multi m then DualWrite else Backfill))" "mg_data (kv w1) = mg_data (kv w)"
    using quiet_store [OF assms(2,3) None] by metis
  show thesis
  proof (cases "mi_multi m")
    case True
    then show thesis using w1 f None by (intro that [of "Inr ()" w1]) (simp_all add: migrate_one_def leaves_def due_def)
  next
    case False
    from w1(4) have "phases w1 (mi_id m) \<noteq> None" by simp
    from quiet_run_phase [OF assms(1) w1(2,3) this, of Backfill show_e] obtain r w2 where w2:
      "run_phase show_e m Backfill w1 = (r, w2)" "quiet w2" "readable w2"
      "F (mi_id m, Backfill) (mg_data (kv w1)) = (r, mg_data (kv w2))"
      "phases w2 = (if r = Inr () then (phases w1)(mi_id m \<mapsto> leaves (mi_multi m) (Some Backfill)) else phases w1)" by auto
    have one: "migrate_one show_e ns m w = (r, w2)" using w1(1) w2(1) f False by (simp add: migrate_one_def)
    show thesis
      by (rule that [OF one w2(2,3)]) (use w1 w2 None False in \<open>auto simp: leaves_def due_def split: sum.splits\<close>)
  qed
next
  case (Some ph)
  then obtain n where f: "find (\<lambda>n. mn_id n = mi_id m) ns = Some n" "mn_phase n = ph"
    using assms(4) by (auto simp: stored_phase_def)
  show thesis
  proof (cases "ph = Done \<or> ph = DualWrite")
    case True
    then have "migrate_one show_e ns m w = (Inr (), w)" using f by (simp add: migrate_one_def run_phase_def)
    moreover have "phases w = (phases w)(mi_id m \<mapsto> leaves (mi_multi m) (phases w (mi_id m)))"
      using True Some by (auto simp: leaves_def fun_eq_iff)
    ultimately show thesis using True Some assms(2,3) by (intro that [of "Inr ()" w]) (auto simp: due_def)
  next
    case False
    from Some have "phases w (mi_id m) \<noteq> None" by simp
    from quiet_run_phase [OF assms(1-3) this, of ph show_e] False obtain r w2 where w2:
      "run_phase show_e m ph w = (r, w2)" "quiet w2" "readable w2"
      "F (mi_id m, ph) (mg_data (kv w)) = (r, mg_data (kv w2))"
      "phases w2 = (if r = Inr () then (phases w)(mi_id m \<mapsto> leaves (mi_multi m) (Some ph)) else phases w)" by auto
    have one: "migrate_one show_e ns m w = (r, w2)" using w2(1) f by (simp add: migrate_one_def)
    have "phases w = (phases w)(mi_id m \<mapsto> ph)" using Some by (auto simp: fun_eq_iff)
    then show thesis
      by (intro that [OF one w2(2,3)]) (use w2 Some False in \<open>auto simp: due_def split: sum.splits\<close>)
  qed
qed

text \<open>The phases stored once those of the listed migrations are set back to backfill.\<close>

abbreviation planned :: "string list \<Rightarrow> 'd mig_kv world \<Rightarrow> string \<Rightarrow> migration_phase option" where
  "planned ready w \<equiv> \<lambda>mid. reset ready mid (phases w mid)"

abbreviation dues :: "(string \<Rightarrow> migration_phase option) \<Rightarrow> 'd migration list \<Rightarrow> (string \<times> migration_phase) list" where
  "dues P ms \<equiv> concat (map (\<lambda>m. due m (P (mi_id m))) ms)"

lemma quiet_migrate_all:
  assumes "\<forall>m \<in> set ms. behaves_as F m" "quiet w" "readable w" "distinct (map mi_id ms)"
    and "\<forall>m \<in> set ms. stored_phase ns (mi_id m) = phases w (mi_id m)"
  shows "\<exists>r w' n. migrate_all show_e ns ms w = (r, w') \<and>
    perform F (dues (phases w) (take (Suc n) ms)) (mg_data (kv w)) = (r, mg_data (kv w')) \<and>
    fst (perform F (dues (phases w) (take n ms)) (mg_data (kv w))) = Inr () \<and>
    (\<forall>m \<in> set (take n ms). phases w' (mi_id m) = Some (leaves (mi_multi m) (phases w (mi_id m)))) \<and>
    (\<forall>mid. mid \<notin> mi_id ` set (take (Suc n) ms) \<longrightarrow> phases w' mid = phases w mid) \<and>
    (if r = Inr () then n = length ms
     else n < length ms \<and> (\<exists>ph. executes (mi_multi (ms ! n)) (phases w (mi_id (ms ! n))) = Some ph \<and> phases w' (mi_id (ms ! n)) = Some ph))"
  using assms
proof (induction ms arbitrary: w)
  case (Cons m ms)
  obtain r w1 where w1: "migrate_one show_e ns m w = (r, w1)" "quiet w1" "readable w1"
      "perform F (due m (phases w (mi_id m))) (mg_data (kv w)) = (r, mg_data (kv w1))"
      "r = Inr () \<Longrightarrow> phases w1 = (phases w)(mi_id m \<mapsto> leaves (mi_multi m) (phases w (mi_id m)))"
      "r \<noteq> Inr () \<Longrightarrow> \<exists>ph. executes (mi_multi m) (phases w (mi_id m)) = Some ph \<and> phases w1 = (phases w)(mi_id m \<mapsto> ph)"
    using quiet_migrate_one [OF _ Cons.prems(2,3)] Cons.prems(1,5) by (metis list.set_intros(1))
  show ?case
  proof (cases r)
    case (Inl e)
    with w1(6) obtain ph where "executes (mi_multi m) (phases w (mi_id m)) = Some ph" "phases w1 = (phases w)(mi_id m \<mapsto> ph)" by auto
    then show ?thesis using w1(1,4) Inl by (intro exI [of _ r] exI [of _ w1] exI [of _ 0]) simp
  next
    case (Inr x)
    then have ph: "phases w1 = (phases w)(mi_id m \<mapsto> leaves (mi_multi m) (phases w (mi_id m)))" using w1(5) by simp
    have ne: "\<forall>k \<in> set ms. mi_id k \<noteq> mi_id m" using Cons.prems(4) by (metis distinct.simps(2) imageI list.simps(9) set_map)
    have "\<forall>k \<in> set ms. stored_phase ns (mi_id k) = phases w1 (mi_id k)" using Cons.prems(5) ne by (simp add: ph)
    from Cons.IH [OF _ w1(2,3) _ this] Cons.prems(1,4) obtain r2 w2 n where w2:
      "migrate_all show_e ns ms w1 = (r2, w2)"
      "perform F (dues (phases w1) (take (Suc n) ms)) (mg_data (kv w1)) = (r2, mg_data (kv w2))"
      "fst (perform F (dues (phases w1) (take n ms)) (mg_data (kv w1))) = Inr ()"
      "\<forall>k \<in> set (take n ms). phases w2 (mi_id k) = Some (leaves (mi_multi k) (phases w1 (mi_id k)))"
      "\<forall>mid. mid \<notin> mi_id ` set (take (Suc n) ms) \<longrightarrow> phases w2 mid = phases w1 mid"
      "if r2 = Inr () then n = length ms else n < length ms \<and>
        (\<exists>p. executes (mi_multi (ms ! n)) (phases w1 (mi_id (ms ! n))) = Some p \<and> phases w2 (mi_id (ms ! n)) = Some p)" by auto
    have same: "phases w1 (mi_id k) = phases w (mi_id k)" if "k \<in> set (take i ms)" for k i
      using ne in_set_takeD [OF that] by (simp add: ph)
    have d: "dues (phases w1) (take i ms) = dues (phases w) (take i ms)" for i
      by (intro arg_cong [of _ _ concat] map_cong refl) (simp add: same)
    have nth: "phases w1 (mi_id (ms ! n)) = phases w (mi_id (ms ! n))" if "n < length ms" using that ne by (simp add: ph)
    have "perform F (dues (phases w) (take (Suc (Suc n)) (m # ms))) (mg_data (kv w)) = (r2, mg_data (kv w2))"
      using w1(4) w2(2) Inr by (simp add: d perform_append)
    moreover have "fst (perform F (dues (phases w) (take (Suc n) (m # ms))) (mg_data (kv w))) = Inr ()"
      using w1(4) w2(3) Inr by (simp add: d perform_append)
    moreover have "phases w2 (mi_id m) = Some (leaves (mi_multi m) (phases w (mi_id m)))"
    proof -
      have "mi_id m \<notin> mi_id ` set (take (Suc n) ms)" using ne in_set_takeD [of _ "Suc n" ms] by fastforce
      with w2(5) have "phases w2 (mi_id m) = phases w1 (mi_id m)" by blast
      then show ?thesis by (simp add: ph)
    qed
    then have "\<forall>k \<in> set (take (Suc n) (m # ms)). phases w2 (mi_id k) = Some (leaves (mi_multi k) (phases w (mi_id k)))"
      using w2(4) same by (metis set_ConsD take_Suc_Cons)
    moreover have "\<forall>mid. mid \<notin> mi_id ` set (take (Suc (Suc n)) (m # ms)) \<longrightarrow> phases w2 mid = phases w mid"
    proof (intro allI impI)
      fix mid assume a: "mid \<notin> mi_id ` set (take (Suc (Suc n)) (m # ms))"
      then have "mid \<noteq> mi_id m" "mid \<notin> mi_id ` set (take (Suc n) ms)" by simp_all
      with w2(5) have "phases w2 mid = phases w1 mid" by blast
      then show "phases w2 mid = phases w mid" using \<open>mid \<noteq> mi_id m\<close> by (simp add: ph)
    qed
    moreover have "if r2 = Inr () then Suc n = length (m # ms) else Suc n < length (m # ms) \<and>
        (\<exists>p. executes (mi_multi ((m # ms) ! Suc n)) (phases w (mi_id ((m # ms) ! Suc n))) = Some p \<and> phases w2 (mi_id ((m # ms) ! Suc n)) = Some p)"
      using w2(6) nth by (simp split: if_splits)
    moreover have "migrate_all show_e ns (m # ms) w = (r2, w2)" using w1(1) w2(1) Inr by simp
    ultimately show ?thesis by blast
  qed
qed simp

section \<open>Property\<close>

text \<open>C30. What a run does and what the check says of it, for any registered migrations whose phases leave the manager's
  nodes alone and may fail, while the manager's own queries succeed and no other process writes the graph. The phases
  due - the stored one, or backfill for one the operator listed as ready, or for a new
  migration of one stage - are executed in the order of registration, each once, up to the first that
  fails, whose error ends the run. Of the migrations before it the phase after the due one is stored, a new migration of
  several stages included; the one that failed stays at the phase that is to be executed again; those
  after it are as they were, but for the resets of the listed. The check lists, of the migrations that are not done, exactly those of
  which a run that fails nowhere stores a node or executes a phase.\<close>

theorem migration_check_predicts_run:
  assumes "quiet w" "readable w" "distinct (map mi_id ms)" "\<forall>m \<in> set ms. behaves_as F m"
  shows "\<exists>r w' n w'' pending.
    migrations_run show_e ms ready w = (r, w') \<and>
    perform F (dues (planned ready w) (take (Suc n) ms)) (mg_data (kv w)) = (r, mg_data (kv w')) \<and>
    fst (perform F (dues (planned ready w) (take n ms)) (mg_data (kv w))) = Inr () \<and>
    (\<forall>m \<in> set (take n ms). phases w' (mi_id m) = Some (leaves (mi_multi m) (planned ready w (mi_id m)))) \<and>
    (\<forall>mid. mid \<notin> mi_id ` set (take (Suc n) ms) \<longrightarrow> phases w' mid = planned ready w mid) \<and>
    (if r = Inr () then n = length ms
     else n < length ms \<and> (\<exists>ph. executes (mi_multi (ms ! n)) (planned ready w (mi_id (ms ! n))) = Some ph \<and>
       phases w' (mi_id (ms ! n)) = Some ph)) \<and>
    migrations_check show_e ms ready w = (Inr pending, w'') \<and>
    (\<forall>m \<in> set ms. mi_id m \<in> fst ` set pending \<longleftrightarrow> phases w (mi_id m) \<noteq> Some Done \<and>
      (phases w (mi_id m) = None \<or> due m (planned ready w (mi_id m)) \<noteq> []))"
proof -
  let ?ns = "mg_nodes (kv w)" and ?P = "planned ready w"
  obtain w1 where w1: "get_migrations show_e w = (Inr ?ns, w1)" "kv w1 = kv w" "quiet w1"
    by (rule quiet_get [OF assms(1,2)])
  have "readable w1" "\<forall>n \<in> set ?ns. phases w1 (mn_id n) \<noteq> None"
    using assms(2) w1(2) by (auto simp: readable_def stored_phase_none)
  then obtain w2 where w2: "mark_ready show_e ready ?ns w1 = (Inr (), w2)" "quiet w2" "readable w2"
      "\<And>mid. phases w2 mid = (if mid \<in> set ready \<and> mid \<in> mn_id ` set ?ns then Some Backfill else phases w1 mid)"
      "mg_data (kv w2) = mg_data (kv w1)"
    using quiet_mark [OF w1(3)] by metis
  have "phases w2 mid = ?P mid" for mid
    using stored_phase_none [of ?ns mid] by (auto simp: w2(4) w1(2) reset_def)
  then have ph: "phases w2 = ?P" by (rule ext)
  obtain w3 where w3: "get_migrations show_e w2 = (Inr (mg_nodes (kv w2)), w3)" "kv w3 = kv w2" "quiet w3"
    by (rule quiet_get [OF w2(2,3)])
  have eq: "phases w3 = ?P" "mg_data (kv w3) = mg_data (kv w)" using ph w3(2) w2(5) w1(2) by simp_all
  have "readable w3" "\<forall>m \<in> set ms. stored_phase (mg_nodes (kv w2)) (mi_id m) = phases w3 (mi_id m)"
    using w2(3) w3(2) by (simp_all add: readable_def)
  from quiet_migrate_all [OF assms(4) w3(3) this(1) assms(3) this(2), of show_e, unfolded eq] obtain r w4 n where
    all: "migrate_all show_e (mg_nodes (kv w2)) ms w3 = (r, w4)" and facts:
      "perform F (dues ?P (take (Suc n) ms)) (mg_data (kv w)) = (r, mg_data (kv w4))"
      "fst (perform F (dues ?P (take n ms)) (mg_data (kv w))) = Inr ()"
      "\<forall>m \<in> set (take n ms). phases w4 (mi_id m) = Some (leaves (mi_multi m) (?P (mi_id m)))"
      "\<forall>mid. mid \<notin> mi_id ` set (take (Suc n) ms) \<longrightarrow> phases w4 mid = ?P mid"
      "if r = Inr () then n = length ms else n < length ms \<and>
        (\<exists>ph. executes (mi_multi (ms ! n)) (?P (mi_id (ms ! n))) = Some ph \<and> phases w4 (mi_id (ms ! n)) = Some ph)"
    by blast
  have run: "migrations_run show_e ms ready w = (r, w4)" by (simp add: migrations_run_def w1(1) w2(1) w3(1) all)
  define pending where "pending = map (\<lambda>m. (mi_id m, case phases w (mi_id m) of Some p \<Rightarrow> phase_to_string p | None \<Rightarrow> ''new''))
      (filter (\<lambda>m. is_pending (phases w (mi_id m)) (mi_id m \<in> set ready)) ms)"
  have chk: "migrations_check show_e ms ready w = (Inr pending, w1)" by (simp add: migrations_check_def w1(1) pending_def)
  have mem: "mi_id m \<in> fst ` set pending \<longleftrightarrow> is_pending (phases w (mi_id m)) (mi_id m \<in> set ready)" if "m \<in> set ms" for m
    using that by (force simp: pending_def)
  have pend: "is_pending stored (mi_id m \<in> set ready) \<longleftrightarrow> stored \<noteq> Some Done \<and>
      (stored = None \<or> due m (reset ready (mi_id m) stored) \<noteq> [])" for stored and m :: "'a migration"
    by (auto simp: is_pending_def reset_def due_def split: option.splits migration_phase.splits)
  have "\<forall>m \<in> set ms. mi_id m \<in> fst ` set pending \<longleftrightarrow> phases w (mi_id m) \<noteq> Some Done \<and>
      (phases w (mi_id m) = None \<or> due m (?P (mi_id m)) \<noteq> [])"
    using mem pend by blast
  with run chk facts show ?thesis by blast
qed

text \<open>The backfill of \<open>''b''\<close> fails: \<open>''a''\<close> is done, \<open>''b''\<close> stays at its backfill and \<open>''c''\<close> is not stored.\<close>

definition demo_work :: "(string \<times> migration_phase) list phase_work" where
  "demo_work x d = (if x = (''b'', Backfill) then (Inl ''lost'', d) else (Inr (), d @ [x]))"

definition demo_phase ::
  "string \<times> migration_phase \<Rightarrow> (string \<times> migration_phase) list mig_kv world \<Rightarrow>
   (string, unit) result \<times> (string \<times> migration_phase) list mig_kv world" where
  "demo_phase x w = (case demo_work x (mg_data (kv w)) of (r, d) \<Rightarrow> (r, w\<lparr>kv := (kv w)\<lparr>mg_data := d\<rparr>\<rparr>))"

definition demo_migration :: "string \<times> bool \<Rightarrow> (string \<times> migration_phase) list migration" where
  "demo_migration x = \<lparr>mi_id = fst x, mi_multi = snd x, mi_backfill = demo_phase (fst x, Backfill),
     mi_cutover = demo_phase (fst x, Cutover), mi_cleanup = demo_phase (fst x, Cleanup)\<rparr>"

lemma demo_behaves: "behaves_as demo_work (demo_migration x)"
proof -
  have "case demo_phase (m, ph) w of (r, w') \<Rightarrow> quiet w' \<and> mg_nodes (kv w') = mg_nodes (kv w) \<and>
      demo_work (m, ph) (mg_data (kv w)) = (r, mg_data (kv w'))" if "quiet w" for m ph w
    using that by (simp add: demo_phase_def quiet_def split: prod.splits)
  then show ?thesis
    by (auto simp: behaves_as_def phase_action_def demo_migration_def split: migration_phase.splits)
qed

theorem migration_check_predicts_run_witness:
  "\<exists>w'. migrations_run (\<lambda>_. '''') (map demo_migration [(''a'', False), (''b'', True), (''c'', True)]) [''b'']
     (calm_world \<lparr>mg_nodes = [\<lparr>mn_id = ''b'', mn_phase = DualWrite, mn_created_at = Some 1, mn_updated_at = 0\<rparr>], mg_data = []\<rparr>) =
     (Inl ''lost'', w') \<and> mg_data (kv w') = [(''a'', Backfill)] \<and> phases w' ''a'' = Some Done \<and> phases w' ''b'' = Some Backfill \<and>
     phases w' ''c'' = None"
proof -
  let ?w = "calm_world \<lparr>mg_nodes = [\<lparr>mn_id = ''b'', mn_phase = DualWrite, mn_created_at = Some 1, mn_updated_at = 0\<rparr>],
    mg_data = [] :: (string \<times> migration_phase) list\<rparr>"
  let ?ms = "map demo_migration [(''a'', False), (''b'', True), (''c'', True)]"
  have mi [simp]: "mi_id (demo_migration x) = fst x" "mi_multi (demo_migration x) = snd x" for x
    by (simp_all add: demo_migration_def)
  have "quiet ?w" "readable ?w" "distinct (map mi_id ?ms)" "\<forall>m \<in> set ?ms. behaves_as demo_work m"
    by (simp_all add: quiet_def readable_def calm_world_def demo_behaves)
  from migration_check_predicts_run [OF this, of "\<lambda>_. ''''" "[''b'']"] obtain r w' n where run:
    "migrations_run (\<lambda>_. '''') ?ms [''b''] ?w = (r, w')"
    "perform demo_work (dues (planned [''b''] ?w) (take (Suc n) ?ms)) (mg_data (kv ?w)) = (r, mg_data (kv w'))"
    "fst (perform demo_work (dues (planned [''b''] ?w) (take n ?ms)) (mg_data (kv ?w))) = Inr ()"
    "\<forall>m \<in> set (take n ?ms). phases w' (mi_id m) = Some (leaves (mi_multi m) (planned [''b''] ?w (mi_id m)))"
    "\<forall>mid. mid \<notin> mi_id ` set (take (Suc n) ?ms) \<longrightarrow> phases w' mid = planned [''b''] ?w mid"
    "if r = Inr () then n = length ?ms else n < length ?ms \<and> (\<exists>ph. executes (mi_multi (?ms ! n)) (planned [''b''] ?w (mi_id (?ms ! n))) = Some ph \<and>
       phases w' (mi_id (?ms ! n)) = Some ph)" by blast
  have ev: "planned [''b''] ?w ''a'' = None" "planned [''b''] ?w ''b'' = Some Backfill" "planned [''b''] ?w ''c'' = None"
    "mg_data (kv ?w) = []" by (simp_all add: reset_def calm_world_def)
  have "n \<le> length ?ms" using run(6) by (simp split: if_splits)
  then consider "n = 0" | "n = 1" | "n = 2" | "n = 3" by fastforce
  then have "n = 1"
    by cases (use run(2,3,6) in \<open>auto simp: ev [simplified] stored_phase_def reset_def calm_world_def due_def demo_work_def numeral_2_eq_2 numeral_3_eq_3 split: if_splits\<close>)
  then show ?thesis using run ev
    by (intro exI [of _ w']) (auto simp: stored_phase_def reset_def calm_world_def due_def demo_work_def leaves_def numeral_2_eq_2 split: if_splits)
qed

end
