(* ===== verification/Trust_Reconcile.thy ===== *)
theory Trust_Reconcile
  imports Trust_Filter
begin

text \<open>
  Correctness of the trust filter: an invariant that every gated write, toggle and run keeps, whatever call
  fails; a small logic for runs among other writers; and what a successful \<open>reconcile\<close> or \<open>publish\<close>
  guarantees on every store its history can lead to, unless the filter was once switched on again over a
  switch-off that hid authors and was never reconciled; and what happens after that.
\<close>

section \<open>The invariant\<close>

abbreviation admits :: "string set \<Rightarrow> string \<Rightarrow> bool" where
  "admits s a \<equiv> s = {} \<or> a \<in> s"

lemma admitted_iff: "admitted g a \<longleftrightarrow> (tf_on g \<longrightarrow> admits (tf_ranking g) a)"
  by (auto simp: admitted_def)

definition in_line :: "tf_kv \<Rightarrow> bool" where
  "in_line g \<longleftrightarrow> (\<forall>a. if admitted g a then full g a else absent g a)"

text \<open>
  What holds at every moment, however often runs were cut short: an author both the copy and the live ranking admit is never hidden;
  the switch is on only with the record of filtering; with no record and no copy nothing is hidden; while the
  filter is on and no switch-off is under way, an author whom neither admits is not shown.
\<close>

definition core_full :: "tf_kv \<Rightarrow> bool" where
  "core_full g \<longleftrightarrow> (\<forall>a. admits (tf_applied g) a \<and> admits (tf_ranking g) a \<longrightarrow> full g a)"

definition unfiltered_full :: "tf_kv \<Rightarrow> bool" where
  "unfiltered_full g \<longleftrightarrow> (\<not> tf_on g \<and> \<not> tf_filtered g \<and> tf_applied g = {} \<longrightarrow> (\<forall>a. full g a))"

definition outside_absent :: "tf_kv \<Rightarrow> bool" where
  "outside_absent g \<longleftrightarrow> (tf_on g \<and> \<not> tf_showing g \<and> tf_applied g \<noteq> {} \<and> tf_ranking g \<noteq> {} \<longrightarrow>
     (\<forall>a. a \<notin> tf_applied g \<longrightarrow> a \<notin> tf_ranking g \<longrightarrow> absent g a))"

definition grounded :: "tf_kv \<Rightarrow> bool" where
  "grounded g \<longleftrightarrow> posts_ok (tf_posts g) \<and> rooted g \<and> finite (tf_ranking g) \<and> finite (tf_applied g) \<and> (tf_on g \<longrightarrow> tf_filtered g)"

definition tf_inv :: "tf_kv \<Rightarrow> bool" where
  "tf_inv g \<longleftrightarrow> grounded g \<and> core_full g \<and> unfiltered_full g \<and> outside_absent g"

lemma frame_full: "frame g g' \<Longrightarrow> posts_ok (tf_posts g) \<Longrightarrow> admitted g a \<Longrightarrow> full g a \<Longrightarrow> full g' a"
  unfolding full_def using frame_present(1) frame_same(6) author_of_member by metis

lemma frame_absent: "frame g g' \<Longrightarrow> \<not> admitted g a \<Longrightarrow> absent g a \<Longrightarrow> absent g' a"
  unfolding absent_def using frame_present(2) by metis

lemma in_line_frame: "frame g g' \<Longrightarrow> posts_ok (tf_posts g) \<Longrightarrow> in_line g \<Longrightarrow> in_line g'"
  unfolding in_line_def using frame_full frame_absent frame_admitted by metis

lemma grounded_frame: "frame g g' \<Longrightarrow> grounded g \<Longrightarrow> grounded g'"
  unfolding grounded_def using frame_same by metis

lemma tf_inv_frame:
  assumes f: "frame g g'" and i: "tf_inv g"
  shows "tf_inv g'"
proof -
  have ok: "posts_ok (tf_posts g)" using i by (simp add: tf_inv_def grounded_def)
  have "grounded g'" using grounded_frame [OF f] i by (simp add: tf_inv_def)
  moreover have "core_full g'" using i frame_full [OF f ok]
    unfolding tf_inv_def core_full_def admitted_iff frame_same [OF f] by blast
  moreover have "unfiltered_full g'" using i frame_full [OF f ok]
    unfolding tf_inv_def unfiltered_full_def admitted_iff frame_same [OF f] by blast
  moreover have "outside_absent g'" using i frame_absent [OF f]
    unfolding tf_inv_def outside_absent_def admitted_iff frame_same [OF f] by blast
  ultimately show ?thesis by (simp add: tf_inv_def)
qed

section \<open>A logic for runs\<close>

text \<open>
  \<open>tf_spec clean P m Q\<close>: started among gated writers where the invariant and \<open>P\<close> hold, \<open>m\<close> returns, the
  invariant holds whatever the result, \<open>Q\<close> holds of a success, and without faults it succeeds.
\<close>

definition tf_spec :: "bool \<Rightarrow> (tf_kv \<Rightarrow> bool) \<Rightarrow> 'x tf_run \<Rightarrow> ('x \<Rightarrow> tf_kv \<Rightarrow> bool) \<Rightarrow> bool" where
  "tf_spec clean P m Q \<longleftrightarrow> (\<forall>w. gated clean w \<longrightarrow> tf_inv (kv w) \<longrightarrow> P (kv w) \<longrightarrow>
     (\<exists>r w'. m w = Some (r, w') \<and> gated clean w' \<and> tf_inv (kv w') \<and>
        (clean \<longrightarrow> (\<exists>x. r = Inr x)) \<and> (\<forall>x. r = Inr x \<longrightarrow> Q x (kv w'))))"

definition firm :: "(tf_kv \<Rightarrow> bool) \<Rightarrow> bool" where
  "firm P \<longleftrightarrow> (\<forall>g g'. frame g g' \<longrightarrow> tf_inv g \<longrightarrow> P g \<longrightarrow> P g')"

lemma tf_specI:
  assumes "\<And>w. gated clean w \<Longrightarrow> tf_inv (kv w) \<Longrightarrow> P (kv w) \<Longrightarrow>
     \<exists>r w'. m w = Some (r, w') \<and> gated clean w' \<and> tf_inv (kv w') \<and> (clean \<longrightarrow> (\<exists>x. r = Inr x)) \<and> (\<forall>x. r = Inr x \<longrightarrow> Q x (kv w'))"
  shows "tf_spec clean P m Q"
  using assms unfolding tf_spec_def by blast

lemma spec_seq [intro]:
  assumes "tf_spec clean P m Q" "\<And>x. tf_spec clean (Q x) (rest x) R"
  shows "tf_spec clean P (seq m rest) R"
proof (rule tf_specI)
  fix w assume w: "gated clean w" "tf_inv (kv w)" "P (kv w)"
  obtain r w1 where m: "m w = Some (r, w1)" "gated clean w1" "tf_inv (kv w1)" "clean \<longrightarrow> (\<exists>x. r = Inr x)"
      "\<forall>x. r = Inr x \<longrightarrow> Q x (kv w1)"
    using assms(1) w unfolding tf_spec_def by blast
  show "\<exists>r w'. seq m rest w = Some (r, w') \<and> gated clean w' \<and> tf_inv (kv w') \<and> (clean \<longrightarrow> (\<exists>x. r = Inr x)) \<and>
      (\<forall>x. r = Inr x \<longrightarrow> R x (kv w'))"
  proof (cases r)
    case (Inl e)
    then show ?thesis using m by (auto simp: seq_def)
  next
    case (Inr x)
    then have "seq m rest w = rest x w1" "Q x (kv w1)" using m by (simp_all add: seq_def)
    then show ?thesis using assms(2) [of x] m(2,3) unfolding tf_spec_def by simp
  qed
qed

lemma spec_give: "(\<And>g. tf_inv g \<Longrightarrow> P g \<Longrightarrow> Q x g) \<Longrightarrow> tf_spec clean P (give x) Q"
  by (rule tf_specI) (simp add: give_def)

lemma spec_weaken:
  "tf_spec clean P' m Q' \<Longrightarrow> (\<And>g. tf_inv g \<Longrightarrow> P g \<Longrightarrow> P' g) \<Longrightarrow> (\<And>x g. tf_inv g \<Longrightarrow> Q' x g \<Longrightarrow> Q x g) \<Longrightarrow> tf_spec clean P m Q"
  unfolding tf_spec_def by metis

lemma spec_redis:
  assumes "firm P" "\<And>g. tf_inv g \<Longrightarrow> P g \<Longrightarrow> tf_inv (snd (f g)) \<and> Q (fst (f g)) (snd (f g))"
  shows "tf_spec clean P (redis_ask f) Q"
proof (rule tf_specI)
  fix w assume w: "gated clean w" "tf_inv (kv w)" "P (kv w)"
  obtain r w1 where m: "model_redis f w = (r, w1)" by force
  obtain g where g: "frame (kv w) g" "gated clean w1" "clean \<longrightarrow> (\<exists>x. r = Inr x)"
    "(\<exists>e. r = Inl e) \<and> kv w1 = g \<or> (r = Inr (fst (f g)) \<or> (\<exists>e. r = Inl e)) \<and> kv w1 = snd (f g)"
    by (rule model_redis_step [OF m w(1)])
  have "tf_inv g" "P g" using tf_inv_frame [OF g(1) w(2)] assms(1) g(1) w(2,3) unfolding firm_def by blast+
  then show "\<exists>r w'. redis_ask f w = Some (r, w') \<and> gated clean w' \<and> tf_inv (kv w') \<and> (clean \<longrightarrow> (\<exists>x. r = Inr x)) \<and>
      (\<forall>x. r = Inr x \<longrightarrow> Q x (kv w'))"
    using m g(2-4) assms(2) by (auto simp: redis_ask_def)
qed

lemma spec_graph:
  assumes "firm P"
  shows "tf_spec clean P (graph_ask h) (\<lambda>x g. P g \<and> x = h g)"
proof (rule tf_specI)
  fix w assume w: "gated clean w" "tf_inv (kv w)" "P (kv w)"
  obtain r w1 where m: "model_graph (\<lambda>g. (h g, g)) w = (r, w1)" by force
  note rd = model_graph_read [OF m w(1)]
  have "tf_inv (kv w1)" "P (kv w1)" using tf_inv_frame rd assms w(2,3) unfolding firm_def by blast+
  then show "\<exists>r w'. graph_ask h w = Some (r, w') \<and> gated clean w' \<and> tf_inv (kv w') \<and> (clean \<longrightarrow> (\<exists>x. r = Inr x)) \<and>
      (\<forall>x. r = Inr x \<longrightarrow> P (kv w') \<and> x = h (kv w'))"
    using m rd by (auto simp: graph_ask_def)
qed

lemma spec_get: "firm P \<Longrightarrow> tf_spec clean P (get_kv h) (\<lambda>x g. P g \<and> x = h g)"
  by (rule spec_redis) auto

lemma spec_put: "firm P \<Longrightarrow> (\<And>g. tf_inv g \<Longrightarrow> P g \<Longrightarrow> tf_inv (u g) \<and> Q (u g)) \<Longrightarrow> tf_spec clean P (put_kv u) (\<lambda>_. Q)"
  by (rule spec_redis) auto

text \<open>After the writes every author named is treated as the gate has it.\<close>

lemma spec_write_authors:
  assumes "firm P"
  shows "tf_spec clean P (write_authors hide shown) (\<lambda>_ g. P g \<and>
    (\<forall>a \<in> set shown. admitted g a \<longrightarrow> full g a) \<and> (\<forall>a \<in> set hide. \<not> admitted g a \<longrightarrow> absent g a))"
proof (rule tf_specI)
  fix w assume w: "gated clean w" "tf_inv (kv w)" "P (kv w)"
  let ?ws = "map (\<lambda>a. (a, Hide)) hide @ map (\<lambda>a. (a, Show)) shown"
  have ok: "posts_ok (tf_posts (kv w))" using w(2) by (simp add: tf_inv_def grounded_def)
  obtain r w' where r: "write_each ?ws w = Some (r, w')" "frame (kv w) (kv w')" "gated clean w'" "clean \<longrightarrow> r = Inr ()"
      "r = Inr () \<longrightarrow> (\<forall>(a, wr) \<in> set ?ws. treated_posts wr (posts_of a (kv w)) (kv w'))"
    using write_each_runs [OF w(1) ok] by blast
  have tf: "tf_inv (kv w')" "P (kv w')" using tf_inv_frame [OF r(2)] assms r(2) w(2,3) unfolding firm_def by blast+
  have "rooted (kv w')" using tf(1) by (simp add: tf_inv_def grounded_def)
  note facts = ok frame_same(6) [OF r(2)] this
  have "full (kv w') a" if "r = Inr ()" "a \<in> set shown" "admitted (kv w') a" for a
  proof -
    have "treated_posts Show (posts_of a (kv w)) (kv w')" using r(5) that(1,2) by auto
    then show ?thesis using treated_full facts(1,2) that(3) by blast
  qed
  moreover have "absent (kv w') a" if "r = Inr ()" "a \<in> set hide" "\<not> admitted (kv w') a" for a
  proof -
    have "treated_posts Hide (posts_of a (kv w)) (kv w')" using r(5) that(1,2) by auto
    then show ?thesis using treated_absent facts that(3) by blast
  qed
  ultimately show "\<exists>r w'. write_authors hide shown w = Some (r, w') \<and> gated clean w' \<and> tf_inv (kv w') \<and> (clean \<longrightarrow> (\<exists>x. r = Inr x)) \<and>
      (\<forall>x. r = Inr x \<longrightarrow> P (kv w') \<and> (\<forall>a \<in> set shown. admitted (kv w') a \<longrightarrow> full (kv w') a) \<and>
         (\<forall>a \<in> set hide. \<not> admitted (kv w') a \<longrightarrow> absent (kv w') a))"
    using r(1,3,4) tf unfolding write_authors_def by (intro exI [of _ r] exI [of _ w']) auto
qed

section \<open>Reconciling keeps the invariant and brings the sets in line\<close>

named_theorems firm_facts

lemma firm_conj [firm_facts]: "firm P \<Longrightarrow> firm Q \<Longrightarrow> firm (\<lambda>g. P g \<and> Q g)"
  unfolding firm_def by blast

lemma firm_const [firm_facts]: "firm (\<lambda>_. b)"
  by (simp add: firm_def)

lemma firm_eqs [firm_facts]:
  "firm (\<lambda>g. b = tf_on g)" "firm (\<lambda>g. b = tf_filtered g)" "firm (\<lambda>g. b = tf_showing g)"
  "firm (\<lambda>g. s = tf_ranking g)" "firm (\<lambda>g. s = tf_applied g)" "firm (\<lambda>g. ps = tf_posts g)"
  by (simp_all add: firm_def frame_def)

text \<open>What is still to do: who is on neither list is already where the gate has them.\<close>

definition covers :: "string list \<Rightarrow> string list \<Rightarrow> tf_kv \<Rightarrow> bool" where
  "covers hide shown g \<longleftrightarrow>
     (\<forall>a. (admitted g a \<longrightarrow> full g a \<or> a \<in> set shown) \<and> (\<not> admitted g a \<longrightarrow> absent g a \<or> a \<in> set hide))"

lemma tf_inv_posts: "tf_inv g \<Longrightarrow> posts_ok (tf_posts g)" "tf_inv g \<Longrightarrow> rooted g"
  "tf_inv g \<Longrightarrow> finite (tf_ranking g)" "tf_inv g \<Longrightarrow> finite (tf_applied g)"
  by (simp_all add: tf_inv_def grounded_def)

lemma firm_in_line [firm_facts]: "firm in_line"
  unfolding firm_def using in_line_frame tf_inv_posts(1) by blast

lemma firm_covers [firm_facts]: "firm (covers hide shown)"
  unfolding firm_def covers_def using frame_full frame_absent frame_admitted tf_inv_posts(1) by metis

lemma covers_nobody [simp]: "covers [] [] = in_line"
  by (auto simp: covers_def in_line_def fun_eq_iff)

lemma no_posts: "a \<notin> ap_author ` set (tf_posts g) \<Longrightarrow> full g a"
  "tf_inv g \<Longrightarrow> a \<notin> ap_author ` set (tf_posts g) \<Longrightarrow> absent g a"
  using tf_inv_posts(1,2) author_of_member [of "tf_posts g"] unfolding full_def absent_def rooted_def entry_of_def
  by blast+

lemma spec_outside:
  "firm P \<Longrightarrow> tf_spec clean P (authors_outside s) (\<lambda>x g. P g \<and> set x = ap_author ` set (tf_posts g) - s)"
  unfolding authors_outside_def by (rule spec_seq, erule spec_graph) (auto intro: spec_give)

lemma spec_write:
  assumes "firm P"
  shows "tf_spec clean (\<lambda>g. P g \<and> covers hide shown g) (write_authors hide shown) (\<lambda>_ g. P g \<and> in_line g)"
  by (rule spec_weaken [OF spec_write_authors [OF firm_conj [OF assms firm_covers]]])
    (auto simp: covers_def in_line_def)

lemma update_presence [simp]:
  "full (g\<lparr>tf_on := b\<rparr>) = full g" "full (g\<lparr>tf_filtered := b\<rparr>) = full g" "full (g\<lparr>tf_showing := b\<rparr>) = full g"
  "full (g\<lparr>tf_ranking := s\<rparr>) = full g" "full (g\<lparr>tf_applied := s\<rparr>) = full g"
  "absent (g\<lparr>tf_on := b\<rparr>) = absent g" "absent (g\<lparr>tf_filtered := b\<rparr>) = absent g" "absent (g\<lparr>tf_showing := b\<rparr>) = absent g"
  "absent (g\<lparr>tf_ranking := s\<rparr>) = absent g" "absent (g\<lparr>tf_applied := s\<rparr>) = absent g"
  "rooted (g\<lparr>tf_on := b\<rparr>) = rooted g" "rooted (g\<lparr>tf_filtered := b\<rparr>) = rooted g" "rooted (g\<lparr>tf_showing := b\<rparr>) = rooted g"
  "rooted (g\<lparr>tf_ranking := s\<rparr>) = rooted g" "rooted (g\<lparr>tf_applied := s\<rparr>) = rooted g"
  by (simp_all add: full_def absent_def rooted_def fun_eq_iff)

lemmas tf_inv_unfold = tf_inv_def grounded_def core_full_def unfiltered_full_def outside_absent_def

text \<open>After a successful run with ranking \<open>R\<close>.\<close>

definition lined_up :: "string set \<Rightarrow> tf_kv \<Rightarrow> bool" where
  "lined_up R g \<longleftrightarrow> R = tf_ranking g \<and> in_line g \<and> (if tf_on g then \<not> tf_showing g \<and> tf_applied g = tf_ranking g else tf_applied g = {})"

lemma firm_aligned [firm_facts]: "firm (lined_up R)"
  unfolding firm_def lined_up_def using in_line_frame tf_inv_posts(1) frame_same by metis

text \<open>Recording what was applied, once the sets are in line.\<close>

lemma in_line_facts:
  "in_line g \<Longrightarrow> tf_on g \<Longrightarrow> admits (tf_ranking g) a \<Longrightarrow> full g a"
  "in_line g \<Longrightarrow> tf_on g \<Longrightarrow> \<not> admits (tf_ranking g) a \<Longrightarrow> absent g a"
  "in_line g \<Longrightarrow> \<not> tf_on g \<Longrightarrow> full g a"
  unfolding in_line_def admitted_iff by (metis (full_types))+

lemma in_line_cong:
  "in_line (g\<lparr>tf_filtered := b\<rparr>) = in_line g" "in_line (g\<lparr>tf_showing := b\<rparr>) = in_line g" "in_line (g\<lparr>tf_applied := s\<rparr>) = in_line g"
  by (simp_all add: in_line_def admitted_iff)

lemma spec_record_on:
  "tf_spec clean (\<lambda>g. (True = tf_on g \<and> R = tf_ranking g) \<and> in_line g) (record_applied R)
     (\<lambda>_ g. True = tf_on g \<and> R = tf_ranking g \<and> R = tf_applied g \<and> in_line g)"
  unfolding record_applied_def
proof (rule spec_put)
  fix g assume "tf_inv g" "(True = tf_on g \<and> R = tf_ranking g) \<and> in_line g"
  then show "tf_inv (g\<lparr>tf_applied := R\<rparr>) \<and> True = tf_on (g\<lparr>tf_applied := R\<rparr>) \<and> R = tf_ranking (g\<lparr>tf_applied := R\<rparr>) \<and>
      R = tf_applied (g\<lparr>tf_applied := R\<rparr>) \<and> in_line (g\<lparr>tf_applied := R\<rparr>)"
    using in_line_facts [of g] by (auto simp: tf_inv_unfold in_line_cong)
qed (intro firm_facts)

lemma spec_end_on:
  "tf_spec clean (\<lambda>g. True = tf_on g \<and> R = tf_ranking g \<and> R = tf_applied g \<and> in_line g) (put_kv (\<lambda>g. g\<lparr>tf_showing := False\<rparr>)) (\<lambda>_. lined_up R)"
proof (rule spec_put)
  fix g assume "tf_inv g" "True = tf_on g \<and> R = tf_ranking g \<and> R = tf_applied g \<and> in_line g"
  then show "tf_inv (g\<lparr>tf_showing := False\<rparr>) \<and> lined_up R (g\<lparr>tf_showing := False\<rparr>)"
    using in_line_facts [of g] by (auto simp: tf_inv_unfold in_line_cong lined_up_def)
qed (intro firm_facts)

lemma spec_record_off:
  "tf_spec clean (\<lambda>g. (False = tf_on g \<and> R = tf_ranking g) \<and> in_line g) (record_applied {})
     (\<lambda>_ g. False = tf_on g \<and> R = tf_ranking g \<and> {} = tf_applied g \<and> in_line g)"
  unfolding record_applied_def
proof (rule spec_put)
  fix g assume "tf_inv g" "(False = tf_on g \<and> R = tf_ranking g) \<and> in_line g"
  then show "tf_inv (g\<lparr>tf_applied := {}\<rparr>) \<and> False = tf_on (g\<lparr>tf_applied := {}\<rparr>) \<and> R = tf_ranking (g\<lparr>tf_applied := {}\<rparr>) \<and>
      {} = tf_applied (g\<lparr>tf_applied := {}\<rparr>) \<and> in_line (g\<lparr>tf_applied := {}\<rparr>)"
    using in_line_facts(3) [of g] by (auto simp: tf_inv_unfold in_line_cong)
qed (intro firm_facts)

lemma spec_end_off:
  "tf_spec clean (\<lambda>g. False = tf_on g \<and> R = tf_ranking g \<and> {} = tf_applied g \<and> in_line g)
     (put_kv (\<lambda>g. g\<lparr>tf_filtered := False, tf_showing := False\<rparr>)) (\<lambda>_. lined_up R)"
proof (rule spec_put)
  fix g assume "tf_inv g" "False = tf_on g \<and> R = tf_ranking g \<and> {} = tf_applied g \<and> in_line g"
  then show "tf_inv (g\<lparr>tf_filtered := False, tf_showing := False\<rparr>) \<and> lined_up R (g\<lparr>tf_filtered := False, tf_showing := False\<rparr>)"
    using in_line_facts(3) [of g] by (auto simp: tf_inv_unfold in_line_cong lined_up_def)
qed (intro firm_facts)

text \<open>The lists cover what is to do.\<close>

lemma spec_changes_after_showing:
  assumes "firm P" "R \<noteq> {}" "\<And>g. P g \<Longrightarrow> tf_on g \<and> R = tf_ranking g \<and> A = tf_applied g"
  shows "tf_spec clean P (changes_after_showing A R) (\<lambda>(hide, shown) g. P g \<and> covers hide shown g)"
  unfolding changes_after_showing_def
proof (rule spec_seq [OF spec_outside [OF assms(1)] spec_give], clarsimp)
  fix x g assume g: "tf_inv g" "P g" "set x = ap_author ` set (tf_posts g) - R"
  note a = assms(3) [OF g(2)]
  have fin: "finite R" using tf_inv_posts(3) [OF g(1)] a by simp
  have core: "admits A a \<Longrightarrow> a \<in> R \<Longrightarrow> full g a" for a
    using g(1) a unfolding tf_inv_def core_full_def by blast
  show "(A = {} \<longrightarrow> covers x [] g) \<and> (A \<noteq> {} \<longrightarrow> covers x (ordered (R - A)) g)"
    using core no_posts(2) [OF g(1)] g(3) a assms(2) fin unfolding covers_def admitted_iff by (auto simp: ordered_def)
qed

lemma spec_rank_changes:
  assumes "firm P" "A = R \<longrightarrow> R = {}"
    and "\<And>g. P g \<Longrightarrow> tf_on g \<and> R = tf_ranking g \<and> A = tf_applied g \<and> (R \<noteq> {} \<longrightarrow> \<not> tf_showing g)"
  shows "tf_spec clean P (rank_changes A R) (\<lambda>(hide, shown) g. P g \<and> covers hide shown g)"
proof -
  have core: "full g a" if "tf_inv g" "P g" "admits A a" "admits R a" for g a
    using that assms(3) [of g] unfolding tf_inv_def core_full_def by blast
  have outside: "absent g a" if "tf_inv g" "P g" "R \<noteq> {}" "A \<noteq> {}" "a \<notin> A" "a \<notin> R" for g a
    using that assms(3) [of g] unfolding tf_inv_def outside_absent_def by blast
  have fin: "finite R \<and> finite A" if "tf_inv g" "P g" for g
    using that assms(3) tf_inv_posts(3,4) by metis
  consider "A = {}" "R = {}" | "A = {}" "R \<noteq> {}" | "A \<noteq> {}" "R \<noteq> {}" | "A \<noteq> {}" "R = {}" by blast
  then show ?thesis
  proof cases
    case 1
    then have "tf_spec clean P (give ([], [])) (\<lambda>(hide, shown) g. P g \<and> covers hide shown g)"
      using core assms(3) by (intro spec_give) (auto simp: covers_def admitted_iff simp del: covers_nobody)
    then show ?thesis using 1 by (simp add: rank_changes_def)
  next
    case 2
    have "covers x [] g" if "tf_inv g" "P g" "set x = ap_author ` set (tf_posts g) - R" for x g
      using that 2 core assms(3) no_posts(2) unfolding covers_def admitted_iff by (metis Diff_iff)
    then have "tf_spec clean P (seq (authors_outside R) (\<lambda>hide. give (hide, []))) (\<lambda>(hide, shown) g. P g \<and> covers hide shown g)"
      by (intro spec_seq [OF spec_outside [OF assms(1)] spec_give]) auto
    then show ?thesis using 2 by (simp add: rank_changes_def)
  next
    case 3
    have "covers (ordered (A - R)) (ordered (R - A)) g" if g: "tf_inv g" "P g" for g
      using core [OF g] outside [OF g] 3 assms(3) [OF g(2)] fin [OF g] unfolding covers_def admitted_iff by (auto simp: ordered_def)
    then have "tf_spec clean P (give (ordered (A - R), ordered (R - A))) (\<lambda>(hide, shown) g. P g \<and> covers hide shown g)"
      by (intro spec_give) auto
    then show ?thesis using 3 by (simp add: rank_changes_def)
  next
    case 4
    have "covers [] x g" if "tf_inv g" "P g" "set x = ap_author ` set (tf_posts g) - A" for x g
      using that 4 core assms(3) no_posts(1) unfolding covers_def admitted_iff by (metis Diff_iff)
    then have "tf_spec clean P (seq (authors_outside A) (\<lambda>shown. give ([], shown))) (\<lambda>(hide, shown) g. P g \<and> covers hide shown g)"
      by (intro spec_seq [OF spec_outside [OF assms(1)] spec_give]) auto
    then show ?thesis using 4 by (simp add: rank_changes_def)
  qed
qed

lemma spec_absurd: "(\<And>g. \<not> P g) \<Longrightarrow> tf_spec clean P m Q"
  by (simp add: tf_spec_def)

lemma spec_apply:
  assumes "firm P" "\<And>g. P g \<Longrightarrow> True = tf_on g \<and> R = tf_ranking g"
    and "tf_spec clean P m (\<lambda>(hide, shown) g. P g \<and> covers hide shown g)"
  shows "tf_spec clean P (seq m (\<lambda>(hide, shown). seq (write_authors hide shown) (\<lambda>_. seq (record_applied R) (\<lambda>_.
    put_kv (\<lambda>g. g\<lparr>tf_showing := False\<rparr>))))) (\<lambda>_. lined_up R)"
proof (rule spec_seq [OF assms(3)])
  fix hs :: "string list \<times> string list"
  obtain hide shown where hs: "hs = (hide, shown)" by force
  have "tf_spec clean (\<lambda>g. P g \<and> covers hide shown g) (write_authors hide shown) (\<lambda>_ g. (True = tf_on g \<and> R = tf_ranking g) \<and> in_line g)"
    by (rule spec_weaken [OF spec_write [OF assms(1)]]) (use assms(2) in auto)
  then show "tf_spec clean (case hs of (hide, shown) \<Rightarrow> \<lambda>g. P g \<and> covers hide shown g)
      (case hs of (hide, shown) \<Rightarrow> seq (write_authors hide shown) (\<lambda>_. seq (record_applied R) (\<lambda>_. put_kv (\<lambda>g. g\<lparr>tf_showing := False\<rparr>))))
      (\<lambda>_. lined_up R)"
    unfolding hs prod.case by (intro spec_seq [OF _ spec_seq [OF spec_record_on spec_end_on]])
qed

lemma spec_apply_ranking: "tf_spec clean (\<lambda>g. True = tf_on g \<and> R0 = tf_ranking g) apply_ranking (\<lambda>_. lined_up R0)"
  unfolding apply_ranking_def
proof (rule spec_seq [OF _ spec_seq [OF spec_get spec_seq [OF spec_get spec_seq [OF spec_get]]]])
  show "tf_spec clean (\<lambda>g. True = tf_on g \<and> R0 = tf_ranking g) (put_kv (\<lambda>g. g\<lparr>tf_filtered := True\<rparr>))
      (\<lambda>_ g. True = tf_on g \<and> R0 = tf_ranking g)"
    by (rule spec_put, intro firm_facts) (auto simp: tf_inv_unfold)
  fix R A S
  let ?P = "\<lambda>g. (((True = tf_on g \<and> R0 = tf_ranking g) \<and> R = tf_ranking g) \<and> A = tf_applied g) \<and> S = tf_showing g"
  have firm: "firm ?P" by (intro firm_facts)
  show "tf_spec clean ?P (if A = R \<and> \<not> S then give () else
      seq (if S \<and> R \<noteq> {} then changes_after_showing A R else rank_changes A R)
        (\<lambda>(hide, shown). seq (write_authors hide shown) (\<lambda>_. seq (record_applied R) (\<lambda>_.
           put_kv (\<lambda>g. g\<lparr>tf_showing := False\<rparr>))))) (\<lambda>_. lined_up R0)"
  proof (cases "A = R \<and> \<not> S")
    case True
    have "lined_up R0 g" if g: "tf_inv g" "?P g" for g
    proof -
      have "full g a" if "admits R a" for a using g True that unfolding tf_inv_def core_full_def by blast
      moreover have "absent g a" if "\<not> admits R a" for a using g True that unfolding tf_inv_def outside_absent_def by blast
      moreover have "tf_on g" "R0 = R" "tf_ranking g = R" "tf_applied g = R" "\<not> tf_showing g" using g(2) True by blast+
      ultimately show ?thesis unfolding lined_up_def in_line_def admitted_iff by simp
    qed
    then show ?thesis unfolding if_P [OF True] by (rule spec_give)
  next
    case False
    have "tf_spec clean ?P (if S \<and> R \<noteq> {} then changes_after_showing A R else rank_changes A R)
        (\<lambda>(hide, shown) g. ?P g \<and> covers hide shown g)"
    proof (cases "S \<and> R \<noteq> {}")
      case True
      then have "tf_spec clean ?P (changes_after_showing A R) (\<lambda>(hide, shown) g. ?P g \<and> covers hide shown g)"
        by (intro spec_changes_after_showing [OF firm]) blast+
      then show ?thesis unfolding if_P [OF True] .
    next
      case f: False
      then have "tf_spec clean ?P (rank_changes A R) (\<lambda>(hide, shown) g. ?P g \<and> covers hide shown g)"
        using False by (intro spec_rank_changes [OF firm]) blast+
      then show ?thesis unfolding if_not_P [OF f] .
    qed
    note lists = this
    have "\<And>g. ?P g \<Longrightarrow> True = tf_on g \<and> R = tf_ranking g" by blast
    note run = spec_apply [OF firm this lists]
    show ?thesis
    proof (cases "R = R0")
      case True
      then show ?thesis unfolding if_not_P [OF False] using run by blast
    next
      case R: False
      show ?thesis by (rule spec_absurd) (use R in blast)
    qed
  qed
qed (intro firm_facts)+

lemma spec_show_all: "tf_spec clean (\<lambda>g. False = tf_on g \<and> R0 = tf_ranking g) show_all (\<lambda>_. lined_up R0)"
  unfolding show_all_def
proof (rule spec_seq [OF spec_get spec_seq [OF spec_get]])
  fix F A
  let ?P = "\<lambda>g. ((False = tf_on g \<and> R0 = tf_ranking g) \<and> F = tf_filtered g) \<and> A = tf_applied g"
  let ?rest = "seq (put_kv (\<lambda>g. g\<lparr>tf_showing := True\<rparr>)) (\<lambda>_. seq (get_kv tf_ranking) (\<lambda>R.
     seq (case still_admitted A R of Some s \<Rightarrow> authors_outside s | None \<Rightarrow> give []) (\<lambda>shown.
     seq (write_authors [] shown) (\<lambda>_. seq (record_applied {}) (\<lambda>_.
       put_kv (\<lambda>g. g\<lparr>tf_filtered := False, tf_showing := False\<rparr>))))))"
  let ?Q = "\<lambda>g. (False = tf_on g \<and> R0 = tf_ranking g) \<and> A = tf_applied g"
  have start: "tf_spec clean ?P (put_kv (\<lambda>g. g\<lparr>tf_showing := True\<rparr>)) (\<lambda>_. ?Q)"
    by (rule spec_put, intro firm_facts) (auto simp: tf_inv_unfold)
  have lst: "tf_spec clean (\<lambda>g. ?Q g \<and> R = tf_ranking g) (case still_admitted A R of Some s \<Rightarrow> authors_outside s | None \<Rightarrow> give [])
      (\<lambda>shown g. ?Q g \<and> covers [] shown g)" for R
  proof -
    let ?W = "\<lambda>g. ?Q g \<and> R = tf_ranking g"
    have firm: "firm ?W" by (intro firm_facts)
    have core: "full g a" if "tf_inv g" "?W g" "admits A a" "admits R a" for g a
      using that unfolding tf_inv_def core_full_def by blast
    show ?thesis
    proof (cases "still_admitted A R")
      case None
      then have "A = {}" "R = {}" by (auto simp: still_admitted_def split: if_splits)
      then have "tf_spec clean ?W (give []) (\<lambda>shown g. ?Q g \<and> covers [] shown g)"
        using core by (intro spec_give) (auto simp: covers_def admitted_iff simp del: covers_nobody)
      then show ?thesis using None by simp
    next
      case (Some s)
      then have s: "a \<in> s \<Longrightarrow> admits A a \<and> admits R a" for a by (auto simp: still_admitted_def split: if_splits)
      have "covers [] x g" if "tf_inv g" "?W g" "set x = ap_author ` set (tf_posts g) - s" for x g
        using that core s no_posts(1) unfolding covers_def admitted_iff by (metis Diff_iff)
      then have "tf_spec clean ?W (authors_outside s) (\<lambda>shown g. ?Q g \<and> covers [] shown g)"
        by (intro spec_weaken [OF spec_outside [OF firm]]) auto
      then show ?thesis using Some by simp
    qed
  qed
  have wrote: "tf_spec clean (\<lambda>g. ?Q g \<and> covers [] x g) (write_authors [] x) (\<lambda>_ g. (False = tf_on g \<and> R0 = tf_ranking g) \<and> in_line g)" for x
    by (rule spec_weaken [OF spec_write [of ?Q]], intro firm_facts) auto
  have rest: "tf_spec clean ?P ?rest (\<lambda>_. lined_up R0)"
    by (intro spec_seq [OF start spec_seq [OF spec_get spec_seq [OF lst spec_seq [OF wrote spec_seq [OF spec_record_off spec_end_off]]]]] firm_facts)
  have "lined_up R0 g" if "tf_inv g" "?P g" "\<not> F" "A = {}" for g
    using that unfolding lined_up_def in_line_def admitted_iff tf_inv_def unfiltered_full_def by simp
  then have "tf_spec clean ?P (give ()) (\<lambda>_. lined_up R0)" if "\<not> F" "A = {}" using that by (intro spec_give) auto
  then show "tf_spec clean ?P (if \<not> F \<and> A = {} then give () else ?rest) (\<lambda>_. lined_up R0)" using rest by simp
qed (intro firm_facts)+

lemma spec_reconcile: "tf_spec clean (\<lambda>g. R = tf_ranking g) reconcile (\<lambda>_. lined_up R)"
  unfolding reconcile_def
proof (rule spec_seq [OF spec_get])
  show "tf_spec clean (\<lambda>g. R = tf_ranking g \<and> b = tf_on g) (if b then apply_ranking else show_all) (\<lambda>_. lined_up R)" for b
    using spec_apply_ranking [of clean R] spec_show_all [of clean R] by (cases b) (simp_all add: conj_commute)
qed (intro firm_facts)

text \<open>A new ranking may take effect only once the old one has been applied.\<close>

lemma spec_reindex: "tf_spec clean (lined_up R) (reindex ranked) (\<lambda>_ g. set ranked = tf_ranking g)"
  unfolding reindex_def
proof (rule spec_seq [OF spec_graph spec_put])
  fix ids g assume "tf_inv g" "lined_up R g \<and> ids = ranked"
  then show "tf_inv (g\<lparr>tf_ranking := set ids\<rparr>) \<and> set ranked = tf_ranking (g\<lparr>tf_ranking := set ids\<rparr>)"
    using in_line_facts [of g] by (cases "tf_on g") (auto simp: tf_inv_unfold lined_up_def)
qed (intro firm_facts)+

lemma spec_publish: "tf_spec clean (\<lambda>g. R = tf_ranking g) (publish ranked) (\<lambda>_. lined_up (set ranked))"
  unfolding publish_def by (intro spec_seq [OF spec_reconcile spec_seq [OF spec_reindex spec_reconcile]])

section \<open>Reachable stores\<close>

text \<open>
  A store starts unfiltered with every post in its sets. It is changed by a post that arrives or goes, by gated
  writers, by the switch at any time, and by reconciling and publishing runs with whatever result. The flag of
  \<open>tf_reach\<close> says whether the history is orderly: it never switched the filter on while it was off, a ranking was applied
  and no reconcile had marked that authors are being shown again. On other histories the last clause of the invariant fails.
\<close>

definition fresh :: "tf_kv \<Rightarrow> bool" where
  "fresh g \<longleftrightarrow> \<not> tf_on g \<and> \<not> tf_filtered g \<and> \<not> tf_showing g \<and> tf_applied g = {} \<and> finite (tf_ranking g) \<and>
     posts_ok (tf_posts g) \<and> (\<forall>k m. present g k m \<longleftrightarrow> entry_of (tf_posts g) k m)"

definition same_control :: "tf_kv \<Rightarrow> tf_kv \<Rightarrow> bool" where
  "same_control g g' \<longleftrightarrow> tf_on g' = tf_on g \<and> tf_filtered g' = tf_filtered g \<and> tf_showing g' = tf_showing g \<and>
     tf_ranking g' = tf_ranking g \<and> tf_applied g' = tf_applied g"

definition arrives :: "author_post \<Rightarrow> tf_kv \<Rightarrow> tf_kv \<Rightarrow> bool" where
  "arrives p g g' \<longleftrightarrow> same_control g g' \<and> tf_posts g' = p # tf_posts g \<and> posts_ok (p # tf_posts g) \<and>
     (\<forall>k m. present g' k m \<longleftrightarrow> present g k m \<or> m = post_member p \<and> k \<in> fst ` set (post_entries p) \<and> admitted g (ap_author p))"

definition goes :: "author_post \<Rightarrow> tf_kv \<Rightarrow> tf_kv \<Rightarrow> bool" where
  "goes p g g' \<longleftrightarrow> same_control g g' \<and> p \<in> set (tf_posts g) \<and> tf_posts g' = filter (\<lambda>q. q \<noteq> p) (tf_posts g) \<and>
     (\<forall>k m. present g' k m \<longleftrightarrow> present g k m \<and> m \<noteq> post_member p)"

inductive tf_reach :: "bool \<Rightarrow> tf_kv \<Rightarrow> bool" where
  start: "fresh g \<Longrightarrow> tf_reach True g"
| post_arrives: "tf_reach c g \<Longrightarrow> arrives p g g' \<Longrightarrow> tf_reach c g'"
| post_goes: "tf_reach c g \<Longrightarrow> goes p g g' \<Longrightarrow> tf_reach c g'"
| gated_write: "tf_reach c g \<Longrightarrow> frame g g' \<Longrightarrow> tf_reach c g'"
| switch_off: "tf_reach c g \<Longrightarrow> tf_reach c (g\<lparr>tf_on := False\<rparr>)"
| switch_on: "tf_reach c g \<Longrightarrow>
    tf_reach (c \<and> (tf_on g \<or> tf_showing g \<or> tf_applied g = {})) (g\<lparr>tf_filtered := True, tf_on := True\<rparr>)"
| reconcile_run: "tf_reach c (kv w) \<Longrightarrow> gated False w \<Longrightarrow> reconcile w = Some (r, w') \<Longrightarrow> tf_reach c (kv w')"
| publish_run: "tf_reach c (kv w) \<Longrightarrow> gated False w \<Longrightarrow> publish ranked w = Some (r, w') \<Longrightarrow> tf_reach c (kv w')"

lemma same_control_admitted: "same_control g g' \<Longrightarrow> admitted g' = admitted g"
  by (simp add: same_control_def admitted_def fun_eq_iff)

lemma post_member_inj:
  assumes "posts_ok P" "p \<in> set P" "q \<in> set P" "post_member p = post_member q"
  shows "p = q"
proof -
  have "ap_author p = ap_author q" using author_of_member [OF assms(1)] assms(2-4) by metis
  then have "(ap_author p, ap_id p) = (ap_author q, ap_id q)" using assms(4) by (simp add: post_member_def)
  moreover have "inj_on (\<lambda>p. (ap_author p, ap_id p)) (set P)" using assms(1) by (simp add: posts_ok_def distinct_map)
  ultimately show ?thesis using assms(2,3) by (meson inj_onD)
qed

text \<open>A change that keeps the control keys and the shown authors of the gate keeps the invariant.\<close>

lemma tf_inv_change:
  assumes "tf_inv g" "same_control g g'" "posts_ok (tf_posts g')" "rooted g'"
    and "\<And>a. admitted g a \<Longrightarrow> full g a \<Longrightarrow> full g' a" "\<And>a. \<not> admitted g a \<Longrightarrow> absent g a \<Longrightarrow> absent g' a"
  shows "tf_inv g'"
proof -
  note same = assms(2) [unfolded same_control_def]
  have "grounded g'" using assms(1,3,4) same by (simp add: tf_inv_def grounded_def)
  moreover have "core_full g'" using assms(1,5) same unfolding tf_inv_def core_full_def admitted_iff by metis
  moreover have "unfiltered_full g'" using assms(1,5) same unfolding tf_inv_def unfiltered_full_def admitted_iff by metis
  moreover have "outside_absent g'" using assms(1,6) same unfolding tf_inv_def outside_absent_def admitted_iff by metis
  ultimately show ?thesis by (simp add: tf_inv_def)
qed

lemma arrives_inv:
  assumes "tf_inv g" "arrives p g g'"
  shows "tf_inv g'"
proof -
  note a = assms(2) [unfolded arrives_def]
  have pr: "present g' k m \<longleftrightarrow> present g k m \<or> m = post_member p \<and> k \<in> fst ` set (post_entries p) \<and> admitted g (ap_author p)" for k m
    using a by blast
  have author: "author_of (post_member p) = ap_author p" using a author_of_member [of "p # tf_posts g" p] by simp
  show ?thesis
  proof (rule tf_inv_change [OF assms(1)])
    show "rooted g'" using tf_inv_posts(2) [OF assms(1)] a unfolding rooted_def pr entry_of_def by auto
    show "full g a \<Longrightarrow> full g' a" if "admitted g a" for a using that a unfolding full_def pr by auto
    show "absent g a \<Longrightarrow> absent g' a" if "\<not> admitted g a" for a using that author unfolding absent_def pr by auto
  qed (use a in auto)
qed

lemma goes_inv:
  assumes "tf_inv g" "goes p g g'"
  shows "tf_inv g'"
proof -
  note a = assms(2) [unfolded goes_def]
  have pr: "present g' k m \<longleftrightarrow> present g k m \<and> m \<noteq> post_member p" for k m using a by blast
  have member: "post_member q \<noteq> post_member p" if "q \<in> set (tf_posts g)" "q \<noteq> p" for q
    using post_member_inj [OF tf_inv_posts(1) [OF assms(1)]] a that by blast
  show ?thesis
  proof (rule tf_inv_change [OF assms(1)])
    show "posts_ok (tf_posts g')" using tf_inv_posts(1) [OF assms(1)] a by (auto simp: posts_ok_def distinct_map_filter)
    show "rooted g'" using tf_inv_posts(2) [OF assms(1)] a unfolding rooted_def pr entry_of_def by fastforce
    show "full g a \<Longrightarrow> full g' a" for a using a member unfolding full_def pr by simp
    show "absent g a \<Longrightarrow> absent g' a" for a unfolding absent_def pr by blast
  qed (use a in auto)
qed

lemma fresh_inv: "fresh g \<Longrightarrow> tf_inv g"
proof -
  assume f: "fresh g"
  then have "full g a" for a unfolding fresh_def full_def entry_of_def by blast
  then show ?thesis using f unfolding fresh_def by (auto simp: tf_inv_unfold rooted_def simp del: not_None_eq)
qed

lemma tf_reach_inv: "tf_reach c g \<Longrightarrow> c \<Longrightarrow> tf_inv g"
proof (induction rule: tf_reach.induct)
  case (reconcile_run c w r w')
  then show ?case using spec_reconcile [of False "tf_ranking (kv w)"] unfolding tf_spec_def by force
next
  case (publish_run c w ranked r w')
  then show ?case using spec_publish [of False "tf_ranking (kv w)" ranked] unfolding tf_spec_def by force
next
  case (switch_on c g)
  then show ?case unfolding tf_inv_unfold by auto
next
  case (switch_off c g)
  then show ?case unfolding tf_inv_unfold by auto
qed (blast intro: fresh_inv arrives_inv goes_inv tf_inv_frame)+

section \<open>The gate's writers\<close>

lemma tf_add_batches_frame:
  assumes "tf_add_batches key bs w = (r, w')" "gated clean w" "\<forall>b \<in> set bs. \<forall>m \<in> snd ` set b. entry_of (tf_posts (kv w)) key m"
  shows "frame (kv w) (kv w')"
  using assms
proof (induction bs arbitrary: w)
  case (Cons b bs)
  obtain q w1 where q: "redis_call (add_script key b) w = (q, w1)" by force
  then have "model_redis (add_script key b) w = (case q of Inl e \<Rightarrow> Inl (KvOperationFailed e) | Inr x \<Rightarrow> Inr x, w1)"
    by (simp add: model_redis_def split: sum.splits)
  then obtain g where g: "frame (kv w) g" "gated clean w1" "kv w1 = g \<or> kv w1 = snd (add_script key b g)"
    by (rule model_redis_step [OF _ Cons.prems(2)]) blast
  have "tf_posts g = tf_posts (kv w)" by (rule frame_same(6) [OF g(1)])
  then have "frame g (snd (add_script key b g))" using Cons.prems(3) by (intro add_frame) simp
  then have f: "frame (kv w) (kv w1)" using g(1,3) frame_trans by metis
  show ?case
  proof (cases q)
    case (Inl e)
    then show ?thesis using Cons.prems(1) q f by simp
  next
    case (Inr x)
    then have "tf_add_batches key bs w1 = (r, w')" using Cons.prems(1) q by simp
    then have "frame (kv w1) (kv w')" using Cons.IH g(2) Cons.prems(3) frame_same(6) [OF f] by simp
    then show ?thesis by (rule frame_trans [OF f])
  qed
qed simp

lemma tf_add_frame:
  assumes "tf_add key es w = (r, w')" "gated clean w" "\<forall>m \<in> snd ` set es. entry_of (tf_posts (kv w)) key m"
  shows "frame (kv w) (kv w')"
  using tf_add_batches_frame [OF assms(1) [unfolded tf_add_def] assms(2)] assms(3) chunks_sub [of _ BATCH es] by blast

lemma tf_incr_frame:
  assumes "tf_incr key m action w = (r, w')" "gated clean w" "entry_of (tf_posts (kv w)) key m"
  shows "frame (kv w) (kv w')"
proof -
  define d where "d = (case action of Increment v \<Rightarrow> v | Decrement v \<Rightarrow> - v)"
  obtain q where q: "redis_call (incr_script key d m) w = (q, w')"
    using assms(1) by (auto simp: tf_incr_def d_def split: prod.splits sum.splits)
  then have "model_redis (incr_script key d m) w = (case q of Inl e \<Rightarrow> Inl (KvOperationFailed e) | Inr x \<Rightarrow> Inr x, w')"
    by (simp add: model_redis_def split: sum.splits)
  then obtain g where g: "frame (kv w) g" "kv w' = g \<or> kv w' = snd (incr_script key d m g)"
    by (rule model_redis_step [OF _ assms(2)]) blast
  have "frame g (snd (incr_script key d m g))" using assms(3) frame_same(6) [OF g(1)] by (intro incr_frame) simp
  then show ?thesis using g frame_trans by metis
qed

section \<open>Properties\<close>

text \<open>
  C11. Publishing a ranking (\<open>SocialGraphStatus::publish\<close>), on any store an orderly history of the filter leads to (one that
  never switched the filter on again while a switch-off that hid authors waited to be reconciled) and with
  other tasks writing through the gate between its calls, returns; it succeeds when no call fails; and a success leaves the shared sets with
  every entry of every admitted author's posts and with no entry of any other author, under the new ranking.
\<close>

theorem published_ranking_takes_effect:
  assumes "tf_reach True (kv w)" "gated clean w"
  shows "\<exists>r w'. publish ranked w = Some (r, w') \<and> (clean \<longrightarrow> r = Inr ()) \<and>
    (r = Inr () \<longrightarrow> tf_ranking (kv w') = set ranked \<and>
       (\<forall>a. if admitted (kv w') a then full (kv w') a else absent (kv w') a))"
proof -
  obtain r w' where r: "publish ranked w = Some (r, w')" "clean \<longrightarrow> (\<exists>x. r = Inr x)" "\<forall>x. r = Inr x \<longrightarrow> lined_up (set ranked) (kv w')"
    using spec_publish [of clean "tf_ranking (kv w)" ranked] tf_reach_inv [OF assms(1) TrueI] assms(2) unfolding tf_spec_def by metis
  then show ?thesis by (intro exI [of _ r] exI [of _ w']) (auto simp: lined_up_def in_line_def)
qed

definition demo_post :: "string \<Rightarrow> author_post" where
  "demo_post a = \<lparr>ap_author = a, ap_id = ''p'', ap_indexed_at = 7, ap_is_reply = False, ap_labels = [], ap_engagement = 0, ap_mentions = 0\<rparr>"

definition demo_tf :: tf_kv where
  "demo_tf = \<lparr>tf_on = False, tf_filtered = False, tf_showing = False, tf_ranking = {}, tf_applied = {},
     tf_sets = (\<lambda>k m. if entry_of [demo_post ''a'', demo_post ''b''] k m then Some 0 else None),
     tf_posts = [demo_post ''a'', demo_post ''b'']\<rparr>"

definition demo_tf_on :: tf_kv where
  "demo_tf_on = demo_tf\<lparr>tf_filtered := True, tf_on := True\<rparr>"

lemma demo_tf_reach: "tf_reach True demo_tf_on" "gated True (calm_world g)"
proof -
  have "posts_ok [demo_post ''a'', demo_post ''b'']" by (simp add: demo_post_def posts_ok_def first_cursor_def post_key_def)
  then have "fresh demo_tf" by (simp add: fresh_def demo_tf_def)
  then show "tf_reach True demo_tf_on"
    using tf_reach.switch_on [OF tf_reach.start [of demo_tf]] unfolding demo_tf_on_def by (simp add: demo_tf_def)
qed (simp add: gated_def calm_world_def)

theorem published_ranking_takes_effect_witness:
  "\<exists>w'. publish [''a''] (calm_world demo_tf_on) = Some (Inr (), w') \<and> tf_ranking (kv w') = {''a''} \<and>
     (\<forall>a. if admitted (kv w') a then full (kv w') a else absent (kv w') a)"
  using published_ranking_takes_effect [of "calm_world demo_tf_on" True "[''a'']"] demo_tf_reach by auto

text \<open>
  C20. Reconciling after a toggled switch (\<open>reconcile\<close>) on any store an orderly history of the filter leads to (one that never
  switched the filter on again while a switch-off that hid authors waited to be reconciled) returns, keeps the ranking, succeeds
  when no call fails, and a success leaves the sets as the switch and the ranking have them: with the filter off every post is shown,
  and the copy and the marks of the filter say so.
\<close>

theorem reconciled_sets_are_in_line:
  assumes "tf_reach True (kv w)" "gated clean w"
  shows "\<exists>r w'. reconcile w = Some (r, w') \<and> (clean \<longrightarrow> r = Inr ()) \<and>
    (r = Inr () \<longrightarrow> tf_ranking (kv w') = tf_ranking (kv w) \<and>
       (\<forall>a. if admitted (kv w') a then full (kv w') a else absent (kv w') a) \<and>
       (if tf_on (kv w') then \<not> tf_showing (kv w') \<and> tf_applied (kv w') = tf_ranking (kv w') else tf_applied (kv w') = {}))"
proof -
  obtain r w' where r: "reconcile w = Some (r, w')" "clean \<longrightarrow> (\<exists>x. r = Inr x)" "\<forall>x. r = Inr x \<longrightarrow> lined_up (tf_ranking (kv w)) (kv w')"
    using spec_reconcile [of clean "tf_ranking (kv w)"] tf_reach_inv [OF assms(1) TrueI] assms(2) unfolding tf_spec_def by metis
  then show ?thesis by (intro exI [of _ r] exI [of _ w']) (auto simp: lined_up_def in_line_def)
qed

theorem reconciled_sets_are_in_line_witness:
  "\<exists>w'. reconcile (calm_world demo_tf_on) = Some (Inr (), w') \<and> (\<forall>a. if admitted (kv w') a then full (kv w') a else absent (kv w') a)"
  using reconciled_sets_are_in_line [of "calm_world demo_tf_on" True] demo_tf_reach by auto

section \<open>A switch-off that was never reconciled\<close>

lemma ask_steady:
  assumes "redis_ask f w = Some (r, w')" "steady V w" "\<And>g. V (snd (f g)) = V g"
  shows "steady V w' \<and> V (kv w') = V (kv w) \<and> fault w' = fault w \<and>
    ((\<exists>e. r = Inl e \<and> fault w \<noteq> (\<lambda>_. None)) \<or> (\<exists>g. V g = V (kv w) \<and> r = Inr (fst (f g))))"
proof -
  obtain q where q: "redis_call f w = (q, w')" "r = (case q of Inl e \<Rightarrow> Inl (KvOperationFailed e) | Inr x \<Rightarrow> Inr x)"
    using assms(1) by (cases "redis_call f w") (auto simp: redis_ask_def model_redis_def split: sum.splits)
  have "V (kv (env_step w)) = V (kv w)" using assms(2) by (simp add: env_step_def steady_def)
  then show ?thesis
    using q assms(2,3) redis_call_schedule [OF q(1)] steady_same [OF redis_call_schedule [OF q(1)], of V]
    by (auto simp: redis_call_def Let_def same_schedule_def fun_eq_iff split: option.splits call_fault.splits sum.splits)
qed

lemma ask_returns: "\<exists>r w'. redis_ask f w = Some (r, w')"
  by (auto simp: redis_ask_def split: prod.split)

definition filter_view :: "tf_kv \<Rightarrow> bool \<times> bool \<times> string set \<times> string set \<times> (string \<Rightarrow> string \<rightharpoonup> int)" where
  "filter_view g = (tf_on g, tf_showing g, tf_ranking g, tf_applied g, tf_sets g)"

text \<open>A run that leaves the view as \<open>v\<close>, and succeeds if no call fails.\<close>

definition settles :: "bool \<times> bool \<times> string set \<times> string set \<times> (string \<Rightarrow> string \<rightharpoonup> int) \<Rightarrow> unit tf_run \<Rightarrow> bool" where
  "settles v m \<longleftrightarrow> (\<forall>w. steady filter_view w \<longrightarrow> filter_view (kv w) = v \<longrightarrow>
     (\<exists>r w'. m w = Some (r, w') \<and> filter_view (kv w') = v \<and> (fault w = (\<lambda>_. None) \<longrightarrow> r = Inr ())))"

lemma settles_give: "settles v (give ())"
  by (simp add: settles_def give_def)

lemma settles_early: "b \<Longrightarrow> settles v (if b then give () else m)"
  by (simp add: settles_give)

lemma settles_ask:
  assumes f: "\<And>g. filter_view (snd (f g)) = filter_view g"
    and rest: "\<And>g. filter_view g = v \<Longrightarrow> settles v (rest (fst (f g)))"
  shows "settles v (seq (redis_ask f) rest)"
  unfolding settles_def
proof (intro allI impI)
  fix w assume w: "steady filter_view w" "filter_view (kv w) = v"
  obtain r w1 where a: "redis_ask f w = Some (r, w1)" using ask_returns by blast
  note st = ask_steady [OF a w(1) f]
  show "\<exists>r w'. seq (redis_ask f) rest w = Some (r, w') \<and> filter_view (kv w') = v \<and> (fault w = (\<lambda>_. None) \<longrightarrow> r = Inr ())"
  proof (cases r)
    case (Inl e)
    then show ?thesis using a st w(2) by (auto simp: seq_def)
  next
    case (Inr x)
    then obtain g where "filter_view g = v" "x = fst (f g)" using st w(2) by auto
    then show ?thesis using rest [of g] st w(2) a Inr unfolding settles_def by (auto simp: seq_def)
  qed
qed

text \<open>
  C37. Reconciling looks at no post when the copy says that the ranking is applied: with the filter on, the copy equal to the ranking
  and no mark that authors are being shown again, it returns, with success unless a call fails, and leaves every entry of the shared sets,
  whatever they hold. So a post of an author outside the ranking that was written while the gate was open, after a switch-off whose
  reconcile never ran, stays there when the filter is on again. The other tasks leave switch, ranking, copy, mark and sets alone.
\<close>

theorem applied_copy_is_not_rechecked:
  assumes "steady filter_view w" and "tf_on (kv w)" and "tf_applied (kv w) = tf_ranking (kv w)" and "\<not> tf_showing (kv w)"
  shows "\<exists>r w'. reconcile w = Some (r, w') \<and> tf_sets (kv w') = tf_sets (kv w) \<and> tf_on (kv w') \<and> tf_ranking (kv w') = tf_ranking (kv w) \<and>
    (fault w = (\<lambda>_. None) \<longrightarrow> r = Inr ())"
proof -
  let ?v = "filter_view (kv w)"
  have view: "tf_on g" "tf_applied g = tf_ranking (kv w)" "tf_ranking g = tf_ranking (kv w)" "\<not> tf_showing g" if "filter_view g = ?v" for g
    using that assms(2-4) by (simp_all add: filter_view_def)
  have "settles ?v reconcile"
    unfolding reconcile_def apply_ranking_def
    by (rule settles_ask, simp, subst fst_conv, subst view(1), assumption, subst if_True,
        rule settles_ask, simp add: filter_view_def,
        rule settles_ask, simp, subst fst_conv, subst view(3), assumption,
        rule settles_ask, simp, subst fst_conv, subst view(2), assumption,
        rule settles_ask, simp, subst fst_conv, rule settles_early, simp add: view(4))
  then obtain r w' where r: "reconcile w = Some (r, w')" "filter_view (kv w') = ?v" "fault w = (\<lambda>_. None) \<longrightarrow> r = Inr ()"
    using assms(1) unfolding settles_def by blast
  show ?thesis
    by (rule exI [of _ r], rule exI [of _ w']) (use r view [OF r(2)] in \<open>simp add: filter_view_def\<close>)
qed

text \<open>A history with a switch-off nobody reconciled.\<close>

definition leak_start :: tf_kv where
  "leak_start = \<lparr>tf_on = True, tf_filtered = True, tf_showing = False, tf_ranking = {''a''}, tf_applied = {''a''},
     tf_sets = (\<lambda>k m. if entry_of [demo_post ''a''] k m then Some 0 else None),
     tf_posts = [demo_post ''a'', demo_post ''b'']\<rparr>"

definition leak_end :: "tf_kv world" where
  "leak_end = snd (switch True (snd (tf_add (sorted_key ''Posts:Global:Timeline'') [(7, ''b:p'')] (snd (switch False (calm_world leak_start))))))"

theorem applied_copy_is_not_rechecked_witness:
  "\<exists>w'. reconcile leak_end = Some (Inr (), w') \<and> tf_on (kv w') \<and> \<not> admitted (kv w') ''b'' \<and> \<not> absent (kv w') ''b''"
proof -
  have author_b: "author_of ''b:p'' = ''b''" by (simp add: author_of_def)
  have kvs: "leak_end = (calm_world (leak_start\<lparr>tf_sets := (tf_sets leak_start)(sorted_key ''Posts:Global:Timeline'' :=
       (tf_sets leak_start (sorted_key ''Posts:Global:Timeline''))(''b:p'' \<mapsto> 7))\<rparr>))\<lparr>tick := 3\<rparr>" (is "_ = ?w")
    by (simp add: leak_end_def switch_def tf_add_def chunks.simps BATCH_def redis_call_def env_step_def calm_world_def
        add_script_def admitted_def leak_start_def)
  have "present (kv ?w) (sorted_key ''Posts:Global:Timeline'') ''b:p''" by (simp add: calm_world_def)
  then have "present (kv leak_end) (sorted_key ''Posts:Global:Timeline'') ''b:p''" unfolding kvs .
  then have shown: "\<not> absent (kv leak_end) ''b''" unfolding absent_def by (metis author_b)
  have on: "tf_on (kv leak_end)" "tf_ranking (kv leak_end) = {''a''}" "tf_applied (kv leak_end) = {''a''}" "\<not> tf_showing (kv leak_end)"
    "steady filter_view leak_end" "fault leak_end = (\<lambda>_. None)"
    unfolding kvs by (simp_all add: leak_start_def calm_world_def steady_def)
  then obtain w' where w': "reconcile leak_end = Some (Inr (), w')" "tf_sets (kv w') = tf_sets (kv leak_end)" "tf_on (kv w')"
    "tf_ranking (kv w') = {''a''}"
    using applied_copy_is_not_rechecked [of leak_end] by auto
  then have "\<not> admitted (kv w') ''b''" "\<not> absent (kv w') ''b''" using shown by (simp_all add: admitted_def absent_def)
  then show ?thesis using w' by blast
qed

end
