(* ===== verification/Stream_Query.thy ===== *)
theory Stream_Query
  imports Sorted_Index
begin

text \<open>
  What a stream of posts asks for (nexus-common/src/models/post/stream.rs) and the Cypher query that answers it from the
  graph (\<open>post_stream\<close>, \<open>build_query_with_params\<close> and \<open>append_condition\<close> of db/graph/queries/get.rs). A query is the
  list of its lines; \<open>SKIP\<close> and \<open>LIMIT\<close>, the last two, are constructors, as \<open>paged\<close> gives them their meaning on the
  rows of the lines above, which the graph database, a parameter, returns in the order they ask for. Indentation
  inside a line is dropped, and so are the telemetry attributes.
\<close>

section \<open>Requests\<close>

datatype stream_sorting = Timeline | TotalEngagement

datatype domain_trust = Me | Network nat

datatype post_reach = ReachFollowers | ReachFollowing | ReachFriends | ReachWot nat

datatype stream_source =
    PostReplies (pr_post_id: string) (pr_author_id: string)
  | Following string
  | Followers string
  | Friends string
  | Bookmarks string
  | Author string
  | AuthorReplies string
  | Collection string string
  | PostCollections string string
  | Wot string nat
  | WotDomain string domain_trust "string list"
  | AllPosts

datatype kind_filter = OnlyKind string | ExcludeKinds "string list" | LockedOnly

datatype trust_rule = Ranked | RankedAndViewer string

fun get_observer :: "stream_source \<Rightarrow> string option" where
  "get_observer (Followers u) = Some u"
| "get_observer (Following u) = Some u"
| "get_observer (Friends u) = Some u"
| "get_observer (Bookmarks u) = Some u"
| "get_observer (Wot u _) = Some u"
| "get_observer (WotDomain u _ _) = Some u"
| "get_observer _ = None"

fun get_domain_tags :: "stream_source \<Rightarrow> string list option" where
  "get_domain_tags (WotDomain _ _ ts) = Some ts"
| "get_domain_tags _ = None"

fun get_author :: "stream_source \<Rightarrow> string option" where
  "get_author (PostReplies _ a) = Some a"
| "get_author (Author a) = Some a"
| "get_author (AuthorReplies a) = Some a"
| "get_author _ = None"

fun get_anchor_post :: "stream_source \<Rightarrow> (string \<times> string) option" where
  "get_anchor_post (PostCollections a i) = Some (a, i)"
| "get_anchor_post _ = None"

fun from_reach :: "string \<Rightarrow> post_reach \<Rightarrow> stream_source" where
  "from_reach u ReachFollowers = Followers u"
| "from_reach u ReachFollowing = Following u"
| "from_reach u ReachFriends = Friends u"
| "from_reach u (ReachWot d) = Wot u d"

section \<open>Query text\<close>

datatype cypher_line = Line string | Skip nat | Limit nat

datatype cypher_param = TextParam string | ListParam "string list" | NumberParam int

record cypher_query =
  cq_text :: "cypher_line list"
  cq_params :: "(string \<times> cypher_param) list"

definition MAX_QUERY_SKIP :: nat where "MAX_QUERY_SKIP = 10000"
definition MAX_QUERY_LIMIT :: nat where "MAX_QUERY_LIMIT = 1000"

text \<open>The text so far, and whether its last \<open>MATCH\<close> has a \<open>WHERE\<close>.\<close>

type_synonym cypher_text = "cypher_line list \<times> bool"

definition push_lines :: "string list \<Rightarrow> cypher_text \<Rightarrow> cypher_text" where
  "push_lines ls t = (fst t @ map Line ls, snd t)"

definition append_condition :: "string \<Rightarrow> cypher_text \<Rightarrow> cypher_text" where
  "append_condition condition t =
     (if snd t then (fst t @ [Line (''AND '' @ condition)], True) else (fst t @ [Line (''WHERE '' @ condition)], True))"

definition append_if :: "bool \<Rightarrow> string \<Rightarrow> cypher_text \<Rightarrow> cypher_text" where
  "append_if b condition t = (if b then append_condition condition t else t)"

definition ranked_user :: "string \<Rightarrow> string" where
  "ranked_user v = v @ ''.trust > 0 AND NOT coalesce('' @ v @ ''.deleted, false)''"

fun condition :: "trust_rule \<Rightarrow> string" where
  "condition Ranked = ranked_user ''author''"
| "condition (RankedAndViewer _) = ''('' @ ranked_user ''author'' @ '') OR author.id = $viewer_id''"

fun source_match :: "stream_source \<Rightarrow> string list" where
  "source_match (Following _) = [''MATCH (observer)-[:FOLLOWS]->(author)'', ''WHERE author.id <> $observer_id'']"
| "source_match (Followers _) = [''MATCH (observer)<-[:FOLLOWS]-(author)'', ''WHERE author.id <> $observer_id'']"
| "source_match (Friends _) = [''MATCH (observer)-[:FOLLOWS]->(author)-[:FOLLOWS]->(observer)'', ''WHERE author.id <> $observer_id'']"
| "source_match (Bookmarks _) = [''MATCH (observer)-[:BOOKMARKED]->(p)'']"
| "source_match (Wot _ depth) =
     [''MATCH (observer)-[:FOLLOWS*1..'' @ show_nat depth @ '']->(author:User)'', ''WHERE author.id <> $observer_id'', ''WITH DISTINCT author'']"
| "source_match (WotDomain _ Me _) =
     [''MATCH (observer)-[endorsement:TAGGED]->(author:User)'', ''WHERE endorsement.label IN $domain_tags'', ''WITH DISTINCT author'']"
| "source_match (WotDomain _ (Network depth) _) =
     [''CALL { WITH observer MATCH (observer)-[:FOLLOWS*1..'' @ show_nat depth @
        '']->(tagger:User) WHERE tagger.id <> observer.id RETURN DISTINCT tagger }'',
      ''MATCH (tagger)-[endorsement:TAGGED]->(author:User)'', ''WHERE endorsement.label IN $domain_tags'', ''WITH DISTINCT author'']"
| "source_match (PostCollections _ _) =
     [''MATCH (item:Post {id: $post_id})'', ''WHERE EXISTS { (:User {id: $author_id})-[:AUTHORED]->(item) }'',
      ''MATCH (item)<-[:COLLECTED]-(p:Post)'']"
| "source_match _ = []"

fun kind_condition :: "kind_filter option \<Rightarrow> cypher_text \<Rightarrow> cypher_text" where
  "kind_condition (Some (OnlyKind _)) t = append_condition ''p.kind = $kind'' t"
| "kind_condition (Some (ExcludeKinds _)) t = append_condition ''(p.kind IS NULL OR NOT p.kind IN $exclude_kinds)'' t"
| "kind_condition (Some LockedOnly) t = append_condition ''p.lock IS NOT NULL'' t"
| "kind_condition None t = t"

definition bound_ops :: "sort_order \<Rightarrow> string \<times> string" where
  "bound_ops ord = (case ord of Descending \<Rightarrow> (''<='', ''>='') | Ascending \<Rightarrow> (''>='', ''<=''))"

definition bound_conditions :: "string \<Rightarrow> sort_order \<Rightarrow> pagination \<Rightarrow> cypher_text \<Rightarrow> cypher_text" where
  "bound_conditions score ord p t =
     append_if (pg_end p \<noteq> None) (score @ '' '' @ snd (bound_ops ord) @ '' $end'')
       (append_if (pg_start p \<noteq> None) (score @ '' '' @ fst (bound_ops ord) @ '' $start'') t)"

definition order_dir :: "sort_order \<Rightarrow> string" where
  "order_dir ord = (case ord of Ascending \<Rightarrow> ''ASC'' | Descending \<Rightarrow> ''DESC'')"

definition distinct_lines :: "trust_rule option \<Rightarrow> stream_sorting \<Rightarrow> sort_order \<Rightarrow> string list" where
  "distinct_lines rule sorting ord =
     (case rule of
        None \<Rightarrow> [''WITH DISTINCT p, author'']
      | Some r \<Rightarrow> [''WITH DISTINCT p''] @
          (if sorting = Timeline then [''ORDER BY p.indexed_at '' @ order_dir ord @ '', p.id '' @ order_dir ord] else []) @
          [''MATCH (p)<-[:AUTHORED]-(author:User)'', ''WHERE '' @ condition r])"

text \<open>The value a row is sorted and paged by; the engagement has to be counted first.\<close>

definition score_expr :: "stream_sorting \<Rightarrow> string" where
  "score_expr sorting = (case sorting of Timeline \<Rightarrow> ''p.indexed_at'' | TotalEngagement \<Rightarrow> ''total_engagement'')"

definition engagement_lines :: "string list" where
  "engagement_lines = [''WITH p, author,'', ''COUNT { (p)<-[:TAGGED]-(:User) }'', ''+ COUNT { (p)<-[:REPLIED]-(:Post) }'',
     ''+ COUNT { (p)<-[:REPOSTED]-(:Post) } AS total_engagement'']"

definition build_query_with_params ::
  "stream_source \<Rightarrow> string list option \<Rightarrow> kind_filter option \<Rightarrow> pagination \<Rightarrow> (string \<times> cypher_param) list" where
  "build_query_with_params src tags kind p =
     (case get_observer src of Some u \<Rightarrow> [(''observer_id'', TextParam u)] | None \<Rightarrow> []) @
     (case get_domain_tags src of Some ts \<Rightarrow> [(''domain_tags'', ListParam ts)] | None \<Rightarrow> []) @
     (case tags of Some ts \<Rightarrow> [(''labels'', ListParam ts)] | None \<Rightarrow> []) @
     (case get_author src of Some a \<Rightarrow> [(''author_id'', TextParam a)] | None \<Rightarrow> []) @
     (case get_anchor_post src of Some (a, i) \<Rightarrow> [(''author_id'', TextParam a), (''post_id'', TextParam i)] | None \<Rightarrow> []) @
     (case kind of Some (OnlyKind k) \<Rightarrow> [(''kind'', TextParam k)] | Some (ExcludeKinds ks) \<Rightarrow> [(''exclude_kinds'', ListParam ks)] | _ \<Rightarrow> []) @
     (case pg_start p of Some s \<Rightarrow> [(''start'', NumberParam s)] | None \<Rightarrow> []) @
     (case pg_end p of Some s \<Rightarrow> [(''end'', NumberParam s)] | None \<Rightarrow> [])"

definition post_stream ::
  "stream_source \<Rightarrow> stream_sorting \<Rightarrow> sort_order \<Rightarrow> string list option \<Rightarrow> pagination \<Rightarrow> kind_filter option \<Rightarrow>
   trust_rule option \<Rightarrow> (graph_error, cypher_query) result" where
  "post_stream src sorting ord tags p kind rule =
     (let author_rule = (if src = AllPosts then rule else None);
          t1 = push_lines (if get_observer src \<noteq> None then [''MATCH (observer:User {id: $observer_id})''] else []) ([], False);
          t2 = push_lines (source_match src) t1;
          t3 = push_lines [if author_rule \<noteq> None then ''MATCH (p:Post)'' else ''MATCH (p:Post)<-[:AUTHORED]-(author:User)''] t2;
          t4 = (if tags \<noteq> None then append_condition ''tag.label IN $labels'' (push_lines [''MATCH (:User)-[tag:TAGGED]->(p)''] t3) else t3);
          t5 = append_if (get_author src \<noteq> None) ''author.id = $author_id'' t4;
          t6 = kind_condition kind t5;
          t7 = append_if (\<forall>u. src \<noteq> Bookmarks u) ''NOT ( (p)-[:REPLIED]->(:Post) )'' t6;
          t8 = (if sorting = Timeline then bound_conditions ''p.indexed_at'' ord p t7 else t7);
          t9 = push_lines (distinct_lines author_rule sorting ord) t8;
          t10 = (if sorting = TotalEngagement
                 then bound_conditions ''total_engagement'' ord p (fst (push_lines engagement_lines t9), False) else t9);
          t11 = push_lines [''RETURN author.id AS author_id, p.id AS post_id, '' @ score_expr sorting @ '' AS score'',
                  ''ORDER BY '' @ score_expr sorting @ '' '' @ order_dir ord @ '', p.id '' @ order_dir ord] t10;
          text = fst t11 @
            (case pg_skip p of Some n \<Rightarrow> [Skip (min n MAX_QUERY_SKIP)] | None \<Rightarrow> []) @
            (case pg_limit p of Some n \<Rightarrow> [Limit (min n MAX_QUERY_LIMIT)] | None \<Rightarrow> [])
      in case src of
        Collection _ _ \<Rightarrow> Inl (QueryBuildError ''StreamSource::Collection must be served by collect_post_keys'')
      | _ \<Rightarrow> Inr \<lparr>cq_text = text,
          cq_params = (case rule of Some (RankedAndViewer v) \<Rightarrow> [(''viewer_id'', TextParam v)] | _ \<Rightarrow> []) @
            build_query_with_params src tags kind p\<rparr>)"

section \<open>Execution\<close>

text \<open>What the last lines do with the rows of those above: skip that many, keep no more than that many.\<close>

fun paged :: "cypher_line \<Rightarrow> 'r list \<Rightarrow> 'r list" where
  "paged (Line _) rows = rows"
| "paged (Skip n) rows = drop n rows"
| "paged (Limit n) rows = take n rows"

definition plain :: "cypher_line list \<Rightarrow> string list" where
  "plain text = concat (map (\<lambda>l. case l of Line s \<Rightarrow> [s] | _ \<Rightarrow> []) text)"

definition execute_rows ::
  "(string list \<Rightarrow> (string \<times> cypher_param) list \<Rightarrow> 's \<Rightarrow> 'r list) \<Rightarrow> cypher_query \<Rightarrow> 's \<Rightarrow> 'r list" where
  "execute_rows rows_of q g = fold paged (cq_text q) (rows_of (plain (cq_text q)) (cq_params q) g)"

lemma paged_length: "length (paged l rows) \<le> length rows"
  by (cases l) simp_all

lemma fold_paged_length: "length (fold paged ls rows) \<le> length rows"
proof (induction ls arbitrary: rows)
  case (Cons l ls)
  then show ?case using paged_length [of l rows] order_trans by fastforce
qed simp

lemma limited_rows:
  assumes "Limit n \<in> set (cq_text q)"
  shows "length (execute_rows rows_of q g) \<le> n"
proof -
  obtain xs ys where q: "cq_text q = xs @ Limit n # ys" using split_list [OF assms] by blast
  show ?thesis unfolding execute_rows_def q by (simp, rule order_trans [OF fold_paged_length]) simp
qed

lemma post_stream_limit:
  assumes "post_stream src sorting ord tags p kind rule = Inr q" "pg_limit p = Some l"
  shows "Limit (min l MAX_QUERY_LIMIT) \<in> set (cq_text q)"
proof -
  obtain front where "cq_text q = front @ [Limit (min l MAX_QUERY_LIMIT)]"
    using assms by (cases src) (auto simp: post_stream_def Let_def)
  then show ?thesis by simp
qed

end
