(* ===== verification/Post_Stream.thy ===== *)
theory Post_Stream
  imports Stream_Query
begin

text \<open>
  The listing of posts (nexus-common/src/models/post/stream.rs and post/search.rs): which store serves a request, the
  readers of the sorted sets, the merge of the viewer's own posts into the global timeline, and the stream of
  the posts of many authors. The Cypher query is that of \<open>Stream_Query\<close>; the rows the graph finds
  for it, the follow lists and the parsing of collections are parameters.
\<close>

section \<open>Keys\<close>

record post_key_stream =
  pks_keys :: "string list"
  pks_last :: "nat option"

definition no_posts_stream :: post_key_stream where
  "no_posts_stream = \<lparr>pks_keys = [], pks_last = None\<rparr>"

text \<open>\<open>score.round() as u64\<close> on an integer score saturates.\<close>

definition f64_as_u64 :: "int \<Rightarrow> nat" where
  "f64_as_u64 s = nat (max 0 (min (2 ^ 64 - 1) s))"

definition from_scored_entries :: "(string \<times> int) list \<Rightarrow> post_key_stream" where
  "from_scored_entries entries =
     \<lparr>pks_keys = map fst entries,
      pks_last = (if entries = [] then None else Some (f64_as_u64 (snd (last entries))))\<rparr>"

section \<open>Stores and parameters\<close>

record ps_kv = zset_kv +
  ps_tf :: tf_kv

record ps_deps =
  pd_details :: "string \<Rightarrow> string \<Rightarrow> (ps_kv, model_error, (string \<times> string) option) run"
  pd_items :: "string \<Rightarrow> (string \<times> string) list option"
  pd_reach :: "post_reach \<Rightarrow> string \<Rightarrow> nat option \<Rightarrow> nat option \<Rightarrow> (ps_kv, model_error, string list option) run"
  pd_rows :: "string list \<Rightarrow> (string \<times> cypher_param) list \<Rightarrow> ps_kv \<Rightarrow> (string \<times> string \<times> int) list"

definition POST_TIMELINE_KEY :: string where "POST_TIMELINE_KEY = ''Posts:Global:Timeline''"
definition POST_PER_USER_KEY :: "string \<Rightarrow> string" where "POST_PER_USER_KEY u = ''Posts:AuthorParents:'' @ u"
definition POST_REPLIES_PER_USER_KEY :: "string \<Rightarrow> string" where "POST_REPLIES_PER_USER_KEY u = ''Posts:AuthorReplies:'' @ u"
definition POST_REPLIES_PER_POST_KEY :: "string \<Rightarrow> string \<Rightarrow> string" where
  "POST_REPLIES_PER_POST_KEY a p = ''Posts:PostReplies:'' @ a @ '':'' @ p"
definition BOOKMARKS_USER_KEY :: "string \<Rightarrow> string" where "BOOKMARKS_USER_KEY u = ''Bookmarks:User:'' @ u"

section \<open>Readers of the sorted sets\<close>

text \<open>
  A read of one sorted set: \<open>try_from_index_sorted_set\<close> with the absent set as an empty list.
\<close>

definition zread where
  "zread key start fin skip limit ord =
     andthen (try_from_index_sorted_set key start fin skip limit ord) (\<lambda>rows. pass (unwrap_or [] rows))"

definition get_global_posts_keys :: "stream_sorting \<Rightarrow> sort_order \<Rightarrow> pagination \<Rightarrow> (ps_kv, redis_error, post_key_stream) run" where
  "get_global_posts_keys sorting ord p =
     andthen (zread (case sorting of TotalEngagement \<Rightarrow> POST_TOTAL_ENGAGEMENT_KEY | Timeline \<Rightarrow> POST_TIMELINE_KEY)
       (pg_start p) (pg_end p) (pg_skip p) (pg_limit p) ord) (\<lambda>rows. pass (from_scored_entries rows))"

text \<open>The order of the request has no part in it: \<open>get_by_label\<close> reads in descending order.\<close>

definition get_by_label :: "string \<Rightarrow> stream_sorting option \<Rightarrow> pagination \<Rightarrow> (ps_kv, redis_error, (string \<times> nat) list option) run" where
  "get_by_label label sort_by p =
     andthen (try_from_index_sorted_set
         (case sort_by of Some TotalEngagement \<Rightarrow> TAG_GLOBAL_POST_ENGAGEMENT label | _ \<Rightarrow> TAG_GLOBAL_POST_TIMELINE label)
         (pg_start p) (pg_end p) (pg_skip p) (pg_limit p) Descending)
       (\<lambda>rows. pass (map_option (map (\<lambda>(k, s). (k, f64_as_u64 s))) rows))"

definition get_posts_keys_by_tag :: "string \<Rightarrow> stream_sorting \<Rightarrow> pagination \<Rightarrow> (ps_kv, redis_error, post_key_stream) run" where
  "get_posts_keys_by_tag label sorting p =
     andthen (get_by_label label (Some sorting)
         (p\<lparr>pg_skip := Some (unwrap_or 0 (pg_skip p)), pg_limit := Some (unwrap_or 10 (pg_limit p))\<rparr>))
       (\<lambda>found. pass (case found of
            None \<Rightarrow> no_posts_stream
          | Some rows \<Rightarrow> \<lparr>pks_keys = map fst rows, pks_last = (if rows = [] then None else Some (snd (last rows)))\<rparr>))"

definition get_author_posts :: "string \<Rightarrow> sort_order \<Rightarrow> pagination \<Rightarrow> bool \<Rightarrow> (ps_kv, redis_error, post_key_stream) run" where
  "get_author_posts u ord p replies =
     andthen (try_from_index_sorted_set (if replies then POST_REPLIES_PER_USER_KEY u else POST_PER_USER_KEY u)
         (pg_start p) (pg_end p) (pg_skip p) (pg_limit p) ord)
       (\<lambda>found. pass (case found of
            None \<Rightarrow> no_posts_stream
          | Some rows \<Rightarrow> from_scored_entries (map (\<lambda>(i, s). (u @ '':'' @ i, s)) rows)))"

definition get_bookmarked_posts :: "string \<Rightarrow> sort_order \<Rightarrow> pagination \<Rightarrow> ('a zset_kv_scheme, redis_error, post_key_stream) run" where
  "get_bookmarked_posts u ord p =
     andthen (zread (BOOKMARKS_USER_KEY u) (pg_start p) (pg_end p) (pg_skip p) (pg_limit p) ord)
       (\<lambda>rows. pass (from_scored_entries rows))"

definition get_post_replies :: "string \<Rightarrow> string \<Rightarrow> sort_order \<Rightarrow> pagination \<Rightarrow> (ps_kv, redis_error, post_key_stream) run" where
  "get_post_replies a i ord p =
     andthen (zread (POST_REPLIES_PER_POST_KEY a i) (pg_start p) (pg_end p) (pg_skip p) (pg_limit p) ord)
       (\<lambda>rows. pass (from_scored_entries rows))"

section \<open>Writers of the sorted sets\<close>

text \<open>Scores are the timestamps; the shared sets go through the trust filter instead.\<close>

definition add_to_per_user_sorted_set :: "string \<Rightarrow> string \<Rightarrow> int \<Rightarrow> ('a zset_kv_scheme, redis_error, unit) run" where
  "add_to_per_user_sorted_set author i indexed_at =
     put_index_sorted_set (POST_PER_USER_KEY author) [(f64_of_int indexed_at, i)]"

definition remove_from_per_user_sorted_set :: "string \<Rightarrow> string \<Rightarrow> ('a zset_kv_scheme, redis_error, unit) run" where
  "remove_from_per_user_sorted_set author i = remove_from_index_sorted_set (POST_PER_USER_KEY author) [i]"

definition add_to_post_reply_sorted_set :: "string \<times> string \<Rightarrow> string \<Rightarrow> string \<Rightarrow> int \<Rightarrow> ('a zset_kv_scheme, redis_error, unit) run" where
  "add_to_post_reply_sorted_set parent author i indexed_at =
     put_index_sorted_set (POST_REPLIES_PER_POST_KEY (fst parent) (snd parent)) [(f64_of_int indexed_at, author @ '':'' @ i)]"

definition remove_from_post_reply_sorted_set :: "string \<times> string \<Rightarrow> string \<Rightarrow> string \<Rightarrow> ('a zset_kv_scheme, redis_error, unit) run" where
  "remove_from_post_reply_sorted_set parent author i =
     remove_from_index_sorted_set (POST_REPLIES_PER_POST_KEY (fst parent) (snd parent)) [author @ '':'' @ i]"

definition add_to_replies_per_user_sorted_set :: "string \<Rightarrow> string \<Rightarrow> int \<Rightarrow> ('a zset_kv_scheme, redis_error, unit) run" where
  "add_to_replies_per_user_sorted_set author i indexed_at =
     put_index_sorted_set (POST_REPLIES_PER_USER_KEY author) [(f64_of_int indexed_at, i)]"

definition remove_from_replies_per_user_sorted_set :: "string \<Rightarrow> string \<Rightarrow> ('a zset_kv_scheme, redis_error, unit) run" where
  "remove_from_replies_per_user_sorted_set author i = remove_from_index_sorted_set (POST_REPLIES_PER_USER_KEY author) [i]"

definition add_to_bookmarks_sorted_set :: "int \<Rightarrow> string \<Rightarrow> string \<Rightarrow> string \<Rightarrow> ('a zset_kv_scheme, redis_error, unit) run" where
  "add_to_bookmarks_sorted_set indexed_at bookmarker i author =
     put_index_sorted_set (BOOKMARKS_USER_KEY bookmarker) [(f64_of_int indexed_at, author @ '':'' @ i)]"

definition remove_from_bookmarks_sorted_set :: "string \<Rightarrow> string \<Rightarrow> string \<Rightarrow> ('a zset_kv_scheme, redis_error, unit) run" where
  "remove_from_bookmarks_sorted_set bookmarker i author =
     remove_from_index_sorted_set (BOOKMARKS_USER_KEY bookmarker) [author @ '':'' @ i]"

section \<open>The merged timeline\<close>

fun dedup_members :: "(string \<times> int) list \<Rightarrow> (string \<times> int) list" where
  "dedup_members (x # y # xs) = (if fst x = fst y then dedup_members (x # xs) else x # dedup_members (y # xs))"
| "dedup_members xs = xs"

definition merge_scored :: "(string \<times> int) list \<Rightarrow> sort_order \<Rightarrow> (string \<times> int) list" where
  "merge_scored entries ord = dedup_members (zorder ord entries)"

definition own_row :: "string \<Rightarrow> string \<times> int \<Rightarrow> string \<times> int" where
  "own_row viewer row = (viewer @ '':'' @ fst row, snd row)"

definition get_merged_timeline :: "string \<Rightarrow> sort_order \<Rightarrow> pagination \<Rightarrow> (ps_kv, redis_error, post_key_stream) run" where
  "get_merged_timeline viewer ord p =
     (let skip = unwrap_or 0 (pg_skip p); window = map_option (\<lambda>l. skip + l) (pg_limit p) in
      andthen (zread POST_TIMELINE_KEY (pg_start p) (pg_end p) (Some 0) window ord) (\<lambda>everyone.
      andthen (zread (POST_PER_USER_KEY viewer) (pg_start p) (pg_end p) (Some 0) window ord) (\<lambda>own.
        pass (from_scored_entries (take_opt (pg_limit p)
          (drop skip (merge_scored (everyone @ map (own_row viewer) own) ord)))))))"

section \<open>The posts of many authors\<close>

fun read_user_posts ::
  "string list \<Rightarrow> sort_order \<Rightarrow> int option \<Rightarrow> int option \<Rightarrow> (ps_kv, model_error, (int \<times> string) list) run" where
  "read_user_posts [] ord start fin = pass []"
| "read_user_posts (u # us) ord start fin =
     andthen (map_err KvOperationFailed (zread (POST_PER_USER_KEY u) start fin None None ord)) (\<lambda>rows.
     andthen (read_user_posts us ord start fin) (\<lambda>others.
       pass (map (\<lambda>(i, s). (s, u @ '':'' @ i)) rows @ others)))"

text \<open>The final sort is a stable one by falling score, whatever order was asked for.\<close>

definition select_page :: "nat option \<Rightarrow> nat option \<Rightarrow> (int \<times> string) list \<Rightarrow> (string \<times> int) list" where
  "select_page skip limit post_keys =
     (let rows = sort_key (\<lambda>r. - fst r) post_keys;
          start_index = min (unwrap_or 0 skip) (length rows);
          end_index = (case limit of Some l \<Rightarrow> min (start_index + l) (length rows) | None \<Rightarrow> length rows) in
      if end_index \<le> start_index then []
      else map (\<lambda>(s, k). (k, s)) (take (end_index - start_index) (drop start_index rows)))"

definition get_posts_for_user_ids ::
  "string list \<Rightarrow> sort_order \<Rightarrow> pagination \<Rightarrow> (ps_kv, model_error, (string \<times> int) list) run" where
  "get_posts_for_user_ids users ord p =
     andthen (read_user_posts (take 200 users) ord (pg_start p) (pg_end p)) (\<lambda>post_keys.
       pass (if post_keys = [] then [] else select_page (pg_skip p) (pg_limit p) post_keys))"

fun reach_of :: "stream_source \<Rightarrow> (post_reach \<times> string) option" where
  "reach_of (Following u) = Some (ReachFollowing, u)"
| "reach_of (Followers u) = Some (ReachFollowers, u)"
| "reach_of (Friends u) = Some (ReachFriends, u)"
| "reach_of _ = None"

definition get_posts_by_source :: "ps_deps \<Rightarrow> stream_source \<Rightarrow> sort_order \<Rightarrow> pagination \<Rightarrow> (ps_kv, model_error, post_key_stream) run" where
  "get_posts_by_source D src ord p =
     andthen (case reach_of src of
         Some (reach, obs) \<Rightarrow> andthen (pd_reach D reach obs None (Some 200)) (\<lambda>found. pass (unwrap_or [] found))
       | None \<Rightarrow> pass [])
       (\<lambda>found. let users = filter (\<lambda>u. Some u \<noteq> get_observer src) found in
          if users \<noteq> []
          then andthen (get_posts_for_user_ids users ord p) (\<lambda>rows. pass (from_scored_entries rows))
          else pass no_posts_stream)"

section \<open>Choosing the store\<close>

definition can_use_index :: "stream_sorting \<Rightarrow> stream_source \<Rightarrow> string list option \<Rightarrow> kind_filter option \<Rightarrow> bool" where
  "can_use_index sorting src tags kind =
     (if kind \<noteq> None then False
      else case src of
        Author _ \<Rightarrow> sorting = Timeline \<and> tags = None
      | AllPosts \<Rightarrow> (case tags of None \<Rightarrow> True | Some ts \<Rightarrow> length ts = 1)
      | Following _ \<Rightarrow> sorting = Timeline \<and> tags = None
      | Followers _ \<Rightarrow> sorting = Timeline \<and> tags = None
      | Friends _ \<Rightarrow> sorting = Timeline \<and> tags = None
      | Bookmarks _ \<Rightarrow> sorting = Timeline \<and> tags = None
      | PostReplies _ _ \<Rightarrow> True
      | AuthorReplies _ \<Rightarrow> True
      | _ \<Rightarrow> False)"

definition get_from_index ::
  "ps_deps \<Rightarrow> stream_source \<Rightarrow> stream_sorting \<Rightarrow> sort_order \<Rightarrow> string list option \<Rightarrow> pagination \<Rightarrow> string option \<Rightarrow>
   (ps_kv, model_error, post_key_stream) run" where
  "get_from_index D src sorting ord tags p own_posts_viewer =
     (case tags of
        None \<Rightarrow>
          (case src of
             AllPosts \<Rightarrow> (case own_posts_viewer of
                 Some viewer \<Rightarrow> map_err KvOperationFailed (get_merged_timeline viewer ord p)
               | None \<Rightarrow> map_err KvOperationFailed (get_global_posts_keys sorting ord p))
           | Bookmarks obs \<Rightarrow> map_err KvOperationFailed (get_bookmarked_posts obs ord p)
           | PostReplies i a \<Rightarrow> map_err KvOperationFailed (get_post_replies a i ord p)
           | Author a \<Rightarrow> map_err KvOperationFailed (get_author_posts a ord p False)
           | AuthorReplies a \<Rightarrow> map_err KvOperationFailed (get_author_posts a ord p True)
           | _ \<Rightarrow> get_posts_by_source D src ord p)
      | Some ts \<Rightarrow>
          if src = AllPosts \<and> length ts = 1
          then map_err KvOperationFailed (get_posts_keys_by_tag (hd ts) sorting p)
          else pass no_posts_stream)"

definition get_from_graph ::
  "ps_deps \<Rightarrow> stream_source \<Rightarrow> stream_sorting \<Rightarrow> sort_order \<Rightarrow> string list option \<Rightarrow> pagination \<Rightarrow> kind_filter option \<Rightarrow>
   trust_rule option \<Rightarrow> (ps_kv, model_error, post_key_stream) run" where
  "get_from_graph D src sorting ord tags p kind rule w =
     (case post_stream src sorting ord tags p kind rule of
        Inl e \<Rightarrow> (Inl (GraphOperationFailed e), w)
      | Inr q \<Rightarrow> map_err GraphOperationFailed (graph_call (\<lambda>g.
          (from_scored_entries (map (\<lambda>(a, i, s). (a @ '':'' @ i, f64_of_int s)) (execute_rows (pd_rows D) q g)), g))) w)"

definition get_collection_items_post_keys ::
  "ps_deps \<Rightarrow> string \<Rightarrow> string \<Rightarrow> nat option \<Rightarrow> nat option \<Rightarrow> (ps_kv, model_error, post_key_stream) run" where
  "get_collection_items_post_keys D a i skip limit =
     andthen (pd_details D a i) (\<lambda>found.
       pass (case found of
          None \<Rightarrow> no_posts_stream
        | Some (kind, content) \<Rightarrow>
            if kind \<noteq> ''collection'' then no_posts_stream
            else (case pd_items D content of
               None \<Rightarrow> no_posts_stream
             | Some items \<Rightarrow>
                 \<lparr>pks_keys = take_opt limit (drop (unwrap_or 0 skip) (map (\<lambda>(b, j). b @ '':'' @ j) items)), pks_last = None\<rparr>)))"

definition wants_own_posts :: "stream_source \<Rightarrow> stream_sorting \<Rightarrow> string list option \<Rightarrow> string option \<Rightarrow> string option" where
  "wants_own_posts src sorting tags viewer = (if src = AllPosts \<and> sorting = Timeline \<and> tags = None then viewer else None)"

definition own_posts_for :: "string option \<Rightarrow> (ps_kv, redis_error, string option) run" where
  "own_posts_for viewer =
     (case viewer of
        None \<Rightarrow> pass None
      | Some v \<Rightarrow> andthen (redis_call (\<lambda>g. (tf_filtered (ps_tf g), g))) (\<lambda>hides. pass (if hides then Some v else None)))"

definition trust_rule_for :: "stream_source \<Rightarrow> bool \<Rightarrow> string option \<Rightarrow> (ps_kv, redis_error, trust_rule option) run" where
  "trust_rule_for src use_index own_posts_viewer =
     (if use_index \<or> src \<noteq> AllPosts then pass None
      else andthen (redis_call (\<lambda>g. (tf_on (ps_tf g) \<and> tf_applied (ps_tf g) \<noteq> {}, g))) (\<lambda>applied.
        pass (if \<not> applied then None
              else Some (case own_posts_viewer of None \<Rightarrow> Ranked | Some v \<Rightarrow> RankedAndViewer v))))"

definition collect_post_keys ::
  "ps_deps \<Rightarrow> stream_source \<Rightarrow> pagination \<Rightarrow> sort_order \<Rightarrow> stream_sorting \<Rightarrow> string option \<Rightarrow> string list option \<Rightarrow>
   kind_filter option \<Rightarrow> (ps_kv, model_error, post_key_stream) run" where
  "collect_post_keys D src p ord sorting viewer tags kind =
     (case src of
        Collection a i \<Rightarrow> get_collection_items_post_keys D a i (pg_skip p) (pg_limit p)
      | _ \<Rightarrow>
          let use_index = can_use_index sorting src tags kind in
          andthen (map_err KvOperationFailed (own_posts_for (wants_own_posts src sorting tags viewer))) (\<lambda>own_posts_viewer.
          andthen (map_err KvOperationFailed (trust_rule_for src use_index own_posts_viewer)) (\<lambda>rule.
            if use_index then get_from_index D src sorting ord tags p own_posts_viewer
            else get_from_graph D src sorting ord tags p kind rule)))"

definition get_post_keys where
  "get_post_keys D src p ord sorting viewer tags kind =
     andthen (collect_post_keys D src p ord sorting viewer tags kind) (\<lambda>ks.
       pass (if pks_keys ks = [] then None else Some ks))"

text \<open>
  The views of listed posts: a key without a colon is skipped, a post without a view is left out. The view of a post is a parameter.
\<close>

fun split_key :: "string \<Rightarrow> (string \<times> string) option" where
  "split_key [] = None"
| "split_key (c # cs) =
     (if c = CHR '':'' then Some ([], cs) else map_option (\<lambda>(a, i). (c # a, i)) (split_key cs))"

fun from_listed_post_ids ::
  "(string \<Rightarrow> string \<Rightarrow> string option \<Rightarrow> (ps_kv, model_error, 'v option) run) \<Rightarrow> string option \<Rightarrow> string list \<Rightarrow>
   (ps_kv, model_error, 'v list) run" where
  "from_listed_post_ids view viewer [] = pass []"
| "from_listed_post_ids view viewer (k # ks) =
     (case split_key k of
        None \<Rightarrow> from_listed_post_ids view viewer ks
      | Some (a, i) \<Rightarrow>
          andthen (view a i viewer) (\<lambda>v. andthen (from_listed_post_ids view viewer ks) (\<lambda>vs.
            pass (case v of Some x \<Rightarrow> x # vs | None \<Rightarrow> vs))))"

definition get_posts where
  "get_posts D view src p ord sorting viewer tags kind =
     andthen (collect_post_keys D src p ord sorting viewer tags kind) (\<lambda>ks.
       if pks_keys ks = [] then pass None
       else andthen (from_listed_post_ids view viewer (pks_keys ks)) (\<lambda>vs. pass (Some vs)))"


section \<open>A merge of two pages is a page of one set\<close>

lemma zorder_weak: "sorted_wrt (\<lambda>a b. a = b \<or> before ord a b) (zorder ord xs)"
proof -
  have asc: "sorted_wrt (\<lambda>a b. rank_key a \<le> rank_key b) (sort_key rank_key xs)"
    using sorted_sort_key [of rank_key xs] by (simp only: sorted_map)
  have step: "a = b \<or> rank_key a < rank_key b" if "rank_key a \<le> rank_key b" for a b :: "string \<times> int"
    using that by (metis less_le prod.collapse prod.inject)
  show ?thesis
  proof (cases ord)
    case Ascending
    show ?thesis unfolding zorder_def before_def Ascending sort_order.case
      by (rule sorted_wrt_mono_rel [OF _ asc]) (rule step)
  next
    case Descending
    have desc: "sorted_wrt (\<lambda>a b. rank_key b \<le> rank_key a) (rev (sort_key rank_key xs))"
      using asc by (simp only: sorted_wrt_rev)
    show ?thesis unfolding zorder_def before_def Descending sort_order.case
      by (rule sorted_wrt_mono_rel [OF _ desc]) (use step in blast)
  qed
qed

lemma dedup_sorted:
  assumes asym: "\<And>a b. R a b \<Longrightarrow> \<not> R b a"
  shows "sorted_wrt (\<lambda>a b. a = b \<or> R a b) xs \<Longrightarrow> inj_on fst (set xs) \<Longrightarrow>
    sorted_wrt R (dedup_members xs) \<and> set (dedup_members xs) = set xs"
proof (induction xs rule: dedup_members.induct)
  case (1 x y xs)
  have sub: "inj_on fst (set (y # xs))" "inj_on fst (set (x # xs))"
    by (rule inj_on_subset [OF "1.prems"(2)]; auto)+
  have so: "sorted_wrt (\<lambda>a b. a = b \<or> R a b) (y # xs)" "\<forall>z \<in> set (y # xs). x = z \<or> R x z"
    using "1.prems"(1) unfolding sorted_wrt.simps(2) [of _ x] by blast+
  have sx: "sorted_wrt (\<lambda>a b. a = b \<or> R a b) (x # xs)"
    using so unfolding sorted_wrt.simps(2) by (meson list.set_intros(2))
  show ?case
  proof (cases "fst x = fst y")
    case True
    then have "x = y" using "1.prems"(2) unfolding inj_on_def by (meson list.set_intros)
    then have "set (x # y # xs) = set (x # xs)" by auto
    moreover have "dedup_members (x # y # xs) = dedup_members (x # xs)" using True by simp
    ultimately show ?thesis using "1.IH"(1) [OF True sx sub(2)] by presburger
  next
    case False
    note ih = "1.IH"(2) [OF False so(1) sub(1)]
    have "R x z" if z: "z \<in> set (y # xs)" for z
    proof (rule ccontr)
      assume n: "\<not> R x z"
      then have "x = z" using so(2) z by blast
      then have "R y x" using so(1) z False by auto
      moreover have "R x y" using so(2) False by auto
      ultimately show False using asym by blast
    qed
    moreover have "dedup_members (x # y # xs) = x # dedup_members (y # xs)" using False by simp
    ultimately show ?thesis using ih by (metis list.simps(15) sorted_wrt.simps(2))
  qed
qed simp_all

lemma merge_scored_sorted:
  assumes "inj_on fst (set xs)"
  shows "sorted_wrt (before ord) (merge_scored xs ord)" "set (merge_scored xs ord) = set xs"
proof -
  have "inj_on fst (set (zorder ord xs))" using assms by simp
  note d = dedup_sorted [OF before_asym zorder_weak this]
  show "sorted_wrt (before ord) (merge_scored xs ord)" unfolding merge_scored_def using d by blast
  show "set (merge_scored xs ord) = set xs" unfolding merge_scored_def using d by (metis set_zorder)
qed

lemma prefix_less: "(v @ x < v @ (y :: string)) = (x < y)"
  by (induction v) simp_all

lemma own_row_before: "before ord (own_row v a) (own_row v b) = before ord a b"
  by (cases ord) (auto simp: before_def own_row_def less_prod_def prefix_less)

lemma own_row_inj: "inj_on (own_row v) A"
  by (auto simp: inj_on_def own_row_def prod_eq_iff)

lemma own_rows_order:
  assumes "distinct z"
  shows "map (own_row v) (zorder ord z) = zorder ord (map (own_row v) z)"
proof (rule zorder_unique)
  show "distinct (map (own_row v) z)" using assms by (simp add: distinct_map own_row_inj)
  show "sorted_wrt (before ord) (map (own_row v) (zorder ord z))"
    using zorder_sorted [OF assms, of ord] by (simp add: sorted_wrt_map own_row_before)
qed simp

lemma own_rows_bounded: "filter (in_bounds mx mn) (map (own_row v) z) = map (own_row v) (filter (in_bounds mx mn) z)"
proof -
  have "in_bounds mx mn \<circ> own_row v = in_bounds mx mn" by (simp add: fun_eq_iff in_bounds_def own_row_def split: option.split)
  then show ?thesis by (simp add: filter_map)
qed

text \<open>The set the merged timeline stands for: the global one with the viewer's posts added.\<close>

definition with_own_posts :: "string \<Rightarrow> (string \<times> int) list \<Rightarrow> (string \<times> int) list \<Rightarrow> (string \<times> int) list" where
  "with_own_posts v everyone own = everyone @ filter (\<lambda>r. fst r \<notin> fst ` set everyone) (map (own_row v) own)"

text \<open>A post of the viewer that both sets hold has the same score in both.\<close>

definition scores_agree :: "string \<Rightarrow> (string \<times> int) list \<Rightarrow> (string \<times> int) list \<Rightarrow> bool" where
  "scores_agree v everyone own \<longleftrightarrow> (\<forall>a \<in> set everyone. \<forall>b \<in> set own. fst a = fst (own_row v b) \<longrightarrow> snd a = snd b)"

lemma set_with_own_posts:
  assumes "scores_agree v everyone own"
  shows "set (with_own_posts v everyone own) = set everyone \<union> own_row v ` set own"
proof -
  have "own_row v b \<in> set everyone" if b: "b \<in> set own" and m: "fst (own_row v b) \<in> fst ` set everyone" for b
  proof -
    obtain a where a: "a \<in> set everyone" "fst a = fst (own_row v b)" using m by force
    then have "a = own_row v b" using assms b by (auto simp: scores_agree_def own_row_def prod_eq_iff)
    then show ?thesis using a by simp
  qed
  then show ?thesis unfolding with_own_posts_def set_append set_filter set_map by blast
qed

lemma with_own_posts_keys:
  assumes "dkeys everyone" "dkeys own"
  shows "dkeys (with_own_posts v everyone own)"
proof -
  have "dkeys (map (own_row v) own)" using assms(2) by (simp add: own_row_def distinct_map inj_on_def comp_def)
  then have "dkeys (filter (\<lambda>r. fst r \<notin> fst ` set everyone) (map (own_row v) own))" by (rule dkeys_filter)
  moreover have "fst ` set everyone \<inter> fst ` set (filter (\<lambda>r. fst r \<notin> fst ` set everyone) xs) = {}" for xs :: "(string \<times> int) list"
  proof (rule ccontr)
    assume "fst ` set everyone \<inter> fst ` set (filter (\<lambda>r. fst r \<notin> fst ` set everyone) xs) \<noteq> {}"
    then obtain r where "fst r \<in> fst ` set everyone" "r \<in> set (filter (\<lambda>r. fst r \<notin> fst ` set everyone) xs)" by force
    then show False by simp
  qed
  ultimately show ?thesis using assms(1) by (simp only: with_own_posts_def map_append distinct_append set_map)
qed

lemma dkeys_distinct: "dkeys z \<Longrightarrow> distinct z"
  by (simp add: distinct_map)

lemma merged_page:
  assumes ge: "dkeys everyone" and go: "dkeys own" and agree: "scores_agree v everyone own"
  shows "take l (drop k (merge_scored (zpage mn mx (Some 0) (Some (k + l)) ord everyone @
      map (own_row v) (zpage mn mx (Some 0) (Some (k + l)) ord own)) ord))
    = zpage mn mx (Some k) (Some l) ord (with_own_posts v everyone own)"
proof -
  let ?U = "with_own_posts v everyone own" and ?own = "map (own_row v) own"
  let ?ok = "in_bounds mx mn"
  define S where "S = filter ?ok (zorder ord ?U)"
  define A where "A = filter ?ok (zorder ord everyone)"
  define B where "B = filter ?ok (zorder ord ?own)"
  have dk: "dkeys ?U" by (rule with_own_posts_keys [OF ge go])
  have dist: "distinct everyone" "distinct own" "distinct ?own" "distinct ?U"
    using ge go dk by (auto simp: dkeys_distinct distinct_map own_row_inj)
  have sorted: "sorted_wrt (before ord) S" "sorted_wrt (before ord) A" "sorted_wrt (before ord) B"
    unfolding S_def A_def B_def using zorder_sorted dist by (simp_all add: sorted_wrt_filter)
  have sets: "set S = {x \<in> set ?U. ?ok x}" "set A = {x \<in> set everyone. ?ok x}" "set B = {x \<in> set ?own. ?ok x}"
    by (auto simp: S_def A_def B_def)
  have U: "set ?U = set everyone \<union> set ?own" using set_with_own_posts [OF agree] by simp
  have partA: "A = filter (\<lambda>x. x \<in> set everyone) S" and partB: "B = filter (\<lambda>x. x \<in> set ?own) S"
    using sorted sets U by (auto intro!: ordered_unique [of "before ord"] sorted_wrt_filter simp: before_asym)
  have own: "map (own_row v) (zpage mn mx (Some 0) (Some (k + l)) ord own) = take (k + l) B"
    by (simp add: zpage_def unwrap_or_def B_def take_map own_rows_bounded own_rows_order [OF dist(2), symmetric])
  let ?M = "merge_scored (take (k + l) A @ take (k + l) B) ord"
  have "set (take (k + l) A @ take (k + l) B) \<subseteq> set ?U"
    using sets U by (auto dest!: in_set_takeD)
  then have "inj_on fst (set (take (k + l) A @ take (k + l) B))"
    using dk by (meson distinct_map inj_on_subset)
  note M = merge_scored_sorted [OF this, of ord]
  let ?P = "\<lambda>x. x \<in> set (take (k + l) A) \<union> set (take (k + l) B)"
  have "?M = filter ?P S"
  proof (rule ordered_unique [OF before_asym M(1)])
    show "sorted_wrt (before ord) (filter ?P S)" by (rule sorted_wrt_filter [OF sorted(1)])
    show "set ?M = set (filter ?P S)" unfolding M(2) using sets U by (auto dest: in_set_takeD)
  qed
  moreover have "take (k + l) (filter ?P S) = take (k + l) S"
  proof (rule take_filter_same)
    fix x assume x: "x \<in> set (take (k + l) S)"
    then have "x \<in> set everyone \<or> x \<in> set ?own" using sets(1) U by (auto dest: in_set_takeD)
    then show "?P x" using in_take_filter [OF x] partA partB by fastforce
  qed
  ultimately have "take (k + l) ?M = take (k + l) S" by simp
  then have "take l (drop k ?M) = take l (drop k S)" by (metis add.commute take_drop)
  then show ?thesis unfolding own by (simp add: zpage_def unwrap_or_def S_def A_def)
qed

section \<open>Properties of the readers\<close>

lemma zread_steady:
  fixes w :: "'a zset_kv_scheme world"
  assumes "zread key start fin skip limit ord w = (Inr rows, w')" "steady view w"
    and "\<And>g. view g = view (kv w) \<Longrightarrow> z_sets g (sorted_key key) = z"
  shows "steady view w' \<and> view (kv w') = view (kv w) \<and> rows = zpage fin start skip limit ord z"
proof -
  obtain x where x: "get_range (sorted_key key) fin start skip limit ord w = (Inr x, w')" "rows = unwrap_or [] x"
    using assms(1) by (auto simp: zread_def try_from_index_sorted_set_def elim: andthen_Inr)
  then show ?thesis using get_range_steady [OF x(1) assms(2,3)] by simp
qed

text \<open>
  C21. The viewer's timeline with their own posts merged in is, page by page, the timeline of one sorted set that
  holds the global entries and the viewer's posts: reading a window of each set, merging, removing duplicates and slicing gives
  exactly the rows that set would give for the same order, bounds, skip and limit, while the two sets stay as they are.
\<close>

theorem merged_timeline_is_one_sorted_set:
  fixes w :: "ps_kv world" and viewer :: string
  defines "everyone \<equiv> z_sets (kv w) (sorted_key POST_TIMELINE_KEY)"
    and "own \<equiv> z_sets (kv w) (sorted_key (POST_PER_USER_KEY viewer))"
  assumes "get_merged_timeline viewer ord p w = (Inr ks, w')"
    and "steady (\<lambda>g. (z_sets g (sorted_key POST_TIMELINE_KEY), z_sets g (sorted_key (POST_PER_USER_KEY viewer)))) w"
    and "dkeys everyone" "dkeys own" "scores_agree viewer everyone own" "pg_limit p = Some l"
  shows "ks = from_scored_entries
    (zpage (pg_end p) (pg_start p) (Some (unwrap_or 0 (pg_skip p))) (Some l) ord (with_own_posts viewer everyone own))"
proof -
  let ?view = "\<lambda>g :: ps_kv. (z_sets g (sorted_key POST_TIMELINE_KEY), z_sets g (sorted_key (POST_PER_USER_KEY viewer)))"
  let ?k = "unwrap_or 0 (pg_skip p)"
  obtain a b w1 where a: "zread POST_TIMELINE_KEY (pg_start p) (pg_end p) (Some 0) (Some (?k + l)) ord w = (Inr a, w1)"
    and b: "zread (POST_PER_USER_KEY viewer) (pg_start p) (pg_end p) (Some 0) (Some (?k + l)) ord w1 = (Inr b, w')"
    and ks: "ks = from_scored_entries (take l (drop ?k (merge_scored (a @ map (own_row viewer) b) ord)))"
    using assms(3,8) by (auto simp: get_merged_timeline_def Let_def elim!: andthen_Inr)
  have A: "steady ?view w1" "?view (kv w1) = ?view (kv w)" "a = zpage (pg_end p) (pg_start p) (Some 0) (Some (?k + l)) ord everyone"
    using zread_steady [OF a assms(4), of everyone] by (auto simp: everyone_def)
  have "b = zpage (pg_end p) (pg_start p) (Some 0) (Some (?k + l)) ord own"
    using zread_steady [OF b A(1), of own] A(2) by (auto simp: own_def)
  then show ?thesis unfolding ks A(3) using merged_page [OF assms(5-7)] by simp
qed

definition demo_posts :: ps_kv where
  "demo_posts = \<lparr>nt_sets = (\<lambda>_. []), z_sets = (\<lambda>k. if k = sorted_key POST_TIMELINE_KEY then [(''a:1'', 5), (''b:2'', 3), (''c:3'', 3)]
       else if k = sorted_key (POST_PER_USER_KEY ''b'') then [(''2'', 3), (''9'', 4)] else []),
     ps_tf = \<lparr>tf_on = True, tf_filtered = True, tf_showing = False, tf_ranking = {''a''}, tf_applied = {''a''},
       tf_sets = \<lambda>_ _. None, tf_posts = []\<rparr>\<rparr>"

definition demo_page :: pagination where
  "demo_page = \<lparr>pg_skip = Some 1, pg_limit = Some 2, pg_start = None, pg_end = None\<rparr>"

lemma demo_keys [simp]: "sorted_key (POST_PER_USER_KEY ''b'') \<noteq> sorted_key POST_TIMELINE_KEY"
  by (simp add: sorted_key_def POST_TIMELINE_KEY_def POST_PER_USER_KEY_def)

theorem merged_timeline_is_one_sorted_set_witness:
  "fst (get_merged_timeline ''b'' Descending demo_page (calm_world demo_posts)) = Inr
     (from_scored_entries (zpage None None (Some 1) (Some 2) Descending [(''a:1'', 5), (''b:2'', 3), (''c:3'', 3), (''b:9'', 4)]))"
proof -
  let ?w = "calm_world demo_posts"
  obtain ks w' where r: "get_merged_timeline ''b'' Descending demo_page ?w = (Inr ks, w')"
    by (simp add: get_merged_timeline_def Let_def andthen_def zread_def try_from_index_sorted_set_def get_range_def redis_call_def
        env_step_def calm_world_def demo_posts_def demo_page_def pass_def unwrap_or_def)
  have "ks = from_scored_entries (zpage (pg_end demo_page) (pg_start demo_page) (Some (unwrap_or 0 (pg_skip demo_page))) (Some 2) Descending
      (with_own_posts ''b'' (z_sets (kv ?w) (sorted_key POST_TIMELINE_KEY)) (z_sets (kv ?w) (sorted_key (POST_PER_USER_KEY ''b'')))))"
    by (rule merged_timeline_is_one_sorted_set [OF r calm_steady])
      (simp_all add: demo_posts_def demo_page_def scores_agree_def own_row_def)
  then show ?thesis using r by (simp add: demo_page_def demo_posts_def with_own_posts_def own_row_def unwrap_or_def)
qed

section \<open>The posts of many authors\<close>

definition posts_of_users :: "string list \<Rightarrow> sort_order \<Rightarrow> pagination \<Rightarrow> ps_kv \<Rightarrow> (string \<times> int) list" where
  "posts_of_users users ord p g =
     concat (map (\<lambda>u. map (own_row u) (zpage (pg_end p) (pg_start p) None None ord (z_sets g (sorted_key (POST_PER_USER_KEY u))))) users)"

abbreviation users_view :: "string list \<Rightarrow> ps_kv \<Rightarrow> (string \<times> int) list list" where
  "users_view users g \<equiv> map (\<lambda>u. z_sets g (sorted_key (POST_PER_USER_KEY u))) users"

lemma read_user_posts_steady:
  assumes "read_user_posts us ord (pg_start p) (pg_end p) w = (Inr rows, w')" "steady (users_view users) w" "set us \<subseteq> set users"
  shows "map prod.swap rows = posts_of_users us ord p (kv w)"
  using assms
proof (induction us arbitrary: w rows)
  case Nil
  then show ?case by (simp add: posts_of_users_def)
next
  case (Cons u us)
  obtain a b w1 where a: "zread (POST_PER_USER_KEY u) (pg_start p) (pg_end p) None None ord w = (Inr a, w1)"
    and b: "read_user_posts us ord (pg_start p) (pg_end p) w1 = (Inr b, w')" and rows: "rows = map (\<lambda>(i, s). (s, u @ '':'' @ i)) a @ b"
    using Cons.prems(1) by (auto elim!: andthen_Inr)
  have u: "u \<in> set users" using Cons.prems(3) by simp
  have same: "z_sets g (sorted_key (POST_PER_USER_KEY v)) = z_sets g' (sorted_key (POST_PER_USER_KEY v))"
    if "users_view users g = users_view users g'" "v \<in> set users" for g g' v
    using that unfolding map_eq_conv by blast
  have zr: "steady (users_view users) w1 \<and> users_view users (kv w1) = users_view users (kv w) \<and>
      a = zpage (pg_end p) (pg_start p) None None ord (z_sets (kv w) (sorted_key (POST_PER_USER_KEY u)))"
    by (rule zread_steady [OF a Cons.prems(2)]) (rule same [OF _ u])
  have "map (\<lambda>v. map (own_row v) (zpage (pg_end p) (pg_start p) None None ord (z_sets (kv w1) (sorted_key (POST_PER_USER_KEY v))))) us
      = map (\<lambda>v. map (own_row v) (zpage (pg_end p) (pg_start p) None None ord (z_sets (kv w) (sorted_key (POST_PER_USER_KEY v))))) us"
    using same [of "kv w1" "kv w"] zr Cons.prems(3) unfolding map_eq_conv by (metis insert_iff list.simps(15) subsetD)
  then have "posts_of_users us ord p (kv w1) = posts_of_users us ord p (kv w)" by (simp only: posts_of_users_def)
  then have b': "map prod.swap b = posts_of_users us ord p (kv w)" using Cons.IH [OF b] zr Cons.prems(3) by simp
  have "map prod.swap (map (\<lambda>(i, s). (s, u @ '':'' @ i)) a) = map (own_row u) a" by (auto simp: own_row_def)
  then show ?case unfolding rows map_append b' using zr by (simp add: posts_of_users_def)
qed

lemma insort_key_map: "insort_key f (h x) (map h xs) = map h (insort_key (\<lambda>y. f (h y)) x xs)"
  by (induction xs) auto

lemma sort_key_map: "sort_key f (map h xs) = map h (sort_key (\<lambda>y. f (h y)) xs)"
  by (induction xs) (simp_all add: insort_key_map)

text \<open>The index arithmetic of the page is a slice.\<close>

lemma select_page_slice:
  "select_page skip limit keys = take_opt limit (drop (unwrap_or 0 skip) (sort_key (\<lambda>r. - snd r) (map prod.swap keys)))"
proof -
  let ?rows = "sort_key (\<lambda>r. - fst r) keys"
  have swap: "sort_key (\<lambda>r. - snd r) (map prod.swap keys) = map prod.swap ?rows" by (simp add: sort_key_map)
  have pair: "(\<lambda>(s, k). (k, s)) = prod.swap" by (auto simp: fun_eq_iff)
  show ?thesis
  proof (cases limit)
    case None
    then show ?thesis unfolding swap by (auto simp: select_page_def Let_def pair drop_map min_def)
  next
    case (Some l)
    have "take (min (k + l) n - k) xs = take l xs" if "length xs = n - k" "k \<le> n" for k n and xs :: "(int \<times> string) list"
      using that by (cases "k + l \<le> n") (auto simp: min_def)
    then show ?thesis using Some unfolding swap by (auto simp: select_page_def Let_def pair drop_map take_map min_def)
  qed
qed

text \<open>
  The stream of the posts of followed users is one list cut into pages: the posts that the sets of the first 200 users hold within the
  bounds, at most 1000 of each, in falling order of their score with ties in the order of the users; a page is the slice that skip and limit
  name. The order of the request decides only which posts of a user come first among equals: the rows fall in every case.
\<close>

theorem followed_stream_is_sliced_newest_first:
  assumes "get_posts_for_user_ids users ord p w = (Inr rows, w')" "steady (users_view (take 200 users)) w"
  shows "rows = take_opt (pg_limit p) (drop (unwrap_or 0 (pg_skip p)) (sort_key (\<lambda>r. - snd r) (posts_of_users (take 200 users) ord p (kv w)))) \<and>
    sorted_wrt (\<lambda>a b. snd b \<le> snd a) rows"
proof -
  let ?all = "posts_of_users (take 200 users) ord p (kv w)"
  obtain keys where k: "read_user_posts (take 200 users) ord (pg_start p) (pg_end p) w = (Inr keys, w')"
      "rows = (if keys = [] then [] else select_page (pg_skip p) (pg_limit p) keys)"
    using assms(1) by (auto simp: get_posts_for_user_ids_def elim!: andthen_Inr)
  have swap: "map prod.swap keys = ?all" by (rule read_user_posts_steady [OF k(1) assms(2)]) simp
  have rows: "rows = take_opt (pg_limit p) (drop (unwrap_or 0 (pg_skip p)) (sort_key (\<lambda>r. - snd r) ?all))"
    using k(2) swap by (cases "keys = []") (simp_all add: select_page_slice take_opt_def split: option.split)
  have "sorted_wrt (\<lambda>a b. - snd a \<le> - snd b) (sort_key (\<lambda>r. - snd r) ?all)"
    using sorted_sort_key [of "\<lambda>r. - snd r" ?all] by (simp only: sorted_map)
  then have "sorted_wrt (\<lambda>a b. snd b \<le> snd a) (sort_key (\<lambda>r. - snd r) ?all)" by simp
  then show ?thesis using rows
    by (cases "pg_limit p") (simp_all add: sorted_wrt_drop sorted_wrt_take)
qed

theorem followed_stream_is_sliced_newest_first_witness:
  "fst (get_posts_for_user_ids [''b''] Ascending demo_page (calm_world demo_posts)) = Inr [(''b:2'', 3)]"
proof -
  obtain rows w' where r: "get_posts_for_user_ids [''b''] Ascending demo_page (calm_world demo_posts) = (Inr rows, w')"
    by (simp add: get_posts_for_user_ids_def andthen_def zread_def try_from_index_sorted_set_def get_range_def redis_call_def
        env_step_def calm_world_def demo_posts_def demo_page_def pass_def map_err_def)
  show ?thesis using followed_stream_is_sliced_newest_first [OF r] r
    by (simp add: demo_page_def demo_posts_def posts_of_users_def own_row_def unwrap_or_def zpage_def zorder_def in_bounds_def)
qed

text \<open>
  C39. A stream of replies that is filtered by tags is empty whatever the stores hold: the choice of the store claims an index for it,
  and the reader of the indexes has none for replies with tags.
\<close>

theorem tagged_reply_streams_are_empty:
  "get_post_keys D (PostReplies i a) p ord sorting viewer (Some ts) None w = (Inr None, w) \<and>
   get_post_keys D (AuthorReplies a) p ord sorting viewer (Some ts) None w = (Inr None, w)"
  by (simp add: get_post_keys_def collect_post_keys_def can_use_index_def wants_own_posts_def own_posts_for_def
      trust_rule_for_def get_from_index_def no_posts_stream_def andthen_def pass_def map_err_def Let_def)

lemma alist_update_length: "length (AList.update k v xs) \<le> Suc (length xs)"
  by (induction xs) auto

text \<open>
  C28. What a writer of the author's set stores, the reader lists, and what it removes, the reader does not: a root post added to the set of
  its author is a key of a page without bounds that is long enough, and after its removal it is on no page.
\<close>

theorem written_posts_are_listed:
  fixes w :: "ps_kv world"
  assumes "steady (\<lambda>g. z_sets g (sorted_key (POST_PER_USER_KEY a))) w" "dkeys (z_sets (kv w) (sorted_key (POST_PER_USER_KEY a)))"
    and "add_to_per_user_sorted_set a i t w = (Inr (), w1)" "get_author_posts a ord p False w1 = (Inr ks, w2)"
    and "pg_start p = None" "pg_end p = None" "pg_skip p = Some 0" "pg_limit p = Some l"
      "length (z_sets (kv w) (sorted_key (POST_PER_USER_KEY a))) < l"
    and "remove_from_per_user_sorted_set a i w2 = (Inr (), w3)" "get_author_posts a ord' p' False w3 = (Inr ks', w4)"
  shows "a @ '':'' @ i \<in> set (pks_keys ks) \<and> a @ '':'' @ i \<notin> set (pks_keys ks')"
proof
  let ?key = "sorted_key (POST_PER_USER_KEY a)"
  let ?view = "\<lambda>g :: ps_kv. z_sets g ?key"
  have put: "steady ?view w1" "?view (kv w1) = AList.update i (f64_of_int t) (?view (kv w))"
    using zset_put_steady [OF assms(3) [unfolded add_to_per_user_sorted_set_def] assms(1)] by simp_all
  have listed: "steady ?view v' \<and> ?view (kv v') = ?view (kv v) \<and>
      set (pks_keys s) = (\<lambda>r. a @ '':'' @ fst r) ` set (zpage (pg_end q) (pg_start q) (pg_skip q) (pg_limit q) o' (?view (kv v)))"
    if run: "get_author_posts a o' q False v = (Inr s, v')" and calm: "steady ?view v" for o' q s v v'
  proof -
    obtain x where x: "get_range ?key (pg_end q) (pg_start q) (pg_skip q) (pg_limit q) o' v = (Inr x, v')"
      "s = (case x of None \<Rightarrow> no_posts_stream | Some rows \<Rightarrow> from_scored_entries (map (\<lambda>(i, s). (a @ '':'' @ i, s)) rows))"
      using run by (auto simp: get_author_posts_def try_from_index_sorted_set_def elim!: andthen_Inr)
    have "pks_keys s = map (\<lambda>r. a @ '':'' @ fst r) (unwrap_or [] x)"
      unfolding x(2) by (cases x) (simp_all add: unwrap_or_def no_posts_stream_def from_scored_entries_def case_prod_beta)
    then show ?thesis using get_range_steady [OF x(1) calm, of "?view (kv v)"] by simp
  qed
  note one = listed [OF assms(4) put(1)]
  have "length (?view (kv w1)) \<le> l" using assms(9) alist_update_length [of i "f64_of_int t" "?view (kv w)"] put(2) by simp
  then have page: "set (zpage None None (Some 0) (Some l) ord (?view (kv w1))) = set (?view (kv w1))"
    by (simp add: zpage_def unwrap_or_def in_bounds_def)
  have "(i, f64_of_int t) \<in> set (?view (kv w1))"
    using assms(2) put(2) by (simp add: map_of_iff_set [symmetric])
  then show "a @ '':'' @ i \<in> set (pks_keys ks)"
    using one page assms(5-8) by (force simp: image_iff)
  have del: "steady ?view w3" "?view (kv w3) = AList.delete i (?view (kv w2))"
    using zset_del_steady [OF assms(10) [unfolded remove_from_per_user_sorted_set_def]] one by simp_all
  have "set (zpage mn mx k m ord' z) \<subseteq> set z" for mn mx k m z
    by (auto simp: zpage_def dest!: in_set_takeD in_set_dropD)
  then show "a @ '':'' @ i \<notin> set (pks_keys ks')"
    using listed [OF assms(11) del(1)] del(2) by force
qed

theorem written_posts_are_listed_witness:
  "\<exists>w1 w2 ks. add_to_per_user_sorted_set ''b'' ''5'' 9 (calm_world demo_posts) = (Inr (), w1) \<and>
     get_author_posts ''b'' Descending (demo_page\<lparr>pg_skip := Some 0, pg_limit := Some 3\<rparr>) False w1 = (Inr ks, w2) \<and> ''b:5'' \<in> set (pks_keys ks)"
proof -
  let ?p = "demo_page\<lparr>pg_skip := Some 0, pg_limit := Some 3\<rparr>"
  define w1 where "w1 = snd (add_to_per_user_sorted_set ''b'' ''5'' 9 (calm_world demo_posts))"
  define w2 where "w2 = snd (get_author_posts ''b'' Descending ?p False w1)"
  define w3 where "w3 = snd (remove_from_per_user_sorted_set ''b'' ''5'' w2)"
  note defs = add_to_per_user_sorted_set_def put_index_sorted_set_def zset_put_def redis_call_def env_step_def calm_world_def
    get_author_posts_def try_from_index_sorted_set_def get_range_def andthen_def pass_def remove_from_per_user_sorted_set_def
    remove_from_index_sorted_set_def zset_del_def
  have w1: "add_to_per_user_sorted_set ''b'' ''5'' 9 (calm_world demo_posts) = (Inr (), w1)"
    unfolding w1_def by (simp add: defs)
  have f: "\<forall>n. fault w1 n = None" unfolding w1_def by (simp add: defs)
  have ok: "\<exists>ks. get_author_posts ''b'' o' q False v = (Inr ks, snd (get_author_posts ''b'' o' q False v)) \<and>
      fault (snd (get_author_posts ''b'' o' q False v)) = fault v" if "\<forall>n. fault v n = None" for o' q v
    using that by (simp add: get_author_posts_def try_from_index_sorted_set_def get_range_def andthen_def pass_def redis_call_def env_step_def)
  obtain ks where ks: "get_author_posts ''b'' Descending ?p False w1 = (Inr ks, w2)" "fault w2 = fault w1"
    unfolding w2_def using ok [OF f] by blast
  have w3: "remove_from_per_user_sorted_set ''b'' ''5'' w2 = (Inr (), w3)" "\<forall>n. fault w3 n = None"
    unfolding w3_def using f ks(2) by (simp_all add: remove_from_per_user_sorted_set_def remove_from_index_sorted_set_def zset_del_def redis_call_def env_step_def)
  obtain ks' where ks': "get_author_posts ''b'' Descending ?p False w3 = (Inr ks', snd (get_author_posts ''b'' Descending ?p False w3))"
    using ok [OF w3(2)] by blast
  have "''b'' @ '':'' @ ''5'' \<in> set (pks_keys ks) \<and> ''b'' @ '':'' @ ''5'' \<notin> set (pks_keys ks')"
    by (rule written_posts_are_listed [OF calm_steady _ w1 ks(1) _ _ _ _ _ w3(1) ks', of 3]) (simp_all add: demo_posts_def demo_page_def)
  then show ?thesis using w1 ks by simp
qed

end
