(* ===== verification/Stream_Api.thy ===== *)
theory Stream_Api
  imports Post_Stream
begin

text \<open>
  The route of the post streams (nexus-webapi/src/routes/v0/stream/posts.rs) with the bounded query parameters of
  nexus-webapi/src/models: parsing and validation of a request, the source it names, and the handler that answers it
  from \<open>Post_Stream\<close>. Ids, tags and kinds arrive validated by their own types.
\<close>

section \<open>Bounded parameters\<close>

definition limit_validate :: "nat \<Rightarrow> nat \<Rightarrow> (string, unit) result" where
  "limit_validate mx n =
     (if n = 0 then Inl ''limit must be at least 1''
      else if mx < n then Inl (''limit exceeds maximum of '' @ show_nat mx) else Inr ())"

definition limit_deserialize :: "nat \<Rightarrow> string \<Rightarrow> (string, nat) result" where
  "limit_deserialize mx s =
     (case parse_u64 s of
        None \<Rightarrow> Inl ''invalid digit''
      | Some n \<Rightarrow> (case limit_validate mx n of Inl e \<Rightarrow> Inl e | Inr _ \<Rightarrow> Inr n))"

definition skip_validate :: "nat \<Rightarrow> nat \<Rightarrow> (string, unit) result" where
  "skip_validate mx n = (if mx < n then Inl (''skip exceeds maximum of '' @ show_nat mx) else Inr ())"

definition skip_deserialize :: "nat \<Rightarrow> string \<Rightarrow> (string, nat) result" where
  "skip_deserialize mx s =
     (case parse_u64 s of
        None \<Rightarrow> Inl ''invalid digit''
      | Some n \<Rightarrow> (case skip_validate mx n of Inl e \<Rightarrow> Inl e | Inr _ \<Rightarrow> Inr n))"

text \<open>An absent parameter is no error.\<close>

definition optional :: "(string \<Rightarrow> (string, 'x) result) \<Rightarrow> string option \<Rightarrow> (string, 'x option) result" where
  "optional f s = (case s of None \<Rightarrow> Inr None | Some t \<Rightarrow> (case f t of Inl e \<Rightarrow> Inl e | Inr x \<Rightarrow> Inr (Some x)))"

record bounded_pagination =
  bp_skip :: "nat option"
  bp_limit :: "nat option"

definition pagination_deserialize ::
  "nat \<Rightarrow> nat \<Rightarrow> string option \<Rightarrow> string option \<Rightarrow> (string, bounded_pagination) result" where
  "pagination_deserialize skip_max limit_max skip limit =
     (case optional (skip_deserialize skip_max) skip of
        Inl e \<Rightarrow> Inl e
      | Inr k \<Rightarrow> (case optional (limit_deserialize limit_max) limit of
          Inl e \<Rightarrow> Inl e
        | Inr l \<Rightarrow> Inr \<lparr>bp_skip = k, bp_limit = l\<rparr>))"

definition skip_value :: "bounded_pagination \<Rightarrow> nat" where
  "skip_value b = unwrap_or 0 (bp_skip b)"

definition limit_value :: "nat \<Rightarrow> bounded_pagination \<Rightarrow> nat" where
  "limit_value limit_default b = unwrap_or limit_default (bp_limit b)"

definition to_pagination :: "nat \<Rightarrow> bounded_pagination \<Rightarrow> int option \<Rightarrow> int option \<Rightarrow> pagination" where
  "to_pagination limit_default b start fin =
     \<lparr>pg_skip = Some (skip_value b), pg_limit = Some (limit_value limit_default b), pg_start = start, pg_end = fin\<rparr>"

section \<open>Comma-separated lists\<close>

fun split_commas :: "string \<Rightarrow> string list" where
  "split_commas [] = [[]]"
| "split_commas (c # cs) =
     (if c = CHR '','' then [] # split_commas cs
      else (case split_commas cs of t # ts \<Rightarrow> (c # t) # ts | [] \<Rightarrow> [[c]]))"

definition blank :: "char \<Rightarrow> bool" where
  "blank c \<longleftrightarrow> c = CHR '' '' \<or> (9 \<le> (of_char c :: nat) \<and> (of_char c :: nat) \<le> 13)"

definition trim :: "string \<Rightarrow> string" where
  "trim s = rev (dropWhile blank (rev (dropWhile blank s)))"

fun try_all :: "('a \<Rightarrow> (string, 'b) result) \<Rightarrow> 'a list \<Rightarrow> (string, 'b list) result" where
  "try_all f [] = Inr []"
| "try_all f (x # xs) =
     (case f x of Inl e \<Rightarrow> Inl e | Inr y \<Rightarrow> (case try_all f xs of Inl e \<Rightarrow> Inl e | Inr ys \<Rightarrow> Inr (y # ys)))"

definition validate_len :: "nat \<Rightarrow> nat \<Rightarrow> nat \<Rightarrow> (string, unit) result" where
  "validate_len mn mx n =
     (if n < mn then Inl (''At least '' @ show_nat mn @ '' item(s) required'')
      else if mx < n then Inl (''Maximum '' @ show_nat mx @ '' items allowed'') else Inr ())"

definition deserialize_csv :: "nat \<Rightarrow> nat \<Rightarrow> (string \<Rightarrow> (string, 'x) result) \<Rightarrow> string \<Rightarrow> (string, 'x list) result" where
  "deserialize_csv mn mx token s =
     (case try_all token (filter (\<lambda>t. t \<noteq> []) (map trim (split_commas s))) of
        Inl e \<Rightarrow> Inl e
      | Inr items \<Rightarrow> (case validate_len mn mx (length items) of Inl e \<Rightarrow> Inl e | Inr _ \<Rightarrow> Inr items))"

text \<open>The kinds a request excludes: duplicates are dropped, the order stays. The strict parser of a kind is a parameter.\<close>

fun push_new :: "'a list \<Rightarrow> 'a list \<Rightarrow> 'a list" where
  "push_new kinds [] = kinds"
| "push_new kinds (k # ks) = push_new (if k \<in> set kinds then kinds else kinds @ [k]) ks"

definition post_kinds_deserialize :: "(string \<Rightarrow> (string, string) result) \<Rightarrow> string \<Rightarrow> (string, string list) result" where
  "post_kinds_deserialize kind_token s =
     (case deserialize_csv 1 7 kind_token s of Inl e \<Rightarrow> Inl e | Inr tokens \<Rightarrow> Inr (push_new [] tokens))"

section \<open>Sources\<close>

definition wot_depth_new :: "nat \<Rightarrow> (string, nat) result" where
  "wot_depth_new d = (if 1 \<le> d \<and> d \<le> 3 then Inr d else Inl ''depth must be between 1 and 3'')"

definition resolve_wot_depth :: "nat option \<Rightarrow> (string, nat) result" where
  "resolve_wot_depth d = (case d of Some n \<Rightarrow> wot_depth_new n | None \<Rightarrow> Inr 2)"

definition resolve_domain_trust :: "nat option \<Rightarrow> (string, domain_trust) result" where
  "resolve_domain_trust d =
     (case d of
        None \<Rightarrow> Inr (Network 2)
      | Some n \<Rightarrow> if n = 0 then Inr Me else (case wot_depth_new n of Inl e \<Rightarrow> Inl e | Inr m \<Rightarrow> Inr (Network m)))"

datatype stream_source_kind =
    KPostReplies | KFollowing | KFollowers | KFriends | KBookmarks | KAuthor | KAuthorReplies
  | KCollection | KPostCollections | KWot | KWotDomain | KAll

definition requires :: "string \<Rightarrow> string \<Rightarrow> string" where
  "requires src param = ''source '' @ src @ '' requires '' @ param"

definition build_stream_source ::
  "stream_source_kind \<Rightarrow> string option \<Rightarrow> string option \<Rightarrow> string option \<Rightarrow> nat option \<Rightarrow> string list option \<Rightarrow>
   (string, stream_source) result" where
  "build_stream_source kind author observer post depth domain_tags =
     (case kind of
        KPostReplies \<Rightarrow> (case (post, author) of (Some p, Some a) \<Rightarrow> Inr (PostReplies p a)
          | _ \<Rightarrow> Inl (requires ''post_replies'' ''both post_id and author_id parameters''))
      | KFollowing \<Rightarrow> (case observer of Some u \<Rightarrow> Inr (Following u) | None \<Rightarrow> Inl (requires ''following'' ''observer_id''))
      | KFollowers \<Rightarrow> (case observer of Some u \<Rightarrow> Inr (Followers u) | None \<Rightarrow> Inl (requires ''followers'' ''observer_id''))
      | KFriends \<Rightarrow> (case observer of Some u \<Rightarrow> Inr (Friends u) | None \<Rightarrow> Inl (requires ''friends'' ''observer_id''))
      | KBookmarks \<Rightarrow> (case observer of Some u \<Rightarrow> Inr (Bookmarks u) | None \<Rightarrow> Inl (requires ''bookmarks'' ''observer_id''))
      | KAuthor \<Rightarrow> (case author of Some a \<Rightarrow> Inr (Author a) | None \<Rightarrow> Inl (requires ''author'' ''author_id''))
      | KAuthorReplies \<Rightarrow> (case author of Some a \<Rightarrow> Inr (AuthorReplies a) | None \<Rightarrow> Inl (requires ''author_replies'' ''author_id''))
      | KCollection \<Rightarrow> (case (author, post) of (Some a, Some p) \<Rightarrow> Inr (Collection a p)
          | (None, _) \<Rightarrow> Inl (requires ''collection'' ''author_id'') | (_, None) \<Rightarrow> Inl (requires ''collection'' ''post_id''))
      | KPostCollections \<Rightarrow> (case (author, post) of (Some a, Some p) \<Rightarrow> Inr (PostCollections a p)
          | (None, _) \<Rightarrow> Inl (requires ''post_collections'' ''author_id'') | (_, None) \<Rightarrow> Inl (requires ''post_collections'' ''post_id''))
      | KWot \<Rightarrow> (case observer of
            Some u \<Rightarrow> (case resolve_wot_depth depth of Inl e \<Rightarrow> Inl e | Inr d \<Rightarrow> Inr (Wot u d))
          | None \<Rightarrow> Inl (requires ''wot'' ''observer_id''))
      | KWotDomain \<Rightarrow> (case (observer, domain_tags) of
            (Some u, Some ts) \<Rightarrow> (case resolve_domain_trust depth of Inl e \<Rightarrow> Inl e | Inr t \<Rightarrow> Inr (WotDomain u t ts))
          | (None, _) \<Rightarrow> Inl (requires ''wot_domain'' ''observer_id'') | (_, None) \<Rightarrow> Inl (requires ''wot_domain'' ''domain_tags''))
      | KAll \<Rightarrow> Inr AllPosts)"

section \<open>Queries\<close>

record post_stream_query =
  sq_source :: stream_source_kind
  sq_author_id :: "string option"
  sq_observer_id :: "string option"
  sq_post_id :: "string option"
  sq_pagination :: bounded_pagination
  sq_start :: "int option"
  sq_end :: "int option"
  sq_order :: "sort_order option"
  sq_sorting :: "stream_sorting option"
  sq_viewer_id :: "string option"
  sq_tags :: "string list option"
  sq_depth :: "nat option"
  sq_domain_tags :: "string list option"
  sq_kind :: "string option"
  sq_exclude_kinds :: "string list option"
  sq_locked :: bool

definition initialize_defaults :: "post_stream_query \<Rightarrow> post_stream_query" where
  "initialize_defaults q = q\<lparr>sq_sorting := Some (unwrap_or Timeline (sq_sorting q))\<rparr>"

definition build_source :: "post_stream_query \<Rightarrow> (string, stream_source) result" where
  "build_source q =
     build_stream_source (sq_source q) (sq_author_id q) (sq_observer_id q) (sq_post_id q) (sq_depth q) (sq_domain_tags q)"

definition query_kind_filter :: "post_stream_query \<Rightarrow> kind_filter option" where
  "query_kind_filter q =
     (if sq_locked q then Some LockedOnly
      else (case (sq_kind q, sq_exclude_kinds q) of
          (Some k, _) \<Rightarrow> Some (OnlyKind k)
        | (None, Some ks) \<Rightarrow> Some (ExcludeKinds ks)
        | (None, None) \<Rightarrow> None))"

definition extract_stream_params :: "post_stream_query \<Rightarrow> (string, stream_source \<times> stream_sorting \<times> sort_order) result" where
  "extract_stream_params q =
     (case build_source q of
        Inl e \<Rightarrow> Inl e
      | Inr src \<Rightarrow> Inr (src, unwrap_or Timeline (sq_sorting q), unwrap_or Descending (sq_order q)))"

definition incompatible :: "post_stream_query \<Rightarrow> (string \<times> bool) list" where
  "incompatible q =
     [(''tags'', sq_tags q \<noteq> None), (''kind'', sq_kind q \<noteq> None), (''exclude_kinds'', sq_exclude_kinds q \<noteq> None),
      (''locked'', sq_locked q), (''sorting'', sq_sorting q \<noteq> None), (''order'', sq_order q \<noteq> None),
      (''start'', sq_start q \<noteq> None), (''end'', sq_end q \<noteq> None)]"

definition validate_source_compat :: "post_stream_query \<Rightarrow> (string, unit) result" where
  "validate_source_compat q =
     (if sq_kind q \<noteq> None \<and> sq_exclude_kinds q \<noteq> None then Inl ''kind and exclude_kinds are mutually exclusive''
      else if sq_locked q \<and> (sq_kind q \<noteq> None \<or> sq_exclude_kinds q \<noteq> None)
      then Inl ''locked cannot be combined with kind or exclude_kinds''
      else if sq_source q \<in> {KPostReplies, KAuthorReplies} \<and> query_kind_filter q \<noteq> None
      then Inl ''kind, exclude_kinds and locked are not supported with source=post_replies or source=author_replies''
      else if sq_source q = KPostCollections \<and> query_kind_filter q \<noteq> None
      then Inl ''kind, exclude_kinds and locked are not supported with source=post_collections''
      else if sq_source q \<noteq> KCollection then Inr ()
      else (case List.find snd (incompatible q) of
          Some (name, _) \<Rightarrow> Inl (name @ '' is not supported with source=collection'')
        | None \<Rightarrow> Inr ()))"

datatype api_error = InvalidInput string | ModelFailure model_error

definition stream_post_keys_handler :: "ps_deps \<Rightarrow> post_stream_query \<Rightarrow> (ps_kv, api_error, post_key_stream) run" where
  "stream_post_keys_handler D q w =
     (case validate_source_compat q of
        Inl e \<Rightarrow> (Inl (InvalidInput e), w)
      | Inr _ \<Rightarrow>
          let query = initialize_defaults q;
              p = to_pagination 10 (sq_pagination query) (sq_start query) (sq_end query) in
          (case extract_stream_params query of
             Inl e \<Rightarrow> (Inl (InvalidInput e), w)
           | Inr (src, sorting, ord) \<Rightarrow>
               andthen (map_err ModelFailure (get_post_keys D src p ord sorting (sq_viewer_id query) (sq_tags query) (query_kind_filter query)))
                 (\<lambda>found. pass (unwrap_or no_posts_stream found)) w))"


section \<open>Pages are bounded\<close>

lemma zpage_length: "length (zpage mn mx skip (Some l) ord z) \<le> l"
  by (simp add: zpage_def unwrap_or_def)

lemma get_range_length: "get_range key mn mx skip (Some l) ord w = (Inr x, w') \<Longrightarrow> length (unwrap_or [] x) \<le> l"
  by (auto simp: get_range_def redis_call_def Let_def unwrap_or_def zpage_length
      split: prod.splits sum.splits if_splits option.splits call_fault.splits)

lemma zread_length: "zread key start fin skip (Some l) ord w = (Inr rows, w') \<Longrightarrow> length rows \<le> l"
  by (auto simp: zread_def try_from_index_sorted_set_def elim!: andthen_Inr dest: get_range_length)

lemma try_from_index_length:
  "try_from_index_sorted_set key start fin skip (Some l) ord w = (Inr (Some rows), w') \<Longrightarrow> length rows \<le> l"
  by (auto simp: try_from_index_sorted_set_def unwrap_or_def dest: get_range_length)

lemma keys_length [simp]: "length (pks_keys (from_scored_entries rows)) = length rows" "pks_keys no_posts_stream = []"
  by (simp_all add: from_scored_entries_def no_posts_stream_def)

lemma index_readers_bounded:
  assumes "pg_limit p = Some l"
  shows "get_global_posts_keys sorting ord p w = (Inr ks, w') \<Longrightarrow> length (pks_keys ks) \<le> l"
    and "get_bookmarked_posts u ord p w = (Inr ks, w') \<Longrightarrow> length (pks_keys ks) \<le> l"
    and "get_post_replies a i ord p w = (Inr ks, w') \<Longrightarrow> length (pks_keys ks) \<le> l"
    and "get_author_posts a ord p replies w = (Inr ks, w') \<Longrightarrow> length (pks_keys ks) \<le> l"
    and "get_posts_keys_by_tag t sorting p w = (Inr ks, w') \<Longrightarrow> length (pks_keys ks) \<le> l"
    and "get_merged_timeline u ord p w = (Inr ks, w') \<Longrightarrow> length (pks_keys ks) \<le> l"
  using assms
  by (auto simp: get_global_posts_keys_def get_bookmarked_posts_def get_post_replies_def get_author_posts_def get_posts_keys_by_tag_def
      get_by_label_def get_merged_timeline_def Let_def unwrap_or_def elim!: andthen_Inr dest!: zread_length try_from_index_length
      split: option.splits)

lemma select_page_length: "length (select_page skip (Some l) keys) \<le> l"
  by (simp add: select_page_slice)

lemma posts_by_source_bounded:
  assumes "pg_limit p = Some l" "get_posts_by_source D src ord p w = (Inr ks, w')"
  shows "length (pks_keys ks) \<le> l"
  using assms
  by (auto simp: get_posts_by_source_def get_posts_for_user_ids_def Let_def select_page_length elim!: andthen_Inr split: if_splits)

lemma get_from_index_bounded:
  assumes "pg_limit p = Some l" "get_from_index D src sorting ord tags p own w = (Inr ks, w')"
  shows "length (pks_keys ks) \<le> l"
proof (cases tags)
  case None
  then show ?thesis using assms index_readers_bounded [OF assms(1)] posts_by_source_bounded [OF assms(1), of D src ord w ks w']
    by (cases src) (auto simp: get_from_index_def split: option.splits)
next
  case (Some ts)
  then show ?thesis using assms index_readers_bounded(5) [OF assms(1)] by (auto simp: get_from_index_def split: if_splits)
qed

lemma get_from_graph_bounded:
  assumes "pg_limit p = Some l" "get_from_graph D src sorting ord tags p kind rule w = (Inr ks, w')"
  shows "length (pks_keys ks) \<le> l"
proof (cases "post_stream src sorting ord tags p kind rule")
  case (Inr q)
  have "length (execute_rows (pd_rows D) q g) \<le> l" for g
    using limited_rows [OF post_stream_limit [OF Inr assms(1)], of "pd_rows D" g] by simp
  then show ?thesis
    using assms(2) Inr by (auto simp: get_from_graph_def map_err_def graph_call_def Let_def split: option.splits call_fault.splits)
qed (use assms(2) in \<open>simp add: get_from_graph_def\<close>)

lemma collection_bounded:
  assumes "get_collection_items_post_keys D a i skip (Some l) w = (Inr ks, w')"
  shows "length (pks_keys ks) \<le> l"
  using assms by (auto simp: get_collection_items_post_keys_def elim!: andthen_Inr split: option.splits prod.splits)

lemma collect_post_keys_bounded:
  assumes "pg_limit p = Some l" "collect_post_keys D src p ord sorting viewer tags kind w = (Inr ks, w')"
  shows "length (pks_keys ks) \<le> l"
proof (cases "\<exists>a i. src = Collection a i")
  case True
  then show ?thesis using assms collection_bounded by (auto simp: collect_post_keys_def)
next
  case False
  let ?rest = "\<lambda>own rule. if can_use_index sorting src tags kind then get_from_index D src sorting ord tags p own
      else get_from_graph D src sorting ord tags p kind rule"
  have "collect_post_keys D src p ord sorting viewer tags kind =
      andthen (map_err KvOperationFailed (own_posts_for (wants_own_posts src sorting tags viewer))) (\<lambda>own.
      andthen (map_err KvOperationFailed (trust_rule_for src (can_use_index sorting src tags kind) own)) (?rest own))"
    using False unfolding collect_post_keys_def Let_def by (auto split: stream_source.split)
  then obtain own rule w1 where "?rest own rule w1 = (Inr ks, w')" using assms(2) by (auto elim!: andthen_Inr)
  then show ?thesis using get_from_index_bounded [OF assms(1)] get_from_graph_bounded [OF assms(1)] by (auto split: if_splits)
qed

section \<open>Properties\<close>

fun depth_ok :: "stream_source \<Rightarrow> bool" where
  "depth_ok (Wot _ d) \<longleftrightarrow> d \<in> {1..3}"
| "depth_ok (WotDomain _ (Network d) _) \<longleftrightarrow> d \<in> {1..3}"
| "depth_ok _ \<longleftrightarrow> True"

lemma wot_depth_new_ok: "wot_depth_new d = Inr n \<Longrightarrow> n \<in> {1..3}"
  by (auto simp: wot_depth_new_def split: if_splits)

lemma resolve_depths:
  "resolve_wot_depth d = Inr n \<Longrightarrow> n \<in> {1..3}"
  "resolve_domain_trust d = Inr t \<Longrightarrow> depth_ok (WotDomain u t ts)"
  using wot_depth_new_ok by (fastforce simp: resolve_wot_depth_def resolve_domain_trust_def split: option.splits if_splits sum.splits)+

lemma pagination_bounds:
  assumes "pagination_deserialize sm lm skip limit = Inr b"
  shows "bp_skip b = Some k \<Longrightarrow> k \<le> sm" "bp_limit b = Some l \<Longrightarrow> 1 \<le> l \<and> l \<le> lm"
  using assms
  by (auto simp: pagination_deserialize_def optional_def skip_deserialize_def skip_validate_def limit_deserialize_def limit_validate_def
      split: option.splits sum.splits if_splits)

text \<open>
  C32. A request that was accepted is well-formed for the layers below: its page starts at most 10000 rows down and has between 1 and 50 rows, and a
  traversal of the follow graph is never deeper than three steps, whatever the query string said.
\<close>

theorem accepted_requests_are_well_formed:
  assumes "pagination_deserialize 10000 50 skip limit = Inr (sq_pagination q)" "build_source q = Inr src"
  shows "depth_ok src \<and> (\<exists>k l. to_pagination 10 (sq_pagination q) start fin = \<lparr>pg_skip = Some k, pg_limit = Some l, pg_start = start, pg_end = fin\<rparr> \<and>
    k \<le> 10000 \<and> 1 \<le> l \<and> l \<le> 50)"
proof
  show "depth_ok src"
    using assms(2) resolve_depths
    by (auto simp: build_source_def build_stream_source_def split: stream_source_kind.splits option.splits sum.splits)
  let ?b = "sq_pagination q"
  have "unwrap_or 0 (bp_skip ?b) \<le> 10000" using pagination_bounds(1) [OF assms(1)] by (auto simp: unwrap_or_def split: option.splits)
  moreover have "1 \<le> unwrap_or 10 (bp_limit ?b) \<and> unwrap_or 10 (bp_limit ?b) \<le> 50"
    using pagination_bounds(2) [OF assms(1)] by (auto simp: unwrap_or_def split: option.splits)
  ultimately show "\<exists>k l. to_pagination 10 ?b start fin = \<lparr>pg_skip = Some k, pg_limit = Some l, pg_start = start, pg_end = fin\<rparr> \<and>
      k \<le> 10000 \<and> 1 \<le> l \<and> l \<le> 50"
    by (simp add: to_pagination_def skip_value_def limit_value_def)
qed

definition demo_query :: post_stream_query where
  "demo_query = \<lparr>sq_source = KWot, sq_author_id = None, sq_observer_id = Some ''u'', sq_post_id = None,
     sq_pagination = \<lparr>bp_skip = Some 20, bp_limit = None\<rparr>, sq_start = None, sq_end = None, sq_order = None, sq_sorting = None,
     sq_viewer_id = None, sq_tags = None, sq_depth = Some 3, sq_domain_tags = None, sq_kind = None, sq_exclude_kinds = None, sq_locked = False\<rparr>"

lemma demo_pagination: "pagination_deserialize 10000 50 (Some ''20'') None = Inr (sq_pagination demo_query)"
  by (simp add: pagination_deserialize_def optional_def skip_deserialize_def skip_validate_def parse_u64_def is_digit_def digit_value_def demo_query_def)

theorem accepted_requests_are_well_formed_witness:
  "depth_ok (Wot ''u'' 3) \<and> (\<exists>k l. to_pagination 10 (sq_pagination demo_query) None None =
     \<lparr>pg_skip = Some k, pg_limit = Some l, pg_start = None, pg_end = None\<rparr> \<and> k \<le> 10000 \<and> 1 \<le> l \<and> l \<le> 50)"
proof (rule accepted_requests_are_well_formed [OF demo_pagination])
  show "build_source demo_query = Inr (Wot ''u'' 3)"
    by (simp add: build_source_def build_stream_source_def demo_query_def resolve_wot_depth_def wot_depth_new_def)
qed

text \<open>
  C33. No answer of the route is longer than the page asked for, at most 50 keys, whichever index or the graph serves it, and
  whatever rows the graph finds for the lines of the query above its limit.
\<close>

theorem answers_are_bounded:
  assumes "pagination_deserialize 10000 50 skip limit = Inr (sq_pagination q)" "stream_post_keys_handler D q w = (Inr ks, w')"
  shows "length (pks_keys ks) \<le> limit_value 10 (sq_pagination q) \<and> length (pks_keys ks) \<le> 50"
proof -
  let ?q = "initialize_defaults q"
  let ?p = "to_pagination 10 (sq_pagination ?q) (sq_start ?q) (sq_end ?q)"
  have l: "pg_limit ?p = Some (limit_value 10 (sq_pagination q))" by (simp add: to_pagination_def initialize_defaults_def)
  obtain src sorting ord found where
    "get_post_keys D src ?p ord sorting (sq_viewer_id ?q) (sq_tags ?q) (query_kind_filter ?q) w = (Inr found, w')"
    "ks = unwrap_or no_posts_stream found"
    using assms(2) by (auto simp: stream_post_keys_handler_def Let_def elim!: andthen_Inr split: sum.splits prod.splits)
  then have "length (pks_keys ks) \<le> limit_value 10 (sq_pagination q)"
    using collect_post_keys_bounded [OF l]
    by (auto simp: get_post_keys_def unwrap_or_def elim!: andthen_Inr split: if_splits)
  moreover have "limit_value 10 (sq_pagination q) \<le> 50"
    using pagination_bounds(2) [OF assms(1)] by (auto simp: limit_value_def unwrap_or_def split: option.splits)
  ultimately show ?thesis by linarith
qed

definition demo_deps :: ps_deps where
  "demo_deps = \<lparr>pd_details = (\<lambda>_ _. pass None), pd_items = (\<lambda>_. None), pd_reach = (\<lambda>_ _ _ _. pass None),
     pd_rows = (\<lambda>_ _ _. replicate 60 (''a'', ''1'', 5))\<rparr>"

theorem answers_are_bounded_witness:
  "\<exists>ks. fst (stream_post_keys_handler demo_deps demo_query (calm_world demo_posts)) = Inr ks \<and> length (pks_keys ks) \<le> 10"
proof -
  obtain ks w' where r: "stream_post_keys_handler demo_deps demo_query (calm_world demo_posts) = (Inr ks, w')"
    by (simp add: stream_post_keys_handler_def demo_query_def initialize_defaults_def extract_stream_params_def build_source_def
        build_stream_source_def resolve_wot_depth_def wot_depth_new_def validate_source_compat_def query_kind_filter_def
        get_post_keys_def collect_post_keys_def can_use_index_def wants_own_posts_def own_posts_for_def trust_rule_for_def get_from_graph_def
        post_stream_def graph_call_def env_step_def calm_world_def andthen_def pass_def map_err_def Let_def unwrap_or_def)
  then show ?thesis
    using answers_are_bounded [OF demo_pagination r] by (auto simp: limit_value_def unwrap_or_def demo_query_def)
qed

text \<open>
  The validation keeps reply streams away from the graph, whose query would stream the author's root posts instead: a request for replies that
  is accepted has the same answer and the same effect whatever the graph would find.
\<close>

theorem reply_streams_never_use_the_graph:
  assumes "sq_source q \<in> {KPostReplies, KAuthorReplies}"
  shows "stream_post_keys_handler (D\<lparr>pd_rows := any\<rparr>) q w = stream_post_keys_handler D q w"
proof (cases "validate_source_compat q")
  case (Inr x)
  then have none: "query_kind_filter q = None" using assms by (auto simp: validate_source_compat_def split: if_splits)
  have keep: "sq_source (initialize_defaults q) = sq_source q" "query_kind_filter (initialize_defaults q) = query_kind_filter q"
    by (simp_all add: initialize_defaults_def query_kind_filter_def)
  show ?thesis
  proof (cases "extract_stream_params (initialize_defaults q)")
    case e: (Inr y)
    obtain src sorting ord where y: "y = (src, sorting, ord)" by (cases y) auto
    have "(\<exists>i a. src = PostReplies i a) \<or> (\<exists>a. src = AuthorReplies a)"
      using e y assms by (auto simp: extract_stream_params_def build_source_def build_stream_source_def keep split: sum.splits option.splits)
    then have "get_post_keys (D\<lparr>pd_rows := any\<rparr>) src p ord sorting v tags None = get_post_keys D src p ord sorting v tags None" for p v tags
      by (auto simp: get_post_keys_def collect_post_keys_def can_use_index_def get_from_index_def wants_own_posts_def trust_rule_for_def
          own_posts_for_def Let_def fun_eq_iff andthen_def pass_def map_err_def split: option.splits)
    then show ?thesis using Inr e y none keep by (simp add: stream_post_keys_handler_def Let_def)
  qed (simp add: stream_post_keys_handler_def Inr Let_def)
qed (simp add: stream_post_keys_handler_def)

theorem reply_streams_never_use_the_graph_witness:
  "stream_post_keys_handler (demo_deps\<lparr>pd_rows := \<lambda>_ _ _. []\<rparr>) (demo_query\<lparr>sq_source := KAuthorReplies, sq_author_id := Some ''a''\<rparr>) (calm_world demo_posts) =
   stream_post_keys_handler demo_deps (demo_query\<lparr>sq_source := KAuthorReplies, sq_author_id := Some ''a''\<rparr>) (calm_world demo_posts)"
  by (rule reply_streams_never_use_the_graph) simp

end
