(* ===== verification/Bookmark_Handler.thy ===== *)
theory Bookmark_Handler
  imports Post_Stream Follow_Handler Event_Parsing
begin

text \<open>
  Bookmarks: the handler (nexus-watcher/src/events/handlers/bookmark.rs) and the model (nexus-common/src/models/post/bookmark.rs)
  over the \<open>BOOKMARKED\<close> edges of the graph, the JSON record per post and bookmarker, and the sorted set of a bookmarker.
  Writes go graph first, removals graph last. The index is rebuilt by a keyset scan over the edges.
\<close>

section \<open>Stores\<close>

record bm_edge =
  be_author :: string
  be_post :: string
  be_id :: string
  be_at :: int

text \<open>The edges of a user, one per post; the records by author, post and bookmarker.\<close>

record bm_kv = zset_kv +
  bm_users :: "string set"
  bm_posts :: "(string \<times> string) set"
  bm_edges :: "string \<Rightarrow> bm_edge list"
  bm_json :: "string \<times> string \<times> string \<Rightarrow> (string \<times> int) option"

definition edge_key :: "bm_edge \<Rightarrow> string \<times> string" where
  "edge_key e = (be_author e, be_post e)"

definition create_post_bookmark :: "string \<Rightarrow> string \<Rightarrow> string \<Rightarrow> string \<Rightarrow> int \<Rightarrow> bm_kv \<Rightarrow> bool option \<times> bm_kv" where
  "create_post_bookmark user author post bid indexed_at g =
     (if user \<in> bm_users g \<and> (author, post) \<in> bm_posts g
      then (Some (\<exists>e \<in> set (bm_edges g user). edge_key e = (author, post)),
            g\<lparr>bm_edges := (bm_edges g)(user :=
               \<lparr>be_author = author, be_post = post, be_id = bid, be_at = indexed_at\<rparr> #
               filter (\<lambda>e. edge_key e \<noteq> (author, post)) (bm_edges g user))\<rparr>)
      else (None, g))"

definition get_bookmark_target :: "string \<Rightarrow> string \<Rightarrow> bm_kv \<Rightarrow> (string \<times> string) option \<times> bm_kv" where
  "get_bookmark_target user bid g =
     (map_option (\<lambda>e. (be_post e, be_author e)) (List.find (\<lambda>e. be_id e = bid) (bm_edges g user)), g)"

definition delete_bookmark :: "string \<Rightarrow> string \<Rightarrow> bm_kv \<Rightarrow> (string \<times> string) option \<times> bm_kv" where
  "delete_bookmark user bid g =
     (map_option (\<lambda>e. (be_post e, be_author e)) (List.find (\<lambda>e. be_id e = bid) (bm_edges g user)),
      g\<lparr>bm_edges := (bm_edges g)(user := filter (\<lambda>e. be_id e \<noteq> bid) (bm_edges g user))\<rparr>)"

definition post_bookmark :: "string \<Rightarrow> string \<Rightarrow> string \<Rightarrow> bm_kv \<Rightarrow> (string \<times> int) option \<times> bm_kv" where
  "post_bookmark author post viewer g =
     (map_option (\<lambda>e. (be_id e, be_at e)) (List.find (\<lambda>e. edge_key e = (author, post)) (bm_edges g viewer)), g)"

section \<open>The model\<close>

definition bookmark_put_to_index :: "string \<times> int \<Rightarrow> string \<Rightarrow> string \<Rightarrow> string \<Rightarrow> (bm_kv, redis_error, unit) run" where
  "bookmark_put_to_index bookmark author post viewer =
     andthen (redis_call (\<lambda>g. ((), g\<lparr>bm_json := (bm_json g)((author, post, viewer) \<mapsto> bookmark)\<rparr>)))
       (\<lambda>_. add_to_bookmarks_sorted_set (snd bookmark) viewer post author)"

definition bookmark_del_from_index :: "string \<Rightarrow> string \<Rightarrow> string \<Rightarrow> (bm_kv, redis_error, unit) run" where
  "bookmark_del_from_index bookmarker post author =
     andthen (redis_call (\<lambda>g. ((), g\<lparr>bm_json := (bm_json g)((author, post, bookmarker) := None)\<rparr>)))
       (\<lambda>_. remove_from_bookmarks_sorted_set bookmarker post author)"

definition bookmark_get_by_id :: "string \<Rightarrow> string \<Rightarrow> string option \<Rightarrow> (bm_kv, model_error, (string \<times> int) option) run" where
  "bookmark_get_by_id author post viewer =
     (case viewer of
        None \<Rightarrow> pass None
      | Some v \<Rightarrow>
          andthen (map_err KvOperationFailed (redis_call (\<lambda>g. (bm_json g (author, post, v), g)))) (\<lambda>found.
            case found of
              Some b \<Rightarrow> pass (Some b)
            | None \<Rightarrow>
                andthen (map_err GraphOperationFailed (graph_call (post_bookmark author post v))) (\<lambda>edge.
                  case edge of
                    Some b \<Rightarrow> andthen (map_err KvOperationFailed (bookmark_put_to_index b author post v)) (\<lambda>_. pass (Some b))
                  | None \<Rightarrow> pass None)))"

section \<open>The handler\<close>

record bm_env =
  bx_show_graph :: "graph_error \<Rightarrow> string"
  bx_show_redis :: "redis_error \<Rightarrow> string"
  bx_debug :: "uri_resource \<Rightarrow> string"
  bx_parse :: "string \<Rightarrow> (string, string \<times> uri_resource) result"

definition bookmark_target :: "bm_env \<Rightarrow> string \<Rightarrow> (ep_error, string \<times> string) result" where
  "bookmark_target E uri =
     (case bx_parse E uri of
        Inl e \<Rightarrow> Inl (UnsupportedTarget (''The bookmarked URI is not a pubky resource: '' @ e))
      | Inr (user, res) \<Rightarrow>
          (case res of
             PostR post \<Rightarrow> Inr (user, post)
           | other \<Rightarrow> Inl (UnsupportedTarget (''The bookmarked resource is not a Post, instead is: '' @ bx_debug E other))))"

definition bookmark_sync_put :: "bm_env \<Rightarrow> string \<Rightarrow> string \<Rightarrow> string \<Rightarrow> (bm_kv, ep_error, unit) run" where
  "bookmark_sync_put E user uri bid w =
     (case bookmark_target E uri of
        Inl e \<Rightarrow> (Inl e, w)
      | Inr (author, post) \<Rightarrow>
          (case utc_now w of (indexed_at, w1) \<Rightarrow>
             andthen (map_err (ep_from_graph (bx_show_graph E)) (graph_call (create_post_bookmark user author post bid indexed_at)))
               (\<lambda>flag w2.
                  case execute_graph_operation flag of
                    OpMissingDependency \<Rightarrow> (Inl (MissingDependency [author @ '':posts:'' @ post]), w2)
                  | _ \<Rightarrow> map_err (ep_from_redis (bx_show_redis E)) (bookmark_put_to_index (bid, indexed_at) author post user) w2)
               w1))"

definition bookmark_sync_del :: "bm_env \<Rightarrow> string \<Rightarrow> string \<Rightarrow> (bm_kv, ep_error, unit) run" where
  "bookmark_sync_del E user bid =
     andthen (map_err (ep_from_graph (bx_show_graph E)) (graph_call (get_bookmark_target user bid))) (\<lambda>found.
       case found of
         None \<Rightarrow> pass ()
       | Some (post, author) \<Rightarrow>
           andthen (map_err (ep_from_redis (bx_show_redis E)) (bookmark_del_from_index user post author)) (\<lambda>_.
           andthen (map_err (ep_from_graph (bx_show_graph E)) (graph_call (delete_bookmark user bid))) (\<lambda>_. pass ())))"

section \<open>Reindexing\<close>

definition BOOKMARK_PAGE_SIZE :: nat where "BOOKMARK_PAGE_SIZE = 500"

definition user_bookmarks :: "string \<Rightarrow> string \<Rightarrow> nat \<Rightarrow> bm_kv \<Rightarrow> bm_edge list \<times> bm_kv" where
  "user_bookmarks user cursor limit g = (page_above be_post limit cursor (sort_key be_post (bm_edges g user)), g)"

fun put_rows :: "string \<Rightarrow> bm_edge list \<Rightarrow> (bm_kv, redis_error, unit) run" where
  "put_rows user [] = pass ()"
| "put_rows user (e # es) =
     andthen (bookmark_put_to_index (be_id e, be_at e) (be_author e) (be_post e) user) (\<lambda>_. put_rows user es)"

definition bookmark_step :: "string \<Rightarrow> string \<Rightarrow> (bm_kv, model_error, nat \<times> string option) run" where
  "bookmark_step user cursor =
     andthen (map_err GraphOperationFailed (graph_call (user_bookmarks user cursor BOOKMARK_PAGE_SIZE))) (\<lambda>rows.
     andthen (map_err KvOperationFailed (put_rows user rows)) (\<lambda>_.
       let last_id = (if rows = [] then [] else be_post (last rows)) in
       pass (length rows, if last_id = [] then None else Some last_id)))"

definition bookmark_reindex :: "string \<Rightarrow> bm_kv world \<Rightarrow> ((model_error, unit) result \<times> bm_kv world) option" where
  "bookmark_reindex user w =
     keyset_scan GraphOperationFailed (\<lambda>c. c) BOOKMARK_PAGE_SIZE ''bookmark_reindex'' (bookmark_step user) w"

section \<open>The bookmarks of one user\<close>

text \<open>Of one bookmarker: the edges, the records by post, and the scores of the members of the sorted set.\<close>

type_synonym bm_facts = "bm_edge list \<times> (string \<times> string \<Rightarrow> (string \<times> int) option) \<times> (string \<Rightarrow> int option)"

definition bm_view :: "string \<Rightarrow> bm_kv \<Rightarrow> bm_facts" where
  "bm_view u g = (bm_edges g u, (\<lambda>k. bm_json g (fst k, snd k, u)), map_of (z_sets g (sorted_key (BOOKMARKS_USER_KEY u))))"

definition bm_member :: "bm_edge \<Rightarrow> string" where
  "bm_member e = be_author e @ '':'' @ be_post e"

abbreviation new_edge :: "string \<Rightarrow> string \<Rightarrow> string \<Rightarrow> int \<Rightarrow> bm_edge" where
  "new_edge a p bid t \<equiv> \<lparr>be_author = a, be_post = p, be_id = bid, be_at = t\<rparr>"

abbreviation edge_bookmark :: "bm_edge \<Rightarrow> string \<times> int" where
  "edge_bookmark e \<equiv> (be_id e, be_at e)"

definition edge_of :: "bm_edge list \<Rightarrow> string \<times> string \<Rightarrow> (string \<times> int) option" where
  "edge_of es k = map_option edge_bookmark (List.find (\<lambda>e. edge_key e = k) es)"

definition write_edge :: "bm_edge \<Rightarrow> bm_facts \<Rightarrow> bm_facts" where
  "write_edge e V = (case V of (es, js, zs) \<Rightarrow> (e # filter (\<lambda>x. edge_key x \<noteq> edge_key e) es, js, zs))"

definition drop_edge :: "string \<Rightarrow> bm_facts \<Rightarrow> bm_facts" where
  "drop_edge bid V = (case V of (es, js, zs) \<Rightarrow> (filter (\<lambda>x. be_id x \<noteq> bid) es, js, zs))"

definition write_json :: "bm_edge \<Rightarrow> bm_facts \<Rightarrow> bm_facts" where
  "write_json e V = (case V of (es, js, zs) \<Rightarrow> (es, js(edge_key e \<mapsto> edge_bookmark e), zs))"

definition write_row :: "bm_edge \<Rightarrow> bm_facts \<Rightarrow> bm_facts" where
  "write_row e V = (case V of (es, js, zs) \<Rightarrow> (es, js, zs(bm_member e \<mapsto> f64_of_int (be_at e))))"

definition drop_json :: "bm_edge \<Rightarrow> bm_facts \<Rightarrow> bm_facts" where
  "drop_json e V = (case V of (es, js, zs) \<Rightarrow> (es, js(edge_key e := None), zs))"

definition drop_row :: "bm_edge \<Rightarrow> bm_facts \<Rightarrow> bm_facts" where
  "drop_row e V = (case V of (es, js, zs) \<Rightarrow> (es, js, zs(bm_member e := None)))"

lemmas view_defs = write_edge_def drop_edge_def write_json_def write_row_def drop_json_def drop_row_def

text \<open>What two writes in a row leave when a failure may stop them.\<close>

lemma two_writes:
  assumes "andthen (redis_call f) (\<lambda>_. redis_call h) w = (r, w')" "steady view w"
    and "\<And>g. view (snd (f g)) = \<phi> (view g)" "\<And>g. view (snd (h g)) = \<psi> (view g)"
  shows "steady view w' \<and> (view (kv w') = \<psi> (\<phi> (view (kv w))) \<or>
    (\<exists>e. r = Inl e) \<and> view (kv w') \<in> {view (kv w), \<phi> (view (kv w))})"
proof -
  obtain r1 w1 where c1: "redis_call f w = (r1, w1)" by force
  obtain r2 w2 where c2: "redis_call h w1 = (r2, w2)" by force
  note f1 = redis_view [OF c1 assms(2), of \<phi>, OF assms(3)]
  note f2 = redis_view [OF c2 conjunct1 [OF f1], of \<psi>, OF assms(4)]
  have "(\<exists>e. r1 = Inl e \<and> r = Inl e) \<and> w' = w1 \<or> (\<exists>x. r1 = Inr x) \<and> r = r2 \<and> w' = w2"
    using assms(1) c1 c2 by (cases r1) (auto simp: andthen_def)
  then show ?thesis using f1 f2 by auto
qed

lemma put_to_index_view:
  assumes "bookmark_put_to_index (edge_bookmark e) (be_author e) (be_post e) u w = (r, w')" "steady (bm_view u) w"
  shows "steady (bm_view u) w' \<and> (bm_view u (kv w') = write_row e (write_json e (bm_view u (kv w))) \<or>
    (\<exists>x. r = Inl x) \<and> bm_view u (kv w') \<in> {bm_view u (kv w), write_json e (bm_view u (kv w))})"
  using assms(1) unfolding bookmark_put_to_index_def add_to_bookmarks_sorted_set_def put_index_sorted_set_def [abs_def] zset_put_def [abs_def]
  by (intro two_writes [OF _ assms(2)])
    (auto simp: bm_view_def view_defs bm_member_def edge_key_def zadd_all_def update_conv' fun_eq_iff)

lemma del_from_index_view:
  assumes "bookmark_del_from_index u (be_post e) (be_author e) w = (r, w')" "steady (bm_view u) w"
  shows "steady (bm_view u) w' \<and> (bm_view u (kv w') = drop_row e (drop_json e (bm_view u (kv w))) \<or>
    (\<exists>x. r = Inl x) \<and> bm_view u (kv w') \<in> {bm_view u (kv w), drop_json e (bm_view u (kv w))})"
  using assms(1) unfolding bookmark_del_from_index_def remove_from_bookmarks_sorted_set_def remove_from_index_sorted_set_def [abs_def] zset_del_def [abs_def]
  by (intro two_writes [OF _ assms(2)])
    (auto simp: bm_view_def view_defs bm_member_def edge_key_def delete_conv' fun_eq_iff)

lemma create_bookmark_view:
  "case fst (create_post_bookmark u a p bid t g) of
     None \<Rightarrow> bm_view u (snd (create_post_bookmark u a p bid t g)) = bm_view u g
   | Some _ \<Rightarrow> bm_view u (snd (create_post_bookmark u a p bid t g)) = write_edge (new_edge a p bid t) (bm_view u g)"
  by (simp add: create_post_bookmark_def bm_view_def view_defs edge_key_def)

lemma delete_bookmark_view: "bm_view u (snd (delete_bookmark u bid g)) = drop_edge bid (bm_view u g)"
  by (simp add: delete_bookmark_def bm_view_def view_defs)

section \<open>The index and the graph\<close>

text \<open>
  \<open>bm_backed\<close>: one edge per post, one per bookmark id, and every record and every member is that of
  an edge. \<open>bm_indexed\<close>: an edge has its record and its member with its time.
\<close>

definition bm_backed :: "bm_facts \<Rightarrow> bool" where
  "bm_backed V \<longleftrightarrow> (case V of (es, js, zs) \<Rightarrow>
     distinct (map edge_key es) \<and> distinct (map be_id es) \<and>
     dom js \<subseteq> edge_key ` set es \<and> dom zs \<subseteq> bm_member ` set es)"

definition bm_indexed :: "bm_facts \<Rightarrow> bm_edge \<Rightarrow> bool" where
  "bm_indexed V e \<longleftrightarrow> (case V of (es, js, zs) \<Rightarrow>
     e \<in> set es \<and> js (edge_key e) = Some (edge_bookmark e) \<and> zs (bm_member e) = Some (f64_of_int (be_at e)))"

definition id_free :: "bm_facts \<Rightarrow> string \<Rightarrow> string \<times> string \<Rightarrow> bool" where
  "id_free V bid k \<longleftrightarrow> (\<forall>e \<in> set (fst V). be_id e = bid \<longrightarrow> edge_key e = k)"

lemma write_edge_backed:
  assumes "bm_backed V" "id_free V (be_id e) (edge_key e)"
  shows "bm_backed (write_edge e V)"
proof -
  obtain es js zs where V: "V = (es, js, zs)" by (cases V)
  let ?es = "e # filter (\<lambda>x. edge_key x \<noteq> edge_key e) es"
  have mem: "bm_member x = bm_member e" if "edge_key x = edge_key e" for x
    using that by (simp add: bm_member_def edge_key_def)
  have es: "distinct (map edge_key es)" "distinct (map be_id es)" "dom js \<subseteq> edge_key ` set es" "dom zs \<subseteq> bm_member ` set es"
    using assms(1) V by (simp_all add: bm_backed_def)
  have k: "edge_key ` set es \<subseteq> edge_key ` set ?es" by auto
  have m: "bm_member ` set es \<subseteq> bm_member ` set ?es" 
  proof (rule image_subsetI)
    fix x assume x: "x \<in> set es"
    show "bm_member x \<in> bm_member ` set ?es"
    proof (cases "edge_key x = edge_key e")
      case True show ?thesis unfolding mem [OF True] by simp
    next
      case False then show ?thesis using x by simp
    qed
  qed
  have "distinct (map edge_key ?es)" "distinct (map be_id ?es)"
    using es(1,2) assms(2) V by (auto simp: id_free_def distinct_map_filter)
  then show ?thesis
    using subset_trans [OF es(3) k] subset_trans [OF es(4) m] unfolding V write_edge_def bm_backed_def prod.case by (intro conjI)
qed

lemma put_facts_backed:
  assumes "bm_backed V" "e \<in> set (fst V)"
  shows "bm_backed (write_json e V)" "bm_backed (write_row e (write_json e V))"
  using assms by (cases V; force simp: bm_backed_def view_defs)+

lemma drop_facts_backed:
  assumes "bm_backed V"
  shows "bm_backed (drop_json e V)" "bm_backed (drop_row e (drop_json e V))"
  using assms by (cases V; force simp: bm_backed_def view_defs)+

lemma drop_edge_backed:
  assumes "bm_backed V" "e \<in> set (fst V)"
  shows "bm_backed (drop_edge (be_id e) (drop_row e (drop_json e V)))"
proof -
  obtain es js zs where V: "V = (es, js, zs)" by (cases V)
  have one: "x = e" if "x \<in> set es" "be_id x = be_id e" for x
    using assms V that by (auto simp: bm_backed_def distinct_map inj_on_def)
  have "dom js - {edge_key e} \<subseteq> edge_key ` {x \<in> set es. be_id x \<noteq> be_id e}"
    "dom zs - {bm_member e} \<subseteq> bm_member ` {x \<in> set es. be_id x \<noteq> be_id e}"
    using assms(1) V one unfolding bm_backed_def by blast+
  then show ?thesis using assms(1) V by (simp add: bm_backed_def view_defs distinct_map_filter)
qed

lemma put_indexed: "e \<in> set (fst V) \<Longrightarrow> bm_indexed (write_row e (write_json e V)) e"
  by (auto simp: bm_indexed_def view_defs split: prod.splits)

text \<open>A bookmark of one post is written or removed apart from all others.\<close>

definition bm_apart :: "string \<times> string \<Rightarrow> bm_facts \<Rightarrow> bm_facts \<Rightarrow> bool" where
  "bm_apart k V V' \<longleftrightarrow> (case V of (es, js, zs) \<Rightarrow> case V' of (es', js', zs') \<Rightarrow>
     (\<forall>x. edge_key x \<noteq> k \<longrightarrow> (x \<in> set es' \<longleftrightarrow> x \<in> set es) \<and> js' (edge_key x) = js (edge_key x) \<and>
       (bm_member x \<noteq> fst k @ '':'' @ snd k \<longrightarrow> zs' (bm_member x) = zs (bm_member x))))"

lemma bm_apart_refl [simp]: "bm_apart k V V"
  by (simp add: bm_apart_def split: prod.splits)

lemma bm_apart_trans: "bm_apart k V V' \<Longrightarrow> bm_apart k V' V'' \<Longrightarrow> bm_apart k V V''"
  by (simp add: bm_apart_def split: prod.splits)

lemma bm_apart_writes:
  "bm_apart (edge_key e) V (write_edge e V)" "bm_apart (edge_key e) V (write_json e V)" "bm_apart (edge_key e) V (write_row e V)"
  "bm_apart (edge_key e) V (drop_json e V)" "bm_apart (edge_key e) V (drop_row e V)"
  by (auto simp: bm_apart_def view_defs bm_member_def edge_key_def split: prod.splits)

lemma bm_apart_drop:
  assumes "bm_backed V" "e \<in> set (fst V)"
  shows "bm_apart (edge_key e) V (drop_edge (be_id e) V)"
  using assms by (auto simp: bm_apart_def view_defs bm_backed_def distinct_map inj_on_def split: prod.splits)

lemma fst_writes [simp]:
  "fst (write_json e V) = fst V" "fst (write_row e V) = fst V" "fst (drop_json e V) = fst V" "fst (drop_row e V) = fst V"
  "e \<in> set (fst (write_edge e V))"
  by (simp_all add: view_defs split: prod.splits)

text \<open>A put after its edge was written, and a delete after it found its edge.\<close>

lemma put_to_index_facts:
  assumes "bookmark_put_to_index (edge_bookmark e) (be_author e) (be_post e) u w = (r, w')" "steady (bm_view u) w"
    and "bm_backed (bm_view u (kv w))" "e \<in> set (fst (bm_view u (kv w)))"
  shows "steady (bm_view u) w' \<and> bm_backed (bm_view u (kv w')) \<and> fst (bm_view u (kv w')) = fst (bm_view u (kv w)) \<and>
    bm_apart (edge_key e) (bm_view u (kv w)) (bm_view u (kv w')) \<and> (r = Inr () \<longrightarrow> bm_indexed (bm_view u (kv w')) e)"
proof -
  let ?V = "bm_view u (kv w)"
  have "bm_apart (edge_key e) ?V (write_row e (write_json e ?V))"
    by (rule bm_apart_trans [OF bm_apart_writes(2) bm_apart_writes(3)])
  then show ?thesis
    using put_to_index_view [OF assms(1,2)] put_facts_backed [OF assms(3,4)] put_indexed [OF assms(4)]
      bm_apart_writes(2) [of e ?V] assms(3) by auto
qed

lemma del_from_index_facts:
  assumes "bookmark_del_from_index u (be_post e) (be_author e) w = (r, w')" "steady (bm_view u) w"
    and "bm_backed (bm_view u (kv w))"
  shows "steady (bm_view u) w' \<and> bm_backed (bm_view u (kv w')) \<and> bm_apart (edge_key e) (bm_view u (kv w)) (bm_view u (kv w')) \<and>
    (r = Inr () \<longrightarrow> bm_view u (kv w') = drop_row e (drop_json e (bm_view u (kv w))))"
proof -
  let ?V = "bm_view u (kv w)"
  have "bm_apart (edge_key e) ?V (drop_row e (drop_json e ?V))"
    by (rule bm_apart_trans [OF bm_apart_writes(4) bm_apart_writes(5)])
  then show ?thesis
    using del_from_index_view [OF assms(1,2)] drop_facts_backed [OF assms(3)] bm_apart_writes(4) [of e ?V] assms(3) by auto
qed

section \<open>The handler keeps the index within the graph\<close>

lemma steady_env_step: "steady view w \<Longrightarrow> steady view (env_step w) \<and> view (kv (env_step w)) = view (kv w)"
  by (simp add: steady_def env_step_def)

lemma sync_put_facts:
  fixes u a p bid :: string and w :: "bm_kv world"
  defines "e \<equiv> new_edge a p bid (clock w (tick w))"
  assumes "bookmark_sync_put E u uri bid w = (r, w')" "bookmark_target E uri = Inr (a, p)" "steady (bm_view u) w"
    and "bm_backed (bm_view u (kv w))" "id_free (bm_view u (kv w)) bid (a, p)"
  shows "bm_backed (bm_view u (kv w')) \<and> bm_apart (a, p) (bm_view u (kv w)) (bm_view u (kv w')) \<and>
    (r = Inr () \<longrightarrow> bm_indexed (bm_view u (kv w')) e)"
proof -
  let ?V = "bm_view u (kv w)"
  have e: "edge_key e = (a, p)" "edge_bookmark e = (bid, clock w (tick w))" "be_author e = a" "be_post e = p" "be_id e = bid"
    by (simp_all add: e_def edge_key_def)
  obtain q w2 where g: "graph_call (create_post_bookmark u a p bid (clock w (tick w))) (env_step w) = (q, w2)" by force
  have "steady (bm_view u) (env_step w)" and v1: "bm_view u (kv (env_step w)) = ?V"
    using steady_env_step [OF assms(4)] by blast+
  note gv = graph_view [OF g this(1), of "\<lambda>f V V'. case f of None \<Rightarrow> V' = V | Some _ \<Rightarrow> V' = write_edge e V",
      OF create_bookmark_view [of u a p bid "clock w (tick w)", folded e_def], unfolded v1]
  have f2: "steady (bm_view u) w2" "q = Inr None \<Longrightarrow> bm_view u (kv w2) = ?V"
      "\<And>b. q = Inr (Some b) \<Longrightarrow> bm_view u (kv w2) = write_edge e ?V"
      "bm_view u (kv w2) = ?V \<or> bm_view u (kv w2) = write_edge e ?V"
    using gv by (auto split: option.splits)
  have b2: "bm_backed (write_edge e ?V)" using write_edge_backed [of ?V e] assms(5,6) e by simp
  have a2: "bm_apart (a, p) ?V (write_edge e ?V)" using bm_apart_writes(1) [of e ?V] e by simp
  show ?thesis
  proof (cases "\<exists>b. q = Inr (Some b)")
    case False
    then have "w' = w2 \<and> r \<noteq> Inr ()"
      using assms(2,3) g
      by (cases q) (auto simp: bookmark_sync_put_def utc_now_def andthen_def map_err_def execute_graph_operation_def split: option.splits)
    then show ?thesis using f2(4) b2 a2 assms(5) by auto
  next
    case True
    then obtain b where q: "q = Inr (Some b)" by blast
    obtain r3 w3 where ix: "bookmark_put_to_index (edge_bookmark e) (be_author e) (be_post e) u w2 = (r3, w3)" by force
    have "w' = w3 \<and> (r = Inr () \<longrightarrow> r3 = Inr ())"
      using assms(2,3) g q ix e
      by (cases r3) (auto simp: bookmark_sync_put_def utc_now_def andthen_def map_err_def execute_graph_operation_def split: bool.splits)
    moreover note put_to_index_facts [OF ix f2(1)]
    ultimately show ?thesis using f2(3) [OF q] b2 a2 bm_apart_trans e(1) by auto
  qed
qed

lemma sync_del_facts:
  assumes "bookmark_sync_del E u bid w = (r, w')" "steady (bm_view u) w" "bm_backed (bm_view u (kv w))"
  shows "bm_backed (bm_view u (kv w')) \<and>
    (\<forall>e. e \<in> set (fst (bm_view u (kv w))) \<and> be_id e = bid \<longrightarrow> bm_apart (edge_key e) (bm_view u (kv w)) (bm_view u (kv w'))) \<and>
    (r = Inr () \<longrightarrow> bid \<notin> be_id ` set (fst (bm_view u (kv w'))))"
proof -
  let ?V = "bm_view u (kv w)"
  obtain q w1 where g: "graph_call (get_bookmark_target u bid) w = (q, w1)" by force
  let ?found = "List.find (\<lambda>e. be_id e = bid) (fst ?V)"
  have f1: "steady (bm_view u) w1" "bm_view u (kv w1) = ?V"
      "\<And>x. q = Inr x \<Longrightarrow> x = map_option (\<lambda>e. (be_post e, be_author e)) ?found"
    using graph_view [OF g assms(2), of "\<lambda>x V V'. V' = V \<and> x = map_option (\<lambda>e. (be_post e, be_author e)) (List.find (\<lambda>e. be_id e = bid) (fst V))"]
    by (auto simp: get_bookmark_target_def bm_view_def)
  show ?thesis
  proof (cases "\<exists>e. q = Inr (Some (be_post e, be_author e)) \<and> ?found = Some e")
    case False
    then have "w' = w1 \<and> (r = Inr () \<longrightarrow> ?found = None)"
      using assms(1) g f1(3)
      by (cases q) (auto simp: bookmark_sync_del_def andthen_def map_err_def pass_def split: option.splits)
    then show ?thesis using f1(2) assms(3) by (auto simp: find_None_iff)
  next
    case True
    then obtain e where q: "q = Inr (Some (be_post e, be_author e))" and fd: "?found = Some e" by blast
    have e: "e \<in> set (fst ?V)" "be_id e = bid" using fd by (auto simp: find_Some_iff)
    have one: "x = e" if "x \<in> set (fst ?V)" "be_id x = bid" for x
      using that e assms(3) by (auto simp: bm_backed_def distinct_map inj_on_def split: prod.splits)
    obtain r2 w2 where ix: "bookmark_del_from_index u (be_post e) (be_author e) w1 = (r2, w2)" by force
    note f2 = del_from_index_facts [OF ix f1(1), unfolded f1(2), OF assms(3)]
    obtain q3 w3 where d: "graph_call (delete_bookmark u bid) w2 = (q3, w3)" by force
    note f3 = graph_view [OF d conjunct1 [OF f2], of "\<lambda>_ V V'. V' = drop_edge bid V", OF delete_bookmark_view]
    have "w' = w2 \<and> r \<noteq> Inr () \<or> r2 = Inr () \<and> w' = w3 \<and> (r = Inr () \<longrightarrow> (\<exists>x. q3 = Inr x))"
      using assms(1) g q ix d
      by (cases r2; cases q3) (auto simp: bookmark_sync_del_def andthen_def map_err_def pass_def)
    moreover have "bm_backed (drop_edge bid (drop_row e (drop_json e ?V)))"
      "bm_apart (edge_key e) ?V (drop_edge bid (drop_row e (drop_json e ?V)))"
      using drop_edge_backed [OF assms(3) e(1)] e
        bm_apart_drop [OF drop_facts_backed(2) [OF assms(3)], of e e]
        bm_apart_trans [OF bm_apart_trans [OF bm_apart_writes(4) bm_apart_writes(5)]] by auto
    ultimately show ?thesis
      using f2 f3 one by (auto simp: drop_edge_def split: prod.splits)
  qed
qed

section \<open>Rebuilding the index\<close>

text \<open>
  What the graph guarantees: post ids are unique (setup.rs, \<open>uniquePostId\<close>) and not empty, and a user id has no colon.
\<close>

definition bm_graph :: "bm_edge list \<Rightarrow> bool" where
  "bm_graph es \<longleftrightarrow> distinct (map be_post es) \<and> (\<forall>e \<in> set es. be_post e \<noteq> [] \<and> CHR '':'' \<notin> set (be_author e))"

lemma colon_split:
  assumes "a @ CHR '':'' # p = b @ CHR '':'' # q" "CHR '':'' \<notin> set a" "CHR '':'' \<notin> set b"
  shows "a = b \<and> p = q"
proof -
  have "takeWhile (\<lambda>c. c \<noteq> CHR '':'') (a @ CHR '':'' # p) = a" "takeWhile (\<lambda>c. c \<noteq> CHR '':'') (b @ CHR '':'' # q) = b"
    using assms(2,3) by (auto simp: takeWhile_append takeWhile_eq_all_conv)
  then show ?thesis using assms(1) by auto
qed

lemma bm_graph_one:
  assumes "bm_graph es" "x \<in> set es" "e \<in> set es" "bm_member x = bm_member e \<or> edge_key x = edge_key e"
  shows "x = e"
proof -
  have "be_post x = be_post e"
    using assms colon_split [of "be_author x" "be_post x" "be_author e" "be_post e"]
    by (auto simp: bm_graph_def bm_member_def edge_key_def)
  then show ?thesis using assms(1-3) by (auto simp: bm_graph_def distinct_map inj_on_def)
qed

lemma put_keeps_indexed:
  assumes "bm_graph (fst V)" "e \<in> set (fst V)" "bm_indexed V x"
  shows "bm_indexed (write_json e V) x" "bm_indexed (write_row e (write_json e V)) x"
  using assms bm_graph_one [OF assms(1) _ assms(2), of x]
  by (auto simp: bm_indexed_def view_defs split: prod.splits)

lemma redis_call_clean: "redis_call f w = (r, w') \<Longrightarrow> fault w = (\<lambda>_. None) \<Longrightarrow> \<exists>x. r = Inr x"
  by (auto simp: redis_call_def Let_def)

lemma graph_call_clean: "graph_call f w = (r, w') \<Longrightarrow> graph_fault w = (\<lambda>_. None) \<Longrightarrow> \<exists>x. r = Inr x"
  by (auto simp: graph_call_def Let_def)

lemma put_to_index_schedule:
  assumes "bookmark_put_to_index b a p u w = (r, w')"
  shows "same_schedule w w'" "fault w = (\<lambda>_. None) \<Longrightarrow> r = Inr ()"
proof -
  obtain f h where "bookmark_put_to_index b a p u = andthen (redis_call f) (\<lambda>_ :: unit. redis_call h)"
    by (auto simp: bookmark_put_to_index_def add_to_bookmarks_sorted_set_def put_index_sorted_set_def [abs_def] zset_put_def [abs_def])
  moreover obtain r1 w1 where c1: "redis_call f w = (r1, w1)" by force
  moreover obtain r2 w2 where c2: "redis_call h w1 = (r2, w2)" by force
  ultimately have eq: "(\<exists>e. r1 = Inl e) \<and> w' = w1 \<or> (\<exists>x. r1 = Inr x) \<and> r = r2 \<and> w' = w2"
    using assms by (cases r1) (auto simp: andthen_def)
  note s = redis_call_schedule [OF c1] redis_call_schedule [OF c2]
  then show "same_schedule w w'" using eq same_schedule_trans by blast
  assume cl: "fault w = (\<lambda>_. None)"
  then have "fault w1 = (\<lambda>_. None)" using s(1) by (simp add: same_schedule_def)
  then show "r = Inr ()" using redis_call_clean [OF c1 cl] redis_call_clean [OF c2] eq by (cases r) auto
qed

text \<open>\<open>bm_outside V\<close>: where the graph has no bookmark, records and members are those of \<open>V\<close>.\<close>

definition bm_outside :: "bm_facts \<Rightarrow> bm_facts \<Rightarrow> bool" where
  "bm_outside V W \<longleftrightarrow> (case V of (es, js, zs) \<Rightarrow> case W of (es', js', zs') \<Rightarrow>
     es' = es \<and> (\<forall>k. k \<notin> edge_key ` set es \<longrightarrow> js' k = js k) \<and> (\<forall>m. m \<notin> bm_member ` set es \<longrightarrow> zs' m = zs m))"

lemma bm_outside_refl [simp]: "bm_outside V V"
  by (simp add: bm_outside_def split: prod.split)

lemma put_outside:
  assumes "bm_outside V W" "e \<in> set (fst W)"
  shows "bm_outside V (write_json e W)" "bm_outside V (write_row e (write_json e W))"
  using assms by (auto simp: bm_outside_def view_defs split: prod.splits)

text \<open>\<open>bm_ok\<close>: nobody else works on the bookmarks of the user, which were \<open>V\<close> at the start; if \<open>clean\<close>, no call fails.\<close>

definition bm_ok :: "bool \<Rightarrow> string \<Rightarrow> bm_facts \<Rightarrow> bm_kv world \<Rightarrow> bool" where
  "bm_ok clean u V w \<longleftrightarrow> steady (bm_view u) w \<and> bm_outside V (bm_view u (kv w)) \<and> bm_graph (fst (bm_view u (kv w))) \<and>
     (clean \<longrightarrow> fault w = (\<lambda>_. None) \<and> graph_fault w = (\<lambda>_. None))"

lemma put_row_ok:
  assumes "bookmark_put_to_index (edge_bookmark e) (be_author e) (be_post e) u w = (r, w')" "bm_ok clean u V w"
    and "e \<in> set (fst (bm_view u (kv w)))"
  shows "bm_ok clean u V w' \<and> fst (bm_view u (kv w')) = fst (bm_view u (kv w)) \<and> (clean \<longrightarrow> r = Inr ()) \<and>
    (\<forall>x. bm_indexed (bm_view u (kv w)) x \<longrightarrow> bm_indexed (bm_view u (kv w')) x) \<and>
    (r = Inr () \<longrightarrow> bm_indexed (bm_view u (kv w')) e)"
proof -
  have st: "steady (bm_view u) w" "bm_outside V (bm_view u (kv w))" "bm_graph (fst (bm_view u (kv w)))"
    using assms(2) by (simp_all add: bm_ok_def)
  note v = put_to_index_view [OF assms(1) st(1)] and s = put_to_index_schedule [OF assms(1)]
  have "bm_indexed (bm_view u (kv w')) x" if "bm_indexed (bm_view u (kv w)) x" for x
    using v put_keeps_indexed [OF st(3) assms(3) that] that by auto
  moreover have "bm_ok clean u V w'"
    using v put_outside [OF st(2) assms(3)] st s(1) assms(2) by (auto simp: bm_ok_def same_schedule_def)
  moreover have "clean \<longrightarrow> r = Inr ()" using s(2) assms(2) by (auto simp: bm_ok_def)
  ultimately show ?thesis using v put_indexed [OF assms(3)] by auto
qed

lemma put_rows_ok:
  assumes "put_rows u rows w = (r, w')" "bm_ok clean u V w" "set rows \<subseteq> set (fst (bm_view u (kv w)))"
  shows "bm_ok clean u V w' \<and> fst (bm_view u (kv w')) = fst (bm_view u (kv w)) \<and> (clean \<longrightarrow> r = Inr ()) \<and>
    (\<forall>x. bm_indexed (bm_view u (kv w)) x \<longrightarrow> bm_indexed (bm_view u (kv w')) x) \<and>
    (r = Inr () \<longrightarrow> (\<forall>x \<in> set rows. bm_indexed (bm_view u (kv w')) x))"
  using assms
proof (induction rows arbitrary: w)
  case Nil then show ?case by (simp add: pass_def)
next
  case (Cons e rows)
  obtain r1 w1 where p: "bookmark_put_to_index (edge_bookmark e) (be_author e) (be_post e) u w = (r1, w1)" by force
  have "e \<in> set (fst (bm_view u (kv w)))" using Cons.prems(3) by simp
  note f1 = put_row_ok [OF p Cons.prems(2) this]
  show ?case
  proof (cases r1)
    case (Inl x)
    then have "r = Inl x \<and> w' = w1" using Cons.prems(1) p by (simp add: andthen_def)
    then show ?thesis using f1 Inl by auto
  next
    case (Inr x)
    then have "put_rows u rows w1 = (r, w')" using Cons.prems(1) p by (simp add: andthen_def)
    from Cons.IH [OF this] show ?thesis using f1 Inr Cons.prems(3) by auto
  qed
qed

abbreviation bm_rows :: "string \<Rightarrow> bm_kv world \<Rightarrow> bm_edge list" where
  "bm_rows u w \<equiv> sort_key be_post (fst (bm_view u (kv w)))"

abbreviation bm_seen :: "string \<Rightarrow> bm_edge \<Rightarrow> bm_kv world \<Rightarrow> bool" where
  "bm_seen u e w \<equiv> bm_indexed (bm_view u (kv w)) e"

lemma bookmark_step_ok:
  assumes "bookmark_step u c w = (q, w')" "bm_ok clean u V w"
  shows "bm_ok clean u V w' \<and> fst (bm_view u (kv w')) = fst (bm_view u (kv w)) \<and> (\<forall>x. bm_seen u x w \<longrightarrow> bm_seen u x w') \<and>
    (clean \<longrightarrow> (\<exists>v. q = Inr v)) \<and>
    (\<forall>n lc. q = Inr (n, lc) \<longrightarrow> (\<exists>page. page = page_above be_post BOOKMARK_PAGE_SIZE c (bm_rows u w) \<and>
      n = length page \<and> (page \<noteq> [] \<longrightarrow> lc = Some (be_post (last page))) \<and> (\<forall>e \<in> set page. bm_seen u e w')))"
proof -
  define page where "page = page_above be_post BOOKMARK_PAGE_SIZE c (bm_rows u w)"
  obtain r w1 where g: "graph_call (user_bookmarks u c BOOKMARK_PAGE_SIZE) w = (r, w1)" by force
  have st: "steady (bm_view u) w" using assms(2) by (simp add: bm_ok_def)
  have f1: "steady (bm_view u) w1" "bm_view u (kv w1) = bm_view u (kv w)" "\<And>rows. r = Inr rows \<Longrightarrow> rows = page"
    using graph_view [OF g st, of "\<lambda>rows V V'. V' = V \<and> rows = page_above be_post BOOKMARK_PAGE_SIZE c (sort_key be_post (fst V))"]
    by (auto simp: user_bookmarks_def bm_view_def page_def)
  have ok1: "bm_ok clean u V w1"
    using assms(2) f1(1,2) graph_call_schedule [OF g] by (simp add: bm_ok_def same_schedule_def)
  show ?thesis
  proof (cases r)
    case (Inl x)
    then have "\<not> clean" using graph_call_clean [OF g] assms(2) by (auto simp: bm_ok_def)
    moreover have "w' = w1 \<and> (\<exists>y. q = Inl y)"
      using assms(1) g Inl by (auto simp: bookmark_step_def andthen_def map_err_def)
    ultimately show ?thesis using ok1 f1(2) by auto
  next
    case (Inr rows)
    obtain r2 w2 where p: "put_rows u page w1 = (r2, w2)" by force
    have "set page \<subseteq> set (fst (bm_view u (kv w1)))"
      unfolding page_def page_above_def f1(2) by (auto dest: in_set_takeD)
    note f2 = put_rows_ok [OF p ok1 this]
    have "be_post (last page) \<noteq> []" if "page \<noteq> []"
    proof -
      have "last page \<in> set (bm_rows u w)"
        using last_in_set [OF that] unfolding page_def page_above_def by (auto dest: in_set_takeD)
      then show ?thesis using assms(2) by (simp add: bm_ok_def bm_graph_def)
    qed
    then have "w' = w2 \<and> q = (case r2 of Inl e \<Rightarrow> Inl (KvOperationFailed e)
        | Inr _ \<Rightarrow> Inr (length page, if page = [] then None else Some (be_post (last page))))"
      using assms(1) g Inr f1(3) [OF Inr] p
      by (cases r2) (auto simp: bookmark_step_def andthen_def map_err_def pass_def Let_def)
    then show ?thesis using f2 f1(2) unfolding page_def [symmetric] by (cases r2) auto
  qed
qed

interpretation bookmarks: keyset_step "bookmark_step u" BOOKMARK_PAGE_SIZE be_post "bm_rows u" "bm_ok clean u V" "bm_seen u"
  for u clean V
proof unfold_locales
  show "0 < BOOKMARK_PAGE_SIZE" by (simp add: BOOKMARK_PAGE_SIZE_def)
next
  fix w assume "bm_ok clean u V w"
  then show "strictly_sorted be_post (bm_rows u w)" by (intro sort_key_strict) (simp add: bm_ok_def bm_graph_def)
next
  fix w w' c q assume "bm_ok clean u V w" "bookmark_step u c w = (q, w')"
  then show "bm_ok clean u V w' \<and> bm_rows u w' = bm_rows u w \<and> (\<forall>r. bm_seen u r w \<longrightarrow> bm_seen u r w')"
    using bookmark_step_ok by fastforce
next
  fix w w' c n lc assume "bm_ok clean u V w" "bookmark_step u c w = (Inr (n, lc), w')"
  then show "n = length (page_above be_post BOOKMARK_PAGE_SIZE c (bm_rows u w)) \<and>
      (page_above be_post BOOKMARK_PAGE_SIZE c (bm_rows u w) \<noteq> [] \<longrightarrow>
        lc = Some (be_post (last (page_above be_post BOOKMARK_PAGE_SIZE c (bm_rows u w))))) \<and>
      (\<forall>r \<in> set (page_above be_post BOOKMARK_PAGE_SIZE c (bm_rows u w)). bm_seen u r w')"
    using bookmark_step_ok by blast
qed

text \<open>The bookmarks of the graph over what was there before.\<close>

definition bm_restored :: "bm_facts \<Rightarrow> bm_facts \<Rightarrow> bool" where
  "bm_restored V W \<longleftrightarrow> (case V of (es, js, zs) \<Rightarrow> case W of (es', js', zs') \<Rightarrow>
     es' = es \<and> js' = js ++ edge_of es \<and> zs' = zs ++ map_of (map (\<lambda>e. (bm_member e, f64_of_int (be_at e))) es))"

lemma edge_of_None: "edge_of es k = None \<longleftrightarrow> k \<notin> edge_key ` set es"
  by (auto simp: edge_of_def find_None_iff)

lemma edge_of_Some:
  assumes "distinct (map edge_key es)" "e \<in> set es"
  shows "edge_of es (edge_key e) = Some (edge_bookmark e)"
  using assms by (induction es) (auto simp: edge_of_def image_iff)

lemma all_indexed_restored:
  assumes "bm_outside V W" "bm_graph (fst W)" "\<forall>e \<in> set (fst W). bm_indexed W e"
  shows "bm_restored V W"
proof -
  obtain es js zs where V: "V = (es, js, zs)" by (cases V)
  obtain js' zs' where W: "W = (es, js', zs')" using assms(1) V by (cases W) (auto simp: bm_outside_def)
  have d: "distinct (map edge_key es)" "distinct (map bm_member es)"
    using assms(2) W bm_graph_one [of es] by (auto simp: distinct_map inj_on_def bm_graph_def)
  have ix: "js' (edge_key e) = Some (edge_bookmark e)" "zs' (bm_member e) = Some (f64_of_int (be_at e))" if "e \<in> set es" for e
    using assms(3) W that by (auto simp: bm_indexed_def)
  have out: "k \<notin> edge_key ` set es \<Longrightarrow> js' k = js k" "m \<notin> bm_member ` set es \<Longrightarrow> zs' m = zs m" for k m
    using assms(1) unfolding V W bm_outside_def prod.case by blast+
  have "js' k = (js ++ edge_of es) k" for k
  proof (cases "k \<in> edge_key ` set es")
    case True
    then obtain e where "e \<in> set es" "k = edge_key e" by blast
    then show ?thesis using ix(1) edge_of_Some [OF d(1)] by (simp add: map_add_def)
  next
    case False then show ?thesis using out(1) edge_of_None [of es k] by (simp add: map_add_def)
  qed
  moreover have "zs' x = (zs ++ map_of (map (\<lambda>e. (bm_member e, f64_of_int (be_at e))) es)) x" for x
  proof (cases "x \<in> bm_member ` set es")
    case True
    then obtain e where e: "e \<in> set es" "x = bm_member e" by blast
    have "map_of (map (\<lambda>e. (bm_member e, f64_of_int (be_at e))) es) x = Some (f64_of_int (be_at e))"
      using d(2) e by (intro map_of_is_SomeI) (auto simp: comp_def)
    then show ?thesis using ix(2) e by (simp add: map_add_def)
  next
    case False
    then have "map_of (map (\<lambda>e. (bm_member e, f64_of_int (be_at e))) es) x = None" by (auto simp: map_of_eq_None_iff)
    then show ?thesis using False out(2) by (simp add: map_add_def)
  qed
  ultimately show ?thesis unfolding V W bm_restored_def by (simp add: fun_eq_iff)
qed

lemma reindex_facts:
  assumes "bm_ok clean u V w"
  shows "\<exists>q w'. bookmark_reindex u w = Some (q, w') \<and> bm_ok clean u V w' \<and>
    (q = Inr () \<longrightarrow> bm_restored V (bm_view u (kv w'))) \<and> (clean \<longrightarrow> q = Inr ())"
proof -
  from bookmarks.loop_visits_all [OF assms, of GraphOperationFailed "\<lambda>c. c" "''bookmark_reindex''" "[]"] obtain q w' where
    lp: "bookmark_reindex u w = Some (q, w')" "bm_ok clean u V w'" "bm_rows u w' = bm_rows u w"
    and q: "case q of Inr _ \<Rightarrow> \<forall>r \<in> set (bm_rows u w). [] < be_post r \<longrightarrow> bm_seen u r w'
      | Inl e \<Rightarrow> \<exists>c v v'. bm_ok clean u V v \<and> bookmark_step u c v = (Inl e, v')"
    unfolding bookmark_reindex_def keyset_scan_def by blast
  have "bm_restored V (bm_view u (kv w'))" if "q = Inr ()"
  proof (rule all_indexed_restored)
    show "bm_outside V (bm_view u (kv w'))" "bm_graph (fst (bm_view u (kv w')))" using lp(2) by (simp_all add: bm_ok_def)
    show "\<forall>e \<in> set (fst (bm_view u (kv w'))). bm_indexed (bm_view u (kv w')) e"
    proof
      fix e assume e: "e \<in> set (fst (bm_view u (kv w')))"
      then have "be_post e \<noteq> []" using lp(2) by (simp add: bm_ok_def bm_graph_def)
      then have "[] < be_post e" by (cases "be_post e") simp_all
      moreover have "e \<in> set (bm_rows u w)" using e unfolding lp(3) [symmetric] by simp
      ultimately show "bm_indexed (bm_view u (kv w')) e" using q that by simp
    qed
  qed
  moreover have "clean \<longrightarrow> q = Inr ()"
  proof (cases q)
    case (Inl e)
    then obtain c v v' where "bm_ok clean u V v" "bookmark_step u c v = (Inl e, v')" using q by auto
    then show ?thesis using bookmark_step_ok by blast
  qed simp
  ultimately show ?thesis using lp by blast
qed

section \<open>Reading through the index\<close>

text \<open>\<open>bm_fresh\<close>: a record, where there is one, is the bookmark of the graph.\<close>

definition bm_fresh :: "bm_facts \<Rightarrow> bool" where
  "bm_fresh V \<longleftrightarrow> (case V of (es, js, zs) \<Rightarrow> js \<subseteq>\<^sub>m edge_of es)"

lemma put_fresh:
  assumes "bm_fresh V" "edge_of (fst V) (edge_key e) = Some (edge_bookmark e)"
  shows "bm_fresh (write_json e V)" "bm_fresh (write_row e (write_json e V))"
  using assms by (auto simp: bm_fresh_def view_defs map_le_def split: prod.splits)

lemma post_bookmark_view: "post_bookmark a p v g = (edge_of (fst (bm_view v g)) (a, p), g)"
  by (simp add: post_bookmark_def edge_of_def bm_view_def)

text \<open>The ways a read can go.\<close>

lemma get_by_id_run:
  assumes run: "bookmark_get_by_id a p (Some u) w = (r, w')"
    and c: "redis_call (\<lambda>g. (bm_json g (a, p, u), g)) w = (q, w1)"
    and g: "graph_call (post_bookmark a p u) w1 = (q2, w2)"
  shows "(w' = w1 \<or> w' = w2) \<and> (\<forall>x. r \<noteq> Inr x) \<or> (\<exists>b. q = Inr (Some b) \<and> r = Inr (Some b) \<and> w' = w1) \<or>
    q2 = Inr None \<and> r = Inr None \<and> w' = w2 \<or>
    (\<exists>b r3. q2 = Inr (Some b) \<and> bookmark_put_to_index b a p u w2 = (r3, w') \<and> (\<forall>x. r = Inr x \<longrightarrow> x = Some b \<and> r3 = Inr ()))"
proof (cases q)
  case (Inl e)
  then show ?thesis using run c by (auto simp: bookmark_get_by_id_def andthen_def map_err_def)
next
  case (Inr found)
  show ?thesis
  proof (cases found)
    case (Some b)
    then show ?thesis using run c Inr by (simp add: bookmark_get_by_id_def andthen_def map_err_def pass_def)
  next
    case None
    let ?rest = "\<lambda>edge. case edge of
        Some b \<Rightarrow> andthen (map_err KvOperationFailed (bookmark_put_to_index b a p u)) (\<lambda>_. pass (Some b))
      | None \<Rightarrow> pass None"
    have eq: "(case q2 of Inl e \<Rightarrow> (Inl (GraphOperationFailed e), w2) | Inr edge \<Rightarrow> ?rest edge w2) = (r, w')"
      using run c g Inr None by (cases q2) (simp_all add: bookmark_get_by_id_def andthen_def map_err_def)
    show ?thesis
    proof (cases q2)
      case (Inl e) then show ?thesis using eq by auto
    next
      case (Inr edge)
      show ?thesis
      proof (cases edge)
        case None then show ?thesis using eq Inr by (simp add: pass_def)
      next
        case (Some b)
        obtain r3 w3 where p: "bookmark_put_to_index b a p u w2 = (r3, w3)" by force
        then have "w' = w3 \<and> (\<forall>x. r = Inr x \<longrightarrow> x = Some b \<and> r3 = Inr ())"
          using eq Inr Some by (cases r3) (auto simp: andthen_def map_err_def pass_def)
        then show ?thesis using Inr Some p by auto
      qed
    qed
  qed
qed

lemma get_by_id_facts:
  assumes "bookmark_get_by_id a p (Some u) w = (r, w')" "steady (bm_view u) w" "bm_fresh (bm_view u (kv w))"
  shows "bm_fresh (bm_view u (kv w')) \<and> fst (bm_view u (kv w')) = fst (bm_view u (kv w)) \<and>
    (\<forall>x. r = Inr x \<longrightarrow> x = edge_of (fst (bm_view u (kv w))) (a, p) \<and>
      (\<forall>b. x = Some b \<longrightarrow> fst (snd (bm_view u (kv w'))) (a, p) = Some b))"
proof -
  let ?V = "bm_view u (kv w)"
  let ?js = "\<lambda>V. fst (snd V) (a, p)"
  obtain q w1 where c: "redis_call (\<lambda>g. (bm_json g (a, p, u), g)) w = (q, w1)" by force
  have f1: "steady (bm_view u) w1" "bm_view u (kv w1) = ?V" using redis_view [OF c assms(2), of "\<lambda>V. V"] by auto
  have q: "x = ?js ?V" if "q = Inr x" for x
    using c that steady_env_step [OF assms(2)]
    by (auto simp: redis_call_def Let_def bm_view_def fun_eq_iff split: option.splits call_fault.splits)
  obtain q2 w2 where g: "graph_call (post_bookmark a p u) w1 = (q2, w2)" by force
  have f2: "steady (bm_view u) w2" "bm_view u (kv w2) = ?V" "\<And>x. q2 = Inr x \<Longrightarrow> x = edge_of (fst ?V) (a, p)"
    using graph_view [OF g f1(1), of "\<lambda>x V V'. V' = V \<and> x = edge_of (fst V) (a, p)"] f1(2)
    by (auto simp: post_bookmark_view)
  have hit: "edge_of (fst ?V) (a, p) = Some b" if "?js ?V = Some b" for b
    using assms(3) that by (force simp: bm_fresh_def map_le_def split: prod.splits)
  from get_by_id_run [OF assms(1) c g] show ?thesis
  proof (elim disjE exE conjE)
    fix b assume cached: "q = Inr (Some b)" "r = Inr (Some b)" "w' = w1"
    have "?js ?V = Some b" using q [OF cached(1)] by simp
    then show ?thesis using hit [of b] cached f1(2) assms(3) by auto
  next
    fix b r3 assume filled: "q2 = Inr (Some b)" "bookmark_put_to_index b a p u w2 = (r3, w')"
      "\<forall>x. r = Inr x \<longrightarrow> x = Some b \<and> r3 = Inr ()"
    define e where "e = new_edge a p (fst b) (snd b)"
    have e: "edge_bookmark e = b" "be_author e = a" "be_post e = p" "edge_key e = (a, p)" by (simp_all add: e_def edge_key_def)
    have "bookmark_put_to_index (edge_bookmark e) (be_author e) (be_post e) u w2 = (r3, w')" using filled(2) e by simp
    from put_to_index_view [OF this f2(1), unfolded f2(2)] show ?thesis
      using put_fresh [OF assms(3), of e] f2(3) [OF filled(1)] filled(3) e assms(3)
      by (auto simp: write_json_def write_row_def split: prod.splits)
  qed (use f1 f2 assms(3) in auto)
qed

section \<open>Properties\<close>

text \<open>C16. The index of bookmarks never shows a bookmark the graph does not have: if every record and every
  member of a user's sorted set is that of an edge, this still holds after any put or delete of a
  bookmark, whatever failed on the way, and the bookmarks of other posts are as they were. A put that succeeds
  leaves the edge with its record and its member at the time of indexing; after a delete that succeeds there is no such bookmark.\<close>

theorem bookmark_index_within_graph:
  assumes "steady (bm_view u) w" "bm_backed (bm_view u (kv w))" "bookmark_target E uri = Inr (a, p)"
    and "id_free (bm_view u (kv w)) bid (a, p)"
  shows "(case bookmark_sync_put E u uri bid w of (r, w') \<Rightarrow>
        bm_backed (bm_view u (kv w')) \<and> bm_apart (a, p) (bm_view u (kv w)) (bm_view u (kv w')) \<and>
        (r = Inr () \<longrightarrow> bm_indexed (bm_view u (kv w'))
          \<lparr>be_author = a, be_post = p, be_id = bid, be_at = clock w (tick w)\<rparr>))
    \<and> (case bookmark_sync_del E u bid w of (r, w') \<Rightarrow>
        bm_backed (bm_view u (kv w')) \<and>
        (\<forall>e. e \<in> set (bm_edges (kv w) u) \<and> be_id e = bid \<longrightarrow>
          bm_apart (edge_key e) (bm_view u (kv w)) (bm_view u (kv w'))) \<and>
        (r = Inr () \<longrightarrow> bid \<notin> be_id ` set (bm_edges (kv w') u)))"
proof -
  have "fst (bm_view u g) = bm_edges g u" for g by (simp add: bm_view_def)
  then show ?thesis
    using sync_put_facts [OF _ assms(3,1,2,4)] sync_del_facts [OF _ assms(1,2)] by (auto split: prod.splits)
qed

definition demo_bm_env :: bm_env where
  "demo_bm_env = \<lparr>bx_show_graph = (\<lambda>_. ''graph''), bx_show_redis = (\<lambda>_. ''redis''), bx_debug = (\<lambda>_. ''other''),
     bx_parse = (\<lambda>uri. Inr (''a'', PostR uri))\<rparr>"

definition demo_bm_kv :: bm_kv where
  "demo_bm_kv = \<lparr>nt_sets = (\<lambda>_. []), z_sets = (\<lambda>_. []), bm_users = {''u''}, bm_posts = {(''a'', ''p'')},
     bm_edges = (\<lambda>u. if u = ''u'' then [\<lparr>be_author = ''a'', be_post = ''q'', be_id = ''Q'', be_at = 7\<rparr>] else []),
     bm_json = (\<lambda>_. None)\<rparr>"

lemma demo_bm_view:
  "bm_view ''u'' demo_bm_kv = ([\<lparr>be_author = ''a'', be_post = ''q'', be_id = ''Q'', be_at = 7\<rparr>], (\<lambda>_. None), (\<lambda>_. None))"
  by (simp add: bm_view_def demo_bm_kv_def)

theorem bookmark_index_within_graph_witness:
  "bm_indexed (bm_view ''u'' (kv (snd (bookmark_sync_put demo_bm_env ''u'' ''p'' ''P'' (calm_world demo_bm_kv)))))
     \<lparr>be_author = ''a'', be_post = ''p'', be_id = ''P'', be_at = 1000\<rparr>"
proof -
  let ?w = "calm_world demo_bm_kv"
  have "bookmark_target demo_bm_env ''p'' = Inr (''a'', ''p'')" by (simp add: bookmark_target_def demo_bm_env_def)
  moreover have "bm_backed (bm_view ''u'' (kv ?w))" "id_free (bm_view ''u'' (kv ?w)) ''P'' (''a'', ''p'')"
    by (simp_all add: demo_bm_view bm_backed_def id_free_def)
  moreover have "fst (bookmark_sync_put demo_bm_env ''u'' ''p'' ''P'' ?w) = Inr ()"
    by (simp add: bookmark_sync_put_def bookmark_target_def demo_bm_env_def demo_bm_kv_def calm_world_def utc_now_def env_step_def
        andthen_def map_err_def graph_call_def redis_call_def create_post_bookmark_def execute_graph_operation_def edge_key_def Let_def
        bookmark_put_to_index_def add_to_bookmarks_sorted_set_def put_index_sorted_set_def zset_put_def)
  moreover have "clock ?w (tick ?w) = 1000" by (simp add: calm_world_def)
  ultimately show ?thesis
    using bookmark_index_within_graph [of "''u''" ?w demo_bm_env "''p''" "''a''" "''p''" "''P''", OF calm_steady]
    by (cases "bookmark_sync_put demo_bm_env ''u'' ''p'' ''P'' ?w") simp
qed

text \<open>C17. Rebuilding the index of a user's bookmarks restores what the graph has: it returns, however many pages there are, and
  fails only if a call fails. When it succeeds, every edge of the graph has its record and its member with its time, overwriting
  what was there, and every other record and member is as it was before: the rebuild only adds, so a stale
  record or member stays. If there was none, the index is exactly that of the graph. The edges are untouched. The graph has one edge per
  post, as its constraint says, and no other task works on this user's bookmarks.\<close>

theorem bookmark_reindex_restores_graph:
  assumes "steady (bm_view u) w" "bm_graph (bm_edges (kv w) u)"
  shows "\<exists>q w'. bookmark_reindex u w = Some (q, w') \<and> bm_edges (kv w') u = bm_edges (kv w) u \<and>
    (q = Inr () \<longrightarrow>
       (\<forall>a p. bm_json (kv w') (a, p, u) = (case edge_of (bm_edges (kv w) u) (a, p) of Some b \<Rightarrow> Some b | None \<Rightarrow> bm_json (kv w) (a, p, u))) \<and>
       map_of (z_sets (kv w') (sorted_key (BOOKMARKS_USER_KEY u))) = map_of (z_sets (kv w) (sorted_key (BOOKMARKS_USER_KEY u))) ++
         map_of (map (\<lambda>e. (bm_member e, f64_of_int (be_at e))) (bm_edges (kv w) u))) \<and>
    (fault w = (\<lambda>_. None) \<and> graph_fault w = (\<lambda>_. None) \<longrightarrow> q = Inr ())"
proof -
  define clean where "clean = (fault w = (\<lambda>_. None) \<and> graph_fault w = (\<lambda>_. None))"
  have view: "fst (bm_view u g) = bm_edges g u" for g by (simp add: bm_view_def)
  have "bm_ok clean u (bm_view u (kv w)) w" using assms by (simp add: bm_ok_def clean_def view)
  from reindex_facts [OF this] obtain q w' where r: "bookmark_reindex u w = Some (q, w')" "bm_ok clean u (bm_view u (kv w)) w'"
    "q = Inr () \<longrightarrow> bm_restored (bm_view u (kv w)) (bm_view u (kv w'))" "clean \<longrightarrow> q = Inr ()" by blast
  have "bm_edges (kv w') u = bm_edges (kv w) u" using r(2) by (auto simp: bm_ok_def bm_outside_def bm_view_def)
  moreover have "bm_json (kv w') (a, p, u) = (case edge_of (bm_edges (kv w) u) (a, p) of Some b \<Rightarrow> Some b | None \<Rightarrow> bm_json (kv w) (a, p, u))"
    if "q = Inr ()" for a p
  proof -
    have eq: "(\<lambda>k. bm_json (kv w') (fst k, snd k, u)) = (\<lambda>k. bm_json (kv w) (fst k, snd k, u)) ++ edge_of (bm_edges (kv w) u)"
      using r(3) that by (simp add: bm_restored_def bm_view_def)
    from fun_cong [OF eq, of "(a, p)"] show ?thesis
      by (cases "edge_of (bm_edges (kv w) u) (a, p)") (simp_all add: map_add_def)
  qed
  moreover have "map_of (z_sets (kv w') (sorted_key (BOOKMARKS_USER_KEY u))) = map_of (z_sets (kv w) (sorted_key (BOOKMARKS_USER_KEY u))) ++
      map_of (map (\<lambda>e. (bm_member e, f64_of_int (be_at e))) (bm_edges (kv w) u))" if "q = Inr ()"
    using r(3) that by (simp add: bm_restored_def bm_view_def)
  ultimately show ?thesis using r(1,4) clean_def by blast
qed

text \<open>A record of a bookmark the graph does not have survives the rebuild.\<close>

definition demo_bm_stale :: bm_kv where
  "demo_bm_stale = demo_bm_kv\<lparr>bm_json := (bm_json demo_bm_kv)((''x'', ''y'', ''u'') \<mapsto> (''S'', 1))\<rparr>"

theorem bookmark_reindex_restores_graph_witness:
  "\<exists>w'. bookmark_reindex ''u'' (calm_world demo_bm_stale) = Some (Inr (), w') \<and>
     bm_json (kv w') (''a'', ''q'', ''u'') = Some (''Q'', 7) \<and> bm_json (kv w') (''x'', ''y'', ''u'') = Some (''S'', 1)"
proof -
  have edges: "bm_edges demo_bm_stale ''u'' = bm_edges demo_bm_kv ''u''" by (simp add: demo_bm_stale_def)
  have "bm_graph (bm_edges (kv (calm_world demo_bm_stale)) ''u'')"
    by (simp add: edges) (simp add: demo_bm_kv_def bm_graph_def)
  moreover have "fault (calm_world demo_bm_stale) = (\<lambda>_. None) \<and> graph_fault (calm_world demo_bm_stale) = (\<lambda>_. None)"
    by (simp add: calm_world_def)
  moreover have "edge_of (bm_edges demo_bm_stale ''u'') (''a'', ''q'') = Some (''Q'', 7)"
    "edge_of (bm_edges demo_bm_stale ''u'') (''x'', ''y'') = None" "bm_json demo_bm_stale (''x'', ''y'', ''u'') = Some (''S'', 1)"
    by (simp_all add: edges edge_of_def) (simp_all add: demo_bm_kv_def demo_bm_stale_def edge_key_def)
  ultimately show ?thesis
    using bookmark_reindex_restores_graph [of "''u''" "calm_world demo_bm_stale", OF calm_steady] by fastforce
qed

text \<open>C22. A bookmark read through the index is the one of the graph: while the records there are those of
  the graph, a read that succeeds returns the bookmark the graph has, or none if it has none, the
  record it leaves is that bookmark, and the records still are those of the graph afterwards, whatever failed.\<close>

theorem bookmark_read_is_the_graphs:
  assumes "steady (bm_view u) w" "bm_fresh (bm_view u (kv w))"
  shows "case bookmark_get_by_id a p (Some u) w of (r, w') \<Rightarrow>
    bm_fresh (bm_view u (kv w')) \<and> bm_edges (kv w') u = bm_edges (kv w) u \<and>
    (\<forall>x. r = Inr x \<longrightarrow> x = fst (post_bookmark a p u (kv w)) \<and> (\<forall>b. x = Some b \<longrightarrow> bm_json (kv w') (a, p, u) = Some b))"
proof -
  have "fst (bm_view u g) = bm_edges g u" "fst (snd (bm_view u g)) (a, p) = bm_json g (a, p, u)" for g
    by (simp_all add: bm_view_def)
  then show ?thesis
    using get_by_id_facts [OF _ assms, of a p] by (auto simp: post_bookmark_view split: prod.splits)
qed

theorem bookmark_read_is_the_graphs_witness:
  "fst (bookmark_get_by_id ''a'' ''q'' (Some ''u'') (calm_world demo_bm_kv)) = Inr (Some (''Q'', 7))"
proof -
  let ?w = "calm_world demo_bm_kv"
  have "bm_fresh (bm_view ''u'' (kv ?w))" by (simp add: demo_bm_view bm_fresh_def map_le_def)
  moreover have "fst (post_bookmark ''a'' ''q'' ''u'' (kv ?w)) = Some (''Q'', 7)"
    by (simp add: post_bookmark_def demo_bm_kv_def edge_key_def)
  moreover have "\<exists>x. fst (bookmark_get_by_id ''a'' ''q'' (Some ''u'') ?w) = Inr x"
    by (simp add: bookmark_get_by_id_def demo_bm_kv_def calm_world_def env_step_def edge_key_def
        andthen_def map_err_def pass_def graph_call_def redis_call_def post_bookmark_def Let_def
        bookmark_put_to_index_def add_to_bookmarks_sorted_set_def put_index_sorted_set_def zset_put_def)
  ultimately show ?thesis using bookmark_read_is_the_graphs [of "''u''" ?w "''a''" "''q''"] by (auto split: prod.splits)
qed

end
