(* ===== verification/Spec2Isabelle.thy ===== *)
theory Spec2Isabelle
  imports Retry_Properties Runner Job_Scheduler User_Ingestor Capped_Fetch Event_Dispatch Takedowns
    Follow_Handler Notification_Fanout Migrations Trust_Reconcile Stream_Api Bookmark_Handler
    Tag_Properties
begin

text \<open>
  Pubky Nexus is an indexer. Its watcher reads the event streams of homeservers, turns every event
  line into writes of a graph database (Neo4j) and of Redis indexes, and keeps the events it could
  not handle on a retry queue; its daemon runs scheduled jobs under a lock shared by all processes;
  its web API reads what was indexed. This development models the watcher, the daemon's jobs and the
  stores they share, and proves what makes them correct together.

  \<^bold>\<open>How the code is modelled.\<close> Every definition has the name of the Rust item it translates, or that
  name with a component's prefix where two files use the same one. Structs are records, enums are
  datatypes, \<open>Result\<close> is the sum \<open>('e, 'a) result\<close> with the error left. An async function that uses
  Redis or the graph is a function on a \<open>world\<close> (theory \<open>Redis_World\<close>): the store, together with an
  arbitrary schedule of what other tasks do to it before each call, of the calls that fail (before
  or after the server executed them), of the clock and of the shutdown signal. A theorem about all
  worlds is a theorem about all interleavings at the granularity of calls. A Redis command or script
  and a graph query are one atomic step, as the servers execute them. \<open>u64\<close> is \<open>64 word\<close> where the
  code's arithmetic can reach its bounds, and \<open>int\<close> or \<open>nat\<close> with the wrap, saturation or rounding
  written out elsewhere. Loops that may not end are \<open>partial_function (option)\<close> and are proved to
  return where the code relies on it (\<open>Retry_Processor\<close>, \<open>Job_Scheduler\<close>, \<open>Keyset_Scan\<close>); no
  definition uses fuel. The paging constants of the sources (1000 rows, 500 and 10000 notifications)
  are kept as they are.

  \<^bold>\<open>Parts and theories.\<close>

    \<^item> \<open>Nexus_Prelude\<close>: integers, doubles as scores, association lists, optional limits.

    \<^item> \<open>Watcher_Errors\<close>: nexus-common's \<open>RedisError\<close>, \<open>GraphError\<close>, \<open>ModelError\<close>, \<open>PubkyClientError\<close>
      and the watcher's errors.rs with the classification into drop, retry and abort.

    \<^item> \<open>Event_Parsing\<close>: events/mod.rs and the event lines; accepted lines are canonical.

    \<^item> \<open>Retry_Store\<close>, \<open>Event_Processor\<close>, \<open>Retry_Processor\<close>, \<open>Retry_Properties\<close>: events/retry. The Redis
      queue and its Lua scripts against the in-memory store (locales \<open>retry_store_contract\<close> and \<open>retry_store_quiet\<close>), the processing
      of one line shared by all processors, and the drain loop with its budget and backoff.

    \<^item> \<open>Hs_Backoff\<close>, \<open>Cursor_Store\<close>: the in-memory backoffs and resume points, homeserver records and
      user cursors.

    \<^item> \<open>Hs_Indexer\<close>, \<open>Key_Based_Indexer\<close>, \<open>Runner\<close>: the processor of the primary homeserver, the
      processor of external homeservers, and the runner that treats many homeservers in one run.

    \<^item> \<open>User_Hs_Resolver\<close>, \<open>User_Ingestor\<close>: which homeserver a user is bound to, and how unknown users
      are taken in without ever touching a blacklisted homeserver.

    \<^item> \<open>Job_Lock\<close>, \<open>Job_Scheduler\<close>: nexusd/src/jobs. The lock with a time to live (locale
      \<open>run_lock_contract\<close>), the registry, and the loop that fires a job at the ticks of its schedule.

    \<^item> \<open>Capped_Fetch\<close>, \<open>Event_Dispatch\<close>, \<open>Takedowns\<close>: reading a bounded response, the dispatch of an event to the
      handler of its resource, the moderator's takedowns with their two checks (events/mod.rs, events/moderation.rs), and the
      dispatch with the takedowns of the graph (models/takedown.rs) and the handlers of tags put in (\<open>tag_dispatch\<close>; what may run
      beside it is the locale \<open>beside_index\<close>).

    \<^item> \<open>Follow_Handler\<close>: the handler of follows over graph, index sets and notifications.

    \<^item> \<open>Bookmark_Handler\<close>: the handler of bookmarks (events/handlers/bookmark.rs) and \<open>Bookmark\<close>
      (models/post/bookmark.rs): writes, removals, reads through the index and its rebuild by a keyset scan,
      as effects on what one user's bookmarks are in graph and index (\<open>bm_view\<close>).

    \<^item> \<open>Run_Logic\<close>: rely-guarantee triples over runs in a world (\<open>rg\<close>), one rule per way the code composes calls;
      joins in any order of their arms included, and for runs that keep a fact wherever they stop (\<open>kept\<close>); the handlers of users
      and tags are proved with it.

    \<^item> \<open>User_Handler\<close>: the handler of profiles (events/handlers/user.rs), the cached details and their read-through
      (models/user/details.rs, models/traits.rs), the search sets of names, ids and labels (models/user/search.rs) and the
      script that derives a score from the size of a set. What concerns one user is read off a store by \<open>user_state\<close>.

    \<^item> \<open>Tag_Handler\<close>, \<open>Tag_Properties\<close>: the handler of tags (events/handlers/tag.rs) with the \<open>TAGGED\<close> relationships
      and resource nodes, the indexes of taggers, labels and tagged posts (models/tag, models/post/search.rs) and the addresses of
      resources (universal\_tag). The handler's effect on a view of the stores is proved once (locale \<open>tag_effects\<close>) and used
      for two views.

    \<^item> \<open>Notification\<close>, \<open>Keyset_Scan\<close>, \<open>Notification_Fanout\<close>: the notifications of a user and their
      filtered listing, the driver of paged graph scans (locale \<open>keyset_step\<close>), and the announcement
      of an edited or deleted post, which uses both.

    \<^item> \<open>Trust_Filter\<close>, \<open>Trust_Reconcile\<close>: models/post/trust_filter and the publication of a ranking
      (models/user/social\_graph.rs). The Lua gate in front of the shared sorted sets, the reconciling
      run, and its correctness by a small logic of runs among other writers (\<open>tf_spec\<close>). \<open>tf_reach\<close> covers every history of
      the filter; its flag says that the history was orderly: the filter was never switched on again while a
      switch-off that hid authors waited to be reconciled. For the others reconciling can leave entries in place.

    \<^item> \<open>Sorted_Index\<close>, \<open>Stream_Query\<close>, \<open>Post_Stream\<close>, \<open>Stream_Api\<close>: the sorted sets (db/kv/index/sorted\_sets.rs), the
      builder of the Cypher query for posts (\<open>post_stream\<close> of db/graph/queries/get.rs) with the meaning of its \<open>SKIP\<close> and
      \<open>LIMIT\<close>, the listing of posts from the sets or from the graph (models/post/stream.rs), and the route of the web API that
      parses, checks and answers such a request (routes/v0/stream/posts.rs).

    \<^item> \<open>Migrations\<close>: nexusd/src/migrations, the manager with its phases and its dry run. The phases' own code may do
      anything to the data and may fail (\<open>behaves_as\<close>).

  \<^bold>\<open>What the lemmas show.\<close> \<^emph>\<open>No event is lost\<close>: behind a stored cursor every event was handled,
  dropped on purpose or put on the retry queue, in every run of both indexers, and an entry of the
  queue stays fetchable until an attempt settles it; a failing event is attempted a bounded number of
  times. \<^emph>\<open>Nothing goes backwards\<close>: cursors, fire times and bindings of users only move forward.
  \<^emph>\<open>Concurrent tasks do not undo each other\<close>: a retry spares a newer entry of its address, two
  processes never run a job at once, a tag taken down stays down, a deleted user is off every search set although tag
  events go on. \<^emph>\<open>Stores agree\<close>: the index
  sets of follows, bookmarks and tags are backed by the graph, a score is the size of the set it stands for, a rebuild of the bookmarks restores all the graph has, the Redis and in-memory queues give the same batches, a
  listing read in chunks equals the page of one snapshot, the shared post sets hold exactly what
  the trust ranking admits after every successful run of an orderly history, and a timeline merged from two sets is, page by
  page, the timeline of one. \<^emph>\<open>Requests are checked once\<close>: what the route accepts is well-formed for the
  layers below and its answers are bounded. \<^emph>\<open>Loops end and make progress\<close>: retry
  runs, waits, paged scans, and budgeted runs that reach every user in turn.

  \<^bold>\<open>Interfaces.\<close> What one component relies on of another is a locale, interpreted in the provider's
  theory on the definitions of the model: stores of the retry queue, cursor stores, run locks, the guards of the
  ingestion, page functions of keyset scans, what the handlers of users may rely on of the tasks beside them (\<open>user_tasks\<close>,
  \<open>label_sync\<close>), and which effects the writes of the tag handler have (\<open>tag_effects\<close>).

  \<^bold>\<open>Not modelled.\<close> Third-party code is a parameter: the Pubky SDK and PKDNS clients, the grammar and
  validation of pubky-app-specs, public keys, the cron crate, serde. Cypher is modelled by its effect
  for the queries the components use, except that of the post streams, which is its text with the rows a parameter; the other queries of nexus-common are listing queries of the
  web API. Left out because they have no logic of their own or only format data: tracing, metrics,
  configuration files, start-up, API documentation, mock data. Left out so far although they have
  logic: the handlers of posts and files and the counts they maintain, the
  streams of users, the tiers of the trust ranking, media processing, rate limits and the other routes
  of the web API, and the code of the single migrations.

  \<^bold>\<open>Plan.\<close> In this order: the post handler with the same store discipline as tags; the read sides of
  follows and tags; the streams of users; the web API's limits.
\<close>

end
